(* ===== verification/Prelude.thy ===== *)
theory Prelude
  imports Main
begin

section \<open>Prelude: results, integers at their width, shared lemmas\<close>

text \<open>
  What the components share.

  A C function that can stop the process is a function into \<open>'a res\<close>, a sum: \<open>Inr\<close> the value it
  returns, \<open>Inl\<close> the way the process stops. \<open>AssertExit\<close> is the \<open>exit(-1)\<close> of
  \<open>_hms_assert_low\<close> (src/src/hms/hms_util.c), \<open>AssertAbort\<close> is the \<open>abort()\<close> of a failing
  \<open>assert\<close> of assert.h, and \<open>Undefined\<close> is an access the C standard leaves undefined (a read or a
  write outside an object, a NULL dereference, a signed overflow), and \<open>Killed\<close> the end by a signal
  whose action is the default one, as SIGPIPE has it. An ordinary error return of a
  function (its \<open>-1\<close>) is an ordinary value. The theories of the components thread their state
  explicitly: an operation takes the struct and returns the new one with the \<open>int\<close> it returns.
\<close>

datatype fault = AssertExit | AssertAbort | Undefined | Killed

type_synonym 'a res = "fault + 'a"

named_theorems res_iff \<open>inversion rules for the results of the model\<close>

definition bind_res :: "'a res \<Rightarrow> ('a \<Rightarrow> 'b res) \<Rightarrow> 'b res" where
  "bind_res m f = (case m of Inl e \<Rightarrow> Inl e | Inr x \<Rightarrow> f x)"

lemma bind_res_simps [simp]:
  "bind_res (Inl e) f = Inl e"
  "bind_res (Inr x) f = f x"
  by (simp_all add: bind_res_def)

lemma bind_res_Inr [res_iff]:
  "bind_res m f = Inr y \<longleftrightarrow> (\<exists>x. m = Inr x \<and> f x = Inr y)"
  by (cases m) auto

lemma bind_res_Inl [res_iff]:
  "bind_res m f = Inl e \<longleftrightarrow> m = Inl e \<or> (\<exists>x. m = Inr x \<and> f x = Inl e)"
  by (cases m) auto

lemma bind_res_assoc: "bind_res (bind_res m f) g = bind_res m (\<lambda>x. bind_res (f x) g)"
  by (cases m) simp_all

lemma bind_res_cong [fundef_cong]:
  "m = m' \<Longrightarrow> (\<And>x. m' = Inr x \<Longrightarrow> f x = f' x) \<Longrightarrow> bind_res m f = bind_res m' f'"
  by (cases m') auto

subsection \<open>C's int\<close>

text \<open>
  The value of an integer converted to a 32-bit \<open>int\<close> in two's complement (the implementation
  defined conversion gcc documents), as the code's casts \<open>(int)\<close> do.
\<close>

definition to_int32 :: "int \<Rightarrow> int" where
  "to_int32 x = (x + 2 ^ 31) mod 2 ^ 32 - 2 ^ 31"

definition int_max :: int where "int_max = 2 ^ 31 - 1"

definition int_min :: int where "int_min = - (2 ^ 31)"

lemma to_int32_id: "int_min \<le> x \<Longrightarrow> x \<le> int_max \<Longrightarrow> to_int32 x = x"
  by (simp add: to_int32_def int_min_def int_max_def)

lemma to_int32_range: "int_min \<le> to_int32 x \<and> to_int32 x \<le> int_max"
proof -
  have "0 \<le> (x + 2 ^ 31) mod 2 ^ 32" "(x + 2 ^ 31) mod 2 ^ 32 < 2 ^ 32"
    by simp_all
  then show ?thesis by (simp add: to_int32_def int_min_def int_max_def)
qed

subsection \<open>Lists\<close>

lemma dropWhile_id [simp]: "(\<And>x. x \<in> set xs \<Longrightarrow> \<not> P x) \<Longrightarrow> dropWhile P xs = xs"
  by (cases xs) auto

lemma takeWhile_append_stop:
  "(\<And>x. x \<in> set xs \<Longrightarrow> P x) \<Longrightarrow> \<not> P y \<Longrightarrow> takeWhile P (xs @ y # ys) = xs"
  by (induction xs) auto

lemma dropWhile_append_stop:
  "(\<And>x. x \<in> set xs \<Longrightarrow> P x) \<Longrightarrow> \<not> P y \<Longrightarrow> dropWhile P (xs @ y # ys) = y # ys"
  by (induction xs) auto

lemma length_dropWhile_less:
  "xs \<noteq> [] \<Longrightarrow> P (hd xs) \<Longrightarrow> length (dropWhile P xs) < length xs"
  by (cases xs) (auto simp: le_imp_less_Suc length_dropWhile_le)

end
