(* ===== verification/CString.thy ===== *)
theory CString
  imports Prelude
begin

section \<open>The C library's string functions\<close>

text \<open>
  The functions of the C library the source calls on strings, in the C locale: a C string is the
  list of the bytes before its terminating NUL. \<open>strlen\<close> is \<open>length\<close>, \<open>strdup\<close> copies a value and
  needs no definition. \<open>cstr\<close> reads a C string from a memory area. The functions that compare
  return only the sign, which is all POSIX promises and all the source uses.
\<close>

abbreviation NL :: char where "NL \<equiv> CHR 0x0A"

abbreviation NUL :: char where "NUL \<equiv> CHR 0x00"

abbreviation CR :: char where "CR \<equiv> CHR 0x0D"

definition cstr :: "char list \<Rightarrow> string" where
  "cstr mem = takeWhile (\<lambda>c. c \<noteq> NUL) mem"

lemma cstr_append [simp]: "NUL \<notin> set s \<Longrightarrow> cstr (s @ NUL # mem) = s"
  unfolding cstr_def by (rule takeWhile_append_stop) auto

lemma cstr_id [simp]: "NUL \<notin> set s \<Longrightarrow> cstr s = s"
  unfolding cstr_def by (rule takeWhile_eq_all_conv [THEN iffD2]) auto

lemma cstr_no_NUL: "NUL \<notin> set (cstr mem)"
  unfolding cstr_def using set_takeWhileD by fastforce

text \<open>
  The C string at an index of a memory area; looking for its end behind the area is undefined.
\<close>

definition cstr_at :: "char list \<Rightarrow> nat \<Rightarrow> string res" where
  "cstr_at b i = (if NUL \<in> set (drop i b) then Inr (cstr (drop i b)) else Inl Undefined)"

lemma cstr_at_append: "NUL \<notin> set s \<Longrightarrow> i = length pre \<Longrightarrow> cstr_at (pre @ s @ NUL # post) i = Inr s"
  by (simp add: cstr_at_def)

subsection \<open>Character classes and case\<close>

definition isspace :: "char \<Rightarrow> bool" where
  "isspace c \<longleftrightarrow> (let n = (of_char c :: nat) in n = 32 \<or> (9 \<le> n \<and> n \<le> 13))"

definition isdigit :: "char \<Rightarrow> bool" where
  "isdigit c \<longleftrightarrow> (let n = (of_char c :: nat) in 48 \<le> n \<and> n \<le> 57)"

definition c_tolower :: "char \<Rightarrow> char" where
  "c_tolower c =
     (let n = (of_char c :: nat) in if 65 \<le> n \<and> n \<le> 90 then char_of (n + 32) else c)"

fun strcasecmp :: "string \<Rightarrow> string \<Rightarrow> int" where
  "strcasecmp [] [] = 0"
| "strcasecmp [] (_ # _) = -1"
| "strcasecmp (_ # _) [] = 1"
| "strcasecmp (x # xs) (y # ys) =
     (if c_tolower x = c_tolower y then strcasecmp xs ys
      else if (of_char (c_tolower x) :: nat) < of_char (c_tolower y) then -1 else 1)"

definition strncasecmp :: "string \<Rightarrow> string \<Rightarrow> nat \<Rightarrow> int" where
  "strncasecmp s t n = strcasecmp (take n s) (take n t)"

text \<open>Equality of header keys and verbs is equality of the lower-cased strings.\<close>

definition lower :: "string \<Rightarrow> string" where
  "lower s = map c_tolower s"

lemma strcasecmp_eq_0 [simp]: "strcasecmp s t = 0 \<longleftrightarrow> lower s = lower t"
  by (induction s t rule: strcasecmp.induct) (auto simp: lower_def)

lemma lower_Nil [simp]: "lower [] = []" "lower s = [] \<longleftrightarrow> s = []"
  by (simp_all add: lower_def)

lemma length_lower [simp]: "length (lower s) = length s"
  by (simp add: lower_def)

subsection \<open>Tokens\<close>

text \<open>
  One call of \<open>strtok_r\<close> with the separators \<open>seps\<close>, on the rest of the string the save pointer
  stands at: \<open>None\<close> is NULL, \<open>Some (token, rest)\<close> the token and the new save pointer. The call
  skips separators, cuts the token at the next one and steps over that one.
\<close>

definition strtok_r :: "string \<Rightarrow> string \<Rightarrow> (string \<times> string) option" where
  "strtok_r seps s =
     (let s' = dropWhile (\<lambda>c. c \<in> set seps) s in
      if s' = [] then None
      else Some (takeWhile (\<lambda>c. c \<notin> set seps) s', drop 1 (dropWhile (\<lambda>c. c \<notin> set seps) s')))"

lemma strtok_r_shorter [termination_simp]:
  assumes "strtok_r seps s = Some (tok, rest)"
  shows "length rest < length s"
proof -
  let ?s = "dropWhile (\<lambda>c. c \<in> set seps) s"
  let ?r = "dropWhile (\<lambda>c. c \<notin> set seps) ?s"
  from assms have ne: "?s \<noteq> []" and rest: "rest = drop 1 ?r"
    by (auto simp: strtok_r_def Let_def split: if_splits)
  have "hd ?s \<notin> set seps" using hd_dropWhile [OF ne] .
  with ne have "length ?r < length ?s"
    by (intro length_dropWhile_less) auto
  moreover have "length ?s \<le> length s" by (rule length_dropWhile_le)
  ultimately show ?thesis unfolding rest by simp
qed

lemma strtok_r_Nil [simp]: "strtok_r seps [] = None"
  by (simp add: strtok_r_def)

lemma strtok_r_skip: "c \<in> set seps \<Longrightarrow> strtok_r seps (c # s) = strtok_r seps s"
  by (simp add: strtok_r_def)

lemma strtok_r_tok:
  assumes "t \<noteq> []" "set t \<inter> set seps = {}" "c \<in> set seps"
  shows "strtok_r seps (t @ c # s) = Some (t, s)"
proof -
  have "dropWhile (\<lambda>c. c \<in> set seps) (t @ c # s) = t @ c # s"
    using assms by (cases t) auto
  moreover have "takeWhile (\<lambda>c. c \<notin> set seps) (t @ c # s) = t"
    using assms by (intro takeWhile_append_stop) auto
  moreover have "dropWhile (\<lambda>c. c \<notin> set seps) (t @ c # s) = c # s"
    using assms by (intro dropWhile_append_stop) auto
  ultimately show ?thesis using assms by (simp add: strtok_r_def)
qed

lemma strtok_r_last:
  assumes "t \<noteq> []" "set t \<inter> set seps = {}"
  shows "strtok_r seps t = Some (t, [])"
proof -
  have "dropWhile (\<lambda>c. c \<in> set seps) t = t"
    using assms by (cases t) auto
  moreover have "takeWhile (\<lambda>c. c \<notin> set seps) t = t"
    using assms by (auto simp: takeWhile_eq_all_conv)
  moreover have "dropWhile (\<lambda>c. c \<notin> set seps) t = []"
    using assms by (auto simp del: dropWhile_id simp: dropWhile_eq_Nil_conv)
  ultimately show ?thesis using assms
    by (simp add: strtok_r_def del: dropWhile_eq_Nil_conv)
qed

lemma strtok_r_token:
  assumes "strtok_r seps s = Some (t, r)"
  shows "t \<noteq> []" "set t \<inter> set seps = {}" "set t \<subseteq> set s" "set r \<subseteq> set s"
proof -
  let ?s = "dropWhile (\<lambda>c. c \<in> set seps) s"
  from assms have ne: "?s \<noteq> []" and t: "t = takeWhile (\<lambda>c. c \<notin> set seps) ?s"
    and r: "r = drop 1 (dropWhile (\<lambda>c. c \<notin> set seps) ?s)"
    by (auto simp: strtok_r_def Let_def split: if_splits)
  have "hd ?s \<notin> set seps" using hd_dropWhile [OF ne] .
  with ne show "t \<noteq> []" unfolding t by (cases ?s) auto
  show "set t \<inter> set seps = {}" unfolding t using set_takeWhileD by fastforce
  show "set t \<subseteq> set s" unfolding t using set_takeWhileD set_dropWhileD by fastforce
  show "set r \<subseteq> set s" unfolding r
    by (meson in_set_dropD set_dropWhileD subsetI)
qed

subsection \<open>Numbers\<close>

definition digit_val :: "char \<Rightarrow> int" where
  "digit_val c = int (of_char c) - 48"

definition digits_val :: "string \<Rightarrow> int" where
  "digits_val ds = foldl (\<lambda>a d. 10 * a + digit_val d) 0 ds"

definition long_max :: int where "long_max = 2 ^ 63 - 1"

definition long_min :: int where "long_min = - (2 ^ 63)"

text \<open>\<open>strtol (s, NULL, 10)\<close>, with a 64-bit \<open>long\<close>, and \<open>atoi\<close>.\<close>

definition strtol10 :: "string \<Rightarrow> int" where
  "strtol10 s =
     (let s1 = dropWhile isspace s;
          neg = (s1 \<noteq> [] \<and> hd s1 = CHR ''-'');
          s2 = (if s1 \<noteq> [] \<and> (hd s1 = CHR ''-'' \<or> hd s1 = CHR ''+'') then tl s1 else s1);
          v = digits_val (takeWhile isdigit s2)
      in if neg then max long_min (- v) else min long_max v)"

definition atoi :: "string \<Rightarrow> int" where
  "atoi s = to_int32 (strtol10 s)"

definition digit_char :: "nat \<Rightarrow> char" where
  "digit_char d = char_of (48 + d)"

text \<open>\<open>sprintf\<close> with \<open>%d\<close>.\<close>

fun dec_nat :: "nat \<Rightarrow> string" where
  "dec_nat n = (if n < 10 then [digit_char n] else dec_nat (n div 10) @ [digit_char (n mod 10)])"

declare dec_nat.simps [simp del]

definition sprintf_d :: "int \<Rightarrow> string" where
  "sprintf_d n = (if n < 0 then CHR ''-'' # dec_nat (nat (- n)) else dec_nat (nat n))"

lemma of_char_digit_char: "d < 10 \<Longrightarrow> (of_char (digit_char d) :: nat) = 48 + d"
  by (simp add: digit_char_def)

lemma digit_char_facts:
  assumes "d < 10"
  shows "isdigit (digit_char d)" "\<not> isspace (digit_char d)" "digit_val (digit_char d) = int d"
proof -
  note of = of_char_digit_char [OF assms]
  then show "isdigit (digit_char d)" "\<not> isspace (digit_char d)"
    using assms by (simp_all add: isdigit_def isspace_def)
  show "digit_val (digit_char d) = int d"
    using of by (simp add: digit_val_def)
qed

lemma dec_nat_digits: "c \<in> set (dec_nat n) \<Longrightarrow> isdigit c \<and> \<not> isspace c"
proof (induction n rule: dec_nat.induct)
  case (1 n)
  show ?case
  proof (cases "n < 10")
    case True
    with "1.prems" show ?thesis
      by (auto simp: dec_nat.simps [of n] digit_char_facts)
  next
    case False
    with "1.prems" have "c \<in> set (dec_nat (n div 10)) \<or> c = digit_char (n mod 10)"
      by (auto simp: dec_nat.simps [of n])
    with False "1.IH" show ?thesis by (auto simp: digit_char_facts)
  qed
qed

lemma dec_nat_nonempty [simp]: "dec_nat n \<noteq> []"
  by (subst dec_nat.simps) simp

lemma digits_val_snoc: "digits_val (ds @ [d]) = 10 * digits_val ds + digit_val d"
  by (simp add: digits_val_def)

lemma digits_val_dec_nat: "digits_val (dec_nat n) = int n"
proof (induction n rule: dec_nat.induct)
  case (1 n)
  show ?case
  proof (cases "n < 10")
    case True
    then show ?thesis by (simp add: dec_nat.simps [of n] digits_val_def digit_char_facts)
  next
    case False
    have "10 * int (n div 10) + int (n mod 10) = int n" by presburger
    with False "1.IH" show ?thesis
      by (simp add: dec_nat.simps [of n] digits_val_snoc digit_char_facts)
  qed
qed

lemma isdigit_sign: "\<not> isdigit (CHR ''-'')" "\<not> isdigit (CHR ''+'')" "\<not> isspace (CHR ''-'')"
  by (simp_all add: isdigit_def isspace_def)

text \<open>Reading back what \<open>%d\<close> printed.\<close>

lemma takeWhile_dec_nat: "takeWhile isdigit (dec_nat n) = dec_nat n"
  by (simp add: dec_nat_digits)

lemma dropWhile_dec_nat: "dropWhile isspace (dec_nat n) = dec_nat n"
  by (simp add: dec_nat_digits)

lemma hd_dec_nat: "isdigit (hd (dec_nat n))"
  using dec_nat_digits [of "hd (dec_nat n)" n] by simp

lemma strtol10_sprintf_d:
  assumes "long_min \<le> n" "n \<le> long_max"
  shows "strtol10 (sprintf_d n) = n"
proof (cases "n < 0")
  case True
  with assms show ?thesis
    by (simp add: strtol10_def sprintf_d_def isdigit_sign takeWhile_dec_nat digits_val_dec_nat)
next
  case False
  have "hd (dec_nat (nat n)) \<noteq> CHR ''-''" "hd (dec_nat (nat n)) \<noteq> CHR ''+''"
    using hd_dec_nat [of "nat n"] isdigit_sign by metis+
  with False assms show ?thesis
    by (simp add: strtol10_def sprintf_d_def dropWhile_dec_nat takeWhile_dec_nat
        digits_val_dec_nat)
qed

lemma atoi_sprintf_d:
  "int_min \<le> n \<Longrightarrow> n \<le> int_max \<Longrightarrow> atoi (sprintf_d n) = n"
  by (simp add: atoi_def strtol10_sprintf_d to_int32_id int_min_def int_max_def
      long_min_def long_max_def)

lemma sprintf_d_chars: "c \<in> set (sprintf_d n) \<Longrightarrow> isdigit c \<or> c = CHR ''-''"
  using dec_nat_digits by (auto simp: sprintf_d_def split: if_splits)

lemma sprintf_d_nonempty [simp]: "sprintf_d n \<noteq> []"
  by (simp add: sprintf_d_def)

end
