(* ===== verification/Md5.thy ===== *)
theory Md5
  imports CString "HOL-Library.Word"
begin

unbundle bit_operations_syntax

section \<open>MD5 (src/src/md5/md5.c, src/src/include/md5.h, src/src/include/md5_loc.h)\<close>

text \<open>
  The digest as the code computes it. \<open>md5_uint32\<close> and \<open>unsigned int\<close> are 32-bit words, bytes are
  8-bit words, the machine is little endian (\<open>SWAP(n)\<close> is \<open>n\<close> on the x86 targets the source names).
  A memory area is the list of its bytes; an access outside one is \<open>Undefined\<close>.
\<close>

type_synonym byte = "8 word"
type_synonym u32 = "32 word"

record md5_t =
  md_A :: u32
  md_B :: u32
  md_C :: u32
  md_D :: u32
  md_total0 :: u32
  md_total1 :: u32
  md_buf_len :: u32
  md_buffer :: "byte list"

abbreviation (input) MD5_SIZE :: nat where "MD5_SIZE \<equiv> 16"
abbreviation (input) MD5_BLOCK_SIZE :: u32 where "MD5_BLOCK_SIZE \<equiv> 64"
abbreviation (input) BLOCK_SIZE_MASK :: u32 where "BLOCK_SIZE_MASK \<equiv> MD5_BLOCK_SIZE - 1"
abbreviation (input) MAX_MD5_UINT32 :: u32 where "MAX_MD5_UINT32 \<equiv> 4294967295"
abbreviation (input) MD_BUFFER_SIZE :: nat where "MD_BUFFER_SIZE \<equiv> 128"

subsection \<open>The macros of md5_loc.h\<close>

definition FF :: "u32 \<Rightarrow> u32 \<Rightarrow> u32 \<Rightarrow> u32" where
  "FF b c d = d XOR (b AND (c XOR d))"

definition FG :: "u32 \<Rightarrow> u32 \<Rightarrow> u32 \<Rightarrow> u32" where
  "FG b c d = FF d b c"

definition FH :: "u32 \<Rightarrow> u32 \<Rightarrow> u32 \<Rightarrow> u32" where
  "FH b c d = b XOR c XOR d"

definition FI :: "u32 \<Rightarrow> u32 \<Rightarrow> u32 \<Rightarrow> u32" where
  "FI b c d = c XOR (b OR NOT d)"

definition CYCLIC :: "u32 \<Rightarrow> nat \<Rightarrow> u32" where
  "CYCLIC w s = (push_bit s w) OR (drop_bit (32 - s) w)"

text \<open>
  \<open>OP1\<close> is \<open>OP234\<close> with \<open>FF\<close>, on the word just read from the input: the macro's reading of the input
  and its storing into \<open>correct\<close> is \<open>load_words\<close> below. The result is the new value of \<open>a\<close>.
\<close>

definition OP234 ::
    "(u32 \<Rightarrow> u32 \<Rightarrow> u32 \<Rightarrow> u32) \<Rightarrow> u32 \<Rightarrow> u32 \<Rightarrow> u32 \<Rightarrow> u32 \<Rightarrow> u32 \<Rightarrow> nat \<Rightarrow> u32 \<Rightarrow> u32" where
  "OP234 f a b c d k s t =
     (let a = a + (f b c d + k + t); a = CYCLIC a s; a = a + b in a)"

definition OP1 :: "u32 \<Rightarrow> u32 \<Rightarrow> u32 \<Rightarrow> u32 \<Rightarrow> u32 \<Rightarrow> nat \<Rightarrow> u32 \<Rightarrow> u32" where
  "OP1 a b c d k s t =
     (let a = a + (FF b c d + k + t); a = CYCLIC a s; a = a + b in a)"

text \<open>
  The 64 statements of one block are written with the four permutations of the registers
  \<open>(A, B, C, D)\<close>, \<open>(D, A, B, C)\<close>, \<open>(C, D, A, B)\<close> and \<open>(B, C, D, A)\<close>. A statement is a function on
  the four registers.
\<close>

type_synonym regs = "u32 \<times> u32 \<times> u32 \<times> u32"
type_synonym stmt = "regs \<Rightarrow> regs"

fun ABCD :: "(u32 \<Rightarrow> u32 \<Rightarrow> u32 \<Rightarrow> u32 \<Rightarrow> u32) \<Rightarrow> stmt" where
  "ABCD op (A, B, C, D) = (op A B C D, B, C, D)"

fun DABC :: "(u32 \<Rightarrow> u32 \<Rightarrow> u32 \<Rightarrow> u32 \<Rightarrow> u32) \<Rightarrow> stmt" where
  "DABC op (A, B, C, D) = (A, B, C, op D A B C)"

fun CDAB :: "(u32 \<Rightarrow> u32 \<Rightarrow> u32 \<Rightarrow> u32 \<Rightarrow> u32) \<Rightarrow> stmt" where
  "CDAB op (A, B, C, D) = (A, B, op C D A B, D)"

fun BCDA :: "(u32 \<Rightarrow> u32 \<Rightarrow> u32 \<Rightarrow> u32 \<Rightarrow> u32) \<Rightarrow> stmt" where
  "BCDA op (A, B, C, D) = (A, op B C D A, C, D)"

definition run_stmts :: "stmt list \<Rightarrow> regs \<Rightarrow> regs" where
  "run_stmts ss r = foldl (\<lambda>r s. s r) r ss"

definition op1 :: "u32 \<Rightarrow> nat \<Rightarrow> u32 \<Rightarrow> u32 \<Rightarrow> u32 \<Rightarrow> u32 \<Rightarrow> u32 \<Rightarrow> u32" where
  "op1 k s t = (\<lambda>a b c d. OP1 a b c d k s t)"

definition op234 ::
    "(u32 \<Rightarrow> u32 \<Rightarrow> u32 \<Rightarrow> u32) \<Rightarrow> u32 \<Rightarrow> nat \<Rightarrow> u32 \<Rightarrow> u32 \<Rightarrow> u32 \<Rightarrow> u32 \<Rightarrow> u32 \<Rightarrow> u32" where
  "op234 f k s t = (\<lambda>a b c d. OP234 f a b c d k s t)"

subsection \<open>One block: the four rounds of \<open>process_block\<close>\<close>

definition md5_round1 :: "u32 list \<Rightarrow> stmt list" where
  "md5_round1 correct =
   [ABCD (op1 (correct ! 0) 7 0xd76aa478),
    DABC (op1 (correct ! 1) 12 0xe8c7b756),
    CDAB (op1 (correct ! 2) 17 0x242070db),
    BCDA (op1 (correct ! 3) 22 0xc1bdceee),
    ABCD (op1 (correct ! 4) 7 0xf57c0faf),
    DABC (op1 (correct ! 5) 12 0x4787c62a),
    CDAB (op1 (correct ! 6) 17 0xa8304613),
    BCDA (op1 (correct ! 7) 22 0xfd469501),
    ABCD (op1 (correct ! 8) 7 0x698098d8),
    DABC (op1 (correct ! 9) 12 0x8b44f7af),
    CDAB (op1 (correct ! 10) 17 0xffff5bb1),
    BCDA (op1 (correct ! 11) 22 0x895cd7be),
    ABCD (op1 (correct ! 12) 7 0x6b901122),
    DABC (op1 (correct ! 13) 12 0xfd987193),
    CDAB (op1 (correct ! 14) 17 0xa679438e),
    BCDA (op1 (correct ! 15) 22 0x49b40821)]"

definition md5_round2 :: "u32 list \<Rightarrow> stmt list" where
  "md5_round2 correct =
   [ABCD (op234 FG (correct ! 1) 5 0xf61e2562),
    DABC (op234 FG (correct ! 6) 9 0xc040b340),
    CDAB (op234 FG (correct ! 11) 14 0x265e5a51),
    BCDA (op234 FG (correct ! 0) 20 0xe9b6c7aa),
    ABCD (op234 FG (correct ! 5) 5 0xd62f105d),
    DABC (op234 FG (correct ! 10) 9 0x02441453),
    CDAB (op234 FG (correct ! 15) 14 0xd8a1e681),
    BCDA (op234 FG (correct ! 4) 20 0xe7d3fbc8),
    ABCD (op234 FG (correct ! 9) 5 0x21e1cde6),
    DABC (op234 FG (correct ! 14) 9 0xc33707d6),
    CDAB (op234 FG (correct ! 3) 14 0xf4d50d87),
    BCDA (op234 FG (correct ! 8) 20 0x455a14ed),
    ABCD (op234 FG (correct ! 13) 5 0xa9e3e905),
    DABC (op234 FG (correct ! 2) 9 0xfcefa3f8),
    CDAB (op234 FG (correct ! 7) 14 0x676f02d9),
    BCDA (op234 FG (correct ! 12) 20 0x8d2a4c8a)]"

definition md5_round3 :: "u32 list \<Rightarrow> stmt list" where
  "md5_round3 correct =
   [ABCD (op234 FH (correct ! 5) 4 0xfffa3942),
    DABC (op234 FH (correct ! 8) 11 0x8771f681),
    CDAB (op234 FH (correct ! 11) 16 0x6d9d6122),
    BCDA (op234 FH (correct ! 14) 23 0xfde5380c),
    ABCD (op234 FH (correct ! 1) 4 0xa4beea44),
    DABC (op234 FH (correct ! 4) 11 0x4bdecfa9),
    CDAB (op234 FH (correct ! 7) 16 0xf6bb4b60),
    BCDA (op234 FH (correct ! 10) 23 0xbebfbc70),
    ABCD (op234 FH (correct ! 13) 4 0x289b7ec6),
    DABC (op234 FH (correct ! 0) 11 0xeaa127fa),
    CDAB (op234 FH (correct ! 3) 16 0xd4ef3085),
    BCDA (op234 FH (correct ! 6) 23 0x04881d05),
    ABCD (op234 FH (correct ! 9) 4 0xd9d4d039),
    DABC (op234 FH (correct ! 12) 11 0xe6db99e5),
    CDAB (op234 FH (correct ! 15) 16 0x1fa27cf8),
    BCDA (op234 FH (correct ! 2) 23 0xc4ac5665)]"

definition md5_round4 :: "u32 list \<Rightarrow> stmt list" where
  "md5_round4 correct =
   [ABCD (op234 FI (correct ! 0) 6 0xf4292244),
    DABC (op234 FI (correct ! 7) 10 0x432aff97),
    CDAB (op234 FI (correct ! 14) 15 0xab9423a7),
    BCDA (op234 FI (correct ! 5) 21 0xfc93a039),
    ABCD (op234 FI (correct ! 12) 6 0x655b59c3),
    DABC (op234 FI (correct ! 3) 10 0x8f0ccc92),
    CDAB (op234 FI (correct ! 10) 15 0xffeff47d),
    BCDA (op234 FI (correct ! 1) 21 0x85845dd1),
    ABCD (op234 FI (correct ! 8) 6 0x6fa87e4f),
    DABC (op234 FI (correct ! 15) 10 0xfe2ce6e0),
    CDAB (op234 FI (correct ! 6) 15 0xa3014314),
    BCDA (op234 FI (correct ! 13) 21 0x4e0811a1),
    ABCD (op234 FI (correct ! 4) 6 0xf7537e82),
    DABC (op234 FI (correct ! 11) 10 0xbd3af235),
    CDAB (op234 FI (correct ! 2) 15 0x2ad7d2bb),
    BCDA (op234 FI (correct ! 9) 21 0xeb86d391)]"

text \<open>The 32-bit word stored in four bytes, little endian, and back (\<open>memcpy\<close>).\<close>

definition word_of_bytes :: "byte list \<Rightarrow> u32" where
  "word_of_bytes bs =
     ucast (bs ! 0) OR push_bit 8 (ucast (bs ! 1)) OR push_bit 16 (ucast (bs ! 2))
       OR push_bit 24 (ucast (bs ! 3))"

definition bytes_of_word :: "u32 \<Rightarrow> byte list" where
  "bytes_of_word w =
     [ucast w, ucast (drop_bit 8 w), ucast (drop_bit 16 w), ucast (drop_bit 24 w)]"

text \<open>\<open>correct\<close>: the sixteen words of one block.\<close>

definition load_words :: "byte list \<Rightarrow> u32 list" where
  "load_words blk = map (\<lambda>i. word_of_bytes (take 4 (drop (4 * i) blk))) [0..<16]"

fun add_regs :: "regs \<Rightarrow> regs \<Rightarrow> regs" where
  "add_regs (A, B, C, D) (A', B', C', D') = (A + A', B + B', C + C', D + D')"

definition md5_block_body :: "regs \<Rightarrow> byte list \<Rightarrow> regs" where
  "md5_block_body r blk =
     (let correct = load_words blk;
          r1 = run_stmts (md5_round1 correct) r;
          r2 = run_stmts (md5_round2 correct) r1;
          r3 = run_stmts (md5_round3 correct) r2;
          r4 = run_stmts (md5_round4 correct) r3
      in add_regs r4 r)"

text \<open>
  The \<open>while (buf_p < end_p)\<close> loop, on the memory from \<open>buf_p\<close> on, with \<open>n\<close> bytes left before
  \<open>end_p\<close>. A round reads 64 bytes, so it is undefined where fewer are left in the memory area.
\<close>

function md5_block_loop :: "regs \<Rightarrow> byte list \<Rightarrow> nat \<Rightarrow> regs res" where
  "md5_block_loop r mem n =
     (if n = 0 then Inr r
      else if length mem < 64 then Inl Undefined
      else md5_block_loop (md5_block_body r (take 64 mem)) (drop 64 mem) (n - 64))"
  by pat_completeness auto
termination
  by (relation "measure (\<lambda>(r, mem, n). n)") auto

declare md5_block_loop.simps [simp del]

definition count_bytes :: "md5_t \<Rightarrow> u32 \<Rightarrow> md5_t" where
  "count_bytes p n =
     (if md_total0 p > MAX_MD5_UINT32 - n then
        p\<lparr>md_total1 := md_total1 p + 1, md_total0 := md_total0 p - (MAX_MD5_UINT32 + 1 - n)\<rparr>
      else p\<lparr>md_total0 := md_total0 p + n\<rparr>)"

definition process_block :: "md5_t \<Rightarrow> byte list \<Rightarrow> u32 \<Rightarrow> md5_t res" where
  "process_block p mem buf_len =
     (let words_n = unat buf_len div 4;
          n = words_n * 4;
          r = (md_A p, md_B p, md_C p, md_D p);
          p = count_bytes p buf_len
      in bind_res (md5_block_loop r mem n) (\<lambda>(A, B, C, D).
           Inr (p\<lparr>md_A := A, md_B := B, md_C := C, md_D := D\<rparr>)))"

definition md5_get_result :: "md5_t \<Rightarrow> byte list" where
  "md5_get_result p =
     bytes_of_word (md_A p) @ bytes_of_word (md_B p) @ bytes_of_word (md_C p) @
     bytes_of_word (md_D p)"

subsection \<open>The exported routines\<close>

definition md5_init :: "md5_t \<Rightarrow> md5_t" where
  "md5_init p = p\<lparr>md_A := 0x67452301, md_B := 0xefcdab89, md_C := 0x98badcfe, md_D := 0x10325476,
      md_total0 := 0, md_total1 := 0, md_buf_len := 0\<rparr>"

text \<open>\<open>memcpy\<close> of \<open>n\<close> bytes of \<open>src\<close> to offset \<open>off\<close> of \<open>dst\<close>.\<close>

definition mem_copy :: "byte list \<Rightarrow> nat \<Rightarrow> byte list \<Rightarrow> nat \<Rightarrow> byte list res" where
  "mem_copy dst off src n =
     (if length src < n \<or> length dst < off + n then Inl Undefined
      else Inr (take off dst @ take n src @ drop (off + n) dst))"

definition md5_fill_block :: "md5_t \<Rightarrow> byte list \<Rightarrow> u32 \<Rightarrow> (md5_t \<times> byte list \<times> u32) res" where
  "md5_fill_block p buffer len =
     (let in_block = md_buf_len p;
          add = (if unat (in_block + len) > MD_BUFFER_SIZE
                 then of_nat MD_BUFFER_SIZE - in_block else len)
      in bind_res (mem_copy (md_buffer p) (unat in_block) buffer (unat add)) (\<lambda>mb.
         let p = p\<lparr>md_buffer := mb, md_buf_len := md_buf_len p + add\<rparr>;
             in_block = in_block + add
         in bind_res
              (if in_block > MD5_BLOCK_SIZE then
                 bind_res (process_block p (md_buffer p) (in_block AND NOT BLOCK_SIZE_MASK)) (\<lambda>p.
                 bind_res (mem_copy (md_buffer p) 0
                     (drop (unat (in_block AND NOT BLOCK_SIZE_MASK)) (md_buffer p))
                     (unat (in_block AND BLOCK_SIZE_MASK))) (\<lambda>mb.
                 Inr (p\<lparr>md_buffer := mb, md_buf_len := in_block AND BLOCK_SIZE_MASK\<rparr>)))
               else Inr p) (\<lambda>p.
            Inr (p, drop (unat add) buffer, len - add))))"

text \<open>The three parts of \<open>md5_process\<close> share \<open>buffer\<close> and \<open>len\<close>, what is left of the input.\<close>

definition md5_direct_blocks :: "md5_t \<Rightarrow> byte list \<Rightarrow> u32 \<Rightarrow> (md5_t \<times> byte list \<times> u32) res" where
  "md5_direct_blocks p buffer len =
     (if len > MD5_BLOCK_SIZE then
        bind_res (process_block p buffer (len AND NOT BLOCK_SIZE_MASK)) (\<lambda>p.
        Inr (p, drop (unat (len AND NOT BLOCK_SIZE_MASK)) buffer, len AND BLOCK_SIZE_MASK))
      else Inr (p, buffer, len))"

definition md5_keep_rest :: "md5_t \<Rightarrow> byte list \<Rightarrow> u32 \<Rightarrow> md5_t res" where
  "md5_keep_rest p buffer len =
     (if len > 0 then
        bind_res (mem_copy (md_buffer p) 0 buffer (unat len)) (\<lambda>mb.
        Inr (p\<lparr>md_buffer := mb, md_buf_len := len\<rparr>))
      else Inr p)"

definition md5_process :: "md5_t \<Rightarrow> byte list \<Rightarrow> u32 \<Rightarrow> md5_t res" where
  "md5_process p buffer buf_len =
     bind_res (if md_buf_len p > 0 then md5_fill_block p buffer buf_len
               else Inr (p, buffer, buf_len)) (\<lambda>(p, buffer, len).
     bind_res (md5_direct_blocks p buffer len) (\<lambda>(p, buffer, len).
     md5_keep_rest p buffer len))"

text \<open>
  \<open>pad\<close> is an \<open>int\<close>: the subtraction is done in \<open>size_t\<close> and converted back, which gives the
  mathematical difference for every \<open>bytes\<close> that fits an \<open>int\<close>.
\<close>

definition md5_finish :: "md5_t \<Rightarrow> (md5_t \<times> byte list) res" where
  "md5_finish p =
     (let bytes = md_buf_len p;
          p = count_bytes p bytes;
          pad = to_int32 (64 - 8 - uint bytes);
          pad = (if pad \<le> 0 then pad + 64 else pad)
      in bind_res
          (if pad > 0 then
             bind_res (mem_copy (md_buffer p) (unat bytes) [0x80] 1) (\<lambda>mb.
             bind_res (if pad > 1 then
                         mem_copy mb (unat bytes + 1) (replicate (nat (pad - 1)) 0) (nat (pad - 1))
                       else Inr mb) (\<lambda>mb.
             Inr (p\<lparr>md_buffer := mb\<rparr>, bytes + of_int pad)))
           else Inr (p, bytes)) (\<lambda>(p, bytes).
         let hold = push_bit 3 (md_total0 p AND 0x1FFFFFFF) in
         bind_res (mem_copy (md_buffer p) (unat bytes) (bytes_of_word hold) 4) (\<lambda>mb.
         let bytes = bytes + 4;
             hold = push_bit 3 (md_total1 p) OR drop_bit 29 (md_total0 p AND 0xE0000000) in
         bind_res (mem_copy mb (unat bytes) (bytes_of_word hold) 4) (\<lambda>mb.
         let bytes = bytes + 4; p = p\<lparr>md_buffer := mb\<rparr> in
         bind_res (process_block p (md_buffer p) bytes) (\<lambda>p.
         Inr (p, md5_get_result p))))))"

text \<open>\<open>md5_buffer\<close>; \<open>p\<close> is its uninitialised local variable.\<close>

definition md5_of_buffer :: "md5_t \<Rightarrow> byte list \<Rightarrow> u32 \<Rightarrow> byte list res" where
  "md5_of_buffer p buffer buf_len =
     bind_res (md5_process (md5_init p) buffer buf_len) (\<lambda>p.
     bind_res (md5_finish p) (\<lambda>(p, sig). Inr sig))"

subsection \<open>Signatures as strings\<close>

text \<open>\<open>HEX_STRING\<close>, and one byte written to a memory area.\<close>

definition HEX_STRING :: string where "HEX_STRING = ''0123456789abcdef''"

definition poke :: "char list \<Rightarrow> nat \<Rightarrow> char \<Rightarrow> char list res" where
  "poke mem i c = (if i < length mem then Inr (mem[i := c]) else Inl Undefined)"

text \<open>
  The loop of \<open>md5_sig_to_string\<close> with \<open>n\<close> bytes of the signature left, \<open>pos\<close> the offset of
  \<open>str_p\<close> and \<open>str_len\<close> that of \<open>max_p\<close>.
\<close>

fun sig_to_string_loop ::
    "nat \<Rightarrow> byte list \<Rightarrow> char list \<Rightarrow> nat \<Rightarrow> int \<Rightarrow> (char list \<times> nat) res" where
  "sig_to_string_loop 0 sig str pos str_len = Inr (str, pos)"
| "sig_to_string_loop (Suc n) [] str pos str_len = Inl Undefined"
| "sig_to_string_loop (Suc n) (b # sig) str pos str_len =
     (let high = unat b div 16; low = unat b mod 16 in
      if int pos + 1 \<ge> str_len then Inr (str, pos)
      else bind_res (poke str pos (HEX_STRING ! high)) (\<lambda>str.
           bind_res (poke str (pos + 1) (HEX_STRING ! low)) (\<lambda>str.
           sig_to_string_loop n sig str (pos + 2) str_len)))"

definition md5_sig_to_string :: "byte list \<Rightarrow> char list \<Rightarrow> int \<Rightarrow> char list res" where
  "md5_sig_to_string sig str str_len =
     bind_res (sig_to_string_loop MD5_SIZE sig str 0 str_len) (\<lambda>(str, pos).
     if int pos < str_len then poke str pos NUL else Inr str)"

text \<open>
  \<open>strchr (hex, c) - hex\<close>: the NUL that ends \<open>hex\<close> is found at 16, any other byte that is not a
  digit gives a difference with NULL.
\<close>

definition hex_index :: "char \<Rightarrow> nat res" where
  "hex_index c =
     (let i = length (takeWhile (\<lambda>d. d \<noteq> c) (HEX_STRING @ [NUL])) in
      if i \<le> 16 then Inr i else Inl Undefined)"

fun sig_from_string_loop :: "nat \<Rightarrow> char list \<Rightarrow> byte list res" where
  "sig_from_string_loop 0 str = Inr []"
| "sig_from_string_loop (Suc n) (c1 # c2 # str) =
     bind_res (hex_index c1) (\<lambda>high.
     bind_res (hex_index c2) (\<lambda>low.
     bind_res (sig_from_string_loop n str) (\<lambda>sig.
     Inr (of_nat (high * 16 + low) # sig))))"
| "sig_from_string_loop (Suc n) _ = Inl Undefined"

definition md5_sig_from_string :: "char list \<Rightarrow> byte list res" where
  "md5_sig_from_string str = sig_from_string_loop MD5_SIZE str"

end
