(* ===== verification/Md5_Spec.thy ===== *)
theory Md5_Spec
  imports Md5
begin

unbundle bit_operations_syntax

section \<open>MD5 as RFC 1321 states it\<close>

text \<open>
  The reference the code is compared with: the message digest of RFC 1321 as a function of the whole
  message. A block is 64 steps that rotate the four registers, driven by the tables below (\<open>rfc_T\<close>
  the constants, \<open>rfc_s\<close> the shifts, \<open>rfc_k\<close> the order of the message words), with the auxiliary
  functions in the RFC's own form. Padding is a bit 1, zeros up to 56 modulo 64 bytes, and the length
  in bits modulo \<open>2 ^ 64\<close> in eight bytes.
\<close>

definition rfc_F :: "nat \<Rightarrow> u32 \<Rightarrow> u32 \<Rightarrow> u32 \<Rightarrow> u32" where
  "rfc_F i x y z =
     (if i < 16 then (x AND y) OR (NOT x AND z)
      else if i < 32 then (x AND z) OR (y AND NOT z)
      else if i < 48 then x XOR y XOR z
      else y XOR (x OR NOT z))"

definition rfc_k :: "nat \<Rightarrow> nat" where
  "rfc_k i =
     (if i < 16 then i
      else if i < 32 then (5 * i + 1) mod 16
      else if i < 48 then (3 * i + 5) mod 16
      else (7 * i) mod 16)"

definition rfc_s :: "nat \<Rightarrow> nat" where
  "rfc_s i =
     (if i < 16 then [7, 12, 17, 22] ! (i mod 4)
      else if i < 32 then [5, 9, 14, 20] ! (i mod 4)
      else if i < 48 then [4, 11, 16, 23] ! (i mod 4)
      else [6, 10, 15, 21] ! (i mod 4))"

definition rfc_T :: "u32 list" where
  "rfc_T =
   [0xd76aa478, 0xe8c7b756, 0x242070db, 0xc1bdceee, 0xf57c0faf, 0x4787c62a, 0xa8304613, 0xfd469501,
    0x698098d8, 0x8b44f7af, 0xffff5bb1, 0x895cd7be, 0x6b901122, 0xfd987193, 0xa679438e, 0x49b40821,
    0xf61e2562, 0xc040b340, 0x265e5a51, 0xe9b6c7aa, 0xd62f105d, 0x02441453, 0xd8a1e681, 0xe7d3fbc8,
    0x21e1cde6, 0xc33707d6, 0xf4d50d87, 0x455a14ed, 0xa9e3e905, 0xfcefa3f8, 0x676f02d9, 0x8d2a4c8a,
    0xfffa3942, 0x8771f681, 0x6d9d6122, 0xfde5380c, 0xa4beea44, 0x4bdecfa9, 0xf6bb4b60, 0xbebfbc70,
    0x289b7ec6, 0xeaa127fa, 0xd4ef3085, 0x04881d05, 0xd9d4d039, 0xe6db99e5, 0x1fa27cf8, 0xc4ac5665,
    0xf4292244, 0x432aff97, 0xab9423a7, 0xfc93a039, 0x655b59c3, 0x8f0ccc92, 0xffeff47d, 0x85845dd1,
    0x6fa87e4f, 0xfe2ce6e0, 0xa3014314, 0x4e0811a1, 0xf7537e82, 0xbd3af235, 0x2ad7d2bb, 0xeb86d391]"

definition rfc_step :: "u32 list \<Rightarrow> nat \<Rightarrow> regs \<Rightarrow> regs" where
  "rfc_step X i r =
     (case r of (a, b, c, d) \<Rightarrow>
        (d, b + word_rotl (rfc_s i) (a + rfc_F i b c d + X ! rfc_k i + rfc_T ! i), b, c))"

definition rfc_block :: "regs \<Rightarrow> byte list \<Rightarrow> regs" where
  "rfc_block r blk = add_regs (foldl (\<lambda>r i. rfc_step (load_words blk) i r) r [0..<64]) r"

fun rfc_blocks :: "nat \<Rightarrow> regs \<Rightarrow> byte list \<Rightarrow> regs" where
  "rfc_blocks 0 r m = r"
| "rfc_blocks (Suc n) r m = rfc_blocks n (rfc_block r (take 64 m)) (drop 64 m)"

definition rfc_init :: regs where
  "rfc_init = (0x67452301, 0xefcdab89, 0x98badcfe, 0x10325476)"

definition le64 :: "nat \<Rightarrow> byte list" where
  "le64 n = map (\<lambda>i. of_nat (n div 2 ^ (8 * i))) [0..<8]"

definition rfc_zeros :: "nat \<Rightarrow> nat" where
  "rfc_zeros len = nat ((55 - int len) mod 64)"

definition rfc_pad :: "nat \<Rightarrow> byte list" where
  "rfc_pad len = 0x80 # replicate (rfc_zeros len) 0 @ le64 (8 * len)"

fun regs_bytes :: "regs \<Rightarrow> byte list" where
  "regs_bytes (a, b, c, d) =
     bytes_of_word a @ bytes_of_word b @ bytes_of_word c @ bytes_of_word d"

definition rfc_md5 :: "byte list \<Rightarrow> byte list" where
  "rfc_md5 m =
     (let p = m @ rfc_pad (length m) in regs_bytes (rfc_blocks (length p div 64) rfc_init p))"

end
