(* ===== verification/Md5_Correct.thy ===== *)
theory Md5_Correct
  imports Md5_Spec
begin

unbundle bit_operations_syntax

section \<open>The code computes the digest of RFC 1321\<close>

text \<open>
  The unrolled block function against the table driven one, the block loop, the invariant
  \<open>md5_absorbed\<close> of the streaming interface (what a \<open>md5_t\<close> has absorbed, with up to one whole
  block still pending in \<open>md_buffer\<close>), and the padding \<open>md5_finish\<close> writes. The properties are at
  the end.
\<close>

subsection \<open>Words\<close>

lemma CYCLIC_rotl: "0 < s \<Longrightarrow> s < 32 \<Longrightarrow> CYCLIC w s = word_rotl s w"
proof (rule bit_word_eqI)
  fix i assume s: "0 < s" "s < 32" and i: "i < LENGTH(32)"
  have lr: "bit (CYCLIC w s) i \<longleftrightarrow> (s \<le> i \<and> bit w (i - s)) \<or> bit w (32 - s + i)"
    using i by (auto simp: CYCLIC_def bit_simps)
  show "bit (CYCLIC w s) i = bit (word_rotl s w) i"
  proof (cases "s \<le> i")
    case True
    then have "(i + (32 - s)) mod 32 = i - s" using s i by (simp add: le_mod_geq)
    moreover have "\<not> bit w (32 - s + i)" using True s bit_imp_le_length [of w "32 - s + i"] by auto
    ultimately show ?thesis using True s i lr by (simp add: bit_word_rotl_iff)
  next
    case False
    then have "(i + (32 - s)) mod 32 = 32 - s + i" using s i by simp
    with False show ?thesis using s i lr by (simp add: bit_word_rotl_iff)
  qed
qed

lemma unat32_less: "unat (x :: u32) < 4294967296"
  using unsigned_less [where 'a = nat, of x] by simp

lemma mask6: "(63 :: u32) = mask 6"
  by (simp add: mask_eq_exp_minus_1)

lemma and_mask64: "unat (x AND 63 :: u32) = unat x mod 64"
proof -
  have "x AND 63 = take_bit 6 x" by (simp add: take_bit_eq_mask mask6)
  then show ?thesis by (simp add: take_bit_eq_mod unat_mod)
qed

lemma and_not_mask64: "unat (x AND NOT 63 :: u32) = 64 * (unat x div 64)"
proof -
  have "x AND NOT (mask 6) = push_bit 6 (drop_bit 6 x)"
    by (rule bit_word_eqI) (auto simp: bit_simps)
  moreover have "unat (drop_bit 6 x) = unat x div 64"
    by (simp add: drop_bit_eq_div unat_div)
  moreover have "64 * (unat x div 64) < 2 ^ 32"
    using unat32_less [of x] by (simp add: less_mult_imp_div_less)
  ultimately show ?thesis by (simp add: mask6 push_bit_eq_mult unat_word_ariths)
qed

lemma and_neg64: "unat (x AND - 64 :: u32) = 64 * (unat x div 64)"
  using and_not_mask64 [of x] by simp

lemma FF_F: "FF b c d = (b AND c) OR (NOT b AND d)"
  by (rule bit_word_eqI) (auto simp: bit_simps FF_def)

subsection \<open>The four rounds\<close>

text \<open>
  A statement on one of the four register permutations is one rotation step of the RFC, seen through
  that permutation.
\<close>

definition reg_step :: "(u32 \<Rightarrow> u32 \<Rightarrow> u32 \<Rightarrow> u32 \<Rightarrow> u32) \<Rightarrow> regs \<Rightarrow> regs" where
  "reg_step op r = (case r of (a, b, c, d) \<Rightarrow> (d, op a b c d, b, c))"

lemma run_stmts_four:
  "run_stmts (ABCD p # DABC q # CDAB s # BCDA t # ss) r =
   run_stmts ss (reg_step t (reg_step s (reg_step q (reg_step p r))))"
  by (cases r) (simp add: run_stmts_def reg_step_def)

lemma run_stmts_Nil: "run_stmts [] r = r"
  by (simp add: run_stmts_def)

definition rfc_op :: "u32 list \<Rightarrow> nat \<Rightarrow> u32 \<Rightarrow> u32 \<Rightarrow> u32 \<Rightarrow> u32 \<Rightarrow> u32" where
  "rfc_op X i = (\<lambda>a b c d. b + word_rotl (rfc_s i) (a + rfc_F i b c d + X ! rfc_k i + rfc_T ! i))"

lemma rfc_step_reg: "rfc_step X i r = reg_step (rfc_op X i) r"
  by (cases r) (simp add: rfc_step_def reg_step_def rfc_op_def)

lemma op1_rfc:
  assumes "i < 16" "k = X ! rfc_k i" "s = rfc_s i" "t = rfc_T ! i" "0 < s" "s < 32"
  shows "op1 k s t = rfc_op X i"
  using assms by (simp add: op1_def OP1_def rfc_op_def fun_eq_iff Let_def CYCLIC_rotl FF_F
      rfc_F_def algebra_simps)

lemma op234_rfc:
  assumes "k = X ! rfc_k i" "s = rfc_s i" "t = rfc_T ! i" "0 < s" "s < 32"
    and "\<And>x y z. f x y z = rfc_F i x y z"
  shows "op234 f k s t = rfc_op X i"
  using assms by (simp add: op234_def OP234_def rfc_op_def fun_eq_iff Let_def CYCLIC_rotl
      algebra_simps)

lemma rfc_F_rounds:
  "16 \<le> i \<Longrightarrow> i < 32 \<Longrightarrow> FG x y z = rfc_F i x y z"
  "32 \<le> i \<Longrightarrow> i < 48 \<Longrightarrow> FH x y z = rfc_F i x y z"
  "48 \<le> i \<Longrightarrow> FI x y z = rfc_F i x y z"
  by (simp_all add: FG_def FH_def FI_def FF_F rfc_F_def and.commute or.commute)

lemma upt_rounds:
  "[0..<16] = [0, 1, 2, 3, 4, 5, 6, 7, 8, 9, 10, 11, 12, 13, 14, 15]"
  "[16..<32] = [16, 17, 18, 19, 20, 21, 22, 23, 24, 25, 26, 27, 28, 29, 30, 31]"
  "[32..<48] = [32, 33, 34, 35, 36, 37, 38, 39, 40, 41, 42, 43, 44, 45, 46, 47]"
  "[48..<64] = [48, 49, 50, 51, 52, 53, 54, 55, 56, 57, 58, 59, 60, 61, 62, 63]"
  by code_simp+

lemma foldl_rfc_step:
  "foldl (\<lambda>r i. rfc_step X i r) r is = foldl (\<lambda>r op. reg_step op r) r (map (rfc_op X) is)"
  by (induction "is" arbitrary: r) (simp_all add: rfc_step_reg)

lemmas rfc_tables = rfc_k_def rfc_s_def rfc_T_def

lemma md5_round1_rfc:
  "run_stmts (md5_round1 X) r = foldl (\<lambda>r i. rfc_step X i r) r [0..<16]"
  unfolding md5_round1_def run_stmts_four run_stmts_Nil foldl_rfc_step upt_rounds list.map foldl.simps
  by (intro arg_cong2 [where f = reg_step] refl op1_rfc) (simp_all add: rfc_tables)

lemma md5_round2_rfc:
  "run_stmts (md5_round2 X) r = foldl (\<lambda>r i. rfc_step X i r) r [16..<32]"
  unfolding md5_round2_def run_stmts_four run_stmts_Nil foldl_rfc_step upt_rounds list.map foldl.simps
  by (intro arg_cong2 [where f = reg_step] refl op234_rfc) (simp_all add: rfc_tables rfc_F_rounds)


lemma md5_round3_rfc:
  "run_stmts (md5_round3 X) r = foldl (\<lambda>r i. rfc_step X i r) r [32..<48]"
  unfolding md5_round3_def run_stmts_four run_stmts_Nil foldl_rfc_step upt_rounds list.map foldl.simps
  by (intro arg_cong2 [where f = reg_step] refl op234_rfc) (simp_all add: rfc_tables rfc_F_rounds)

lemma md5_round4_rfc:
  "run_stmts (md5_round4 X) r = foldl (\<lambda>r i. rfc_step X i r) r [48..<64]"
  unfolding md5_round4_def run_stmts_four run_stmts_Nil foldl_rfc_step upt_rounds list.map foldl.simps
  by (intro arg_cong2 [where f = reg_step] refl op234_rfc) (simp_all add: rfc_tables rfc_F_rounds)

lemma upt_64: "[0..<64] = [0..<16] @ [16..<32] @ [32..<48] @ [48..<64]"
  by code_simp

lemma md5_block_body_rfc: "md5_block_body r blk = rfc_block r blk"
  by (simp add: md5_block_body_def rfc_block_def Let_def md5_round1_rfc md5_round2_rfc
      md5_round3_rfc md5_round4_rfc upt_64 del: upt_rec_numeral)

subsection \<open>Blocks and byte counts\<close>

lemma md5_block_loop_rfc:
  "64 * k \<le> length mem \<Longrightarrow> md5_block_loop r mem (64 * k) = Inr (rfc_blocks k r mem)"
proof (induction k arbitrary: r mem)
  case 0
  then show ?case by (simp add: md5_block_loop.simps)
next
  case (Suc k)
  then show ?case
    by (subst md5_block_loop.simps) (simp add: md5_block_body_rfc)
qed

lemma rfc_blocks_take: "64 * n \<le> k \<Longrightarrow> rfc_blocks n r (take k m) = rfc_blocks n r m"
proof (induction n arbitrary: r m k)
  case (Suc n)
  then have "rfc_blocks n (rfc_block r (take 64 m)) (take (k - 64) (drop 64 m)) =
      rfc_blocks n (rfc_block r (take 64 m)) (drop 64 m)" by simp
  with Suc.prems show ?case by (simp add: drop_take min_def)
qed simp

lemma rfc_blocks_append: "64 * n \<le> length m \<Longrightarrow> rfc_blocks n r (m @ x) = rfc_blocks n r m"
  using rfc_blocks_take [of n "length m" r "m @ x"] by simp

lemma rfc_blocks_add:
  "rfc_blocks (a + b) r m = rfc_blocks b (rfc_blocks a r m) (drop (64 * a) m)"
  by (induction a arbitrary: r m) (simp_all add: add.commute)

definition md_regs :: "md5_t \<Rightarrow> regs" where
  "md_regs p = (md_A p, md_B p, md_C p, md_D p)"

definition md_counts :: "md5_t \<Rightarrow> nat \<Rightarrow> bool" where
  "md_counts p n \<longleftrightarrow> md_total0 p = of_nat n \<and> md_total1 p = of_nat (n div 2 ^ 32)"

lemma count_bytes_fields [simp]:
  "md_A (count_bytes p n) = md_A p" "md_B (count_bytes p n) = md_B p"
  "md_C (count_bytes p n) = md_C p" "md_D (count_bytes p n) = md_D p"
  "md_buf_len (count_bytes p n) = md_buf_len p" "md_buffer (count_bytes p n) = md_buffer p"
  by (simp_all add: count_bytes_def)

lemma unat_of_nat32: "unat (of_nat n :: u32) = n mod 2 ^ 32"
  by (simp add: unat_of_nat)

lemma div_carry:
  fixes n k :: nat
  assumes "k < 4294967296"
  shows "(n + k) div 4294967296 =
    (if n mod 4294967296 + k < 4294967296 then n div 4294967296 else Suc (n div 4294967296))"
  using assms by (simp add: div_add1_eq [of n k] div_nat_eqI)

lemma count_bytes_counts:
  assumes "md_counts p n"
  shows "md_counts (count_bytes p k) (n + unat k)"
proof -
  note k = unat32_less [of k]
  have "unat (MAX_MD5_UINT32 - k) = 4294967295 - unat k"
    using k by (subst unat_sub) (simp_all add: word_le_nat_alt)
  then have "md_total0 p > MAX_MD5_UINT32 - k \<longleftrightarrow>
      \<not> n mod 4294967296 + unat k < 4294967296"
    using assms k by (auto simp: md_counts_def word_less_nat_alt unat_of_nat32)
  with assms div_carry [OF k, of n] show ?thesis
    by (simp add: count_bytes_def md_counts_def)
qed

lemma process_block_rfc:
  assumes "64 dvd unat len" "unat len \<le> length mem" "md_counts p n"
  obtains p' where "process_block p mem len = Inr p'"
    "md_regs p' = rfc_blocks (unat len div 64) (md_regs p) mem" "md_counts p' (n + unat len)"
    "md_buffer p' = md_buffer p" "md_buf_len p' = md_buf_len p"
proof -
  obtain k where k: "unat len = 64 * k" using assms(1) by (auto elim: dvdE)
  obtain A B C D where r: "rfc_blocks k (md_regs p) mem = (A, B, C, D)"
    by (cases "rfc_blocks k (md_regs p) mem") auto
  let ?p = "(count_bytes p len)\<lparr>md_A := A, md_B := B, md_C := C, md_D := D\<rparr>"
  have "process_block p mem len = Inr ?p"
    using r assms(2) unfolding process_block_def Let_def k md_regs_def
    by (simp add: md5_block_loop_rfc [of k mem])
  then show thesis
  proof (rule that)
    show "md_regs ?p = rfc_blocks (unat len div 64) (md_regs p) mem"
      using r k by (simp add: md_regs_def)
    show "md_counts ?p (n + unat len)"
      using count_bytes_counts [OF assms(3)] by (simp add: md_counts_def)
  qed simp_all
qed


subsection \<open>Absorbing a message\<close>

definition md5_absorbed :: "md5_t \<Rightarrow> byte list \<Rightarrow> bool" where
  "md5_absorbed p m \<longleftrightarrow>
     (let b = unat (md_buf_len p); d = length m - b in
      b \<le> 64 \<and> b \<le> length m \<and> 64 dvd d \<and> length (md_buffer p) = MD_BUFFER_SIZE \<and>
      md_regs p = rfc_blocks (d div 64) rfc_init m \<and> md_counts p d \<and>
      take b (md_buffer p) = drop d m)"

lemma md5_init_absorbed:
  "length (md_buffer p) = MD_BUFFER_SIZE \<Longrightarrow> md5_absorbed (md5_init p) []"
  by (simp add: md5_absorbed_def md5_init_def md_regs_def md_counts_def rfc_init_def)

lemma md5_absorbed_blocks:
  assumes abs: "md5_absorbed p m" and b: "md_buf_len p = 0"
    and le: "unat len \<le> length mem" and dv: "64 dvd unat len"
  obtains p' where "process_block p mem len = Inr p'"
    "md5_absorbed p' (m @ take (unat len) mem)" "md_buf_len p' = 0"
proof -
  have m: "64 dvd length m" "md_regs p = rfc_blocks (length m div 64) rfc_init m"
      "md_counts p (length m)" "length (md_buffer p) = MD_BUFFER_SIZE"
    using abs b by (simp_all add: md5_absorbed_def Let_def)
  obtain p' where
    p': "process_block p mem len = Inr p'"
      "md_regs p' = rfc_blocks (unat len div 64) (md_regs p) mem"
      "md_counts p' (length m + unat len)"
      "md_buffer p' = md_buffer p" "md_buf_len p' = md_buf_len p"
    by (rule process_block_rfc [OF dv le m(3)])
  define x where "x = take (unat len) mem"
  have x: "length x = unat len" using le by (simp add: x_def)
  have "rfc_blocks (unat len div 64) (md_regs p) mem = rfc_blocks (unat len div 64) (md_regs p) x"
    unfolding x_def by (simp add: rfc_blocks_take)
  also have "\<dots> = rfc_blocks (length m div 64 + unat len div 64) rfc_init (m @ x)"
    using m(1) by (simp add: rfc_blocks_add rfc_blocks_append m(2))
  also have "length m div 64 + unat len div 64 = length (m @ x) div 64"
    using m(1) by (simp add: x div_plus_div_distrib_dvd_left)
  finally have "md5_absorbed p' (m @ x)"
    using p'(2-5) b m(1,4) dv by (simp add: md5_absorbed_def Let_def x)
  with p'(1,5) b that show thesis by (simp add: x_def)
qed

lemma mem_copy_Inr:
  "n \<le> length src \<Longrightarrow> off + n \<le> length dst \<Longrightarrow>
   mem_copy dst off src n = Inr (take off dst @ take n src @ drop (off + n) dst)"
  by (simp add: mem_copy_def)

text \<open>Bytes copied into an empty internal buffer.\<close>

lemma md5_absorbed_keep:
  assumes abs: "md5_absorbed p m" and b: "md_buf_len p = 0"
    and le: "unat len \<le> length x" "unat len \<le> 64"
  obtains mb where "mem_copy (md_buffer p) 0 x (unat len) = Inr mb"
    "md5_absorbed (p\<lparr>md_buffer := mb, md_buf_len := len\<rparr>) (m @ take (unat len) x)"
proof -
  have m: "64 dvd length m" "md_regs p = rfc_blocks (length m div 64) rfc_init m"
      "md_counts p (length m)" "length (md_buffer p) = MD_BUFFER_SIZE"
    using abs b by (simp_all add: md5_absorbed_def Let_def)
  let ?mb = "take (unat len) x @ drop (unat len) (md_buffer p)"
  have "mem_copy (md_buffer p) 0 x (unat len) = Inr ?mb"
    using m(4) le by (simp add: mem_copy_Inr)
  moreover have "md5_absorbed (p\<lparr>md_buffer := ?mb, md_buf_len := len\<rparr>) (m @ take (unat len) x)"
    using m le
    by (simp add: md5_absorbed_def Let_def min_def rfc_blocks_append md_regs_def md_counts_def)
  ultimately show thesis by (rule that)
qed

text \<open>The second half of \<open>md5_process\<close>, with an empty internal buffer.\<close>

lemma md5_absorbed_direct:
  assumes abs: "md5_absorbed p m" and b: "md_buf_len p = 0" and le: "unat len = length x"
  obtains p' y len' where "md5_direct_blocks p x len = Inr (p', drop y x, len')"
    "md5_absorbed p' (m @ take y x)" "md_buf_len p' = 0" "y \<le> length x"
    "unat len' = length x - y" "unat len' \<le> 64"
proof (cases "len > 64")
  case True
  let ?q = "len AND NOT 63"
  have q: "unat ?q = 64 * (length x div 64)" and r: "unat (len AND 63) = length x mod 64"
    using le by (simp_all add: and_neg64 and_mask64)
  have "unat ?q \<le> length x" "64 dvd unat ?q" unfolding q by simp_all
  from md5_absorbed_blocks [OF abs b this] obtain p' where
    "process_block p x ?q = Inr p'" "md5_absorbed p' (m @ take (unat ?q) x)" "md_buf_len p' = 0" .
  with True q r show thesis
    by (intro that [of p' "unat ?q" "len AND 63"])
       (simp_all add: md5_direct_blocks_def minus_mult_div_eq_mod)
next
  case False
  with abs b le show thesis
    by (intro that [of p 0 len]) (simp_all add: md5_direct_blocks_def word_less_nat_alt)
qed

lemma md5_absorbed_rest:
  assumes "md5_absorbed p m" "len > 0 \<longrightarrow> md_buf_len p = 0" "unat len = length x" "length x \<le> 64"
  obtains p' where "md5_keep_rest p x len = Inr p'" "md5_absorbed p' (m @ x)"
proof (cases "len > 0")
  case True
  with assms(2) have b: "md_buf_len p = 0" by simp
  have "unat len \<le> length x" "unat len \<le> 64" using assms by simp_all
  from md5_absorbed_keep [OF assms(1) b this] obtain mb where
    "mem_copy (md_buffer p) 0 x (unat len) = Inr mb"
    "md5_absorbed (p\<lparr>md_buffer := mb, md_buf_len := len\<rparr>) (m @ take (unat len) x)" .
  with True assms(3) show thesis
    by (intro that [of "p\<lparr>md_buffer := mb, md_buf_len := len\<rparr>"]) (simp_all add: md5_keep_rest_def)
next
  case False
  with assms have "x = []" by (simp add: word_less_nat_alt)
  with False assms(1) that show thesis by (simp add: md5_keep_rest_def)
qed

lemma md5_absorbed_no_fill:
  assumes "md5_absorbed p m" "len > 0 \<longrightarrow> md_buf_len p = 0" "unat len = length x"
  obtains p' where
    "bind_res (md5_direct_blocks p x len) (\<lambda>(p, buffer, len). md5_keep_rest p buffer len) = Inr p'"
    "md5_absorbed p' (m @ x)"
proof (cases "len > 0")
  case True
  with assms(2) have "md_buf_len p = 0" by simp
  from md5_absorbed_direct [OF assms(1) this assms(3)] obtain p1 y len1 where
    p1: "md5_direct_blocks p x len = Inr (p1, drop y x, len1)" "md5_absorbed p1 (m @ take y x)"
      "md_buf_len p1 = 0" "y \<le> length x" "unat len1 = length x - y" "unat len1 \<le> 64" .
  have "len1 > 0 \<longrightarrow> md_buf_len p1 = 0" "unat len1 = length (drop y x)"
      "length (drop y x) \<le> 64" using p1 by simp_all
  from md5_absorbed_rest [OF p1(2) this] obtain p' where
    "md5_keep_rest p1 (drop y x) len1 = Inr p'" "md5_absorbed p' ((m @ take y x) @ drop y x)" .
  with p1(1) that show thesis by simp
next
  case False
  with assms have "x = []" by (simp add: word_less_nat_alt)
  with False assms(1) that show thesis
    by (simp add: md5_direct_blocks_def md5_keep_rest_def word_less_nat_alt)
qed

text \<open>
  The whole blocks of a buffer whose first \<open>n\<close> bytes are pending are processed and the rest is moved to the front.
\<close>

lemma md5_absorbed_flush:
  assumes regs: "md_regs p = rfc_blocks (d div 64) rfc_init m" and cnt: "md_counts p d" and d: "64 dvd d" "length m = d + n"
    and mb: "md_buffer p = mb" "length mb = 128" "take n mb = drop d m" and ib: "unat ib = n" "n \<le> 128"
  obtains p' mb' where "process_block p mb (ib AND NOT 63) = Inr p'"
    "mem_copy (md_buffer p') 0 (drop (unat (ib AND NOT 63)) (md_buffer p')) (unat (ib AND 63)) = Inr mb'"
    "md5_absorbed (p'\<lparr>md_buffer := mb', md_buf_len := ib AND 63\<rparr>) m"
proof -
  define q where "q = 64 * (n div 64)"
  define r where "r = n mod 64"
  have q: "unat (ib AND NOT 63) = q" and r: "unat (ib AND 63) = r" and qr: "q + r = n" and r64: "r < 64"
    by (simp_all add: and_neg64 and_mask64 ib q_def r_def)
  have dv: "64 dvd unat (ib AND NOT 63)" and le: "unat (ib AND NOT 63) \<le> length mb"
    unfolding q using qr ib(2) mb(2) by (simp_all add: q_def)
  obtain p' where p': "process_block p mb (ib AND NOT 63) = Inr p'"
    "md_regs p' = rfc_blocks (q div 64) (md_regs p) mb" "md_counts p' (d + q)" "md_buffer p' = mb"
    using process_block_rfc [OF dv le cnt] mb(1) unfolding q by auto
  define mb' where "mb' = take r (drop q mb) @ drop r mb"
  have copy: "mem_copy (md_buffer p') 0 (drop q (md_buffer p')) r = Inr mb'"
    unfolding p'(4) mb'_def using qr ib(2) mb(2) by (subst mem_copy_Inr) simp_all
  have "md_regs p' = rfc_blocks (q div 64) (md_regs p) (take n mb)"
    using p'(2) qr by (simp add: rfc_blocks_take q_def)
  also have "\<dots> = rfc_blocks (d div 64 + q div 64) rfc_init m"
    using d(1) by (simp add: mb(3) regs rfc_blocks_add)
  also have "d div 64 + q div 64 = (d + q) div 64"
    using d(1) by (simp add: div_plus_div_distrib_dvd_left)
  finally have "md_regs p' = rfc_blocks ((d + q) div 64) rfc_init m" .
  moreover have "take r mb' = drop q (take n mb)"
    using qr [symmetric] mb(2) ib(2) by (simp add: mb'_def drop_take)
  then have "take r mb' = drop (d + q) m" unfolding mb(3) by (simp only: drop_drop add.commute)
  moreover have "length mb' = 128" "64 dvd d + q" using mb(2) qr ib(2) d(1) by (simp_all add: mb'_def q_def)
  moreover have lm: "length m = d + q + r" using d(2) qr by simp
  ultimately have "md5_absorbed (p'\<lparr>md_buffer := mb', md_buf_len := ib AND 63\<rparr>) m"
    using p'(3) lm r r64 unfolding md5_absorbed_def Let_def by (simp add: md_regs_def md_counts_def)
  then show thesis using that [OF p'(1)] copy unfolding q r by blast
qed

text \<open>The bytes that go into the buffer first.\<close>

lemma md5_fill_copied:
  assumes "bl = unat (md_buf_len p)" "bl \<le> 64" "length (md_buffer p) = MD_BUFFER_SIZE" "unat len = length x"
    "bl + length x < 2 ^ 32" "y = min (128 - bl) (length x)"
  obtains mb ib len' where "md5_fill_block p x len =
      bind_res (if ib > 64 then
          bind_res (process_block (p\<lparr>md_buffer := mb, md_buf_len := ib\<rparr>) mb (ib AND NOT 63)) (\<lambda>p.
          bind_res (mem_copy (md_buffer p) 0 (drop (unat (ib AND NOT 63)) (md_buffer p)) (unat (ib AND 63))) (\<lambda>mb.
          Inr (p\<lparr>md_buffer := mb, md_buf_len := ib AND 63\<rparr>)))
        else Inr (p\<lparr>md_buffer := mb, md_buf_len := ib\<rparr>)) (\<lambda>p. Inr (p, drop y x, len'))"
    "unat ib = bl + y" "unat len' = length x - y" "length mb = 128" "take (bl + y) mb = take bl (md_buffer p) @ take y x"
proof -
  define add where
    "add = (if unat (md_buf_len p + len) > MD_BUFFER_SIZE then of_nat MD_BUFFER_SIZE - md_buf_len p else len)"
  have sum: "unat (md_buf_len p + len) = bl + length x"
    using assms(1,4,5) by (simp add: unat_word_ariths)
  have add: "unat add = y"
    using assms(1,2,4,6) sum by (auto simp: add_def unat_sub word_le_nat_alt)
  have ib: "unat (md_buf_len p + add) = bl + y"
    using assms(1,2,6) add by (simp add: unat_word_ariths)
  define mb where "mb = take bl (md_buffer p) @ take y x @ drop (bl + y) (md_buffer p)"
  have "mem_copy (md_buffer p) bl x y = Inr mb"
    unfolding mb_def using assms(2,3,6) by (intro mem_copy_Inr) auto
  then have "md5_fill_block p x len =
      bind_res (if md_buf_len p + add > 64 then
          bind_res (process_block (p\<lparr>md_buffer := mb, md_buf_len := md_buf_len p + add\<rparr>) mb (md_buf_len p + add AND NOT 63)) (\<lambda>p.
          bind_res (mem_copy (md_buffer p) 0 (drop (unat (ib AND NOT 63)) (md_buffer p)) (unat (ib AND 63))) (\<lambda>mb.
          Inr (p\<lparr>md_buffer := mb, md_buf_len := ib AND 63\<rparr>)))
        else Inr (p\<lparr>md_buffer := mb, md_buf_len := md_buf_len p + add\<rparr>)) (\<lambda>p. Inr (p, drop y x, len - add))"
    if "ib = md_buf_len p + add" for ib
    unfolding md5_fill_block_def Let_def add_def [symmetric] that by (simp add: add assms(1) [symmetric])
  moreover have "unat (len - add) = length x - y" "length mb = 128" "take (bl + y) mb = take bl (md_buffer p) @ take y x"
    using assms(2,3,4,6) add by (auto simp: mb_def unat_sub word_le_nat_alt)
  ultimately show thesis using ib by (intro that [of "md_buf_len p + add" mb "len - add"]) blast+
qed

lemma md5_absorbed_fill:
  assumes abs: "md5_absorbed p m" and b: "md_buf_len p > 0" and le: "unat len = length x"
    and small: "unat (md_buf_len p) + length x < 2 ^ 32"
  obtains p' y len' where "md5_fill_block p x len = Inr (p', drop y x, len')"
    "md5_absorbed p' (m @ take y x)" "len' > 0 \<longrightarrow> md_buf_len p' = 0" "y \<le> length x"
    "unat len' = length x - y"
proof -
  define bl where "bl = unat (md_buf_len p)"
  define d where "d = length m - bl"
  define y where "y = min (128 - bl) (length x)"
  have m: "bl \<le> 64" "bl \<le> length m" "64 dvd d" "length (md_buffer p) = MD_BUFFER_SIZE"
      "md_regs p = rfc_blocks (d div 64) rfc_init m" "md_counts p d" "take bl (md_buffer p) = drop d m"
    using abs by (simp_all add: md5_absorbed_def Let_def bl_def d_def)
  have y: "y \<le> length x" "bl + y \<le> 128" using m(1) by (auto simp: y_def)
  obtain mb ib len' where fill: "md5_fill_block p x len =
      bind_res (if ib > 64 then
          bind_res (process_block (p\<lparr>md_buffer := mb, md_buf_len := ib\<rparr>) mb (ib AND NOT 63)) (\<lambda>p.
          bind_res (mem_copy (md_buffer p) 0 (drop (unat (ib AND NOT 63)) (md_buffer p)) (unat (ib AND 63))) (\<lambda>mb.
          Inr (p\<lparr>md_buffer := mb, md_buf_len := ib AND 63\<rparr>)))
        else Inr (p\<lparr>md_buffer := mb, md_buf_len := ib\<rparr>)) (\<lambda>p. Inr (p, drop y x, len'))"
    and ib: "unat ib = bl + y" and len': "unat len' = length x - y"
    and mb: "length mb = 128" "take (bl + y) mb = take bl (md_buffer p) @ take y x"
    using md5_fill_copied [OF bl_def m(1,4) le small [folded bl_def] y_def] by blast
  let ?p = "p\<lparr>md_buffer := mb, md_buf_len := ib\<rparr>" and ?m = "m @ take y x"
  have p: "md_regs ?p = rfc_blocks (d div 64) rfc_init ?m" "md_counts ?p d" "length ?m = d + (bl + y)"
      "take (bl + y) mb = drop d ?m"
    using m mb(2) y by (simp_all add: d_def rfc_blocks_append md_regs_def md_counts_def)
  show thesis
  proof (cases "ib > 64")
    case False
    then have s: "bl + y \<le> 64" "y = length x" using ib m(1) by (auto simp: word_less_nat_alt y_def)
    have "md5_absorbed ?p ?m"
      using p m(3) mb(1) ib s by (simp add: md5_absorbed_def Let_def md_regs_def md_counts_def)
    with False fill len' s show thesis by (intro that [of ?p y len']) (simp_all add: word_less_nat_alt)
  next
    case True
    obtain p' mb' where p': "process_block ?p mb (ib AND NOT 63) = Inr p'"
      "mem_copy (md_buffer p') 0 (drop (unat (ib AND NOT 63)) (md_buffer p')) (unat (ib AND 63)) = Inr mb'"
      "md5_absorbed (p'\<lparr>md_buffer := mb', md_buf_len := ib AND 63\<rparr>) ?m"
      using md5_absorbed_flush [OF p(1,2) m(3) p(3) _ mb(1) p(4) ib y(2)] by auto
    moreover have "ib AND 63 = 0" if "len' > 0"
    proof -
      have "bl + y = 128" using that len' m(1) by (auto simp: word_less_nat_alt y_def)
      then have "unat (ib AND 63) = 0" using ib by (simp add: and_mask64)
      then show ?thesis by (simp add: unsigned_eq_0_iff)
    qed
    ultimately show thesis using True fill len' y(1)
      by (intro that [of "p'\<lparr>md_buffer := mb', md_buf_len := ib AND 63\<rparr>" y len']) simp_all
  qed
qed

lemma md5_process_absorbed:
  assumes abs: "md5_absorbed p m" and le: "unat len = length x"
    and small: "unat (md_buf_len p) + length x < 2 ^ 32"
  obtains p' where "md5_process p x len = Inr p'" "md5_absorbed p' (m @ x)"
proof (cases "md_buf_len p > 0")
  case True
  from md5_absorbed_fill [OF abs True le small] obtain p1 y len1 where
    f: "md5_fill_block p x len = Inr (p1, drop y x, len1)" "md5_absorbed p1 (m @ take y x)"
      "len1 > 0 \<longrightarrow> md_buf_len p1 = 0" "y \<le> length x" "unat len1 = length x - y" .
  have "unat len1 = length (drop y x)" using f(5) by simp
  from md5_absorbed_no_fill [OF f(2,3) this] obtain p' where
    "bind_res (md5_direct_blocks p1 (drop y x) len1) (\<lambda>(p, buffer, len). md5_keep_rest p buffer len) = Inr p'"
    "md5_absorbed p' ((m @ take y x) @ drop y x)" .
  with f(1) True that show thesis by (simp add: md5_process_def)
next
  case False
  then have "len > 0 \<longrightarrow> md_buf_len p = 0" by (simp add: word_less_nat_alt unsigned_eq_0_iff)
  from md5_absorbed_no_fill [OF abs this le] obtain p' where
    "bind_res (md5_direct_blocks p x len) (\<lambda>(p, buffer, len). md5_keep_rest p buffer len) = Inr p'"
    "md5_absorbed p' (m @ x)" .
  with False that show thesis by (simp add: md5_process_def)
qed


subsection \<open>The end of the message\<close>

lemma bits_of_length:
  "push_bit 3 (of_nat n AND 0x1FFFFFFF :: u32) = of_nat (8 * n)"
  "push_bit 3 (of_nat (n div 2 ^ 32)) OR drop_bit 29 (of_nat n AND 0xE0000000 :: u32) =
     of_nat (8 * n div 2 ^ 32)"
proof -
  have e: "(0xE0000000 :: u32) = push_bit 29 (mask 3)" "(0x1FFFFFFF :: u32) = mask 29"
    by (simp_all add: mask_eq_exp_minus_1 push_bit_eq_mult)
  have n8: "8 * n = push_bit 3 n" by (simp add: push_bit_eq_mult)
  have dv: "n div 2 ^ 32 = drop_bit 32 n" "8 * n div 2 ^ 32 = drop_bit 32 (push_bit 3 n)"
    by (simp_all only: drop_bit_eq_div n8)
  show "push_bit 3 (of_nat n AND 0x1FFFFFFF :: u32) = of_nat (8 * n)"
    unfolding e n8 by (rule bit_word_eqI) (auto simp: bit_simps)
  show "push_bit 3 (of_nat (n div 2 ^ 32)) OR drop_bit 29 (of_nat n AND 0xE0000000 :: u32) =
     of_nat (8 * n div 2 ^ 32)"
    unfolding e dv
    by (rule bit_word_eqI) (auto simp: bit_simps)
qed

lemma bytes_of_word_of_nat:
  "bytes_of_word (of_nat n) = [of_nat n, of_nat (n div 2 ^ 8), of_nat (n div 2 ^ 16), of_nat (n div 2 ^ 24)]"
proof -
  have "(ucast (drop_bit k (of_nat n :: u32)) :: byte) = of_nat (n div 2 ^ k)" if "k \<le> 24" for k
    unfolding drop_bit_eq_div [symmetric] using that
    by (intro bit_word_eqI) (auto simp: bit_simps)
  from this [of 0] this [of 8] this [of 16] this [of 24] show ?thesis
    by (simp add: bytes_of_word_def)
qed

lemma le64_words: "le64 n = bytes_of_word (of_nat n) @ bytes_of_word (of_nat (n div 2 ^ 32))"
proof -
  have "[0..<8] = [0, 1, 2, 3, 4, 5, 6, 7 :: nat]" by code_simp
  then show ?thesis
    unfolding le64_def bytes_of_word_of_nat by (simp add: div_mult2_eq [symmetric])
qed


lemma rfc_zeros_pad:
  assumes "64 dvd d" "b \<le> 64"
  shows "int (rfc_zeros (d + b)) = (if 56 - int b \<le> 0 then 56 - int b + 64 else 56 - int b) - 1"
proof -
  obtain k where d: "d = 64 * k" using assms(1) by (auto elim: dvdE)
  have "55 - int (d + b) = 55 - int b + - int k * 64" by (simp add: d)
  then have "(55 - int (d + b)) mod 64 = (55 - int b) mod 64" by (simp only: mod_mult_self1)
  also have "\<dots> = (if 56 - int b \<le> 0 then 56 - int b + 64 else 56 - int b) - 1"
  proof (cases "56 \<le> b")
    case True
    have "(55 - int b) mod 64 = (55 - int b + 1 * 64) mod 64" by (simp only: mod_mult_self1)
    then show ?thesis using True assms(2) by simp
  qed simp
  finally show ?thesis unfolding rfc_zeros_def by simp
qed

lemma length_bytes_of_word [simp]: "length (bytes_of_word w) = 4"
  by (simp add: bytes_of_word_def)

lemma length_le64 [simp]: "length (le64 n) = 8"
  by (simp add: le64_def)

lemma length_rfc_pad: "length (rfc_pad n) = rfc_zeros n + 9"
  by (simp add: rfc_pad_def)

text \<open>The bytes \<open>md5_finish\<close> writes behind the pending ones are the padding of the reference.\<close>

lemma md5_finish_buffer:
  assumes B: "length B = MD_BUFFER_SIZE" and bl: "bl \<le> 64" and z: "bl + z + 9 \<le> 128"
  shows "bind_res (mem_copy B bl [0x80] 1) (\<lambda>mb.
      bind_res (if int z + 1 > 1 then mem_copy mb (bl + 1) (replicate (nat (int z + 1 - 1)) 0) (nat (int z + 1 - 1))
                else Inr mb) f) =
    f (take bl B @ 0x80 # replicate z 0 @ drop (bl + z + 1) B)"
proof -
  have "mem_copy B bl [0x80] 1 = Inr (take bl B @ [0x80] @ drop (bl + 1) B)"
    using assms by (subst mem_copy_Inr) auto
  moreover have "mem_copy (take bl B @ [0x80] @ drop (bl + 1) B) (bl + 1) (replicate z 0) z =
      Inr (take bl B @ 0x80 # replicate z 0 @ drop (bl + z + 1) B)"
    using assms by (subst mem_copy_Inr) (auto simp: add_ac)
  ultimately show ?thesis by (cases "z = 0") simp_all
qed

lemma mem_copy_after:
  assumes "off = length xs" "n = length src" "n \<le> length ys"
  shows "mem_copy (xs @ ys) off src n = Inr (xs @ src @ drop n ys)"
  using assms by (simp add: mem_copy_def)

text \<open>
  The padding and the length in bits fill the buffer up to a multiple of 64, and the buffer is processed:
  \<open>B\<close> is the buffer before, of which up to 64 bytes may be left behind the padded end.
\<close>

lemma md5_finish_padded:
  assumes abs: "md5_absorbed p m" and d: "d = length m - unat (md_buf_len p)"
  obtains p1 w B where "md5_finish p = bind_res (process_block p1 (md_buffer p1) w) (\<lambda>p. Inr (p, md5_get_result p))"
    "md_buffer p1 = (drop d m @ rfc_pad (length m)) @ B" "unat w = length (drop d m @ rfc_pad (length m))"
    "64 dvd unat w" "md_regs p1 = md_regs p" "md_counts p1 (length m)"
proof -
  define bl where "bl = unat (md_buf_len p)"
  define B where "B = md_buffer p"
  define z where "z = rfc_zeros (length m)"
  have m: "bl \<le> 64" "bl \<le> length m" "64 dvd d" "length B = MD_BUFFER_SIZE" "md_counts p d" "take bl B = drop d m"
    using abs by (simp_all add: md5_absorbed_def Let_def bl_def d B_def)
  have lm: "length m = d + bl" using m(2) by (simp add: d bl_def)
  define pad where "pad = (if 56 - int bl \<le> 0 then 56 - int bl + 64 else 56 - int bl)"
  have pad: "pad = int z + 1" "pad > 0"
    using rfc_zeros_pad [OF m(3,1)] by (simp_all add: pad_def z_def lm)
  define N where "N = bl + z + 9"
  have N: "N = 64 \<or> N = 128" using m(1) pad by (auto simp: pad_def N_def split: if_splits)
  define p1 where "p1 = count_bytes p (md_buf_len p)"
  have c1: "md_counts p1 (length m)"
    using count_bytes_counts [OF m(5), of "md_buf_len p"] by (simp add: p1_def lm bl_def)
  have p1: "md_buffer p1 = B" "md_regs p1 = md_regs p"
    by (simp_all add: p1_def B_def md_regs_def)
  have "uint (md_buf_len p) = int bl" by (simp add: bl_def)
  with m(1) have i32: "to_int32 (64 - 8 - uint (md_buf_len p)) = 56 - int bl"
    by (simp add: to_int32_id int_min_def int_max_def)
  define h1 where "h1 = bytes_of_word (of_nat (8 * length m))"
  define h2 where "h2 = bytes_of_word (of_nat (8 * length m div 2 ^ 32))"
  define X where "X = take bl B @ 0x80 # replicate z (0 :: byte)"
  define P where "P = drop d m @ rfc_pad (length m)"
  have P: "P = X @ h1 @ h2" "length P = N" "length X = N - 8"
    using m(1,4,6) N by (auto simp: P_def X_def h1_def h2_def rfc_pad_def z_def le64_words N_def lm)
  define mb where "mb = X @ drop (bl + z + 1) B"
  have mb: "take bl B @ 0x80 # replicate z 0 @ drop (bl + z + 1) B = mb" by (simp add: mb_def X_def)
  have "bl + z + 9 \<le> 128" using N by (auto simp: N_def)
  note fill = md5_finish_buffer [OF m(4,1) this, folded pad(1),
      of "\<lambda>mb. Inr (p1\<lparr>md_buffer := mb\<rparr>, md_buf_len p + of_int pad)"]
  have lB: "length (drop (bl + z + 1) B) \<ge> 8" using m(4) N by (auto simp: N_def)
  have h1: "mem_copy mb (N - 8) h1 4 = Inr ((X @ h1) @ drop (bl + z + 5) B)"
    unfolding mb_def using P(3) lB by (subst mem_copy_after) (auto simp: h1_def add_ac)
  have h2: "mem_copy ((X @ h1) @ drop (bl + z + 5) B) (N - 4) h2 4 = Inr (P @ drop N B)"
    unfolding P(1) using P(3) N lB by (subst mem_copy_after) (auto simp: h1_def h2_def add_ac N_def)
  have tot: "push_bit 3 (md_total0 p1 AND 0x1FFFFFFF) = (of_nat (8 * length m) :: u32)"
    "push_bit 3 (md_total1 p1) OR drop_bit 29 (md_total0 p1 AND 0xE0000000) =
       (of_nat (8 * length m div 2 ^ 32) :: u32)"
    using c1 bits_of_length [of "length m"] by (simp_all only: md_counts_def)
  define w where "w = md_buf_len p + of_int pad"
  have "unat w = N - 8"
    using m(1) N by (auto simp: w_def pad unat_word_ariths unat_of_nat32 N_def bl_def)
  then have w: "unat w = N - 8" "unat (w + 4) = N - 4" "unat (w + 4 + 4) = N"
    using N by (auto simp: unat_word_ariths)
  have upd: "md_total0 (p1\<lparr>md_buffer := b\<rparr>) = md_total0 p1"
      "md_total1 (p1\<lparr>md_buffer := b\<rparr>) = md_total1 p1" "md_buffer (p1\<lparr>md_buffer := b\<rparr>) = b"
      "p1\<lparr>md_buffer := b, md_buffer := b'\<rparr> = p1\<lparr>md_buffer := b'\<rparr>" for b b'
    by simp_all
  let ?p = "p1\<lparr>md_buffer := P @ drop N B\<rparr>"
  have "md5_finish p = bind_res (process_block ?p (md_buffer ?p) (w + 4 + 4)) (\<lambda>p. Inr (p, md5_get_result p))"
    unfolding md5_finish_def Let_def p1_def [symmetric] i32 pad_def [symmetric] if_P [OF pad(2)]
      p1(1) bl_def [symmetric] fill mb
    by (simp only: bind_res_simps prod.case upd w_def [symmetric] w tot h1_def [symmetric]
        h2_def [symmetric] h1 h2)
  then show thesis
    using w(3) P(2) N p1(2) c1 by (intro that [of ?p "w + 4 + 4" "drop N B"]) (auto simp: P_def md_regs_def md_counts_def)
qed

lemma md5_finish_rfc:
  assumes abs: "md5_absorbed p m"
  obtains p' where "md5_finish p = Inr (p', rfc_md5 m)"
proof -
  define d where "d = length m - unat (md_buf_len p)"
  have m: "d \<le> length m" "64 dvd d" "md_regs p = rfc_blocks (d div 64) rfc_init m"
    using abs by (simp_all add: md5_absorbed_def Let_def d_def)
  let ?P = "drop d m @ rfc_pad (length m)"
  obtain p1 w B where p1: "md5_finish p = bind_res (process_block p1 (md_buffer p1) w) (\<lambda>p. Inr (p, md5_get_result p))"
    "md_buffer p1 = ?P @ B" "unat w = length ?P" "64 dvd unat w" "md_regs p1 = md_regs p" "md_counts p1 (length m)"
    using md5_finish_padded [OF abs d_def] .
  have "unat w \<le> length (md_buffer p1)" using p1(2,3) by simp
  from process_block_rfc [OF p1(4) this p1(6)] obtain p2 where p2: "process_block p1 (md_buffer p1) w = Inr p2"
    "md_regs p2 = rfc_blocks (unat w div 64) (md_regs p1) (md_buffer p1)" by blast
  have "md_regs p2 = rfc_blocks (unat w div 64) (rfc_blocks (d div 64) rfc_init m) ?P"
    unfolding p2(2) p1(5) m(3) p1(2) using p1(3,4) by (intro rfc_blocks_append) simp
  also have "\<dots> = rfc_blocks (d div 64 + unat w div 64) rfc_init (m @ rfc_pad (length m))"
    using m(1,2) by (simp add: rfc_blocks_add rfc_blocks_append)
  also have "d div 64 + unat w div 64 = length (m @ rfc_pad (length m)) div 64"
    using m(1,2) p1(3) by (simp add: div_plus_div_distrib_dvd_left [symmetric])
  finally have "regs_bytes (md_regs p2) = rfc_md5 m" by (simp add: rfc_md5_def Let_def)
  then have "md5_get_result p2 = rfc_md5 m" by (simp add: md5_get_result_def md_regs_def)
  with p1(1) p2(1) show thesis by (intro that [of p2]) simp
qed


subsection \<open>The digest, whole and in chunks\<close>

text \<open>
  The use md5.h documents for a message that arrives in pieces: \<open>md5_init\<close>, \<open>md5_process\<close> once per
  piece, \<open>md5_finish\<close>.
\<close>

fun md5_process_all :: "md5_t \<Rightarrow> byte list list \<Rightarrow> md5_t res" where
  "md5_process_all p [] = Inr p"
| "md5_process_all p (c # cs) =
     bind_res (md5_process p c (of_nat (length c))) (\<lambda>p. md5_process_all p cs)"

definition md5_of_chunks :: "md5_t \<Rightarrow> byte list list \<Rightarrow> byte list res" where
  "md5_of_chunks p cs =
     bind_res (md5_process_all (md5_init p) cs) (\<lambda>p.
     bind_res (md5_finish p) (\<lambda>(p, sig). Inr sig))"

lemma unat_of_nat_small: "n < 2 ^ 32 \<Longrightarrow> unat (of_nat n :: u32) = n"
  by (simp add: unat_of_nat32)

lemma md5_process_all_absorbed:
  assumes "md5_absorbed p m" "\<forall>c \<in> set cs. length c < 2 ^ 32 - 64"
  shows "\<exists>p'. md5_process_all p cs = Inr p' \<and> md5_absorbed p' (m @ concat cs)"
  using assms
proof (induction cs arbitrary: p m)
  case Nil
  then show ?case by simp
next
  case (Cons c cs)
  have "unat (md_buf_len p) \<le> 64" using Cons.prems(1) by (simp add: md5_absorbed_def Let_def)
  with Cons.prems(2) have "unat (md_buf_len p) + length c < 2 ^ 32" by simp
  moreover from this have "unat (of_nat (length c) :: u32) = length c"
    by (intro unat_of_nat_small) simp
  ultimately obtain p1 where "md5_process p c (of_nat (length c)) = Inr p1" "md5_absorbed p1 (m @ c)"
    using md5_process_absorbed [OF Cons.prems(1)] by metis
  with Cons.IH [of p1 "m @ c"] Cons.prems(2) show ?case by simp
qed

lemma md5_of_chunks_rfc:
  assumes "length (md_buffer p) = MD_BUFFER_SIZE" "\<forall>c \<in> set cs. length c < 2 ^ 32 - 64"
  shows "md5_of_chunks p cs = Inr (rfc_md5 (concat cs))"
proof -
  obtain p1 where p1: "md5_process_all (md5_init p) cs = Inr p1" "md5_absorbed p1 (concat cs)"
    using md5_process_all_absorbed [OF md5_init_absorbed [OF assms(1)] assms(2)] by auto
  from md5_finish_rfc [OF p1(2)] obtain p2 where "md5_finish p1 = Inr (p2, rfc_md5 (concat cs))" .
  with p1(1) show ?thesis by (simp add: md5_of_chunks_def)
qed

lemma md5_of_buffer_rfc:
  assumes "length (md_buffer p) = MD_BUFFER_SIZE" "length x = unat len"
  shows "md5_of_buffer p x len = Inr (rfc_md5 x)"
proof -
  have "unat len = length x" "unat (md_buf_len (md5_init p)) + length x < 2 ^ 32"
    using assms(2) unat32_less [of len] by (simp_all add: md5_init_def)
  from md5_process_absorbed [OF md5_init_absorbed [OF assms(1)] this] obtain p1 where
    p1: "md5_process (md5_init p) x len = Inr p1" "md5_absorbed p1 x" by auto
  from md5_finish_rfc [OF p1(2)] obtain p2 where "md5_finish p1 = Inr (p2, rfc_md5 x)" .
  with p1(1) show ?thesis by (simp add: md5_of_buffer_def)
qed

text \<open>Only the first \<open>buf_len\<close> bytes of the buffer matter.\<close>

lemma md5_block_loop_append:
  "64 dvd n \<Longrightarrow> n \<le> length mem \<Longrightarrow> md5_block_loop r (mem @ t) n = md5_block_loop r mem n"
proof (induction r mem n rule: md5_block_loop.induct)
  case (1 r mem n)
  show ?case
  proof (cases "n = 0")
    case True
    then show ?thesis by (simp add: md5_block_loop.simps)
  next
    case False
    then have n: "64 \<le> n" "64 dvd n - 64" using "1.prems"(1) by (auto elim: dvdE)
    then have l: "\<not> length mem < 64" using "1.prems"(2) by simp
    from "1.IH" [OF False l n(2)] "1.prems"(2) False l show ?thesis
      by (simp add: md5_block_loop.simps [of r "mem @ t" n] md5_block_loop.simps [of r mem n])
  qed
qed

lemma md5_of_buffer_append:
  assumes "unat len = length mem"
  shows "md5_of_buffer p (mem @ t) len = md5_of_buffer p mem len"
proof -
  let ?q = "len AND NOT 63"
  have q: "unat ?q = 64 * (length mem div 64)" using and_not_mask64 [of len] assms by simp
  have le: "unat ?q \<le> length mem" and dv: "64 dvd unat ?q" unfolding q by simp_all
  have "unat ?q div 4 * 4 = unat ?q" using q by simp
  then have "process_block (md5_init p) (mem @ t) ?q = process_block (md5_init p) mem ?q"
    using md5_block_loop_append [OF dv le] by (simp add: process_block_def Let_def)
  moreover have "unat (len AND 63) = length mem mod 64" using assms by (simp add: and_mask64)
  then have "mem_copy dst 0 (drop (unat ?q) (mem @ t)) (unat (len AND 63)) =
      mem_copy dst 0 (drop (unat ?q) mem) (unat (len AND 63))" for dst
    using le q by (simp add: mem_copy_def) (auto simp flip: minus_mod_eq_mult_div)
  moreover have "mem_copy dst 0 (mem @ t) (unat len) = mem_copy dst 0 mem (unat len)" for dst
    using assms by (simp add: mem_copy_def)
  ultimately show ?thesis
    by (simp add: md5_of_buffer_def md5_process_def md5_init_def md5_direct_blocks_def md5_keep_rest_def
      bind_res_assoc cong: if_cong)
qed

subsection \<open>Signatures as strings\<close>

lemma length_rfc_md5: "length (rfc_md5 m) = 16"
proof -
  have "length (regs_bytes r) = 16" for r by (cases r) simp
  then show ?thesis by (simp add: rfc_md5_def Let_def)
qed

definition hex_byte :: "byte \<Rightarrow> string" where
  "hex_byte b = [HEX_STRING ! (unat b div 16), HEX_STRING ! (unat b mod 16)]"

definition hex_string :: "byte list \<Rightarrow> string" where
  "hex_string sig = concat (map hex_byte sig)"

lemma length_hex_string [simp]: "length (hex_string sig) = 2 * length sig"
  by (induction sig) (simp_all add: hex_string_def hex_byte_def)

lemma sig_to_string_loop_hex:
  assumes "length sig = n" "pre = take pos str" "length pre = pos" "pos + 2 * n < nat l"
    "nat l \<le> length str"
  shows "sig_to_string_loop n sig str pos l =
    Inr (pre @ hex_string sig @ drop (pos + 2 * n) str, pos + 2 * n)"
  using assms
proof (induction n arbitrary: sig str pos pre)
  case 0
  then show ?case by (simp add: hex_string_def)
next
  case (Suc n)
  then obtain b bs where sig: "sig = b # bs" "length bs = n" by (cases sig) auto
  have lt: "\<not> int pos + 1 \<ge> l" "pos < length str" "Suc pos < length str" using Suc.prems by auto
  define str' where
    "str' = str[pos := HEX_STRING ! (unat b div 16), Suc pos := HEX_STRING ! (unat b mod 16)]"
  have str': "str' = pre @ hex_byte b @ drop (pos + 2) str"
    using Suc.prems(2,3) lt(3)
    by (simp add: str'_def hex_byte_def upd_conv_take_nth_drop take_update_swap list_update_append
        drop_update_swap)
  have l: "length str' = length str" by (simp add: str'_def)
  have "sig_to_string_loop n bs str' (pos + 2) l =
      Inr ((pre @ hex_byte b) @ hex_string bs @ drop (pos + 2 + 2 * n) str', pos + 2 + 2 * n)"
    using Suc.prems sig(2) l by (intro Suc.IH) (auto simp: str' hex_byte_def)
  with lt show ?case
    using Suc.prems(3)
    by (simp add: sig Let_def poke_def str'_def [symmetric])
       (simp add: str' hex_string_def hex_byte_def add_ac)
qed


lemma md5_sig_to_string_hex:
  assumes "length sig = 16" "33 \<le> l" "l \<le> int (length str)"
  shows "md5_sig_to_string sig str l = Inr (hex_string sig @ NUL # drop 33 str)"
proof -
  have "sig_to_string_loop 16 sig str 0 l = Inr ([] @ hex_string sig @ drop (0 + 2 * 16) str, 0 + 2 * 16)"
    using assms by (intro sig_to_string_loop_hex) auto
  moreover have "(hex_string sig @ drop 32 str)[32 := NUL] = hex_string sig @ NUL # drop 33 str"
  proof -
    have "drop 32 str = str ! 32 # drop 33 str"
      using assms Cons_nth_drop_Suc [of 32 str] by simp
    with assms(1) show ?thesis by (simp add: list_update_append)
  qed
  ultimately show ?thesis using assms by (simp add: md5_sig_to_string_def poke_def)
qed

lemma hex_index_nth: "i < 16 \<Longrightarrow> hex_index (HEX_STRING ! i) = Inr i"
proof -
  have "\<forall>i \<in> set [0..<16]. hex_index (HEX_STRING ! i) = Inr i" by code_simp
  then show "i < 16 \<Longrightarrow> hex_index (HEX_STRING ! i) = Inr i" by simp
qed

lemma sig_from_string_hex:
  "sig_from_string_loop (length sig) (hex_string sig @ rest) = Inr sig"
proof (induction sig)
  case Nil
  then show ?case by simp
next
  case (Cons b sig)
  have b: "unat b div 16 < 16" using unsigned_less [where 'a = nat, of b] by (simp add: div_less_iff_less_mult)
  have "(of_nat (unat b div 16 * 16 + unat b mod 16) :: byte) = of_nat (unat b)"
    by (simp only: div_mult_mod_eq)
  then have "(of_nat (unat b div 16 * 16 + unat b mod 16) :: byte) = b" by simp
  with Cons b show ?case
    by (simp add: hex_string_def hex_byte_def hex_index_nth del: of_nat_add of_nat_mult)
qed

text \<open>Writes stay below \<open>str_len\<close>, whatever the size.\<close>

lemma sig_to_string_loop_frame:
  assumes "n \<le> length sig" "l \<le> int (length str)"
  shows "\<exists>str' pos'. sig_to_string_loop n sig str pos l = Inr (str', pos') \<and>
    length str' = length str \<and> drop (nat l) str' = drop (nat l) str"
  using assms
proof (induction n sig str pos l rule: sig_to_string_loop.induct)
  case (3 n b sig str pos l)
  show ?case
  proof (cases "int pos + 1 \<ge> l")
    case False
    let ?str = "str[pos := HEX_STRING ! (unat b div 16), pos + 1 := HEX_STRING ! (unat b mod 16)]"
    have lt: "pos < length str" "pos + 1 < length str" "pos + 1 < nat l" using False "3.prems" by auto
    then have "\<exists>str' pos'. sig_to_string_loop n sig ?str (pos + 2) l = Inr (str', pos') \<and>
        length str' = length ?str \<and> drop (nat l) str' = drop (nat l) ?str"
      using "3.prems" False by (intro "3.IH") (auto simp: poke_def)
    with lt False show ?thesis by (simp add: Let_def poke_def drop_update_cancel)
  qed (simp add: Let_def)
qed auto


subsection \<open>Properties\<close>

text \<open>
  C10: The optimised, unrolled block function is RFC 1321's: for every register state and every block,
  the 64 statements of the four rounds with the macros \<open>FF\<close>, \<open>FG\<close>, \<open>FH\<close>, \<open>FI\<close> and \<open>CYCLIC\<close> and the
  final additions give the result of the 64 table driven steps of the RFC.
\<close>
theorem process_block_is_rfc_block: "md5_block_body r blk = rfc_block r blk"
  by (rule md5_block_body_rfc)

text \<open>
  C9: The streaming interface computes the digest of the concatenation: \<open>md5_init\<close>, one
  \<open>md5_process\<close> for each piece of any list of pieces (each shorter than \<open>2 ^ 32 - 64\<close> bytes), then
  \<open>md5_finish\<close> always returns, never reads or writes outside \<open>md_buffer\<close> or the input, and gives the
  MD5 of RFC 1321 of all the bytes, for any total length (its 64-bit bit count included).
\<close>
theorem md5_streaming:
  assumes "length (md_buffer p) = MD_BUFFER_SIZE" "\<forall>c \<in> set cs. length c < 2 ^ 32 - 64"
  shows "md5_of_chunks p cs = Inr (rfc_md5 (concat cs))"
  using assms by (rule md5_of_chunks_rfc)

theorem md5_streaming_witness:
  "md5_of_chunks \<lparr>md_A = 0, md_B = 0, md_C = 0, md_D = 0, md_total0 = 0, md_total1 = 0,
      md_buf_len = 0, md_buffer = replicate 128 0\<rparr> [[97], replicate 70 98, []] =
    Inr (rfc_md5 (97 # replicate 70 98))"
  by (subst md5_streaming) simp_all

text \<open>
  \<open>md5_buffer\<close> on a whole buffer of any length an \<open>unsigned int\<close> can give returns the MD5 of
  RFC 1321 of that buffer, whatever its uninitialised local \<open>md5_t\<close> holds.
\<close>
theorem md5_buffer_correct:
  assumes "length (md_buffer p) = MD_BUFFER_SIZE" "length x = unat len"
  shows "md5_of_buffer p x len = Inr (rfc_md5 x)"
  using assms by (rule md5_of_buffer_rfc)

theorem md5_buffer_correct_witness:
  "md5_of_buffer \<lparr>md_A = 1, md_B = 2, md_C = 3, md_D = 4, md_total0 = 5, md_total1 = 6,
      md_buf_len = 7, md_buffer = replicate 128 8\<rparr> [97, 98, 99] 3 = Inr (rfc_md5 [97, 98, 99])"
  by (rule md5_buffer_correct) simp_all

text \<open>
  A signature printed by \<open>md5_sig_to_string\<close> into any area of at least 33 bytes is read back by
  \<open>md5_sig_from_string\<close>: 32 hexadecimal digits and a NUL are written, and reading them gives the
  16 bytes of the signature.
\<close>
theorem md5_sig_roundtrip:
  assumes "length sig = MD5_SIZE" "33 \<le> l" "l \<le> int (length str)"
  shows "bind_res (md5_sig_to_string sig str l) md5_sig_from_string = Inr sig"
  using md5_sig_to_string_hex [OF assms] sig_from_string_hex [of sig] assms(1)
  by (simp add: md5_sig_from_string_def)

theorem md5_sig_roundtrip_witness:
  "bind_res (md5_sig_to_string [0, 1, 2, 3, 4, 5, 6, 7, 8, 9, 10, 127, 128, 200, 254, 255]
      (replicate 40 NUL) 33) md5_sig_from_string =
    Inr [0, 1, 2, 3, 4, 5, 6, 7, 8, 9, 10, 127, 128, 200, 254, 255]"
  by (rule md5_sig_roundtrip) simp_all

text \<open>
  C40: \<open>md5_sig_to_string\<close> respects the size it is given: for every \<open>str_len\<close> up to the size of the
  area, negative and too small ones included, it returns without an access outside the area and leaves
  every byte from \<open>str_len\<close> on unchanged.
\<close>
theorem md5_sig_to_string_bounded:
  assumes "length sig = MD5_SIZE" "l \<le> int (length str)"
  shows "\<exists>str'. md5_sig_to_string sig str l = Inr str' \<and> length str' = length str \<and>
    drop (nat l) str' = drop (nat l) str"
proof -
  have "MD5_SIZE \<le> length sig" using assms(1) by simp
  from sig_to_string_loop_frame [OF this assms(2), of 0] obtain str' pos where
    s: "sig_to_string_loop 16 sig str 0 l = Inr (str', pos)" "length str' = length str"
      "drop (nat l) str' = drop (nat l) str" by auto
  show ?thesis
  proof (cases "int pos < l")
    case True
    then have "pos < nat l" "pos < length str'" using s(2) assms(2) by auto
    with s True show ?thesis by (simp add: md5_sig_to_string_def poke_def drop_update_cancel)
  next
    case False
    with s show ?thesis by (simp add: md5_sig_to_string_def)
  qed
qed

theorem md5_sig_to_string_bounded_witness:
  "\<exists>str'. md5_sig_to_string (replicate 16 255) ''abcdefgh'' 5 = Inr str' \<and> length str' = 8 \<and>
    drop 5 str' = ''fgh''"
  using md5_sig_to_string_bounded [of "replicate 16 255" 5 "''abcdefgh''"]
  by (simp add: eval_nat_numeral)

end
