(* ===== verification/Hms_Util.thy ===== *)
theory Hms_Util
  imports CString "HOL-Library.Word"
begin

section \<open>Assertions (src/src/hms/hms_util.c)\<close>

text \<open>
  \<open>hms_assert_equals\<close> and \<open>hms_assert_not_equals\<close> end the process with \<open>exit(-1)\<close> when the check
  fails. They compare two \<open>int\<close>s. The callers also pass pointers through them, as \<open>uintptr_t\<close>
  arguments that C converts to \<open>int\<close>: \<open>ptr_arg\<close> is that conversion. In the other theories a pointer
  is an option value, and \<open>nonnull\<close> is the check that it is not NULL; there every object is taken to
  lie at an address whose low 32 bits are not all zero.
\<close>

datatype hms_assert_type = HMS_ASSERT_EQ | HMS_ASSERT_NEQ

fun hms_assert_type_code :: "hms_assert_type \<Rightarrow> int" where
  "hms_assert_type_code HMS_ASSERT_EQ = 0"
| "hms_assert_type_code HMS_ASSERT_NEQ = 1"

definition hms_assert_low :: "int \<Rightarrow> int \<Rightarrow> int \<Rightarrow> unit res" where
  "hms_assert_low expected condition ty =
     (if ty = hms_assert_type_code HMS_ASSERT_EQ then
        (if \<not> (condition = expected) then Inl AssertExit else Inr ())
      else if ty = hms_assert_type_code HMS_ASSERT_NEQ then
        (if \<not> (condition \<noteq> expected) then Inl AssertExit else Inr ())
      else Inl AssertExit)"

definition hms_assert_equals :: "int \<Rightarrow> int \<Rightarrow> unit res" where
  "hms_assert_equals expected condition =
     hms_assert_low expected condition (hms_assert_type_code HMS_ASSERT_EQ)"

definition hms_assert_not_equals :: "int \<Rightarrow> int \<Rightarrow> unit res" where
  "hms_assert_not_equals expected condition =
     hms_assert_low expected condition (hms_assert_type_code HMS_ASSERT_NEQ)"

lemma hms_assert_equals_iff [simp]:
  "hms_assert_equals e c = Inr u \<longleftrightarrow> e = c"
  "hms_assert_equals e c = Inl f \<longleftrightarrow> e \<noteq> c \<and> f = AssertExit"
  by (auto simp: hms_assert_equals_def hms_assert_low_def)

lemma hms_assert_not_equals_iff [simp]:
  "hms_assert_not_equals e c = Inr u \<longleftrightarrow> e \<noteq> c"
  "hms_assert_not_equals e c = Inl f \<longleftrightarrow> e = c \<and> f = AssertExit"
  by (auto simp: hms_assert_not_equals_def hms_assert_low_def)

lemma hms_assert_bind [simp]:
  "e = c \<Longrightarrow> bind_res (hms_assert_equals e c) f = f ()"
  "e \<noteq> c \<Longrightarrow> bind_res (hms_assert_equals e c) f = Inl AssertExit"
  "e \<noteq> c \<Longrightarrow> bind_res (hms_assert_not_equals e c) f = f ()"
  "e = c \<Longrightarrow> bind_res (hms_assert_not_equals e c) f = Inl AssertExit"
  by (simp_all add: hms_assert_equals_def hms_assert_not_equals_def hms_assert_low_def)

definition ptr_arg :: "64 word \<Rightarrow> int" where
  "ptr_arg p = to_int32 (uint p)"

definition nonnull :: "'a option \<Rightarrow> 'a res" where
  "nonnull p = (case p of None \<Rightarrow> Inl AssertExit | Some x \<Rightarrow> Inr x)"

lemma nonnull_simps [simp]: "nonnull None = Inl AssertExit" "nonnull (Some x) = Inr x"
  by (simp_all add: nonnull_def)

definition assert_null :: "'a option \<Rightarrow> unit res" where
  "assert_null p = (case p of None \<Rightarrow> Inr () | Some x \<Rightarrow> Inl AssertExit)"

lemma assert_null_simps [simp]: "assert_null None = Inr ()" "assert_null (Some x) = Inl AssertExit"
  by (simp_all add: assert_null_def)

lemma nonnull_Inr [res_iff]: "nonnull p = Inr x \<longleftrightarrow> p = Some x"
  by (cases p) auto

text \<open>Signed addition, undefined on overflow; and an addition of a \<open>size_t\<close> to an \<open>int\<close>, converted back.\<close>

definition int_add :: "int \<Rightarrow> int \<Rightarrow> int res" where
  "int_add a b = (if int_min \<le> a + b \<and> a + b \<le> int_max then Inr (a + b) else Inl Undefined)"

definition add_size :: "int \<Rightarrow> nat \<Rightarrow> int" where
  "add_size a n = to_int32 (a + int n)"

lemma int_add_ok [simp]: "int_min \<le> a + b \<Longrightarrow> a + b \<le> int_max \<Longrightarrow> int_add a b = Inr (a + b)"
  by (simp add: int_add_def)

lemma add_size_ok: "0 \<le> a \<Longrightarrow> a + int n \<le> int_max \<Longrightarrow> add_size a n = a + int n"
  by (simp add: add_size_def to_int32_id int_min_def)

end
