(* ===== verification/Hms_Msg.thy ===== *)
theory Hms_Msg
  imports Hms_Util Md5
begin

section \<open>Messages (src/src/hms/hms_msg.c, src/src/include/hermes.h)\<close>

text \<open>
  The message and its operations. A \<open>char *\<close> or \<open>hms_msg *\<close> argument is an option (\<open>None\<close> is NULL), an
  output parameter is part of the result, the \<open>int\<close> a function returns is the last or first component
  as named in each definition. The two doubly linked lists of headers are Isabelle lists in list order;
  Hms_List models the links themselves, Msg_Memory the messages with their pointers. Allocation succeeds for
  every request of a nonnegative size, and \<open>free\<close> has no effect on the values. The two counters of headers are
  \<open>int\<close>s: the increments that add a header are \<open>int_add\<close>, undefined past \<open>int_max\<close>; a decrement is of a
  counter that is positive, since it has counted the header it removes (\<open>hdr_wf\<close> in Hms_Msg_Correct).

  \<open>ck\<close> is the compile-time switch \<open>HERMES_ENABLE_CHECKSUMS\<close>, which hermes.h leaves undefined.
\<close>

record hms_msg_uheader =
  uh_val :: string

record hms_msg_nheader =
  nh_key :: string
  nh_val :: string

record hms_msg =
  msg_id :: "string option"
  verb :: "string option"
  headers :: "hms_msg_uheader list"
  num_headers :: int
  named_headers :: "hms_msg_nheader list"
  num_named_headers :: int
  content_len :: int
  content :: "char list option"

definition HMS_CONTENT_LENGTH :: string where "HMS_CONTENT_LENGTH = ''Content-Length''"
definition HMS_CONTENT_CHECKSUM :: string where "HMS_CONTENT_CHECKSUM = ''Content-Checksum''"

subsection \<open>Headers\<close>

definition hms_init_header :: "hms_msg_uheader \<Rightarrow> string option \<Rightarrow> hms_msg_uheader res" where
  "hms_init_header hdr value = bind_res (nonnull value) (\<lambda>v. Inr (hdr\<lparr>uh_val := v\<rparr>))"

definition hms_create_header :: "string option \<Rightarrow> hms_msg_uheader res" where
  "hms_create_header value =
     bind_res (nonnull value) (\<lambda>v. hms_init_header \<lparr>uh_val = []\<rparr> (Some v))"

definition hms_init_named_header ::
    "hms_msg_nheader \<Rightarrow> string option \<Rightarrow> string option \<Rightarrow> hms_msg_nheader res" where
  "hms_init_named_header hdr key value =
     bind_res (nonnull key) (\<lambda>k. bind_res (nonnull value) (\<lambda>v.
     Inr (hdr\<lparr>nh_key := k, nh_val := v\<rparr>)))"

definition hms_create_named_header :: "string option \<Rightarrow> string option \<Rightarrow> hms_msg_nheader res" where
  "hms_create_named_header key value =
     bind_res (nonnull key) (\<lambda>k. bind_res (nonnull value) (\<lambda>v.
     hms_init_named_header \<lparr>nh_key = [], nh_val = []\<rparr> (Some k) (Some v)))"

subsection \<open>The message as a whole\<close>

definition hms_msg_create :: hms_msg where
  "hms_msg_create =
     \<lparr>msg_id = None, verb = None, headers = [], num_headers = 0, named_headers = [],
      num_named_headers = 0, content_len = 0, content = None\<rparr>"

fun uheaders_size :: "int \<Rightarrow> hms_msg_uheader list \<Rightarrow> int" where
  "uheaders_size sz [] = sz"
| "uheaders_size sz (uhdr # hs) = uheaders_size (add_size sz (1 + length (uh_val uhdr))) hs"

fun nheaders_size :: "int \<Rightarrow> hms_msg_nheader list \<Rightarrow> int" where
  "nheaders_size sz [] = sz"
| "nheaders_size sz (nhdr # hs) =
     nheaders_size (add_size sz (length (nh_key nhdr) + 1 + length (nh_val nhdr) + 1)) hs"

definition hms_msg_get_header_size :: "hms_msg option \<Rightarrow> int res" where
  "hms_msg_get_header_size p =
     bind_res (nonnull p) (\<lambda>msg.
     case verb msg of
       None \<Rightarrow> Inr 0
     | Some v \<Rightarrow>
         let sz = add_size 0 (length v);
             sz = uheaders_size sz (headers msg)
         in bind_res (int_add sz 1) (\<lambda>sz.
            let sz = nheaders_size sz (named_headers msg) in
            int_add sz 2))"

text \<open>
  \<open>strncpy (offset, s, n)\<close> with \<open>n\<close> the length of \<open>s\<close>, into the memory area \<open>buf\<close>: exactly the bytes
  of \<open>s\<close> are written, and a write that does not fit the area is undefined.
\<close>

definition buf_write :: "char list \<Rightarrow> nat \<Rightarrow> string \<Rightarrow> char list res" where
  "buf_write buf off s =
     (if off + length s \<le> length buf then Inr (take off buf @ s @ drop (off + length s) buf)
      else Inl Undefined)"

fun print_uheaders :: "char list \<Rightarrow> nat \<Rightarrow> hms_msg_uheader list \<Rightarrow> (char list \<times> nat) res" where
  "print_uheaders buf off [] = Inr (buf, off)"
| "print_uheaders buf off (uhdr # hs) =
     bind_res (buf_write buf off '' '') (\<lambda>buf.
     bind_res (buf_write buf (off + 1) (uh_val uhdr)) (\<lambda>buf.
     print_uheaders buf (off + 1 + length (uh_val uhdr)) hs))"

fun print_nheaders :: "char list \<Rightarrow> nat \<Rightarrow> hms_msg_nheader list \<Rightarrow> (char list \<times> nat) res" where
  "print_nheaders buf off [] = Inr (buf, off)"
| "print_nheaders buf off (nhdr # hs) =
     (let key_len = length (nh_key nhdr); val_len = length (nh_val nhdr) in
      bind_res (buf_write buf off (nh_key nhdr)) (\<lambda>buf.
      let off = off + key_len in
      bind_res (buf_write buf off '':'') (\<lambda>buf.
      let off = off + 1 in
      bind_res (buf_write buf off (nh_val nhdr)) (\<lambda>buf.
      let off = off + val_len in
      bind_res (buf_write buf off [NL]) (\<lambda>buf.
      print_nheaders buf (off + 1) hs)))))"

text \<open>The parameter \<open>len\<close> of \<open>hms_msg_print_header\<close> is never read.\<close>

definition hms_msg_print_header ::
    "hms_msg option \<Rightarrow> char list option \<Rightarrow> int \<Rightarrow> (char list \<times> int) res" where
  "hms_msg_print_header p buffer len =
     bind_res (nonnull p) (\<lambda>msg.
     bind_res (nonnull buffer) (\<lambda>buf.
     bind_res (hms_msg_get_header_size (Some msg)) (\<lambda>hdr_len.
     bind_res (case verb msg of
                 None \<Rightarrow> Inr (buf, 0)
               | Some v \<Rightarrow> bind_res (buf_write buf 0 v) (\<lambda>buf. Inr (buf, length v))) (\<lambda>(buf, off).
     bind_res (print_uheaders buf off (headers msg)) (\<lambda>(buf, off).
     bind_res (buf_write buf off [NL]) (\<lambda>buf.
     bind_res (print_nheaders buf (off + 1) (named_headers msg)) (\<lambda>(buf, off).
     bind_res (buf_write buf off [CHR ''.'', NL]) (\<lambda>buf.
     bind_res (hms_assert_equals hdr_len (to_int32 (int (off + 2)))) (\<lambda>_.
     Inr (buf, 0))))))))))"

text \<open>
  The loops of \<open>hms_msg_destroy\<close> unlink and free one header at a time; what is left of them is the
  counter that has to end at 0.
\<close>

fun destroy_headers :: "int \<Rightarrow> 'h list \<Rightarrow> int" where
  "destroy_headers num [] = num"
| "destroy_headers num (hdr # hs) = destroy_headers (num - 1) hs"

definition hms_msg_destroy :: "hms_msg option \<Rightarrow> int res" where
  "hms_msg_destroy p =
     bind_res (nonnull p) (\<lambda>msg.
     bind_res (hms_assert_equals 0 (destroy_headers (num_headers msg) (headers msg))) (\<lambda>_.
     bind_res (hms_assert_equals 0
       (destroy_headers (num_named_headers msg) (named_headers msg))) (\<lambda>_.
     Inr 0)))"

subsection \<open>Verb\<close>

definition hms_msg_set_verb :: "hms_msg option \<Rightarrow> string option \<Rightarrow> (hms_msg \<times> int) res" where
  "hms_msg_set_verb p v =
     bind_res (nonnull p) (\<lambda>msg.
     bind_res (nonnull v) (\<lambda>v.
     let msg = msg\<lparr>verb := None\<rparr> in
     bind_res (assert_null (verb msg)) (\<lambda>_.
     Inr (msg\<lparr>verb := Some v\<rparr>, 0))))"

definition hms_msg_get_verb :: "hms_msg option \<Rightarrow> (string option \<times> int) res" where
  "hms_msg_get_verb p =
     bind_res (nonnull p) (\<lambda>msg.
     case verb msg of None \<Rightarrow> Inr (None, -1) | Some v \<Rightarrow> Inr (Some v, 0))"

subsection \<open>Unnamed headers\<close>

definition hms_msg_add_header :: "hms_msg option \<Rightarrow> string option \<Rightarrow> (hms_msg \<times> int) res" where
  "hms_msg_add_header p value =
     bind_res (nonnull p) (\<lambda>msg.
     bind_res (nonnull value) (\<lambda>v.
     bind_res (hms_create_header (Some v)) (\<lambda>hdr.
     bind_res (int_add (num_headers msg) 1) (\<lambda>num.
     Inr (msg\<lparr>headers := headers msg @ [hdr], num_headers := num\<rparr>, 0)))))"

text \<open>
  The search loop: when it runs off the list, \<open>hdr\<close> is not a header and \<open>strdup (hdr->val)\<close> is
  undefined.
\<close>

fun find_header :: "int \<Rightarrow> int \<Rightarrow> hms_msg_uheader list \<Rightarrow> string res" where
  "find_header i index [] = Inl Undefined"
| "find_header i index (hdr # hs) =
     (if i = index then Inr (uh_val hdr) else find_header (i + 1) index hs)"

definition hms_msg_get_header :: "hms_msg option \<Rightarrow> int \<Rightarrow> (string option \<times> int) res" where
  "hms_msg_get_header p index =
     bind_res (nonnull p) (\<lambda>msg.
     if num_headers msg \<le> 0 \<or> index < 0 \<or> index \<ge> num_headers msg then Inr (None, -1)
     else bind_res (find_header 0 index (headers msg)) (\<lambda>v. Inr (Some v, 0)))"

fun del_header_loop ::
    "int \<Rightarrow> int \<Rightarrow> int \<Rightarrow> hms_msg_uheader list \<Rightarrow> hms_msg_uheader list \<times> int" where
  "del_header_loop i index num [] = ([], num)"
| "del_header_loop i index num (hdr # hs) =
     (if i = index then (hs, num - 1)
      else (let (hs', num') = del_header_loop (i + 1) index num hs in (hdr # hs', num')))"

definition hms_msg_del_header :: "hms_msg option \<Rightarrow> int \<Rightarrow> (hms_msg \<times> int) res" where
  "hms_msg_del_header p index =
     bind_res (nonnull p) (\<lambda>msg.
     if num_headers msg \<le> 0 \<or> index < 0 \<or> index \<ge> num_headers msg then Inr (msg, -1)
     else let (hs, num) = del_header_loop 0 index (num_headers msg) (headers msg) in
          Inr (msg\<lparr>headers := hs, num_headers := num\<rparr>, 0))"

definition hms_msg_num_headers :: "hms_msg option \<Rightarrow> int res" where
  "hms_msg_num_headers p = bind_res (nonnull p) (\<lambda>msg. Inr (num_headers msg))"

subsection \<open>Named headers\<close>

fun find_named :: "string \<Rightarrow> hms_msg_nheader list \<Rightarrow> string option" where
  "find_named key [] = None"
| "find_named key (hdr # hs) =
     (if strcasecmp (nh_key hdr) key = 0 then Some (nh_val hdr) else find_named key hs)"

definition hms_msg_get_named_header ::
    "hms_msg option \<Rightarrow> string option \<Rightarrow> (string option \<times> int) res" where
  "hms_msg_get_named_header p key =
     bind_res (nonnull p) (\<lambda>msg.
     bind_res (nonnull key) (\<lambda>k.
     case find_named k (named_headers msg) of
       Some v \<Rightarrow> Inr (Some v, 0)
     | None \<Rightarrow> Inr (None, -1)))"

fun del_named_loop ::
    "string \<Rightarrow> int \<Rightarrow> hms_msg_nheader list \<Rightarrow> hms_msg_nheader list \<times> int" where
  "del_named_loop key num [] = ([], num)"
| "del_named_loop key num (hdr # hs) =
     (if strcasecmp (nh_key hdr) key = 0 then (hs, num - 1)
      else (let (hs', num') = del_named_loop key num hs in (hdr # hs', num')))"

definition hms_msg_del_named_header ::
    "hms_msg option \<Rightarrow> string option \<Rightarrow> (hms_msg \<times> int) res" where
  "hms_msg_del_named_header p key =
     bind_res (nonnull p) (\<lambda>msg.
     bind_res (nonnull key) (\<lambda>k.
     let (hs, num) = del_named_loop k (num_named_headers msg) (named_headers msg) in
     Inr (msg\<lparr>named_headers := hs, num_named_headers := num\<rparr>, 0)))"

definition hms_msg_add_named_header ::
    "hms_msg option \<Rightarrow> string option \<Rightarrow> string option \<Rightarrow> (hms_msg \<times> int) res" where
  "hms_msg_add_named_header p key value =
     bind_res (nonnull p) (\<lambda>msg.
     bind_res (nonnull key) (\<lambda>k.
     bind_res (nonnull value) (\<lambda>v.
     bind_res (hms_msg_del_named_header (Some msg) (Some k)) (\<lambda>(msg, _).
     bind_res (hms_create_named_header (Some k) (Some v)) (\<lambda>hdr.
     bind_res (int_add (num_named_headers msg) 1) (\<lambda>num.
     Inr (msg\<lparr>named_headers := named_headers msg @ [hdr], num_named_headers := num\<rparr>, 0)))))))"

definition hms_msg_num_named_headers :: "hms_msg option \<Rightarrow> int res" where
  "hms_msg_num_named_headers p = bind_res (nonnull p) (\<lambda>msg. Inr (num_named_headers msg))"

subsection \<open>Content\<close>

text \<open>A value known to be set, as the code passes it to \<open>atoi\<close>: NULL there is undefined.\<close>

definition deref :: "'a option \<Rightarrow> 'a res" where
  "deref p = (case p of None \<Rightarrow> Inl Undefined | Some x \<Rightarrow> Inr x)"

definition hms_msg_get_body_size :: "hms_msg option \<Rightarrow> int res" where
  "hms_msg_get_body_size p =
     bind_res (nonnull p) (\<lambda>msg.
     bind_res (hms_msg_get_named_header (Some msg) (Some HMS_CONTENT_LENGTH)) (\<lambda>(value, ret).
     if 0 = ret then
       bind_res (deref value) (\<lambda>value.
       bind_res (hms_assert_equals (content_len msg) (atoi value)) (\<lambda>_.
       Inr (content_len msg)))
     else
       bind_res (hms_assert_equals 0 (content_len msg)) (\<lambda>_. Inr 0)))"

text \<open>Copying \<open>n\<close> bytes out of a memory area into a new one (\<open>malloc\<close>, \<open>memcpy\<close>).\<close>

definition copy_out :: "char list \<Rightarrow> int \<Rightarrow> char list res" where
  "copy_out mem n =
     (if n < 0 then Inl AssertExit
      else if length mem < nat n then Inl Undefined
      else Inr (take (nat n) mem))"

definition hms_msg_get_body :: "hms_msg option \<Rightarrow> (char list option \<times> int \<times> int) res" where
  "hms_msg_get_body p =
     bind_res (nonnull p) (\<lambda>msg.
     case content msg of
       Some c \<Rightarrow>
         bind_res (hms_msg_get_named_header (Some msg) (Some HMS_CONTENT_LENGTH)) (\<lambda>(value, ret).
         bind_res (hms_assert_equals 0 ret) (\<lambda>_.
         bind_res (deref value) (\<lambda>value.
         bind_res (hms_assert_equals (content_len msg) (atoi value)) (\<lambda>_.
         bind_res (copy_out c (content_len msg)) (\<lambda>data.
         Inr (Some data, content_len msg, 0))))))
     | None \<Rightarrow> Inr (None, 0, 0))"

definition hms_msg_del_body :: "hms_msg option \<Rightarrow> (hms_msg \<times> int) res" where
  "hms_msg_del_body p =
     bind_res (nonnull p) (\<lambda>msg.
     case content msg of
       Some c \<Rightarrow>
         bind_res (hms_msg_get_named_header (Some msg) (Some HMS_CONTENT_LENGTH)) (\<lambda>(value, ret).
         bind_res (hms_assert_equals 0 ret) (\<lambda>_.
         bind_res (deref value) (\<lambda>value.
         bind_res (hms_assert_equals (content_len msg) (atoi value)) (\<lambda>_.
         bind_res (hms_msg_del_named_header (Some msg) (Some HMS_CONTENT_LENGTH)) (\<lambda>(msg, ret).
         bind_res (hms_assert_equals 0 ret) (\<lambda>_.
         bind_res (hms_msg_del_named_header (Some msg) (Some HMS_CONTENT_CHECKSUM)) (\<lambda>(msg, ret).
         bind_res (hms_assert_equals 0 ret) (\<lambda>_.
         Inr (msg\<lparr>content := None, content_len := 0\<rparr>, 0)))))))))
     | None \<Rightarrow> Inr (msg, 0))"

text \<open>
  The checksum string of a memory area: \<open>md5_buffer\<close> into 16 bytes, \<open>md5_sig_to_string\<close> into 33.
  \<open>md5_uninit\<close> stands for the uninitialised local of \<open>md5_buffer\<close>; the digest does not depend on it
  (property on \<open>md5_of_buffer\<close> in Md5_Correct).
\<close>

definition md5_uninit :: md5_t where
  "md5_uninit = \<lparr>md_A = 0, md_B = 0, md_C = 0, md_D = 0, md_total0 = 0, md_total1 = 0,
     md_buf_len = 0, md_buffer = replicate 128 0\<rparr>"

definition checksum_string :: "char list \<Rightarrow> int \<Rightarrow> string res" where
  "checksum_string mem n =
     bind_res (md5_of_buffer md5_uninit (map of_char mem) (of_int n)) (\<lambda>sig.
     bind_res (md5_sig_to_string sig (replicate 33 NUL) 33) (\<lambda>s.
     Inr (cstr s)))"

definition hms_msg_set_body ::
    "bool \<Rightarrow> hms_msg option \<Rightarrow> char list option \<Rightarrow> int \<Rightarrow> (hms_msg \<times> int) res" where
  "hms_msg_set_body ck p data len =
     bind_res (nonnull p) (\<lambda>msg.
     bind_res (nonnull data) (\<lambda>data.
     bind_res (hms_assert_not_equals 0 len) (\<lambda>_.
     bind_res (hms_msg_del_body (Some msg)) (\<lambda>(msg, _).
     bind_res (assert_null (content msg)) (\<lambda>_.
     bind_res (hms_assert_equals 0 (content_len msg)) (\<lambda>_.
     bind_res (copy_out data len) (\<lambda>c.
     let msg = msg\<lparr>content := Some c, content_len := len\<rparr> in
     bind_res (hms_msg_add_named_header (Some msg) (Some HMS_CONTENT_LENGTH)
       (Some (sprintf_d len))) (\<lambda>(msg, ret).
     bind_res (hms_assert_equals 0 ret) (\<lambda>_.
     if ck then
       bind_res (checksum_string c len) (\<lambda>s.
       bind_res (hms_msg_add_named_header (Some msg) (Some HMS_CONTENT_CHECKSUM) (Some s))
         (\<lambda>(msg, ret).
       bind_res (hms_assert_equals 0 ret) (\<lambda>_.
       Inr (msg, 0))))
     else Inr (msg, 0))))))))))"

end
