(* ===== verification/Keyed_Map.thy ===== *)
theory Keyed_Map
  imports Prelude
begin

section \<open>The interface of a keyed collection\<close>

text \<open>
  Two parts of the program keep values under keys with operations of the same shape: the named headers
  of a message (keys equal up to case, a second insertion replaces) and the hash table (keys equal up to
  its comparison function, a second insertion is refused). This is their common contract, in terms of
  what a lookup returns. \<open>same m\<close> is the key equality of the collection \<open>m\<close>, \<open>upd old v\<close> what an
  insertion of \<open>v\<close> leaves under a key that held \<open>old\<close>, and \<open>inv c m\<close> says that \<open>m\<close> is well-formed and
  has room for \<open>c\<close> more insertions.
\<close>

locale keyed_map =
  fixes get :: "'m \<Rightarrow> 'k \<Rightarrow> 'v option"
    and put :: "'m \<Rightarrow> 'k \<Rightarrow> 'v \<Rightarrow> 'm res"
    and del :: "'m \<Rightarrow> 'k \<Rightarrow> 'm res"
    and same :: "'m \<Rightarrow> 'k \<Rightarrow> 'k \<Rightarrow> bool"
    and upd :: "'v option \<Rightarrow> 'v \<Rightarrow> 'v option"
    and inv :: "nat \<Rightarrow> 'm \<Rightarrow> bool"
  assumes put_law: "inv (Suc c) m \<Longrightarrow> \<exists>m'. put m k v = Inr m' \<and> inv c m' \<and> same m' = same m \<and>
      get m' = (\<lambda>k'. if same m k k' then upd (get m k) v else get m k')"
    and del_law: "inv c m \<Longrightarrow> \<exists>m'. del m k = Inr m' \<and> inv c m' \<and> same m' = same m \<and>
      get m' = (\<lambda>k'. if same m k k' then None else get m k')"
    and inv_less: "inv (Suc c) m \<Longrightarrow> inv c m"

text \<open>A sequence of operations, run on the collection and on its abstraction, a partial function.\<close>

datatype ('k, 'v) map_op = Put 'k 'v | Del 'k

fun run_ops ::
    "('m \<Rightarrow> 'k \<Rightarrow> 'v \<Rightarrow> 'm res) \<Rightarrow> ('m \<Rightarrow> 'k \<Rightarrow> 'm res) \<Rightarrow> 'm \<Rightarrow> ('k, 'v) map_op list \<Rightarrow> 'm res" where
  "run_ops put del m [] = Inr m"
| "run_ops put del m (Put k v # ops) = bind_res (put m k v) (\<lambda>m. run_ops put del m ops)"
| "run_ops put del m (Del k # ops) = bind_res (del m k) (\<lambda>m. run_ops put del m ops)"

fun spec_ops ::
    "('k \<Rightarrow> 'k \<Rightarrow> bool) \<Rightarrow> ('v option \<Rightarrow> 'v \<Rightarrow> 'v option) \<Rightarrow> ('k \<Rightarrow> 'v option) \<Rightarrow>
     ('k, 'v) map_op list \<Rightarrow> 'k \<Rightarrow> 'v option" where
  "spec_ops eq upd f [] = f"
| "spec_ops eq upd f (Put k v # ops) =
     spec_ops eq upd (\<lambda>k'. if eq k k' then upd (f k) v else f k') ops"
| "spec_ops eq upd f (Del k # ops) = spec_ops eq upd (\<lambda>k'. if eq k k' then None else f k') ops"

context keyed_map
begin

lemma run_ops_refines:
  "inv (length ops) m \<Longrightarrow> \<exists>m'. run_ops put del m ops = Inr m' \<and> inv 0 m' \<and> same m' = same m \<and>
     get m' = spec_ops (same m) upd (get m) ops"
proof (induction ops arbitrary: m)
  case Nil
  then show ?case by simp
next
  case (Cons op ops)
  then have inv: "inv (Suc (length ops)) m" by simp
  show ?case
  proof (cases op)
    case (Put k v)
    from put_law [OF inv, of k v] obtain m1 where m1: "put m k v = Inr m1" "inv (length ops) m1"
      "same m1 = same m" "get m1 = (\<lambda>k'. if same m k k' then upd (get m k) v else get m k')"
      by blast
    from Cons.IH [OF m1(2)] show ?thesis by (simp add: Put m1)
  next
    case (Del k)
    from del_law [OF inv_less [OF inv], of k] obtain m1 where m1: "del m k = Inr m1"
      "inv (length ops) m1" "same m1 = same m" "get m1 = (\<lambda>k'. if same m k k' then None else get m k')"
      by blast
    from Cons.IH [OF m1(2)] show ?thesis by (simp add: Del m1)
  qed
qed

lemma get_after_put:
  "inv (Suc c) m \<Longrightarrow> put m k v = Inr m' \<Longrightarrow>
   get m' k' = (if same m k k' then upd (get m k) v else get m k')"
  using put_law [of c m k v] by auto

end

text \<open>A collection whose insertion replaces.\<close>

locale replacing_map = keyed_map +
  assumes upd_replaces: "upd old v = Some v"
begin

lemma get_put: "inv (Suc c) m \<Longrightarrow> put m k v = Inr m' \<Longrightarrow> same m k k' \<Longrightarrow> get m' k' = Some v"
  by (simp add: get_after_put upd_replaces)

end

text \<open>A collection whose insertion keeps what is there.\<close>

locale keeping_map = keyed_map +
  assumes upd_keeps: "upd (Some w) v = Some w" "upd None v = Some v"
begin

lemma get_put_new:
  "inv (Suc c) m \<Longrightarrow> put m k v = Inr m' \<Longrightarrow> get m k = None \<Longrightarrow> same m k k' \<Longrightarrow> get m' k' = Some v"
  by (simp add: get_after_put upd_keeps)

lemma get_put_old:
  "inv (Suc c) m \<Longrightarrow> put m k v = Inr m' \<Longrightarrow> get m k = Some w \<Longrightarrow> same m k k' \<Longrightarrow> get m' k' = Some w"
  by (simp add: get_after_put upd_keeps)

end

end
