(* ===== verification/Hms_Msg_Correct.thy ===== *)
theory Hms_Msg_Correct
  imports Hms_Msg Keyed_Map Md5_Correct
begin

section \<open>Correctness of the message operations\<close>

text \<open>
  Well-formed messages (the counters agree with the lists, no two named headers have the same key, the
  content agrees with its \<open>Content-Length\<close> header), the named headers as a keyed collection, the text
  \<open>hms_msg_print_header\<close> prints, and the body operations.
\<close>

subsection \<open>Well-formed messages\<close>

definition named_wf :: "hms_msg_nheader list \<Rightarrow> bool" where
  "named_wf hs \<longleftrightarrow> distinct (map (\<lambda>h. lower (nh_key h)) hs)"

definition hdr_wf :: "hms_msg \<Rightarrow> bool" where
  "hdr_wf m \<longleftrightarrow> num_headers m = int (length (headers m)) \<and>
     num_named_headers m = int (length (named_headers m)) \<and> named_wf (named_headers m)"

definition body_wf :: "hms_msg \<Rightarrow> bool" where
  "body_wf m \<longleftrightarrow>
     (case content m of
        None \<Rightarrow> content_len m = 0 \<and> find_named HMS_CONTENT_LENGTH (named_headers m) = None
      | Some c \<Rightarrow> content_len m = int (length c) \<and> 0 < content_len m \<and> content_len m \<le> int_max \<and>
          (\<exists>v. find_named HMS_CONTENT_LENGTH (named_headers m) = Some v \<and> atoi v = content_len m))"

definition msg_wf :: "hms_msg \<Rightarrow> bool" where
  "msg_wf m \<longleftrightarrow> hdr_wf m \<and> body_wf m"

text \<open>The counters of the message can be incremented \<open>c\<close> times.\<close>

definition room :: "nat \<Rightarrow> hms_msg \<Rightarrow> bool" where
  "room c m \<longleftrightarrow> num_headers m + int c \<le> int_max \<and> num_named_headers m + int c \<le> int_max"

lemma room_le: "room c m \<Longrightarrow> c' \<le> c \<Longrightarrow> room c' m"
  by (simp add: room_def)

subsection \<open>Named headers\<close>

definition del_named :: "string \<Rightarrow> hms_msg_nheader list \<Rightarrow> hms_msg_nheader list" where
  "del_named k hs = fst (del_named_loop k 0 hs)"

lemma del_named_simps [simp]:
  "del_named k [] = []"
  "del_named k (h # hs) = (if lower (nh_key h) = lower k then hs else h # del_named k hs)"
  by (simp_all add: del_named_def split_beta)

lemma del_named_loop_eq:
  "del_named_loop k n hs = (del_named k hs, n - (if find_named k hs = None then 0 else 1))"
  by (induction hs) (auto simp: split_beta)

lemma find_named_None: "find_named k hs = None \<longleftrightarrow> lower k \<notin> (\<lambda>h. lower (nh_key h)) ` set hs"
  by (induction hs) auto

lemma del_named_absent: "find_named k hs = None \<Longrightarrow> del_named k hs = hs"
  by (induction hs) (auto split: if_splits)

lemma length_del_named:
  "int (length (del_named k hs)) = int (length hs) - (if find_named k hs = None then 0 else 1)"
  by (induction hs) auto

lemma set_del_named: "set (del_named k hs) \<subseteq> set hs"
  by (induction hs) auto

lemma del_named_filter:
  "named_wf hs \<Longrightarrow> del_named k hs = filter (\<lambda>h. lower (nh_key h) \<noteq> lower k) hs"
proof (induction hs)
  case (Cons h hs)
  have "filter (\<lambda>x. lower (nh_key x) \<noteq> lower k) hs = hs" if "lower (nh_key h) = lower k"
  proof (rule filter_True, rule ballI, rule notI)
    fix x
    assume "x \<in> set hs" "lower (nh_key x) = lower k"
    with that Cons.prems show False by (force simp: named_wf_def)
  qed
  with Cons show ?case by (auto simp: named_wf_def)
qed simp

lemma named_wf_del: "named_wf hs \<Longrightarrow> named_wf (del_named k hs)"
  by (simp add: del_named_filter) (simp add: named_wf_def distinct_map_filter)

lemma find_named_filter:
  "find_named k' (filter (\<lambda>h. lower (nh_key h) \<noteq> lower k) hs) =
     (if lower k = lower k' then None else find_named k' hs)"
  by (induction hs) auto

lemma find_named_append:
  "find_named k (hs @ hs') =
     (case find_named k hs of None \<Rightarrow> find_named k hs' | Some v \<Rightarrow> Some v)"
  by (induction hs) auto

text \<open>The two operations on arguments that are not NULL.\<close>

definition put_named :: "string \<Rightarrow> string \<Rightarrow> hms_msg_nheader list \<Rightarrow> hms_msg_nheader list" where
  "put_named k v hs = del_named k hs @ [\<lparr>nh_key = k, nh_val = v\<rparr>]"

lemma hms_msg_del_named_header_eq:
  "hms_msg_del_named_header (Some m) (Some k) =
     Inr (m\<lparr>named_headers := del_named k (named_headers m),
            num_named_headers := num_named_headers m -
              (if find_named k (named_headers m) = None then 0 else 1)\<rparr>, 0)"
  by (simp add: hms_msg_del_named_header_def del_named_loop_eq)

lemma hms_msg_add_named_header_res:
  "hms_msg_add_named_header (Some m) (Some k) (Some v) =
     bind_res (int_add (num_named_headers m - (if find_named k (named_headers m) = None then 0 else 1)) 1)
       (\<lambda>n. Inr (m\<lparr>named_headers := put_named k v (named_headers m), num_named_headers := n\<rparr>, 0))"
  by (simp add: hms_msg_add_named_header_def hms_msg_del_named_header_eq
      hms_create_named_header_def hms_init_named_header_def put_named_def)

lemma hms_msg_get_named_header_eq:
  "hms_msg_get_named_header (Some m) (Some k) =
     Inr (find_named k (named_headers m),
          if find_named k (named_headers m) = None then -1 else 0)"
  by (simp add: hms_msg_get_named_header_def split: option.splits)

lemmas named_header_eqs = hms_msg_get_named_header_eq hms_msg_add_named_header_res
  hms_msg_del_named_header_eq

lemma find_put_named:
  "named_wf hs \<Longrightarrow>
   find_named k' (put_named k v hs) = (if lower k = lower k' then Some v else find_named k' hs)"
  by (auto simp: put_named_def del_named_filter find_named_append find_named_filter
      split: option.splits)

lemma find_del_named:
  "named_wf hs \<Longrightarrow>
   find_named k' (del_named k hs) = (if lower k = lower k' then None else find_named k' hs)"
  by (simp add: del_named_filter find_named_filter)

lemma named_wf_put: "named_wf hs \<Longrightarrow> named_wf (put_named k v hs)"
  using named_wf_del [of hs k]
  by (auto simp: put_named_def named_wf_def del_named_filter)

lemma length_put_named:
  "int (length (put_named k v hs)) =
     int (length hs) - (if find_named k hs = None then 0 else 1) + 1"
  by (simp add: put_named_def length_del_named)

text \<open>An addition with its counter in range.\<close>

lemma hms_msg_add_named_header_eq:
  assumes "hdr_wf m" "int (length (put_named k v (named_headers m))) \<le> int_max"
  shows "hms_msg_add_named_header (Some m) (Some k) (Some v) =
     Inr (m\<lparr>named_headers := put_named k v (named_headers m),
            num_named_headers := int (length (put_named k v (named_headers m)))\<rparr>, 0)"
proof -
  have "int (length (put_named k v (named_headers m))) =
      num_named_headers m - (if find_named k (named_headers m) = None then 0 else 1) + 1"
    using assms(1) by (simp add: length_put_named hdr_wf_def)
  with assms(2) show ?thesis
    by (simp only: hms_msg_add_named_header_res int_add_def int_min_def) (simp del: of_nat_le_iff)
qed

lemma put_named_room:
  "hdr_wf m \<Longrightarrow> num_named_headers m < int_max \<Longrightarrow> int (length (put_named k v (named_headers m))) \<le> int_max"
  by (simp add: length_put_named hdr_wf_def)

text \<open>An addition adds at most one, and what cannot be counted any more is undefined.\<close>

lemma hms_msg_add_named_header_ok:
  assumes "hdr_wf m" "num_named_headers m < int_max"
  shows "\<exists>m'. hms_msg_add_named_header (Some m) (Some k) (Some v) = Inr (m', 0) \<and>
    m' = m\<lparr>named_headers := put_named k v (named_headers m),
      num_named_headers := int (length (put_named k v (named_headers m)))\<rparr> \<and>
    num_named_headers m' \<le> num_named_headers m + 1"
  using hms_msg_add_named_header_eq [OF assms(1) put_named_room [OF assms], of k v] assms(1)
  by (simp add: length_put_named hdr_wf_def)

lemma hms_msg_add_named_header_overflow:
  "num_named_headers m = int_max \<Longrightarrow> find_named k (named_headers m) = None \<Longrightarrow>
   hms_msg_add_named_header (Some m) (Some k) (Some v) = Inl Undefined"
  by (simp add: hms_msg_add_named_header_res int_add_def)

lemma hdr_wf_del:
  "hdr_wf m \<Longrightarrow> hms_msg_del_named_header (Some m) (Some k) = Inr (m', r) \<Longrightarrow> hdr_wf m'"
  by (auto simp: named_header_eqs hdr_wf_def length_del_named named_wf_del)

lemma hdr_wf_add:
  "hdr_wf m \<Longrightarrow> hms_msg_add_named_header (Some m) (Some k) (Some v) = Inr (m', r) \<Longrightarrow> hdr_wf m'"
  by (auto simp: named_header_eqs hdr_wf_def length_put_named named_wf_put res_iff int_add_def
      split: if_splits)

text \<open>The named headers of a message are a keyed collection that replaces.\<close>

definition nh_get :: "hms_msg \<Rightarrow> string \<Rightarrow> string option" where
  "nh_get m k = (case hms_msg_get_named_header (Some m) (Some k) of
                   Inr (v, ret) \<Rightarrow> v | Inl e \<Rightarrow> None)"

definition nh_put :: "hms_msg \<Rightarrow> string \<Rightarrow> string \<Rightarrow> hms_msg res" where
  "nh_put m k v = bind_res (hms_msg_add_named_header (Some m) (Some k) (Some v)) (\<lambda>(m, r). Inr m)"

definition nh_del :: "hms_msg \<Rightarrow> string \<Rightarrow> hms_msg res" where
  "nh_del m k = bind_res (hms_msg_del_named_header (Some m) (Some k)) (\<lambda>(m, r). Inr m)"

lemma nh_get_eq: "nh_get m k = find_named k (named_headers m)"
  by (simp add: nh_get_def named_header_eqs)

definition nh_inv :: "nat \<Rightarrow> hms_msg \<Rightarrow> bool" where
  "nh_inv c m \<longleftrightarrow> hdr_wf m \<and> num_named_headers m + int c \<le> int_max"

interpretation nh: replacing_map nh_get nh_put nh_del "\<lambda>m k k'. lower k = lower k'"
  "\<lambda>old v. Some v" nh_inv
proof unfold_locales
  fix c m k v
  assume inv: "nh_inv (Suc c) m"
  then have wf: "hdr_wf m" "named_wf (named_headers m)" "num_named_headers m < int_max"
    by (simp_all add: nh_inv_def hdr_wf_def)
  from hms_msg_add_named_header_ok [OF wf(1,3), of k v] obtain m' where
    m': "hms_msg_add_named_header (Some m) (Some k) (Some v) = Inr (m', 0)"
    "m' = m\<lparr>named_headers := put_named k v (named_headers m),
      num_named_headers := int (length (put_named k v (named_headers m)))\<rparr>"
    "num_named_headers m' \<le> num_named_headers m + 1" by blast
  have "nh_put m k v = Inr m'" using m'(1) by (simp add: nh_put_def)
  moreover have "nh_inv c m'"
    using hdr_wf_add [OF wf(1) m'(1)] m'(3) inv by (simp add: nh_inv_def)
  moreover have "nh_get m' = (\<lambda>k'. if lower k = lower k' then Some v else nh_get m k')"
    using wf(2) m'(2) by (auto simp: nh_get_eq find_put_named)
  ultimately show "\<exists>m'. nh_put m k v = Inr m' \<and> nh_inv c m' \<and>
      (\<lambda>k k'. lower k = lower k') = (\<lambda>k k'. lower k = lower k') \<and>
      nh_get m' = (\<lambda>k'. if lower k = lower k' then Some v else nh_get m k')" by blast
next
  fix c m k
  assume inv: "nh_inv c m"
  then have wf: "hdr_wf m" "named_wf (named_headers m)" by (simp_all add: nh_inv_def hdr_wf_def)
  with inv hdr_wf_del [OF wf(1)] show "\<exists>m'. nh_del m k = Inr m' \<and> nh_inv c m' \<and>
      (\<lambda>k k'. lower k = lower k') = (\<lambda>k k'. lower k = lower k') \<and>
      nh_get m' = (\<lambda>k'. if lower k = lower k' then None else nh_get m k')"
    by (auto simp: nh_inv_def nh_del_def nh_get_eq named_header_eqs find_del_named)
qed (simp_all add: nh_inv_def)

subsection \<open>Unnamed headers\<close>

lemma find_header_nth:
  "i \<le> index \<Longrightarrow> nat (index - i) < length hs \<Longrightarrow>
   find_header i index hs = Inr (uh_val (hs ! nat (index - i)))"
proof (induction i index hs rule: find_header.induct)
  case (2 i index hdr hs)
  show ?case
  proof (cases "i = index")
    case False
    with 2 have "find_header (i + 1) index hs = Inr (uh_val (hs ! nat (index - (i + 1))))"
      by (intro "2.IH") auto
    moreover have "nat (index - i) = Suc (nat (index - (i + 1)))" using False 2 by simp
    ultimately show ?thesis using False by simp
  qed simp
qed simp

lemma del_header_loop_eq:
  "i \<le> index \<Longrightarrow> nat (index - i) < length hs \<Longrightarrow>
   del_header_loop i index num hs =
     (take (nat (index - i)) hs @ drop (Suc (nat (index - i))) hs, num - 1)"
proof (induction i index num hs rule: del_header_loop.induct)
  case (2 i index num hdr hs)
  show ?case
  proof (cases "i = index")
    case False
    moreover have "nat (index - i) = Suc (nat (index - (i + 1)))" using False 2 by simp
    ultimately show ?thesis using 2 by simp
  qed simp
qed simp

lemma hms_msg_get_header_eq:
  assumes "hdr_wf m"
  shows "hms_msg_get_header (Some m) index =
    Inr (if 0 \<le> index \<and> index < int (length (headers m))
         then (Some (uh_val (headers m ! nat index)), 0) else (None, -1))"
  using assms find_header_nth [of 0 index "headers m"]
  by (auto simp: hms_msg_get_header_def hdr_wf_def nat_less_iff)

lemma hms_msg_del_header_eq:
  assumes "hdr_wf m"
  shows "hms_msg_del_header (Some m) index =
    Inr (if 0 \<le> index \<and> index < int (length (headers m))
         then (m\<lparr>headers := take (nat index) (headers m) @ drop (Suc (nat index)) (headers m),
                 num_headers := num_headers m - 1\<rparr>, 0) else (m, -1))"
  using assms del_header_loop_eq [of 0 index "headers m"]
  by (auto simp: hms_msg_del_header_def hdr_wf_def nat_less_iff)

lemma hms_msg_add_header_res:
  "hms_msg_add_header (Some m) (Some v) = bind_res (int_add (num_headers m) 1)
     (\<lambda>n. Inr (m\<lparr>headers := headers m @ [\<lparr>uh_val = v\<rparr>], num_headers := n\<rparr>, 0))"
  by (simp add: hms_msg_add_header_def hms_create_header_def hms_init_header_def)

lemma hms_msg_add_header_eq:
  assumes "0 \<le> num_headers m" "num_headers m < int_max"
  shows "hms_msg_add_header (Some m) (Some v) =
     Inr (m\<lparr>headers := headers m @ [\<lparr>uh_val = v\<rparr>], num_headers := num_headers m + 1\<rparr>, 0)"
  using assms by (simp add: hms_msg_add_header_res int_min_def)

lemma hms_msg_add_header_overflow:
  "num_headers m = int_max \<Longrightarrow> hms_msg_add_header (Some m) (Some v) = Inl Undefined"
  by (simp add: hms_msg_add_header_res int_add_def)

lemma hms_msg_set_verb_eq: "hms_msg_set_verb (Some m) (Some v) = Inr (m\<lparr>verb := Some v\<rparr>, 0)"
  by (simp add: hms_msg_set_verb_def Let_def)

subsection \<open>Content\<close>

lemma lower_keys:
  "lower HMS_CONTENT_CHECKSUM \<noteq> lower HMS_CONTENT_LENGTH"
  "lower HMS_CONTENT_LENGTH \<noteq> lower HMS_CONTENT_CHECKSUM"
  by (simp_all add: HMS_CONTENT_CHECKSUM_def HMS_CONTENT_LENGTH_def lower_def c_tolower_def)

lemma hms_msg_get_body_size_eq:
  "msg_wf m \<Longrightarrow> hms_msg_get_body_size (Some m) = Inr (content_len m)"
  by (auto simp: hms_msg_get_body_size_def named_header_eqs msg_wf_def body_wf_def deref_def
      split: option.splits)

lemma hms_msg_get_body_eq:
  "msg_wf m \<Longrightarrow> hms_msg_get_body (Some m) = Inr (content m, content_len m, 0)"
  by (auto simp: hms_msg_get_body_def named_header_eqs msg_wf_def body_wf_def deref_def copy_out_def
      split: option.splits)

text \<open>The message after the removal of its content.\<close>

definition no_body :: "hms_msg \<Rightarrow> hms_msg \<Rightarrow> bool" where
  "no_body m m' \<longleftrightarrow> content m' = None \<and> content_len m' = 0 \<and> verb m' = verb m \<and>
     headers m' = headers m \<and> num_headers m' = num_headers m \<and> msg_id m' = msg_id m \<and>
     find_named HMS_CONTENT_LENGTH (named_headers m') = None \<and>
     (\<forall>k. lower k \<notin> {lower HMS_CONTENT_LENGTH, lower HMS_CONTENT_CHECKSUM} \<longrightarrow>
        find_named k (named_headers m') = find_named k (named_headers m))"

lemma hms_msg_del_body_wf:
  assumes "msg_wf m"
  shows "\<exists>m'. hms_msg_del_body (Some m) = Inr (m', 0) \<and> msg_wf m' \<and> no_body m m' \<and>
    num_named_headers m' \<le> num_named_headers m"
proof (cases "content m")
  case None
  with assms show ?thesis
    by (auto simp: hms_msg_del_body_def msg_wf_def no_body_def body_wf_def)
next
  case (Some c)
  from assms have wf: "hdr_wf m" "named_wf (named_headers m)" by (simp_all add: msg_wf_def hdr_wf_def)
  from assms Some obtain v where v: "find_named HMS_CONTENT_LENGTH (named_headers m) = Some v"
    "atoi v = content_len m" by (auto simp: msg_wf_def body_wf_def)
  obtain m1 where m1: "hms_msg_del_named_header (Some m) (Some HMS_CONTENT_LENGTH) = Inr (m1, 0)"
    "hdr_wf m1" using hdr_wf_del [OF wf(1)] by (auto simp: named_header_eqs)
  obtain m2 where m2: "hms_msg_del_named_header (Some m1) (Some HMS_CONTENT_CHECKSUM) = Inr (m2, 0)"
    "hdr_wf m2" using hdr_wf_del [OF m1(2)] by (auto simp: named_header_eqs)
  have nh1: "named_headers m1 = del_named HMS_CONTENT_LENGTH (named_headers m)"
    using m1(1) by (auto simp: named_header_eqs)
  have nh2: "named_headers m2 = del_named HMS_CONTENT_CHECKSUM (named_headers m1)"
    using m2(1) by (auto simp: named_header_eqs)
  have wf1: "named_wf (named_headers m1)" using m1(2) by (simp add: hdr_wf_def)
  let ?m = "m2\<lparr>content := None, content_len := 0\<rparr>"
  have "hms_msg_del_body (Some m) = Inr (?m, 0)"
    using Some v m1(1) m2(1)
    by (simp add: hms_msg_del_body_def hms_msg_get_named_header_eq deref_def)
  moreover have "msg_wf ?m" using m2(2) nh2 nh1 wf(2) wf1
    by (auto simp: msg_wf_def body_wf_def hdr_wf_def find_del_named)
  moreover have "no_body m ?m" using m1(1) m2(1) wf(2) wf1 nh1 nh2
    by (auto simp: no_body_def find_del_named named_header_eqs)
  moreover have "num_named_headers ?m \<le> num_named_headers m" using m1(1) m2(1)
    by (auto simp: named_header_eqs)
  ultimately show ?thesis by blast
qed

lemma hex_string_no_NUL: "NUL \<notin> set (hex_string sig)"
proof -
  have "HEX_STRING ! (unat b mod 16) \<in> set HEX_STRING" for b :: byte
    by (rule nth_mem) (simp add: HEX_STRING_def)
  moreover have "HEX_STRING ! (unat b div 16) \<in> set HEX_STRING" for b :: byte
    using unsigned_less [where 'a = nat, of b]
    by (intro nth_mem) (simp add: HEX_STRING_def div_less_iff_less_mult)
  moreover have "NUL \<notin> set HEX_STRING" by (simp add: HEX_STRING_def)
  ultimately show ?thesis
    by (auto simp: hex_string_def hex_byte_def)
qed

lemma checksum_string_rfc:
  assumes "int (length mem) = n" "n \<le> int_max"
  shows "checksum_string mem n = Inr (hex_string (rfc_md5 (map of_char mem)))"
proof -
  have "length mem = unat (of_int n :: 32 word)"
    using assms by (simp add: unsigned_of_int take_bit_int_eq_self int_max_def)
  then have "md5_of_buffer md5_uninit (map of_char mem) (of_int n) = Inr (rfc_md5 (map of_char mem))"
    by (intro md5_of_buffer_rfc) (simp_all add: md5_uninit_def)
  then show ?thesis
    by (simp add: checksum_string_def md5_sig_to_string_hex length_rfc_md5 hex_string_no_NUL)
qed

text \<open>Only the first \<open>len\<close> bytes of the data matter.\<close>

lemma checksum_string_append:
  assumes "int (length c) = n" "n \<le> int_max"
  shows "checksum_string (c @ t) n = checksum_string c n"
proof -
  have "unat (of_int n :: 32 word) = length (map of_char c :: byte list)"
    using assms by (simp add: unsigned_of_int take_bit_int_eq_self int_max_def)
  from md5_of_buffer_append [OF this] show ?thesis by (simp add: checksum_string_def)
qed

lemma set_body_cong:
  "copy_out d len = copy_out d' len \<Longrightarrow>
   hms_msg_set_body ck (Some m) (Some d) len = hms_msg_set_body ck (Some m) (Some d') len"
  by (simp add: hms_msg_set_body_def)

text \<open>What \<open>hms_msg_set_body\<close> leaves in a well-formed message.\<close>

definition body_set :: "bool \<Rightarrow> char list \<Rightarrow> hms_msg \<Rightarrow> hms_msg \<Rightarrow> bool" where
  "body_set ck c m m' \<longleftrightarrow> content m' = Some c \<and> content_len m' = int (length c) \<and>
     verb m' = verb m \<and> headers m' = headers m \<and>
     find_named HMS_CONTENT_LENGTH (named_headers m') = Some (sprintf_d (int (length c))) \<and>
     (ck \<longrightarrow> find_named HMS_CONTENT_CHECKSUM (named_headers m') =
               Some (hex_string (rfc_md5 (map of_char c)))) \<and>
     (\<forall>k. lower k \<notin> {lower HMS_CONTENT_LENGTH, lower HMS_CONTENT_CHECKSUM} \<longrightarrow>
        find_named k (named_headers m') = find_named k (named_headers m))"

lemma hms_msg_set_body_wf:
  assumes "msg_wf m" "0 < len" "len \<le> int (length data)" "len \<le> int_max"
    "num_named_headers m + 2 \<le> int_max"
  shows "\<exists>m'. hms_msg_set_body ck (Some m) (Some data) len = Inr (m', 0) \<and> msg_wf m' \<and>
    body_set ck (take (nat len) data) m m' \<and> num_headers m' = num_headers m \<and>
    num_named_headers m' \<le> num_named_headers m + 2"
proof -
  let ?c = "take (nat len) data"
  obtain m1 where m1: "hms_msg_del_body (Some m) = Inr (m1, 0)" "msg_wf m1" "no_body m m1"
    "num_named_headers m1 \<le> num_named_headers m"
    using hms_msg_del_body_wf [OF assms(1)] by blast
  have c: "copy_out data len = Inr ?c" "int (length ?c) = len"
    using assms by (simp_all add: copy_out_def)
  define m2 where "m2 = m1\<lparr>content := Some ?c, content_len := len\<rparr>"
  have wf2: "hdr_wf m2" using m1(2) by (simp add: m2_def msg_wf_def hdr_wf_def)
  have room2: "num_named_headers m2 + 2 \<le> int_max" using m1(4) assms(5) by (simp add: m2_def)
  obtain m3 where m3: "hms_msg_add_named_header (Some m2) (Some HMS_CONTENT_LENGTH)
      (Some (sprintf_d len)) = Inr (m3, 0)" "hdr_wf m3" "num_named_headers m3 \<le> num_named_headers m2 + 1"
    using hdr_wf_add [OF wf2] hms_msg_add_named_header_ok [OF wf2] room2 by fastforce
  obtain m4 where m4: "hms_msg_add_named_header (Some m3) (Some HMS_CONTENT_CHECKSUM)
      (Some (hex_string (rfc_md5 (map of_char ?c)))) = Inr (m4, 0)" "hdr_wf m4"
      "num_named_headers m4 \<le> num_named_headers m3 + 1"
    using hdr_wf_add [OF m3(2)] hms_msg_add_named_header_ok [OF m3(2)] room2 m3(3) by fastforce
  have nh: "named_headers m3 = put_named HMS_CONTENT_LENGTH (sprintf_d len) (named_headers m1)"
    "named_headers m4 = put_named HMS_CONTENT_CHECKSUM (hex_string (rfc_md5 (map of_char ?c)))
       (named_headers m3)"
    using m3(1) m4(1) by (auto simp: named_header_eqs m2_def res_iff)
  have wfs: "named_wf (named_headers m1)" "named_wf (named_headers m3)"
    using m1(2) m3(2) by (simp_all add: hdr_wf_def msg_wf_def)
  have same: "content m3 = Some ?c" "content_len m3 = len" "verb m3 = verb m" "headers m3 = headers m"
    "content m4 = Some ?c" "content_len m4 = len" "verb m4 = verb m" "headers m4 = headers m"
    "num_headers m3 = num_headers m" "num_headers m4 = num_headers m"
    using m1(3) m3(1) m4(1) by (auto simp: named_header_eqs m2_def no_body_def res_iff)
  have at: "atoi (sprintf_d len) = len" using assms by (simp add: atoi_sprintf_d int_min_def)
  have "hms_msg_set_body ck (Some m) (Some data) len = Inr (if ck then m4 else m3, 0)"
    using assms(2) m1 c checksum_string_rfc [OF c(2) assms(4)] m3(1) m4(1)
    by (simp add: hms_msg_set_body_def no_body_def Let_def m2_def)
  moreover have "msg_wf (if ck then m4 else m3)"
    using m3(2) m4(2) same nh wfs assms c(2) at lower_keys
    by (simp add: msg_wf_def body_wf_def find_put_named)
  moreover have "body_set ck ?c m (if ck then m4 else m3)"
    using same nh wfs c(2) lower_keys m1(3)
    by (simp add: body_set_def find_put_named no_body_def)
  moreover have "num_headers (if ck then m4 else m3) = num_headers m"
    "num_named_headers (if ck then m4 else m3) \<le> num_named_headers m + 2"
    using same m3(3) m4(3) m1(4) by (simp_all add: m2_def)
  ultimately show ?thesis by blast
qed


subsection \<open>Sequences of operations\<close>

datatype msg_op = Set_Verb string | Add_Header string | Del_Header int
  | Add_Named string string | Del_Named string | Set_Body "char list" int | Del_Body

fun run_msg_op :: "bool \<Rightarrow> msg_op \<Rightarrow> hms_msg \<Rightarrow> (hms_msg \<times> int) res" where
  "run_msg_op ck (Set_Verb v) m = hms_msg_set_verb (Some m) (Some v)"
| "run_msg_op ck (Add_Header v) m = hms_msg_add_header (Some m) (Some v)"
| "run_msg_op ck (Del_Header i) m = hms_msg_del_header (Some m) i"
| "run_msg_op ck (Add_Named k v) m = hms_msg_add_named_header (Some m) (Some k) (Some v)"
| "run_msg_op ck (Del_Named k) m = hms_msg_del_named_header (Some m) (Some k)"
| "run_msg_op ck (Set_Body d n) m = hms_msg_set_body ck (Some m) (Some d) n"
| "run_msg_op ck Del_Body m = hms_msg_del_body (Some m)"

fun run_msg_ops :: "bool \<Rightarrow> hms_msg \<Rightarrow> msg_op list \<Rightarrow> hms_msg res" where
  "run_msg_ops ck m [] = Inr m"
| "run_msg_ops ck m (op # ops) = bind_res (run_msg_op ck op m) (\<lambda>(m, r). run_msg_ops ck m ops)"

text \<open>
  What a caller has to respect: the \<open>Content-Length\<close> header is the library's, and the length given
  with a body is positive and within the data.
\<close>

fun msg_op_ok :: "msg_op \<Rightarrow> bool" where
  "msg_op_ok (Add_Named k v) = (lower k \<noteq> lower HMS_CONTENT_LENGTH)"
| "msg_op_ok (Del_Named k) = (lower k \<noteq> lower HMS_CONTENT_LENGTH)"
| "msg_op_ok (Set_Body d n) = (0 < n \<and> n \<le> int (length d) \<and> n \<le> int_max)"
| "msg_op_ok _ = True"

text \<open>By how much an operation can raise a counter of headers.\<close>

fun op_adds :: "msg_op \<Rightarrow> nat" where
  "op_adds (Add_Header v) = 1"
| "op_adds (Add_Named k v) = 1"
| "op_adds (Set_Body d n) = 2"
| "op_adds _ = 0"

lemma msg_wf_create: "msg_wf hms_msg_create"
  by (simp add: hms_msg_create_def msg_wf_def hdr_wf_def body_wf_def named_wf_def)

lemma body_wf_cong:
  "content m' = content m \<Longrightarrow> content_len m' = content_len m \<Longrightarrow>
   find_named HMS_CONTENT_LENGTH (named_headers m') = find_named HMS_CONTENT_LENGTH (named_headers m)
   \<Longrightarrow> body_wf m' = body_wf m"
  unfolding body_wf_def by presburger

lemma msg_wf_named:
  assumes "msg_wf m" "lower k \<noteq> lower HMS_CONTENT_LENGTH"
    "r = hms_msg_add_named_header (Some m) (Some k) (Some v) \<and> num_named_headers m < int_max \<and> c = 1 \<or>
     r = hms_msg_del_named_header (Some m) (Some k) \<and> c = 0"
  shows "\<exists>m'. r = Inr (m', 0) \<and> msg_wf m' \<and> num_headers m' = num_headers m \<and>
    num_named_headers m' \<le> num_named_headers m + c"
proof -
  from assms(1) have wf: "hdr_wf m" "body_wf m" "named_wf (named_headers m)"
    by (simp_all add: msg_wf_def hdr_wf_def)
  from assms(3) show ?thesis
  proof
    assume r: "r = hms_msg_add_named_header (Some m) (Some k) (Some v) \<and> num_named_headers m < int_max \<and>
      c = 1"
    with hms_msg_add_named_header_ok [OF wf(1), of k v] obtain m' where m': "r = Inr (m', 0)"
      "num_named_headers m' \<le> num_named_headers m + c" by blast
    with r have "hdr_wf m'" using hdr_wf_add [OF wf(1)] by blast
    moreover from m' r wf assms(2) have "body_wf m'"
      by (subst body_wf_cong [of m' m]) (auto simp: named_header_eqs find_put_named res_iff)
    moreover have "num_headers m' = num_headers m" using m' r by (auto simp: named_header_eqs res_iff)
    ultimately show ?thesis using m' by (simp add: msg_wf_def)
  next
    assume r: "r = hms_msg_del_named_header (Some m) (Some k) \<and> c = 0"
    then obtain m' where m': "r = Inr (m', 0)" "hdr_wf m'"
      using hdr_wf_del [OF wf(1)] by (auto simp: named_header_eqs)
    moreover from m' r wf assms(2) have "body_wf m'"
      by (subst body_wf_cong [of m' m]) (auto simp: named_header_eqs find_del_named)
    moreover have "num_headers m' = num_headers m" "num_named_headers m' \<le> num_named_headers m + c"
      using m' r by (auto simp: named_header_eqs)
    ultimately show ?thesis by (simp add: msg_wf_def)
  qed
qed

lemma run_msg_op_wf:
  assumes "msg_wf m" "msg_op_ok op" "room (op_adds op + c) m"
  shows "\<exists>m' r. run_msg_op ck op m = Inr (m', r) \<and> msg_wf m' \<and> room c m'"
proof (cases op)
  case (Set_Verb v)
  with assms show ?thesis
    by (simp add: hms_msg_set_verb_eq msg_wf_def hdr_wf_def room_def body_wf_cong [of "m\<lparr>verb := _\<rparr>" m])
next
  case (Add_Header v)
  with assms show ?thesis
    by (simp add: hms_msg_add_header_eq msg_wf_def hdr_wf_def room_def
        body_wf_cong [of "m\<lparr>headers := _, num_headers := _\<rparr>" m])
next
  case (Del_Header i)
  from assms have "hdr_wf m" by (simp add: msg_wf_def)
  with assms Del_Header show ?thesis
    by (auto simp: hms_msg_del_header_eq msg_wf_def hdr_wf_def room_def
        body_wf_cong [of "m\<lparr>headers := _, num_headers := _\<rparr>" m])
next
  case (Add_Named k v)
  with assms have "num_named_headers m < int_max" by (simp add: room_def)
  with Add_Named assms msg_wf_named [OF assms(1), of k _ v 1] show ?thesis by (fastforce simp: room_def)
next
  case (Del_Named k)
  with assms msg_wf_named [OF assms(1), of k _ undefined 0] show ?thesis by (fastforce simp: room_def)
next
  case (Set_Body d n)
  with assms hms_msg_set_body_wf [OF assms(1), of n d ck] show ?thesis by (fastforce simp: room_def)
next
  case Del_Body
  with assms hms_msg_del_body_wf [OF assms(1)] show ?thesis by (fastforce simp: room_def no_body_def)
qed

lemma run_msg_ops_wf:
  "msg_wf m \<Longrightarrow> \<forall>op \<in> set ops. msg_op_ok op \<Longrightarrow> room (sum_list (map op_adds ops)) m \<Longrightarrow>
   \<exists>m'. run_msg_ops ck m ops = Inr m' \<and> msg_wf m'"
proof (induction ops arbitrary: m)
  case (Cons op ops)
  from run_msg_op_wf [of m op "sum_list (map op_adds ops)" ck] Cons.prems obtain m1 r where
    "run_msg_op ck op m = Inr (m1, r)" "msg_wf m1" "room (sum_list (map op_adds ops)) m1" by auto
  with Cons show ?case by simp
qed simp

lemma room_create: "room c hms_msg_create \<longleftrightarrow> int c \<le> int_max"
  by (simp add: room_def hms_msg_create_def)

lemma destroy_headers_eq: "destroy_headers n hs = n - int (length hs)"
  by (induction hs arbitrary: n) auto

lemma hms_msg_destroy_wf: "hdr_wf m \<Longrightarrow> hms_msg_destroy (Some m) = Inr 0"
  by (simp add: hms_msg_destroy_def destroy_headers_eq hdr_wf_def)

subsection \<open>Properties\<close>

text \<open>
  C28: No operation on a message can trip an assertion when the caller leaves the \<open>Content-Length\<close>
  header to the library and the sequence cannot count more than \<open>INT_MAX\<close> headers (an addition counts
  one, a body two at most): after any such sequence of the operations of the message API on a fresh message
  (indices out of range, absent keys and repeated bodies included) the message is well-formed, its
  body size and its body are returned and agree, and destroying it ends with both counters at zero.
  The bound is the one of the code's \<open>int\<close> counters: past it the increment of \<open>hms_msg_add_header\<close>
  or of \<open>hms_msg_add_named_header\<close> is a signed overflow, which the definitions answer with \<open>Undefined\<close>.
\<close>
theorem msg_ops_safe:
  assumes "\<forall>op \<in> set ops. msg_op_ok op" "int (sum_list (map op_adds ops)) \<le> int_max"
  shows "\<exists>m. run_msg_ops ck hms_msg_create ops = Inr m \<and> msg_wf m \<and>
    hms_msg_get_body_size (Some m) = Inr (content_len m) \<and>
    hms_msg_get_body (Some m) = Inr (content m, content_len m, 0) \<and>
    hms_msg_destroy (Some m) = Inr 0"
  using run_msg_ops_wf [OF msg_wf_create assms(1), of ck] assms(2) room_create hms_msg_get_body_size_eq hms_msg_get_body_eq
    hms_msg_destroy_wf by (auto simp: msg_wf_def)

theorem msg_ops_safe_witness:
  "\<exists>m. run_msg_ops True hms_msg_create
     [Set_Verb ''GET'', Add_Named ''k'' ''v'', Set_Body ''abc'' 3, Del_Header 4, Del_Body,
      Set_Body ''xyz'' 2] = Inr m \<and> hms_msg_destroy (Some m) = Inr 0"
  using msg_ops_safe [of "[Set_Verb ''GET'', Add_Named ''k'' ''v'', Set_Body ''abc'' 3, Del_Header 4,
     Del_Body, Set_Body ''xyz'' 2]" True]
  by (auto simp: lower_def HMS_CONTENT_LENGTH_def c_tolower_def int_max_def)

text \<open>
  C29: The named headers of a message are a map up to the case of its keys: any sequence of additions and
  removals on a well-formed message whose \<open>int\<close> counter has room for as many additions as the sequence
  is long succeeds, and a lookup afterwards answers what the same sequence of
  updates of a partial function answers, an addition replacing the value of an equal key.
\<close>
theorem named_headers_refine_map:
  assumes "hdr_wf m" "num_named_headers m + int (length ops) \<le> int_max"
  shows "\<exists>m'. run_ops nh_put nh_del m ops = Inr m' \<and> hdr_wf m' \<and>
    nh_get m' = spec_ops (\<lambda>k k'. lower k = lower k') (\<lambda>old v. Some v) (nh_get m) ops"
  using nh.run_ops_refines [of ops m] assms by (auto simp: nh_inv_def)

theorem named_headers_refine_map_witness:
  "\<exists>m'. run_ops nh_put nh_del hms_msg_create [Put ''Key'' ''1'', Put ''kEY'' ''2'', Put ''o'' ''3'',
      Del ''O''] = Inr m' \<and> nh_get m' ''KEY'' = Some ''2'' \<and> nh_get m' ''o'' = None"
proof -
  have "hdr_wf hms_msg_create" by (simp add: hms_msg_create_def hdr_wf_def named_wf_def)
  note r = named_headers_refine_map [OF this, of "[Put ''Key'' ''1'', Put ''kEY'' ''2'',
      Put ''o'' ''3'', Del ''O'']"]
  have "num_named_headers hms_msg_create + int (length [Put ''Key'' ''1'', Put ''kEY'' ''2'',
      Put ''o'' ''3'', Del ''O'']) \<le> int_max" by (simp add: hms_msg_create_def int_max_def)
  note r = r [OF this]
  have "lower ''Key'' = ''key''" "lower ''kEY'' = ''key''" "lower ''KEY'' = ''key''"
    "lower ''o'' = ''o''" "lower ''O'' = ''o''" by code_simp+
  with r show ?thesis by auto
qed

text \<open>
  C31: A body put into a message is the body taken out of it: \<open>hms_msg_set_body\<close> on a well-formed message,
  with a body already there or not, succeeds; \<open>hms_msg_get_body\<close> returns exactly the first \<open>len\<close> bytes
  of the data, NUL bytes included, the \<open>Content-Length\<close> header holds the length in decimal, with
  checksums enabled the \<open>Content-Checksum\<close> header holds the hexadecimal MD5 of RFC 1321, and the verb,
  the unnamed headers and all other named headers are as before. The \<open>int\<close> counter of the named headers has
  to have room for the two headers of a body.
\<close>
theorem set_body_get_body:
  assumes "msg_wf m" "0 < len" "len \<le> int (length data)" "len \<le> int_max"
    "num_named_headers m + 2 \<le> int_max"
  shows "\<exists>m'. hms_msg_set_body ck (Some m) (Some data) len = Inr (m', 0) \<and>
    hms_msg_get_body (Some m') = Inr (Some (take (nat len) data), len, 0) \<and>
    body_set ck (take (nat len) data) m m'"
proof -
  obtain m' where m': "hms_msg_set_body ck (Some m) (Some data) len = Inr (m', 0)" "msg_wf m'"
    "body_set ck (take (nat len) data) m m'" using hms_msg_set_body_wf [OF assms] by blast
  with hms_msg_get_body_eq [OF m'(2)] assms show ?thesis by (auto simp: body_set_def)
qed

theorem set_body_get_body_witness:
  "\<exists>m'. hms_msg_set_body True (Some hms_msg_create) (Some ''body!'') 4 = Inr (m', 0) \<and>
    hms_msg_get_body (Some m') = Inr (Some ''body'', 4, 0)"
  using set_body_get_body [OF msg_wf_create, of 4 "''body!''" True]
  by (auto simp: int_max_def eval_nat_numeral hms_msg_create_def)

text \<open>
  \<open>hms_msg_del_body\<close> on a well-formed message removes the content and both content headers and
  nothing else, and the message stays well-formed; on a message without content it changes nothing.
\<close>
theorem del_body_correct:
  assumes "msg_wf m"
  shows "\<exists>m'. hms_msg_del_body (Some m) = Inr (m', 0) \<and> msg_wf m' \<and> no_body m m' \<and>
    (content m = None \<longrightarrow> m' = m)"
  using hms_msg_del_body_wf [OF assms] by (auto simp: hms_msg_del_body_def)

theorem del_body_correct_witness:
  "\<exists>m'. hms_msg_del_body (Some hms_msg_create) = Inr (m', 0) \<and> m' = hms_msg_create"
  using del_body_correct [OF msg_wf_create] by (auto simp: hms_msg_create_def)

text \<open>
  A \<open>Content-Length\<close> header that does not agree with the stored content stops the process: if a
  caller of \<open>hms_msg_add_named_header\<close> sets it, in any case, to a value whose \<open>atoi\<close> is not the length
  of the content, then reading the body size exits, and so do reading and removing a body that exists.
\<close>
theorem forged_content_length_exits:
  assumes "hdr_wf m" "lower k = lower HMS_CONTENT_LENGTH" "atoi v \<noteq> content_len m"
    "hms_msg_add_named_header (Some m) (Some k) (Some v) = Inr (m', r)"
  shows "hms_msg_get_body_size (Some m') = Inl AssertExit \<and>
    (content m \<noteq> None \<longrightarrow> hms_msg_get_body (Some m') = Inl AssertExit \<and>
      hms_msg_del_body (Some m') = Inl AssertExit)"
proof -
  have "named_wf (named_headers m)" using assms(1) by (simp add: hdr_wf_def)
  then have "find_named HMS_CONTENT_LENGTH (named_headers m') = Some v" "content m' = content m"
    "content_len m' = content_len m"
    using assms by (auto simp: named_header_eqs find_put_named res_iff)
  with assms(3) show ?thesis
    by (auto simp: hms_msg_get_body_size_def hms_msg_get_body_def hms_msg_del_body_def
        hms_msg_get_named_header_eq deref_def)
qed

theorem forged_content_length_exits_witness:
  "hms_msg_get_body_size (Some (hms_msg_create\<lparr>named_headers := [\<lparr>nh_key = ''content-length'',
      nh_val = ''7''\<rparr>], num_named_headers := 1\<rparr>)) = Inl AssertExit"
proof -
  have "hdr_wf hms_msg_create" by (simp add: hms_msg_create_def hdr_wf_def named_wf_def)
  moreover have "lower ''content-length'' = lower HMS_CONTENT_LENGTH"
    "atoi ''7'' \<noteq> content_len hms_msg_create" by code_simp+
  moreover have "hms_msg_add_named_header (Some hms_msg_create) (Some ''content-length'') (Some ''7'') =
      Inr (hms_msg_create\<lparr>named_headers := [\<lparr>nh_key = ''content-length'', nh_val = ''7''\<rparr>],
        num_named_headers := 1\<rparr>, 0)"
    by (simp add: hms_msg_add_named_header_res hms_msg_create_def put_named_def int_min_def int_max_def)
  ultimately show ?thesis using forged_content_length_exits by blast
qed

text \<open>
  Unnamed headers are a list: \<open>hms_msg_add_header\<close> appends, \<open>hms_msg_get_header\<close> returns the element
  at an index in range and -1 with NULL at any other, \<open>hms_msg_del_header\<close> removes exactly that element
  or answers -1 and changes nothing. An addition to \<open>INT_MAX\<close> headers is undefined.
\<close>
theorem unnamed_headers_list:
  assumes "hdr_wf m" "num_headers m \<le> int_max"
  shows "hms_msg_get_header (Some m) i =
      Inr (if 0 \<le> i \<and> i < int (length (headers m))
           then (Some (uh_val (headers m ! nat i)), 0) else (None, -1))
    \<and> hms_msg_del_header (Some m) i =
      Inr (if 0 \<le> i \<and> i < int (length (headers m))
           then (m\<lparr>headers := take (nat i) (headers m) @ drop (Suc (nat i)) (headers m),
                   num_headers := int (length (headers m)) - 1\<rparr>, 0) else (m, -1))
    \<and> hms_msg_add_header (Some m) (Some v) =
      (if num_headers m = int_max then Inl Undefined
       else Inr (m\<lparr>headers := headers m @ [\<lparr>uh_val = v\<rparr>],
              num_headers := int (length (headers m)) + 1\<rparr>, 0))"
  using assms hms_msg_add_header_overflow [of m v] hms_msg_add_header_eq [of m v]
  by (auto simp: hms_msg_get_header_eq hms_msg_del_header_eq hdr_wf_def)

theorem unnamed_headers_list_witness:
  "hms_msg_get_header (Some (hms_msg_create\<lparr>headers := [\<lparr>uh_val = ''/a''\<rparr>, \<lparr>uh_val = ''/b''\<rparr>],
      num_headers := 2\<rparr>)) 1 = Inr (Some ''/b'', 0)"
proof -
  have "hdr_wf (hms_msg_create\<lparr>headers := [\<lparr>uh_val = ''/a''\<rparr>, \<lparr>uh_val = ''/b''\<rparr>], num_headers := 2\<rparr>)"
    by (simp add: hms_msg_create_def hdr_wf_def named_wf_def)
  from unnamed_headers_list [OF this, of 1] show ?thesis by (simp add: int_max_def)
qed

end
