(* ===== verification/Hms_Msg_Print.thy ===== *)
theory Hms_Msg_Print
  imports Hms_Msg_Correct
begin

section \<open>The printed form of a message header\<close>

text \<open>
  What \<open>hms_msg_print_header\<close> writes, as one string, and the agreement of \<open>hms_msg_get_header_size\<close> with it.
\<close>

definition uheaders_text :: "hms_msg_uheader list \<Rightarrow> string" where
  "uheaders_text hs = concat (map (\<lambda>h. '' '' @ uh_val h) hs)"

definition nheaders_text :: "hms_msg_nheader list \<Rightarrow> string" where
  "nheaders_text hs = concat (map (\<lambda>h. nh_key h @ '':'' @ nh_val h @ [NL]) hs)"

definition header_text :: "hms_msg \<Rightarrow> string" where
  "header_text m = (case verb m of None \<Rightarrow> [] | Some v \<Rightarrow> v) @ uheaders_text (headers m) @ [NL] @
     nheaders_text (named_headers m) @ [CHR ''.'', NL]"

lemma headers_text_simps [simp]:
  "uheaders_text [] = []" "uheaders_text (h # hs) = CHR '' '' # uh_val h @ uheaders_text hs"
  "nheaders_text [] = []"
  "nheaders_text (n # ns) = nh_key n @ CHR '':'' # nh_val n @ NL # nheaders_text ns"
  by (simp_all add: uheaders_text_def nheaders_text_def)

lemma uheaders_size_text:
  "0 \<le> sz \<Longrightarrow> sz + int (length (uheaders_text hs)) \<le> int_max \<Longrightarrow>
   uheaders_size sz hs = sz + int (length (uheaders_text hs))"
  by (induction sz hs rule: uheaders_size.induct) (auto simp: add_size_ok)

lemma nheaders_size_text:
  "0 \<le> sz \<Longrightarrow> sz + int (length (nheaders_text hs)) \<le> int_max \<Longrightarrow>
   nheaders_size sz hs = sz + int (length (nheaders_text hs))"
  by (induction sz hs rule: nheaders_size.induct) (auto simp: add_size_ok)

lemma header_size_text:
  assumes "verb m = Some v" "int (length (header_text m)) \<le> int_max"
  shows "hms_msg_get_header_size (Some m) = Inr (int (length (header_text m)))"
  using assms
  by (simp add: hms_msg_get_header_size_def header_text_def Let_def add_size_ok uheaders_size_text
      nheaders_size_text int_min_def)

text \<open>Writing behind a written prefix.\<close>

lemma buf_write_append:
  "buf_write (pre @ rest) (length pre) s =
     (if length s \<le> length rest then Inr (pre @ s @ drop (length s) rest) else Inl Undefined)"
  by (simp add: buf_write_def)

lemma buf_write_at:
  "off = length pre \<Longrightarrow> buf_write (pre @ rest) off s =
     (if length s \<le> length rest then Inr ((pre @ s) @ drop (length s) rest) else Inl Undefined)"
  by (simp add: buf_write_def)

lemma print_uheaders_text:
  "print_uheaders (pre @ rest) (length pre) hs =
     (let t = uheaders_text hs in
      if length t \<le> length rest then Inr ((pre @ t) @ drop (length t) rest, length (pre @ t))
      else Inl Undefined)"
proof (induction hs arbitrary: pre rest)
  case (Cons h hs)
  show ?case
    using Cons.IH [of "pre @ CHR '' '' # uh_val h" "drop (Suc (length (uh_val h))) rest"]
      buf_write_at [of "Suc (length pre)" "pre @ '' ''" "drop 1 rest" "uh_val h"]
    by (auto simp: buf_write_append Let_def add_ac)
qed (simp add: Let_def)

lemma print_nheaders_text:
  "print_nheaders (pre @ rest) (length pre) hs =
     (let t = nheaders_text hs in
      if length t \<le> length rest then Inr ((pre @ t) @ drop (length t) rest, length (pre @ t))
      else Inl Undefined)"
proof (induction hs arbitrary: pre rest)
  case (Cons h hs)
  let ?k = "length (nh_key h)" and ?v = "length (nh_val h)"
  show ?case
    using Cons.IH [of "pre @ nh_key h @ CHR '':'' # nh_val h @ [NL]" "drop (?k + ?v + 2) rest"]
      buf_write_at [of "length pre + ?k" "pre @ nh_key h" "drop ?k rest" "'':''"]
      buf_write_at [of "Suc (length pre + ?k)" "pre @ nh_key h @ '':''" "drop (Suc ?k) rest" "nh_val h"]
      buf_write_at [of "Suc (length pre + ?k + ?v)" "pre @ nh_key h @ CHR '':'' # nh_val h"
        "drop (Suc ?k + ?v) rest" "[NL]"]
    by (auto simp: buf_write_append Let_def add_ac)
qed (simp add: Let_def)


lemma print_header_text:
  assumes "hms_msg_get_header_size (Some m) = Inr n" "int (length (header_text m)) \<le> int_max"
  shows "hms_msg_print_header (Some m) (Some buf) len =
    (if length (header_text m) \<le> length buf then
       (if n = int (length (header_text m))
        then Inr (header_text m @ drop (length (header_text m)) buf, 0) else Inl AssertExit)
     else Inl Undefined)"
proof -
  define v where "v = (case verb m of None \<Rightarrow> [] | Some v \<Rightarrow> v)"
  let ?u = "uheaders_text (headers m)" and ?n = "nheaders_text (named_headers m)"
  have hdr: "header_text m = v @ ?u @ [NL] @ ?n @ [CHR ''.'', NL]"
    by (simp add: header_text_def v_def)
  have verb: "(case verb m of None \<Rightarrow> Inr (buf, 0)
      | Some v \<Rightarrow> bind_res (buf_write buf 0 v) (\<lambda>buf. Inr (buf, length v))) =
     (if length v \<le> length buf then Inr (v @ drop (length v) buf, length v) else Inl Undefined)"
    by (simp add: v_def buf_write_def split: option.splits)
  have conv: "to_int32 (int (length (header_text m))) = int (length (header_text m))"
    using assms(2) by (simp add: to_int32_id int_min_def)
  note u = print_uheaders_text [of v "drop (length v) buf" "headers m"]
  note nl = buf_write_at [of "length (v @ ?u)" "v @ ?u" "drop (length ?u) (drop (length v) buf)" "[NL]"]
  note ns = print_nheaders_text [of "v @ ?u @ [NL]" "drop (length v + length ?u + 1) buf"
      "named_headers m"]
  note dot = buf_write_at [of "length (v @ ?u @ [NL] @ ?n)" "v @ ?u @ [NL] @ ?n"
      "drop (length v + length ?u + 1 + length ?n) buf" "[CHR ''.'', NL]"]
  have sz: "length v + (length ?u + Suc (length ?n + 2)) = length (header_text m)" by (simp add: hdr)
  show ?thesis
    using u nl ns dot conv assms(1)
    by (auto simp: hms_msg_print_header_def verb Let_def hdr add_ac)
qed

lemma hms_msg_print_header_verb:
  assumes "verb m = Some v" "int (length (header_text m)) \<le> int_max"
  shows "hms_msg_print_header (Some m) (Some buf) len =
    (if length (header_text m) \<le> length buf
     then Inr (header_text m @ drop (length (header_text m)) buf, 0) else Inl Undefined)"
  using print_header_text [OF header_size_text [OF assms] assms(2)] by simp

subsection \<open>Properties\<close>

text \<open>
  C32: \<open>hms_msg_get_header_size\<close> is exact and \<open>hms_msg_print_header\<close> prints the wire format: for a message
  with a verb the size is the length of the text (the verb, each unnamed header behind a blank, a newline,
  a line \<open>key:value\<close> for each named header, a line with a period), the function writes exactly that
  text, leaves the rest of a larger buffer alone, passes its own length assertion and returns 0. The
  argument \<open>len\<close> plays no part: in a buffer smaller than the text it writes out of bounds, whatever
  \<open>len\<close> says.
\<close>
theorem print_header_exact:
  assumes "verb m = Some v" "int (length (header_text m)) \<le> int_max"
  shows "hms_msg_get_header_size (Some m) = Inr (int (length (header_text m))) \<and>
    hms_msg_print_header (Some m) (Some buf) len =
      (if length (header_text m) \<le> length buf
       then Inr (header_text m @ drop (length (header_text m)) buf, 0) else Inl Undefined)"
  using header_size_text [OF assms] hms_msg_print_header_verb [OF assms] by simp

theorem print_header_exact_witness:
  "hms_msg_print_header (Some \<lparr>msg_id = None, verb = Some ''GET'', headers = [\<lparr>uh_val = ''/a''\<rparr>],
      num_headers = 1, named_headers = [\<lparr>nh_key = ''k'', nh_val = ''v''\<rparr>], num_named_headers = 1,
      content_len = 0, content = None\<rparr>) (Some (replicate 15 CHR ''#'')) 0 =
    Inr (''GET /a'' @ [NL] @ ''k:v'' @ [NL] @ ''.'' @ [NL] @ ''##'', 0)"
  by (subst conjunct2 [OF print_header_exact])
    (simp_all add: header_text_def uheaders_text_def nheaders_text_def int_max_def eval_nat_numeral)

text \<open>
  A message without a verb is malformed for the printer: its size is reported as 0, and printing it,
  even into a buffer that is large enough, ends the process in the final length assertion.
\<close>
theorem print_header_no_verb:
  assumes "verb m = None" "int (length (header_text m)) \<le> int_max"
    "length (header_text m) \<le> length buf"
  shows "hms_msg_get_header_size (Some m) = Inr 0 \<and>
    hms_msg_print_header (Some m) (Some buf) len = Inl AssertExit"
proof -
  have size: "hms_msg_get_header_size (Some m) = Inr 0"
    using assms(1) by (simp add: hms_msg_get_header_size_def)
  moreover have "int (length (header_text m)) \<noteq> 0" by (simp add: header_text_def)
  ultimately show ?thesis using print_header_text [OF size assms(2)] assms(3) by simp
qed

theorem print_header_no_verb_witness:
  "hms_msg_print_header (Some hms_msg_create) (Some ''buffer'') 6 = Inl AssertExit"
  by (rule conjunct2 [OF print_header_no_verb])
    (simp_all add: header_text_def hms_msg_create_def int_max_def)

end
