(* ===== verification/Socket.thy ===== *)
theory Socket
  imports Prelude
begin

section \<open>The sockets the program reads from and writes to\<close>

text \<open>
  The operating system is not part of the program: \<open>read\<close> and \<open>send\<close> on a connected socket are
  parameters of the model, and this theory states what the code relies on, the POSIX contract of the two
  calls on a blocking stream socket. \<open>rd s n\<close> is \<open>read (fd, p, n)\<close> in the state \<open>s\<close> of the connection, with the
  count \<open>read\<close> returns, the bytes it stored at \<open>p\<close> and the next state; \<open>wr s bytes\<close> is
  \<open>send (fd, p, n, 0)\<close> of the \<open>n\<close> bytes at \<open>p\<close>, with the count it returns and the next state.
\<close>

type_synonym 's reader = "'s \<Rightarrow> nat \<Rightarrow> int \<times> char list \<times> 's"

type_synonym 's writer = "'s \<Rightarrow> char list \<Rightarrow> int \<times> 's"

text \<open>
  A \<open>send\<close> on a broken connection, one whose other end does not receive any more, returns -1 and raises SIGPIPE.
  The default action of that signal ends the process; a process that ignores it sees the -1. \<open>sends\<close> is \<open>send\<close>
  with the signal, as the code meets it.
\<close>

datatype sig_action = SigDefault | SigIgnored

type_synonym 's sender = "'s \<Rightarrow> char list \<Rightarrow> (int \<times> 's) res"

definition sends :: "sig_action \<Rightarrow> ('s \<Rightarrow> bool) \<Rightarrow> 's writer \<Rightarrow> 's sender" where
  "sends sigpipe broken wr s bs =
     (if sigpipe = SigDefault \<and> broken s then Inl Killed else Inr (wr s bs))"

lemma sends_simps [simp]:
  "sends SigIgnored broken wr s bs = Inr (wr s bs)"
  "\<not> broken s \<Longrightarrow> sends sigpipe broken wr s bs = Inr (wr s bs)"
  "broken s \<Longrightarrow> sends SigDefault broken wr s bs = Inl Killed"
  by (simp_all add: sends_def)

text \<open>
  Reading: \<open>pending s\<close> are the bytes that arrive before the first end of file or error. A call returns
  some of them, at most as many as asked for, and reports the end or an error only when none is left.
\<close>

locale socket =
  fixes rd :: "'s reader" and pending :: "'s \<Rightarrow> char list"
  assumes rd_data: "rd s n = (k, bs, s') \<Longrightarrow> 0 < k \<Longrightarrow>
      k = int (length bs) \<and> length bs \<le> n \<and> pending s = bs @ pending s'"
    and rd_end: "rd s n = (k, bs, s') \<Longrightarrow> k \<le> 0 \<Longrightarrow> 0 < n \<Longrightarrow> pending s = []"

text \<open>
  Sending: \<open>sent s\<close> are the bytes handed to the connection. A call that returns \<open>k > 0\<close> took the first
  \<open>k\<close> bytes it was given, any other call took none. A call that is given bytes takes some or fails. It
  does not fail while the connection is \<open>up\<close>, and fails on one that is \<open>broken\<close>.
\<close>

locale sink =
  fixes wr :: "'s writer" and sent :: "'s \<Rightarrow> char list" and up :: "'s \<Rightarrow> bool" and broken :: "'s \<Rightarrow> bool"
  assumes wr_some: "wr s bs = (k, s') \<Longrightarrow> 0 < k \<Longrightarrow>
      k \<le> int (length bs) \<and> sent s' = sent s @ take (nat k) bs"
    and wr_none: "wr s bs = (k, s') \<Longrightarrow> k \<le> 0 \<Longrightarrow> sent s' = sent s"
    and wr_blocks: "wr s bs = (k, s') \<Longrightarrow> bs \<noteq> [] \<Longrightarrow> k = -1 \<or> 0 < k"
    and wr_up: "wr s bs = (k, s') \<Longrightarrow> up s \<Longrightarrow> k \<noteq> -1 \<and> up s'"
    and wr_broken: "wr s bs = (k, s') \<Longrightarrow> broken s \<Longrightarrow> k = -1"
begin

lemma up_sends:
  assumes "up s"
  shows "sends sigpipe broken wr s bs = Inr (wr s bs)"
proof -
  obtain k s' where w: "wr s bs = (k, s')" by force
  from wr_up [OF w assms] wr_broken [OF w] show ?thesis by (auto simp: sends_def)
qed

end

subsection \<open>A scripted socket\<close>

text \<open>
  A connection as the list of the segments that arrive, split in any way, with ends of file (the empty
  segment) and errors anywhere.
\<close>

datatype rd_event = RData "char list" | RErr

fun sock_read :: "rd_event list reader" where
  "sock_read [] n = (0, [], [])"
| "sock_read (RErr # es) n = (-1, [], es)"
| "sock_read (RData bs # es) n =
     (if length bs \<le> n then (int (length bs), bs, es)
      else (int n, take n bs, RData (drop n bs) # es))"

fun sock_pending :: "rd_event list \<Rightarrow> char list" where
  "sock_pending [] = []"
| "sock_pending (RErr # es) = []"
| "sock_pending (RData bs # es) = (if bs = [] then [] else bs @ sock_pending es)"

interpretation script: socket sock_read sock_pending
proof
  fix s n k bs s'
  assume "sock_read s n = (k, bs, s')" "0 < k"
  then show "k = int (length bs) \<and> length bs \<le> n \<and> sock_pending s = bs @ sock_pending s'"
    by (induction s n rule: sock_read.induct) (auto split: if_splits)
next
  fix s n k bs s'
  assume "sock_read s n = (k, bs, s')" "k \<le> 0" "0 < n"
  then show "sock_pending s = []"
    by (induction s n rule: sock_read.induct) (auto split: if_splits)
qed

text \<open>The connection on which everything has arrived: the reference the others are compared with.\<close>

definition list_read :: "char list reader" where
  "list_read s n = (int (min n (length s)), take n s, drop n s)"

interpretation whole: socket list_read "\<lambda>s. s"
  by unfold_locales (auto simp: list_read_def min_def split: if_splits)

text \<open>
  The other direction: at each call the kernel takes at most the given number of bytes (at least one), or
  fails, once (\<open>WErr\<close>) or because the connection is broken, and then for good (\<open>WPipe\<close>); when the script has
  ended it takes everything.
\<close>

datatype wr_event = WTake nat | WErr | WPipe

type_synonym wr_sock = "wr_event list \<times> char list"

fun sock_write :: "wr_sock writer" where
  "sock_write ([], out) bs = (int (length bs), [], out @ bs)"
| "sock_write (WErr # es, out) bs = (-1, es, out)"
| "sock_write (WPipe # es, out) bs = (-1, WPipe # es, out)"
| "sock_write (WTake k # es, out) bs =
     (int (min (max 1 k) (length bs)), es, out @ take (max 1 k) bs)"

definition sock_sent :: "wr_sock \<Rightarrow> char list" where
  "sock_sent s = snd s"

definition sock_up :: "wr_sock \<Rightarrow> bool" where
  "sock_up s \<longleftrightarrow> WErr \<notin> set (fst s) \<and> WPipe \<notin> set (fst s)"

definition sock_broken :: "wr_sock \<Rightarrow> bool" where
  "sock_broken s \<longleftrightarrow> (case fst s of WPipe # es \<Rightarrow> True | _ \<Rightarrow> False)"

interpretation out: sink sock_write sock_sent sock_up sock_broken
proof
  fix s bs k s'
  assume "sock_write s bs = (k, s')" "0 < k"
  then show "k \<le> int (length bs) \<and> sock_sent s' = sock_sent s @ take (nat k) bs"
    by (induction s bs rule: sock_write.induct) (auto simp: sock_sent_def min_def split: if_splits)
next
  fix s bs k s'
  assume "sock_write s bs = (k, s')" "k \<le> 0"
  then show "sock_sent s' = sock_sent s"
    by (induction s bs rule: sock_write.induct) (auto simp: sock_sent_def min_def split: if_splits)
next
  fix s bs k s'
  assume "sock_write s bs = (k, s')" "bs \<noteq> []"
  then show "k = -1 \<or> 0 < k"
    by (induction s bs rule: sock_write.induct) (auto simp: min_def split: if_splits)
next
  fix s bs k s'
  assume "sock_write s bs = (k, s')" "sock_up s"
  then show "k \<noteq> -1 \<and> sock_up s'"
    by (induction s bs rule: sock_write.induct) (auto simp: sock_up_def)
next
  fix s bs k s'
  assume "sock_write s bs = (k, s')" "sock_broken s"
  then show "k = -1"
    by (induction s bs rule: sock_write.induct) (auto simp: sock_broken_def)
qed

subsection \<open>A connection\<close>

text \<open>
  Both directions of one connection, the time of day, and what the process does with SIGPIPE: reading does not
  change what was sent, sending does not change what arrives, and \<open>asctime_r\<close> makes one line of at most 29 bytes.
\<close>

record 's env =
  env_read :: "'s reader"
  env_send :: "'s writer"
  env_time :: "'s \<Rightarrow> string \<times> 's"
  env_broken :: "'s \<Rightarrow> bool"
  env_sigpipe :: sig_action

definition env_sender :: "'s env \<Rightarrow> 's sender" where
  "env_sender E = sends (env_sigpipe E) (env_broken E) (env_send E)"

lemma env_sender_ignored: "env_sigpipe E = SigIgnored \<Longrightarrow> env_sender E s bs = Inr (env_send E s bs)"
  by (simp add: env_sender_def)

locale connection = socket "env_read E" pending + sink "env_send E" sent up "env_broken E"
  for E :: "'s env" and pending :: "'s \<Rightarrow> char list" and sent :: "'s \<Rightarrow> char list"
    and up :: "'s \<Rightarrow> bool" +
  assumes read_keeps: "env_read E s n = (k, bs, s') \<Longrightarrow> sent s' = sent s \<and> up s' = up s"
    and send_keeps: "env_send E s bs = (k, s') \<Longrightarrow> pending s' = pending s"
    and time_keeps: "env_time E s = (t, s') \<Longrightarrow>
      pending s' = pending s \<and> sent s' = sent s \<and> up s' = up s"
    and time_line: "env_time E s = (t, s') \<Longrightarrow>
      \<exists>l. t = l @ [CHR 0x0A] \<and> length l \<le> 28 \<and> CHR 0x00 \<notin> set l \<and> CHR 0x0A \<notin> set l"

text \<open>
  The scripted connection: what arrives, how much is taken of what is sent, and the times. \<open>conn_env\<close> is that of
  a process that ignores SIGPIPE, as a server does since \<open>hermes_init\<close>; \<open>bare_env\<close> that of a process that leaves
  the signal at its default.
\<close>

record conn =
  arrives :: "rd_event list"
  leaves :: wr_sock
  clock :: "string list"

definition clock_line :: "string \<Rightarrow> string" where
  "clock_line t = take 24 (filter (\<lambda>c. c \<noteq> CHR 0x00 \<and> c \<noteq> CHR 0x0A) t) @ [CHR 0x0A]"

definition conn_env :: "conn env" where
  "conn_env =
     \<lparr>env_read = (\<lambda>c n. case sock_read (arrives c) n of (k, bs, es) \<Rightarrow> (k, bs, c\<lparr>arrives := es\<rparr>)),
      env_send = (\<lambda>c bs. case sock_write (leaves c) bs of (k, es) \<Rightarrow> (k, c\<lparr>leaves := es\<rparr>)),
      env_time = (\<lambda>c. case clock c of
        [] \<Rightarrow> (clock_line [], c) | t # ts \<Rightarrow> (clock_line t, c\<lparr>clock := ts\<rparr>)),
      env_broken = (\<lambda>c. sock_broken (leaves c)), env_sigpipe = SigIgnored\<rparr>"

definition bare_env :: "conn env" where
  "bare_env = conn_env\<lparr>env_sigpipe := SigDefault\<rparr>"

abbreviation conn_pending :: "conn \<Rightarrow> char list" where
  "conn_pending c \<equiv> sock_pending (arrives c)"

abbreviation conn_sent :: "conn \<Rightarrow> char list" where
  "conn_sent c \<equiv> sock_sent (leaves c)"

abbreviation conn_up :: "conn \<Rightarrow> bool" where
  "conn_up c \<equiv> sock_up (leaves c)"

lemma clock_line_ok:
  "\<exists>l. clock_line t = l @ [CHR 0x0A] \<and> length l \<le> 28 \<and> CHR 0x00 \<notin> set l \<and> CHR 0x0A \<notin> set l"
  by (auto simp: clock_line_def dest: in_set_takeD)

interpretation net: connection conn_env conn_pending conn_sent conn_up
proof (unfold_locales, goal_cases)
  case (1 s n k bs s')
  then show ?case using script.rd_data [of "arrives s" n] by (auto simp: conn_env_def split: prod.splits)
next
  case (2 s n k bs s')
  then show ?case using script.rd_end [of "arrives s" n] by (auto simp: conn_env_def split: prod.splits)
next
  case (3 s bs k s')
  then show ?case using out.wr_some [of "leaves s" bs] by (auto simp: conn_env_def split: prod.splits)
next
  case (4 s bs k s')
  then show ?case using out.wr_none [of "leaves s" bs] by (auto simp: conn_env_def split: prod.splits)
next
  case (5 s bs k s')
  then show ?case using out.wr_blocks [of "leaves s" bs] by (auto simp: conn_env_def split: prod.splits)
next
  case (6 s bs k s')
  then show ?case using out.wr_up [of "leaves s" bs] by (auto simp: conn_env_def split: prod.splits)
next
  case (7 s bs k s')
  then show ?case using out.wr_broken [of "leaves s" bs] by (auto simp: conn_env_def split: prod.splits)
next
  case (11 s t s')
  then show ?case using clock_line_ok by (auto simp: conn_env_def split: list.splits)
qed (auto simp: conn_env_def split: prod.splits list.splits)

text \<open>The contract of a connection does not depend on the action for SIGPIPE.\<close>

lemma connection_sigpipe:
  "connection E pending sent up \<Longrightarrow> connection (E\<lparr>env_sigpipe := a\<rparr>) pending sent up"
  by (simp add: connection_def connection_axioms_def)

interpretation bare: connection bare_env conn_pending conn_sent conn_up
  unfolding bare_env_def by (rule connection_sigpipe [OF net.connection_axioms])

lemma conn_sigpipe [simp]: "env_sigpipe conn_env = SigIgnored" "env_sigpipe bare_env = SigDefault"
  by (simp_all add: conn_env_def bare_env_def)

end
