(* ===== verification/Hms_Parser.thy ===== *)
theory Hms_Parser
  imports Hms_Msg Socket
begin

section \<open>The message parser (src/src/hms/hms_parser.c)\<close>

text \<open>
  \<open>hms_msg_parse\<close> and its helpers. The socket is a parameter: \<open>rd s n\<close> is \<open>read (fd, p, n)\<close> in the
  state \<open>s\<close> of the connection, as Socket describes it.

  A memory area is a list of bytes and a write outside it is undefined. A pointer into the header buffer
  is an index. \<open>strtok_r\<close>, \<open>strchr\<close> and \<open>__hms_str_strip\<close> cut a string in place by writing NUL bytes
  into the buffer; here they return the pieces.
\<close>

text \<open>What \<open>malloc\<close> returns: an area of some contents.\<close>

definition malloc_area :: "nat \<Rightarrow> char list" where
  "malloc_area n = replicate n (CHR 0xA5)"

text \<open>The comparison of an \<open>unsigned\<close> with an \<open>int\<close> converts the \<open>int\<close>.\<close>

definition to_unsigned :: "int \<Rightarrow> nat" where
  "to_unsigned x = nat (x mod 2 ^ 32)"

subsection \<open>Reading the header\<close>

text \<open>
  The loop of \<open>__hms_parse_read_header\<close>, with its variables \<open>buffer\<close>, \<open>hdr_len\<close>, \<open>dot_seen\<close>, \<open>dot_ptr\<close>;
  the result also holds \<open>is_done\<close>.
\<close>

function read_header_loop ::
    "'s reader \<Rightarrow> nat \<Rightarrow> char list \<Rightarrow> nat \<Rightarrow> bool \<Rightarrow> nat option \<Rightarrow> 's \<Rightarrow>
     ((char list \<times> nat \<times> nat option \<times> bool) \<times> 's) res" where
  "read_header_loop rd buf_len buffer hdr_len dot_seen dot_ptr s =
     (if hdr_len < buf_len then
        (case rd s 1 of (ret, bytes, s) \<Rightarrow>
           if ret = 1 then
             (let c = hd bytes; c = (if c = CR then CHR '' '' else c) in
              bind_res (poke buffer hdr_len c) (\<lambda>buffer.
              let hdr_len = hdr_len + 1 in
              if c = CHR ''.'' then
                read_header_loop rd buf_len buffer hdr_len True (Some (hdr_len - 1)) s
              else if dot_seen \<and> c = NL then Inr ((buffer, hdr_len, dot_ptr, True), s)
              else if dot_seen \<and> (c \<noteq> CHR '' '' \<and> c \<noteq> CR \<and> c \<noteq> NL) then
                read_header_loop rd buf_len buffer hdr_len False None s
              else read_header_loop rd buf_len buffer hdr_len dot_seen dot_ptr s))
           else Inr ((buffer, hdr_len, dot_ptr, False), s))
      else Inr ((buffer, hdr_len, dot_ptr, False), s))"
  by pat_completeness auto
termination
  by (relation "measure (\<lambda>(rd, buf_len, buffer, hdr_len, dot_seen, dot_ptr, s). buf_len - hdr_len)")
    auto

declare read_header_loop.simps [simp del]

definition hms_parse_read_header ::
    "'s reader \<Rightarrow> char list option \<Rightarrow> int \<Rightarrow> 's \<Rightarrow> ((char list \<times> int) \<times> 's) res" where
  "hms_parse_read_header rd p buf_len s =
     bind_res (nonnull p) (\<lambda>buffer.
     bind_res (hms_assert_not_equals 0 buf_len) (\<lambda>_.
     bind_res (read_header_loop rd (to_unsigned buf_len) buffer 0 False None s)
       (\<lambda>((buffer, hdr_len, dot_ptr, is_done), s).
     bind_res (case dot_ptr of None \<Rightarrow> Inr buffer | Some i \<Rightarrow> poke buffer i NUL) (\<lambda>buffer.
     bind_res (if hdr_len < to_unsigned buf_len then poke buffer hdr_len NUL else Inr buffer)
       (\<lambda>buffer.
     Inr ((buffer, if is_done then int hdr_len else -1), s))))))"

subsection \<open>Parsing the header\<close>

text \<open>The loop of \<open>__hms_parse_verb_line\<close> over the words of the line.\<close>

function verb_line_loop :: "hms_msg \<Rightarrow> nat \<Rightarrow> bool \<Rightarrow> string \<Rightarrow> (hms_msg \<times> bool) res" where
  "verb_line_loop msg count found_verb s =
     (case strtok_r [CHR '' '', CHR 0x09] s of
        None \<Rightarrow> Inr (msg, found_verb)
      | Some (word, s) \<Rightarrow>
          if count = 0 then
            bind_res (hms_msg_set_verb (Some msg) (Some word)) (\<lambda>(msg, _).
            verb_line_loop msg (count + 1) True s)
          else
            bind_res (hms_msg_add_header (Some msg) (Some word)) (\<lambda>(msg, _).
            verb_line_loop msg (count + 1) found_verb s))"
  by pat_completeness auto
termination
  by (relation "measure (\<lambda>(msg, count, found_verb, s). length s)") (auto dest: strtok_r_shorter)

declare verb_line_loop.simps [simp del]

definition hms_parse_verb_line :: "hms_msg \<Rightarrow> string \<Rightarrow> (hms_msg \<times> int) res" where
  "hms_parse_verb_line msg line =
     bind_res (verb_line_loop msg 0 False line) (\<lambda>(msg, found_verb).
     Inr (msg, if found_verb then 0 else -1))"

text \<open>
  \<open>__hms_str_strip\<close>. On a blank string its second loop steps back over the blanks before the string and
  stops at a NUL: for a value the one that replaced the colon, for a key the one \<open>strtok_r\<close> put behind the
  line before.
\<close>

definition hms_str_strip :: "string \<Rightarrow> string" where
  "hms_str_strip str = rev (dropWhile isspace (rev (dropWhile isspace str)))"

definition strchr :: "string \<Rightarrow> char \<Rightarrow> nat option" where
  "strchr s c =
     (let n = length (takeWhile (\<lambda>x. x \<noteq> c) s) in if n < length s then Some n else None)"

definition hms_parse_named_header :: "hms_msg \<Rightarrow> string \<Rightarrow> int \<Rightarrow> (hms_msg \<times> int \<times> int) res" where
  "hms_parse_named_header msg line body_len =
     (case strchr line (CHR '':'') of
        None \<Rightarrow> Inr (msg, body_len, -1)
      | Some i \<Rightarrow>
          let key = hms_str_strip (take i line); val = hms_str_strip (drop (i + 1) line);
              is_len = (strcasecmp key HMS_CONTENT_LENGTH = 0);
              body_len = (if is_len then to_int32 (strtol10 val) else body_len)
          in if is_len \<and> body_len = 0 then Inr (msg, body_len, -1)
             else bind_res (hms_msg_add_named_header (Some msg) (Some key) (Some val)) (\<lambda>(msg, _).
                  Inr (msg, body_len, 0)))"

text \<open>\<open>__hms_parse_header\<close>: its loop over the lines. The result holds \<open>*body_len\<close> and the \<open>int\<close> returned.\<close>

function parse_header_loop :: "hms_msg \<Rightarrow> nat \<Rightarrow> int \<Rightarrow> string \<Rightarrow> (hms_msg \<times> int \<times> int) res" where
  "parse_header_loop msg count body_len s =
     (case strtok_r [NL] s of
        None \<Rightarrow> Inr (msg, body_len, 0)
      | Some (line, s) \<Rightarrow>
          if count = 0 then
            bind_res (hms_parse_verb_line msg line) (\<lambda>(msg, ret).
            if ret \<noteq> 0 then Inr (msg, body_len, -1)
            else parse_header_loop msg (count + 1) body_len s)
          else
            bind_res (hms_parse_named_header msg line body_len) (\<lambda>(msg, body_len, ret).
            if ret \<noteq> 0 then Inr (msg, body_len, -1)
            else parse_header_loop msg (count + 1) body_len s))"
  by pat_completeness auto
termination
  by (relation "measure (\<lambda>(msg, count, body_len, s). length s)") (auto dest: strtok_r_shorter)

declare parse_header_loop.simps [simp del]

definition hms_parse_header :: "hms_msg \<Rightarrow> char list \<Rightarrow> int \<Rightarrow> int \<Rightarrow> (hms_msg \<times> int \<times> int) res" where
  "hms_parse_header msg buffer len body_len = parse_header_loop msg 0 body_len (cstr buffer)"

subsection \<open>Reading the body\<close>

text \<open>The loop of \<open>__hms_parse_read_body\<close>: \<open>buffer\<close> is what is stored before \<open>p\<close>.\<close>

function read_body_loop ::
    "'s reader \<Rightarrow> int \<Rightarrow> int \<Rightarrow> char list \<Rightarrow> 's \<Rightarrow> (char list \<times> int \<times> bool) \<times> 's" where
  "read_body_loop rd body_len read_in buffer s =
     (if read_in < body_len then
        (case rd s (nat (body_len - read_in)) of (sz, bytes, s) \<Rightarrow>
           if sz \<le> 0 then ((buffer, read_in, True), s)
           else read_body_loop rd body_len (read_in + sz) (buffer @ bytes) s)
      else ((buffer, read_in, False), s))"
  by pat_completeness auto
termination
  by (relation "measure (\<lambda>(rd, body_len, read_in, buffer, s). nat (body_len - read_in))") auto

declare read_body_loop.simps [simp del]

text \<open>The comparison of the checksums, compiled in with \<open>HERMES_ENABLE_CHECKSUMS\<close>: whether it fails.\<close>

definition checksum_error :: "bool \<Rightarrow> hms_msg \<Rightarrow> char list \<Rightarrow> int \<Rightarrow> bool res" where
  "checksum_error ck msg buffer body_len =
     (if ck then
        bind_res (checksum_string buffer body_len) (\<lambda>computed.
        bind_res (hms_msg_get_named_header (Some msg) (Some HMS_CONTENT_CHECKSUM)) (\<lambda>(given, ret_chk).
        Inr (case given of
               None \<Rightarrow> False
             | Some given \<Rightarrow> ret_chk = 0 \<and> strncasecmp given computed 33 \<noteq> 0)))
      else Inr False)"

definition hms_parse_read_body ::
    "bool \<Rightarrow> 's reader \<Rightarrow> hms_msg \<Rightarrow> int \<Rightarrow> 's \<Rightarrow> ((hms_msg \<times> int) \<times> 's) res" where
  "hms_parse_read_body ck rd msg body_len s =
     bind_res (int_add body_len 1) (\<lambda>size.
     let no_buffer = (size < 0);
         ((buffer, read_in, failed), s) = read_body_loop rd body_len 0 [] s
     in if no_buffer \<or> failed then Inr ((msg, -1), s)
        else
          bind_res (checksum_error ck msg buffer body_len) (\<lambda>bad.
          if read_in \<noteq> body_len then Inl AssertAbort
          else
            bind_res (hms_msg_set_body ck (Some msg) (Some buffer) body_len) (\<lambda>(msg, _).
            Inr ((msg, if bad then -1 else 0), s))))"

subsection \<open>The parser\<close>

definition hms_msg_parse :: "bool \<Rightarrow> 's reader \<Rightarrow> int \<Rightarrow> 's \<Rightarrow> (hms_msg option \<times> 's) res" where
  "hms_msg_parse ck rd max_hdr_len s =
     bind_res (int_add max_hdr_len 1) (\<lambda>size.
     if max_hdr_len < 0 then Inl Undefined
     else
       bind_res (poke (malloc_area (nat size)) (nat max_hdr_len) NUL) (\<lambda>buffer.
       bind_res (hms_parse_read_header rd (Some buffer) max_hdr_len s) (\<lambda>((buffer, hdr_len), s).
       if hdr_len > 2 then
         bind_res (hms_parse_header hms_msg_create buffer hdr_len 0) (\<lambda>(msg, body_len, ret).
         bind_res
           (if ret = 0 then
              (if body_len \<noteq> 0 then
                 bind_res (hms_parse_read_body ck rd msg body_len s) (\<lambda>((msg, ret), s).
                 Inr (msg, ret \<noteq> 0, s))
               else Inr (msg, False, s))
            else Inr (msg, True, s)) (\<lambda>(msg, erred, s).
         if erred then bind_res (hms_msg_destroy (Some msg)) (\<lambda>_. Inr (None, s))
         else Inr (Some msg, s)))
       else Inr (None, s))))"

end
