(* ===== verification/Hms_Parser_Scan.thy ===== *)
theory Hms_Parser_Scan
  imports Hms_Msg_Print Hms_Parser
begin

section \<open>What the parser reads\<close>

text \<open>
  How \<open>hms_msg_parse\<close> consumes its socket: that only the pending bytes count (proved from the contract of
  a socket), which bytes the body loop takes, and where the header loop stops.
\<close>

subsection \<open>What arrives is what counts\<close>

text \<open>
  Inside the contract of a socket, the parser depends on the pending bytes only, not on how they are cut
  into segments: a run on a socket and the run on the list of its pending bytes end the same way, and where
  the result is \<open>ok\<close> they leave the same bytes unread.
\<close>

definition same_run ::
    "('x \<Rightarrow> bool) \<Rightarrow> ('s \<Rightarrow> char list) \<Rightarrow> ('x \<times> 's) res \<Rightarrow> ('x \<times> char list) res \<Rightarrow> bool" where
  "same_run ok pend r q \<longleftrightarrow>
     (case r of
        Inl e \<Rightarrow> q = Inl e
      | Inr (x, s) \<Rightarrow> \<exists>t. q = Inr (x, t) \<and> (ok x \<longrightarrow> t = pend s))"

lemma same_run_simps [simp]:
  "same_run ok pend (Inl e) q \<longleftrightarrow> q = Inl e"
  "same_run ok pend (Inr (x, s)) (Inr (y, t)) \<longleftrightarrow> x = y \<and> (ok x \<longrightarrow> t = pend s)"
  by (auto simp: same_run_def)

lemma same_run_bind:
  assumes "same_run ok pend r q"
    "\<And>x s t. r = Inr (x, s) \<Longrightarrow> q = Inr (x, t) \<Longrightarrow> (ok x \<Longrightarrow> t = pend s) \<Longrightarrow>
      same_run ok' pend (f (x, s)) (g (x, t))"
  shows "same_run ok' pend (bind_res r f) (bind_res q g)"
proof (cases r)
  case (Inr z)
  then obtain x s where z: "r = Inr (x, s)" by (cases z) simp
  with assms(1) obtain t where "q = Inr (x, t)" "ok x \<Longrightarrow> t = pend s" by (auto simp: same_run_def)
  with assms(2) z show ?thesis by simp
qed (use assms(1) in \<open>simp add: same_run_def\<close>)

lemma same_run_pure:
  "(\<And>x. same_run ok pend (f x) (g x)) \<Longrightarrow> same_run ok pend (bind_res r f) (bind_res r g)"
  by (cases r) auto

context socket
begin

lemma rd_one:
  "rd s 1 = (1, [c], s') \<and> pending s = c # pending s' \<or> rd s 1 = (k, bs, s') \<and> k \<noteq> 1 \<and> pending s = []"
  if "rd s 1 = (k, bs, s')" "c = hd bs"
proof (cases "0 < k")
  case True
  from rd_data [OF that(1) True] obtain "k = int (length bs)" "length bs \<le> 1"
    "pending s = bs @ pending s'" by auto
  with True that show ?thesis by (cases bs) auto
next
  case False
  with rd_end [OF that(1)] that show ?thesis by auto
qed

lemma read_header_loop_same:
  "same_run (\<lambda>(b, h, p, is_done). is_done) pending
     (read_header_loop rd buf_len buffer hdr_len dot_seen dot_ptr s)
     (read_header_loop list_read buf_len buffer hdr_len dot_seen dot_ptr (pending s))"
proof (induction "buf_len - hdr_len" arbitrary: buffer hdr_len dot_seen dot_ptr s rule: less_induct)
  case less
  obtain k bs s' where rd: "rd s 1 = (k, bs, s')" by (cases "rd s 1")
  show ?case
  proof (cases "hdr_len < buf_len")
    case True
    from rd_one [OF rd refl] show ?thesis
    proof
      assume r: "rd s 1 = (1, [hd bs], s') \<and> pending s = hd bs # pending s'"
      have l: "list_read (pending s) 1 = (1, [hd bs], pending s')"
        using r by (simp add: list_read_def)
      have "buf_len - Suc hdr_len < buf_len - hdr_len" using True by simp
      note IH = less [OF this]
      show ?thesis
        using True r
        by (subst (1 2) read_header_loop.simps)
          (auto simp: list_read_def Let_def intro!: same_run_pure IH)
    next
      assume r: "rd s 1 = (k, bs, s') \<and> k \<noteq> 1 \<and> pending s = []"
      with True show ?thesis
        by (subst (1 2) read_header_loop.simps) (auto simp: list_read_def)
    qed
  next
    case False
    then show ?thesis by (subst (1 2) read_header_loop.simps) auto
  qed
qed

lemma read_header_same:
  "same_run (\<lambda>(b, n). n \<noteq> -1) pending
     (hms_parse_read_header rd p buf_len s) (hms_parse_read_header list_read p buf_len (pending s))"
  unfolding hms_parse_read_header_def
  by (intro same_run_pure same_run_bind [OF read_header_loop_same]) (auto intro!: same_run_pure)

text \<open>The body loop takes what it needs of the pending bytes, or all of them and fails.\<close>

lemma read_body_loop_takes:
  "r \<le> n \<Longrightarrow> \<exists>s'. read_body_loop rd n r buffer s =
     (if nat (n - r) \<le> length (pending s) then (buffer @ take (nat (n - r)) (pending s), n, False)
      else (buffer @ pending s, r + int (length (pending s)), True), s') \<and>
     (nat (n - r) \<le> length (pending s) \<longrightarrow> pending s' = drop (nat (n - r)) (pending s))"
proof (induction "nat (n - r)" arbitrary: r buffer s rule: less_induct)
  case less
  show ?case
  proof (cases "r < n")
    case True
    obtain k bs s' where rd: "rd s (nat (n - r)) = (k, bs, s')" by (cases "rd s (nat (n - r))")
    show ?thesis
    proof (cases "k \<le> 0")
      case True
      with rd_end [OF rd] \<open>r < n\<close> have "pending s = []" by simp
      with True \<open>r < n\<close> rd show ?thesis by (subst read_body_loop.simps) auto
    next
      case False
      with rd_data [OF rd] have d: "k = int (length bs)" "length bs \<le> nat (n - r)"
        "pending s = bs @ pending s'" by auto
      have lt: "nat (n - (r + k)) < nat (n - r)" "r + k \<le> n" using d False \<open>r < n\<close> by auto
      have step: "read_body_loop rd n r buffer s = read_body_loop rd n (r + k) (buffer @ bs) s'"
        using False \<open>r < n\<close> rd by (subst read_body_loop.simps) simp
      have need: "nat (n - r) = length bs + nat (n - (r + k))" using d(1,2) by simp
      show ?thesis
        using less.hyps [OF lt, of "buffer @ bs" s'] by (auto simp: step d(1,3) need [unfolded d(1)] split: if_splits)
    qed
  next
    case False
    with less.prems have "r = n" by simp
    then show ?thesis by (subst read_body_loop.simps) simp
  qed
qed

end

lemma list_read_body_loop:
  "r \<le> n \<Longrightarrow> \<exists>t. read_body_loop list_read n r buffer s =
     (if nat (n - r) \<le> length s then (buffer @ take (nat (n - r)) s, n, False)
      else (buffer @ s, r + int (length s), True), t) \<and>
     (nat (n - r) \<le> length s \<longrightarrow> t = drop (nat (n - r)) s)"
  by (rule whole.read_body_loop_takes)

context socket
begin

lemma read_body_loop_same:
  "same_run (\<lambda>(b, n, failed). \<not> failed) pending
     (Inr (read_body_loop rd body_len 0 [] s))
     (Inr (read_body_loop list_read body_len 0 [] (pending s)))"
proof (cases "0 \<le> body_len")
  case True
  then show ?thesis
    using read_body_loop_takes [OF True, of "[]" s] list_read_body_loop [OF True, of "[]" "pending s"]
    by (auto simp: same_run_def)
next
  case False
  then show ?thesis by (subst (1 2) read_body_loop.simps) auto
qed

lemma read_body_same:
  "same_run (\<lambda>(m, ret). ret = 0) pending
     (hms_parse_read_body ck rd m n s) (hms_parse_read_body ck list_read m n (pending s))"
proof -
  obtain b k f s' where r: "read_body_loop rd n 0 [] s = ((b, k, f), s')"
    by (metis prod.collapse)
  with read_body_loop_same [of n s] obtain t where
    "read_body_loop list_read n 0 [] (pending s) = ((b, k, f), t)" "\<not> f \<longrightarrow> t = pending s'"
    by (auto simp: same_run_def)
  with r show ?thesis
    unfolding hms_parse_read_body_def
    by (auto simp: Let_def intro!: same_run_pure)
qed

lemma parse_same:
  "same_run (\<lambda>m. m \<noteq> None) pending
     (hms_msg_parse ck rd max_hdr_len s) (hms_msg_parse ck list_read max_hdr_len (pending s))"
  unfolding hms_msg_parse_def
proof (intro same_run_pure, goal_cases)
  case (1 size)
  have body: "same_run (\<lambda>m. m \<noteq> None) pending
     (bind_res (bind_res (hms_parse_read_body ck rd m n s) (\<lambda>((m, ret), s). Inr (m, ret \<noteq> 0, s)))
        (\<lambda>(m, erred, s). if erred then bind_res (hms_msg_destroy (Some m)) (\<lambda>_. Inr (None, s))
          else Inr (Some m, s)))
     (bind_res (bind_res (hms_parse_read_body ck list_read m n (pending s))
          (\<lambda>((m, ret), s). Inr (m, ret \<noteq> 0, s)))
        (\<lambda>(m, erred, s). if erred then bind_res (hms_msg_destroy (Some m)) (\<lambda>_. Inr (None, s))
          else Inr (Some m, s)))" for m n s
    by (auto simp: bind_res_assoc split_beta simp del: not_None_eq
      intro!: same_run_pure same_run_bind [OF read_body_same])
  show ?case
    by (auto intro!: same_run_pure same_run_bind [OF read_header_same] body
        simp del: not_None_eq)
qed

end

subsection \<open>Where the header ends\<close>

text \<open>
  A line ends the header when its last character that is not a blank is a period. \<open>dot_scan\<close> follows
  \<open>dot_seen\<close> and \<open>dot_ptr\<close> over a line that starts at the position \<open>p\<close>.
\<close>

definition dot_line :: "string \<Rightarrow> bool" where
  "dot_line l \<longleftrightarrow> (case dropWhile (\<lambda>c. c = CHR '' '') (rev l) of [] \<Rightarrow> False | c # _ \<Rightarrow> c = CHR ''.'')"

definition plain :: "string \<Rightarrow> bool" where
  "plain l \<longleftrightarrow> NL \<notin> set l \<and> CR \<notin> set l \<and> NUL \<notin> set l"

lemma plain_append [simp]: "plain (s @ t) \<longleftrightarrow> plain s \<and> plain t"
  by (auto simp: plain_def)

fun dot_scan :: "nat option \<Rightarrow> nat \<Rightarrow> string \<Rightarrow> nat option" where
  "dot_scan d p [] = d"
| "dot_scan d p (c # cs) =
     dot_scan (if c = CHR ''.'' then Some p else if c = CHR '' '' then d else None) (Suc p) cs"

lemma dot_scan_append: "dot_scan d p (s @ t) = dot_scan (dot_scan d p s) (p + length s) t"
  by (induction d p s rule: dot_scan.induct) auto

lemma dot_scan_None: "dot_scan None p l = None \<longleftrightarrow> \<not> dot_line l"
  by (induction l rule: rev_induct) (auto simp: dot_scan_append dot_line_def)

lemma dot_scan_blanks: "dot_scan d p (replicate k CHR '' '') = d"
  by (induction k arbitrary: p) auto

lemma dot_scan_last: "dot_scan None p (l @ CHR ''.'' # replicate k CHR '' '') = Some (p + length l)"
  by (simp add: dot_scan_append dot_scan_blanks)

text \<open>A buffer with a string written at a position.\<close>

definition put_at :: "char list \<Rightarrow> nat \<Rightarrow> string \<Rightarrow> char list" where
  "put_at buf h s = take h buf @ s @ drop (h + length s) buf"

lemma put_at_Nil [simp]: "put_at buf h [] = buf"
  by (simp add: put_at_def)

lemma length_put_at [simp]: "h + length s \<le> length buf \<Longrightarrow> length (put_at buf h s) = length buf"
  by (simp add: put_at_def)

lemma put_at_Cons:
  "h < length buf \<Longrightarrow> put_at (buf[h := c]) (Suc h) s = put_at buf h (c # s)"
  by (simp add: put_at_def take_update_swap take_Suc_conv_app_nth list_update_append)

lemma put_at_put_at:
  "h + length s \<le> length buf \<Longrightarrow> put_at (put_at buf h s) (h + length s) t = put_at buf h (s @ t)"
  by (simp add: put_at_def add_ac)

lemma read_header_step:
  assumes "h < n" "n \<le> length buf" "c \<noteq> CR" "c \<noteq> NL"
  shows "read_header_loop list_read n buf h (d \<noteq> None) d (c # s) =
     (let d' = (if c = CHR ''.'' then Some h else if c = CHR '' '' then d else None)
      in read_header_loop list_read n (buf[h := c]) (Suc h) (d' \<noteq> None) d' s)"
  using assms
  by (subst read_header_loop.simps) (auto simp: list_read_def poke_def Let_def)

lemma read_header_chars:
  "plain l \<Longrightarrow> h + length l \<le> n \<Longrightarrow> n \<le> length buf \<Longrightarrow>
   read_header_loop list_read n buf h (d \<noteq> None) d (l @ s) =
   read_header_loop list_read n (put_at buf h l) (h + length l) (dot_scan d h l \<noteq> None)
     (dot_scan d h l) s"
proof (induction d h l arbitrary: buf rule: dot_scan.induct)
  case (2 d p c cs)
  then have "c \<noteq> CR" "c \<noteq> NL" "plain cs" by (auto simp: plain_def)
  with 2 show ?case
    by (simp add: read_header_step put_at_Cons Let_def del: not_None_eq split del: if_split)
qed simp

lemma read_header_NL:
  assumes "h < n" "n \<le> length buf"
  shows "read_header_loop list_read n buf h (d \<noteq> None) d (NL # s) =
     (if d = None then read_header_loop list_read n (buf[h := NL]) (Suc h) (d \<noteq> None) d s
      else Inr ((buf[h := NL], Suc h, d, True), s))"
  using assms
  by (subst read_header_loop.simps) (auto simp: list_read_def poke_def Let_def)

definition unlines :: "string list \<Rightarrow> string" where
  "unlines ls = concat (map (\<lambda>l. l @ [NL]) ls)"

lemma unlines_simps [simp]:
  "unlines [] = []" "unlines (l # ls) = l @ NL # unlines ls"
  "unlines (ls @ ls') = unlines ls @ unlines ls'"
  by (simp_all add: unlines_def)

lemma read_header_lines:
  "\<forall>l \<in> set ls. plain l \<and> \<not> dot_line l \<Longrightarrow> h + length (unlines ls) \<le> n \<Longrightarrow> n \<le> length buf \<Longrightarrow>
   read_header_loop list_read n buf h False None (unlines ls @ s) =
   read_header_loop list_read n (put_at buf h (unlines ls)) (h + length (unlines ls)) False None s"
proof (induction ls arbitrary: h buf)
  case (Cons l ls)
  then have d: "dot_scan None h l = None" by (simp add: dot_scan_None)
  have "read_header_loop list_read n buf h False None (l @ NL # unlines ls @ s) =
      read_header_loop list_read n (put_at buf h l) (h + length l) False None (NL # unlines ls @ s)"
    using read_header_chars [of l h n buf None "NL # unlines ls @ s"] Cons.prems d by simp
  also have "\<dots> = read_header_loop list_read n ((put_at buf h l)[h + length l := NL])
      (Suc (h + length l)) False None (unlines ls @ s)"
    using read_header_NL [of "h + length l" n "put_at buf h l" None] Cons.prems by simp
  also have "(put_at buf h l)[h + length l := NL] = put_at buf h (l @ [NL])"
    using put_at_Cons [of "h + length l" "put_at buf h l" NL "[]"] put_at_put_at [of h l buf "[NL]"]
      Cons.prems by simp
  also have "read_header_loop list_read n (put_at buf h (l @ [NL])) (Suc (h + length l)) False None
      (unlines ls @ s) = read_header_loop list_read n
        (put_at (put_at buf h (l @ [NL])) (Suc (h + length l)) (unlines ls))
        (Suc (h + length l) + length (unlines ls)) False None s"
    using Cons.prems by (intro Cons.IH) simp_all
  finally show ?case
    using put_at_put_at [of h "l @ [NL]" buf "unlines ls"] Cons.prems by (simp add: add_ac)
qed simp

lemma put_at_NUL:
  assumes "length t < length buf" "0 < length u"
  shows "\<exists>r. (put_at buf 0 (t @ u))[length t := NUL] = t @ NUL # r"
  using assms by (cases u) (simp_all add: put_at_def list_update_append)

lemma read_header_done:
  assumes "\<forall>l \<in> set ls. plain l \<and> \<not> dot_line l" "plain l"
    "length (unlines ls) + length l + k + 2 \<le> n" "length buf = Suc n" "int n \<le> int_max"
  shows "\<exists>buf'. hms_parse_read_header list_read (Some buf) (int n)
      (unlines ls @ l @ CHR ''.'' # replicate k CHR '' '' @ NL # s) =
    Inr ((buf', int (length (unlines ls) + length l + k + 2)), s) \<and> cstr buf' = unlines ls @ l"
proof -
  let ?u = "unlines ls" and ?d = "l @ CHR ''.'' # replicate k CHR '' ''"
  let ?h = "length ?u" and ?j = "length ?u + length l"
  have n: "to_unsigned (int n) = n" using assms(5) by (simp add: to_unsigned_def int_max_def nat_mod_distrib)
  have pl: "plain ?d" using assms(2) by (auto simp: plain_def)
  have "read_header_loop list_read n buf 0 False None (?u @ ?d @ NL # s) =
      read_header_loop list_read n (put_at buf 0 ?u) ?h False None (?d @ NL # s)"
    using read_header_lines [OF assms(1), of 0 n buf] assms by simp
  also have "\<dots> = read_header_loop list_read n (put_at (put_at buf 0 ?u) ?h ?d) (?h + length ?d)
      True (Some ?j) (NL # s)"
    using read_header_chars [OF pl, of ?h n "put_at buf 0 ?u" None "NL # s"] assms
    by (simp add: dot_scan_last)
  also have "\<dots> = Inr (((put_at buf 0 (?u @ ?d))[?h + length ?d := NL],
      ?j + k + 2, Some ?j, True), s)"
    using read_header_NL [of "?h + length ?d" n "put_at buf 0 (?u @ ?d)" "Some ?j" s] assms
      put_at_put_at [of 0 ?u buf ?d] by (simp add: add_ac)
  finally have loop: "read_header_loop list_read n buf 0 False None (?u @ ?d @ NL # s) = \<dots>" .
  have upd: "(put_at buf 0 (?u @ ?d))[?h + length ?d := NL] = put_at buf 0 (?u @ ?d @ [NL])"
    using put_at_Cons [of "?h + length ?d" "put_at buf 0 (?u @ ?d)" NL "[]"]
      put_at_put_at [of 0 "?u @ ?d" buf "[NL]"] assms by simp
  have nn: "NUL \<notin> set (?u @ l)" using assms(1,2) by (auto simp: plain_def unlines_def)
  let ?b = "(put_at buf 0 (?u @ ?d @ [NL]))[?j := NUL]"
  obtain r where r: "?b = (?u @ l) @ NUL # r"
    using put_at_NUL [of "?u @ l" buf "CHR ''.'' # replicate k CHR '' '' @ [NL]"] assms by auto
  have "cstr ?b = ?u @ l" unfolding r using nn by (rule cstr_append)
  moreover have "cstr (?b[?j + k + 2 := NUL]) = ?u @ l"
  proof -
    have "?b[?j + k + 2 := NUL] = (?u @ l) @ NUL # r[k + 1 := NUL]"
      unfolding r by (simp add: list_update_append)
    then show ?thesis using cstr_append [OF nn] by simp
  qed
  ultimately show ?thesis
    using loop upd assms n
    by (simp add: hms_parse_read_header_def poke_def)
qed

end
