(* ===== verification/Hms_Parser_Correct.thy ===== *)
theory Hms_Parser_Correct
  imports Hms_Parser_Scan
begin

section \<open>Correctness of the parser\<close>

text \<open>
  What \<open>hms_msg_parse\<close> builds from a printed message, what it does on any input, which inputs it rejects,
  and the properties of the parser on a scripted socket.
\<close>

subsection \<open>Words and lines\<close>

definition word_ok :: "string \<Rightarrow> bool" where
  "word_ok w \<longleftrightarrow> w \<noteq> [] \<and> plain w \<and> CHR '' '' \<notin> set w \<and> CHR 0x09 \<notin> set w"

lemma strtok_r_parts:
  assumes "strtok_r seps s = Some (t, r)"
  shows "length t + length r \<le> length s"
proof -
  let ?s = "dropWhile (\<lambda>c. c \<in> set seps) s"
  from assms have "t = takeWhile (\<lambda>c. c \<notin> set seps) ?s" "r = drop 1 (dropWhile (\<lambda>c. c \<notin> set seps) ?s)"
    by (auto simp: strtok_r_def Let_def split: if_splits)
  moreover have "length (takeWhile (\<lambda>c. c \<notin> set seps) ?s) + length (dropWhile (\<lambda>c. c \<notin> set seps) ?s) = length ?s"
    by (metis length_append takeWhile_dropWhile_id)
  moreover have "length ?s \<le> length s" by (rule length_dropWhile_le)
  ultimately show ?thesis by simp
qed

lemma strtok_r_front:
  assumes "t \<noteq> []" "set t \<inter> set seps = {}" "r = [] \<or> hd r \<in> set seps"
  shows "strtok_r seps (t @ r) = Some (t, drop 1 r)"
  using assms strtok_r_tok [OF assms(1,2)] strtok_r_last [OF assms(1,2)] by (cases r) auto

lemma verb_line_headers:
  assumes "\<forall>h \<in> set hs. word_ok (uh_val h)" "0 \<le> num_headers m"
    "num_headers m + int (length hs) \<le> int_max"
  shows "verb_line_loop m (Suc n) found (drop 1 (uheaders_text hs)) =
    Inr (m\<lparr>headers := headers m @ hs, num_headers := num_headers m + int (length hs)\<rparr>, found)"
  using assms
proof (induction hs arbitrary: m n)
  case Nil
  then show ?case by (subst verb_line_loop.simps) simp
next
  case (Cons h hs)
  let ?seps = "[CHR '' '', CHR 0x09]"
  have "uheaders_text hs = [] \<or> hd (uheaders_text hs) \<in> set ?seps" by (cases hs) simp_all
  then have "strtok_r ?seps (uh_val h @ uheaders_text hs) = Some (uh_val h, drop 1 (uheaders_text hs))"
    using Cons.prems by (intro strtok_r_front) (auto simp: word_ok_def)
  with Cons show ?case
    by (subst verb_line_loop.simps) (simp add: hms_msg_add_header_eq add_ac)
qed

lemma parse_verb_line:
  assumes "word_ok v" "\<forall>h \<in> set hs. word_ok (uh_val h)" "0 \<le> num_headers m"
    "num_headers m + int (length hs) \<le> int_max"
  shows "hms_parse_verb_line m (v @ uheaders_text hs) =
    Inr (m\<lparr>verb := Some v, headers := headers m @ hs,
           num_headers := num_headers m + int (length hs)\<rparr>, 0)"
proof -
  let ?seps = "[CHR '' '', CHR 0x09]"
  have "uheaders_text hs = [] \<or> hd (uheaders_text hs) \<in> set ?seps" by (cases hs) simp_all
  then have "strtok_r ?seps (v @ uheaders_text hs) = Some (v, drop 1 (uheaders_text hs))"
    using assms(1) by (intro strtok_r_front) (auto simp: word_ok_def)
  then have "verb_line_loop m 0 False (v @ uheaders_text hs) =
      verb_line_loop (m\<lparr>verb := Some v\<rparr>) (Suc 0) True (drop 1 (uheaders_text hs))"
    by (subst verb_line_loop.simps) (simp add: hms_msg_set_verb_eq)
  with verb_line_headers [OF assms(2), of "m\<lparr>verb := Some v\<rparr>" 0 True] assms(3,4) show ?thesis
    by (simp add: hms_parse_verb_line_def)
qed

subsection \<open>Named headers\<close>

definition stripped :: "string \<Rightarrow> bool" where
  "stripped s \<longleftrightarrow> (s \<noteq> [] \<longrightarrow> \<not> isspace (hd s) \<and> \<not> isspace (last s))"

lemma hms_str_strip_id: "stripped s \<Longrightarrow> hms_str_strip s = s"
proof -
  assume s: "stripped s"
  then have "dropWhile isspace s = s" by (cases s) (auto simp: stripped_def)
  moreover have "dropWhile isspace (rev s) = rev s"
    using s by (cases s rule: rev_cases) (auto simp: stripped_def)
  ultimately show ?thesis by (simp add: hms_str_strip_def)
qed

definition nline :: "hms_msg_nheader \<Rightarrow> string" where
  "nline h = nh_key h @ CHR '':'' # nh_val h"

definition nheader_ok :: "hms_msg_nheader \<Rightarrow> bool" where
  "nheader_ok h \<longleftrightarrow> plain (nline h) \<and> \<not> dot_line (nline h) \<and> CHR '':'' \<notin> set (nh_key h) \<and>
     stripped (nh_key h) \<and> stripped (nh_val h)"

lemma strchr_colon: "CHR '':'' \<notin> set k \<Longrightarrow> strchr (k @ CHR '':'' # v) (CHR '':'') = Some (length k)"
  by (subst strchr_def, subst takeWhile_append_stop) (auto simp: Let_def)

lemma nheaders_text_lines: "nheaders_text hs = unlines (map nline hs)"
  by (induction hs) (simp_all add: nline_def)

definition is_length :: "hms_msg_nheader \<Rightarrow> bool" where
  "is_length h \<longleftrightarrow> lower (nh_key h) = lower HMS_CONTENT_LENGTH"

lemma parse_named_header:
  assumes "nheader_ok h" "is_length h \<Longrightarrow> atoi (nh_val h) \<noteq> 0"
  shows "hms_parse_named_header m (nline h) n =
    bind_res (hms_msg_add_named_header (Some m) (Some (nh_key h)) (Some (nh_val h))) (\<lambda>(m, _).
      Inr (m, if is_length h then atoi (nh_val h) else n, 0))"
proof -
  from assms(1) have h: "strchr (nh_key h @ CHR '':'' # nh_val h) (CHR '':'') = Some (length (nh_key h))"
    "hms_str_strip (nh_key h) = nh_key h" "hms_str_strip (nh_val h) = nh_val h"
    by (simp_all add: nheader_ok_def nline_def strchr_colon hms_str_strip_id)
  show ?thesis
    using assms(2)
    by (simp add: hms_parse_named_header_def h nline_def is_length_def Let_def flip: atoi_def)
qed

lemma strtok_r_line: "l \<noteq> [] \<Longrightarrow> NL \<notin> set l \<Longrightarrow> strtok_r [NL] (l @ NL # s) = Some (l, s)"
  by (rule strtok_r_tok) auto

lemma parse_header_named:
  assumes "\<forall>h \<in> set hs. nheader_ok h \<and> (is_length h \<longrightarrow> atoi (nh_val h) \<noteq> 0)"
    "named_wf (named_headers m @ hs)" "num_named_headers m = int (length (named_headers m))"
    "num_named_headers m + int (length hs) \<le> int_max"
  shows "parse_header_loop m (Suc n) len (unlines (map nline hs)) =
    Inr (m\<lparr>named_headers := named_headers m @ hs,
           num_named_headers := num_named_headers m + int (length hs)\<rparr>,
         case find_named HMS_CONTENT_LENGTH hs of None \<Rightarrow> len | Some v \<Rightarrow> atoi v, 0)"
  using assms
proof (induction hs arbitrary: m n len)
  case Nil
  then show ?case by (subst parse_header_loop.simps) simp
next
  case (Cons h hs)
  let ?m = "m\<lparr>named_headers := named_headers m @ [h], num_named_headers := num_named_headers m + 1\<rparr>"
  have line: "strtok_r [NL] (nline h @ NL # unlines (map nline hs)) = Some (nline h, unlines (map nline hs))"
    using Cons.prems by (intro strtok_r_line) (auto simp: nline_def nheader_ok_def plain_def)
  have "find_named (nh_key h) (named_headers m) = None"
    using Cons.prems(2) by (auto simp: find_named_None named_wf_def)
  then have add: "hms_msg_add_named_header (Some m) (Some (nh_key h)) (Some (nh_val h)) = Inr (?m, 0)"
    using Cons.prems(3,4)
    by (simp add: hms_msg_add_named_header_res put_named_def del_named_absent int_min_def)
  have other: "find_named HMS_CONTENT_LENGTH hs = None" if "is_length h"
    using Cons.prems(2) that by (auto simp: find_named_None named_wf_def is_length_def)
  have "parse_header_loop m (Suc n) len (unlines (map nline (h # hs))) =
      parse_header_loop ?m (Suc (Suc n)) (if is_length h then atoi (nh_val h) else len)
        (unlines (map nline hs))"
    using Cons.prems(1) by (subst parse_header_loop.simps) (simp add: line parse_named_header add)
  also have "\<dots> = Inr (?m\<lparr>named_headers := named_headers ?m @ hs,
      num_named_headers := num_named_headers ?m + int (length hs)\<rparr>,
      case find_named HMS_CONTENT_LENGTH hs of
        None \<Rightarrow> if is_length h then atoi (nh_val h) else len | Some v \<Rightarrow> atoi v, 0)"
    using Cons.prems by (intro Cons.IH) simp_all
  finally show ?case
    using other by (auto simp: is_length_def add_ac split: option.splits)
qed

subsection \<open>Printing and parsing\<close>

text \<open>
  The messages the wire format can carry. Words and keys have no separators in them, no line ends the
  header early, and a content comes with a \<open>Content-Length\<close> header that gives its length.
\<close>

definition header_ok :: "hms_msg \<Rightarrow> bool" where
  "header_ok m \<longleftrightarrow> hdr_wf m \<and> (\<forall>h \<in> set (headers m). word_ok (uh_val h)) \<and>
     (\<forall>h \<in> set (named_headers m). nheader_ok h) \<and>
     (case verb m of None \<Rightarrow> False
      | Some v \<Rightarrow> word_ok v \<and> \<not> dot_line (v @ uheaders_text (headers m)))"

text \<open>The bytes of a message on the wire.\<close>

definition msg_bytes :: "hms_msg \<Rightarrow> char list" where
  "msg_bytes m = header_text m @ (case content m of None \<Rightarrow> [] | Some c \<Rightarrow> c)"

text \<open>The message the other side builds: the content headers are set again.\<close>

definition received :: "bool \<Rightarrow> hms_msg \<Rightarrow> hms_msg" where
  "received ck m =
     (case content m of
        None \<Rightarrow> m\<lparr>msg_id := None\<rparr>
      | Some c \<Rightarrow>
          let nh = put_named HMS_CONTENT_LENGTH (sprintf_d (int (length c))) (named_headers m);
              nh = (if ck then put_named HMS_CONTENT_CHECKSUM
                      (hex_string (rfc_md5 (map of_char c))) nh else nh)
          in m\<lparr>msg_id := None, named_headers := nh, num_named_headers := int (length nh)\<rparr>)"

definition checksum_ok :: "bool \<Rightarrow> hms_msg \<Rightarrow> bool" where
  "checksum_ok ck m \<longleftrightarrow>
     (ck \<longrightarrow> (case (content m, find_named HMS_CONTENT_CHECKSUM (named_headers m)) of
        (Some c, Some v) \<Rightarrow> lower (take 33 v) = lower (hex_string (rfc_md5 (map of_char c)))
      | _ \<Rightarrow> True))"

lemma uheaders_text_plain: "\<forall>h \<in> set hs. word_ok (uh_val h) \<Longrightarrow> plain (uheaders_text hs)"
  by (induction hs) (auto simp: word_ok_def plain_def)

lemma length_uheaders_text: "length hs \<le> length (uheaders_text hs)"
  by (induction hs) auto

lemma length_nheaders_text: "length hs \<le> length (nheaders_text hs)"
  by (induction hs) auto

lemma header_counts: "length (headers m) + length (named_headers m) + 2 \<le> length (header_text m)"
  using length_uheaders_text [of "headers m"] length_nheaders_text [of "named_headers m"]
  by (simp add: header_text_def split: option.splits)

lemma header_text_lines:
  "verb m = Some v \<Longrightarrow> header_text m =
     unlines ((v @ uheaders_text (headers m)) # map nline (named_headers m)) @ [] @
       CHR ''.'' # replicate 0 CHR '' '' @ NL # []"
  by (simp add: header_text_def nheaders_text_lines)

lemma read_header_text:
  assumes "header_ok m" "length (header_text m) \<le> n" "length buf = Suc n" "int n \<le> int_max"
    "verb m = Some v"
  shows "\<exists>buf'. hms_parse_read_header list_read (Some buf) (int n) (header_text m @ s) =
      Inr ((buf', int (length (header_text m))), s) \<and>
    cstr buf' = unlines ((v @ uheaders_text (headers m)) # map nline (named_headers m))"
proof -
  let ?ls = "(v @ uheaders_text (headers m)) # map nline (named_headers m)"
  have ok: "\<forall>l \<in> set ?ls. plain l \<and> \<not> dot_line l"
    using assms(1,5) by (auto simp: header_ok_def uheaders_text_plain nheader_ok_def word_ok_def)
  have len: "length (header_text m) = length (unlines ?ls) + 2"
    by (subst header_text_lines [OF assms(5)]) simp
  have "plain []" by (simp add: plain_def)
  from read_header_done [OF ok this, of 0 n buf s] assms len show ?thesis
    by (simp add: header_text_lines [OF assms(5)])
qed

lemma parse_header_text:
  assumes "header_ok m" "verb m = Some v"
    "\<forall>h \<in> set (named_headers m). is_length h \<longrightarrow> atoi (nh_val h) \<noteq> 0"
    "int (length (header_text m)) \<le> int_max"
  shows "parse_header_loop hms_msg_create 0 0
      (unlines ((v @ uheaders_text (headers m)) # map nline (named_headers m))) =
    Inr (m\<lparr>msg_id := None, content_len := 0, content := None\<rparr>,
      case find_named HMS_CONTENT_LENGTH (named_headers m) of None \<Rightarrow> 0 | Some v \<Rightarrow> atoi v, 0)"
proof -
  let ?l = "v @ uheaders_text (headers m)"
  let ?m = "hms_msg_create\<lparr>verb := Some v, headers := headers m, num_headers := int (length (headers m))\<rparr>"
  have v: "word_ok v" "\<forall>h \<in> set (headers m). word_ok (uh_val h)"
    using assms(1,2) by (simp_all add: header_ok_def)
  have room: "int (length (headers m)) \<le> int_max" "int (length (named_headers m)) \<le> int_max"
    using header_counts [of m] assms(4) by simp_all
  from v have "?l \<noteq> []" "NL \<notin> set ?l"
    using uheaders_text_plain [OF v(2)] by (auto simp: word_ok_def plain_def)
  then have tok: "strtok_r [NL] (v @ uheaders_text (headers m) @ NL # s) = Some (?l, s)" for s
    using strtok_r_line [of ?l s] by simp
  have "parse_header_loop hms_msg_create 0 0 (unlines (?l # map nline (named_headers m))) =
      parse_header_loop ?m (Suc 0) 0 (unlines (map nline (named_headers m)))"
    using parse_verb_line [OF v, of hms_msg_create] room(1)
    by (subst parse_header_loop.simps) (simp add: tok hms_msg_create_def)
  also have "\<dots> = Inr (?m\<lparr>named_headers := named_headers ?m @ named_headers m,
      num_named_headers := num_named_headers ?m + int (length (named_headers m))\<rparr>,
      case find_named HMS_CONTENT_LENGTH (named_headers m) of None \<Rightarrow> 0 | Some v \<Rightarrow> atoi v, 0)"
    using assms room(2)
    by (intro parse_header_named) (auto simp: header_ok_def hdr_wf_def hms_msg_create_def)
  also have "?m\<lparr>named_headers := named_headers ?m @ named_headers m,
      num_named_headers := num_named_headers ?m + int (length (named_headers m))\<rparr> =
      m\<lparr>msg_id := None, content_len := 0, content := None\<rparr>"
    using assms(1,2) by (cases m) (simp add: header_ok_def hdr_wf_def hms_msg_create_def)
  finally show ?thesis .
qed

text \<open>A body that is put behind a header that has its \<open>Content-Length\<close>: one header more at most.\<close>

lemma set_body_fresh:
  assumes "content m = None" "content_len m = 0" "hdr_wf m" "c \<noteq> []" "int (length c) \<le> int_max"
    "find_named HMS_CONTENT_LENGTH (named_headers m) \<noteq> None" "num_named_headers m < int_max"
  shows "hms_msg_set_body ck (Some m) (Some c) (int (length c)) =
    Inr (let nh = put_named HMS_CONTENT_LENGTH (sprintf_d (int (length c))) (named_headers m);
             nh = (if ck then put_named HMS_CONTENT_CHECKSUM
                     (hex_string (rfc_md5 (map of_char c))) nh else nh)
         in m\<lparr>content := Some c, content_len := int (length c), named_headers := nh,
              num_named_headers := int (length nh)\<rparr>, 0)"
proof -
  let ?nh = "put_named HMS_CONTENT_LENGTH (sprintf_d (int (length c))) (named_headers m)"
  let ?m1 = "m\<lparr>content := Some c, content_len := int (length c)\<rparr>"
  let ?m2 = "?m1\<lparr>named_headers := ?nh, num_named_headers := int (length ?nh)\<rparr>"
  have wf: "hdr_wf ?m1" "hdr_wf ?m2" using assms(3) by (simp_all add: hdr_wf_def named_wf_put)
  have len: "int (length ?nh) = num_named_headers m" using assms(3,6) by (simp add: length_put_named hdr_wf_def)
  then have "int (length ?nh) \<le> int_max" "num_named_headers ?m2 < int_max"
    using assms(7) by simp_all
  then have add: "hms_msg_add_named_header (Some ?m1) (Some HMS_CONTENT_LENGTH)
      (Some (sprintf_d (int (length c)))) = Inr (?m2, 0)"
    "hms_msg_add_named_header (Some ?m2) (Some HMS_CONTENT_CHECKSUM) (Some v) =
      Inr (?m2\<lparr>named_headers := put_named HMS_CONTENT_CHECKSUM v ?nh,
        num_named_headers := int (length (put_named HMS_CONTENT_CHECKSUM v ?nh))\<rparr>, 0)" for v
    using hms_msg_add_named_header_eq [OF wf(1), of HMS_CONTENT_LENGTH "sprintf_d (int (length c))"]
      hms_msg_add_named_header_eq [OF wf(2) put_named_room [OF wf(2)], of HMS_CONTENT_CHECKSUM v]
    by simp_all
  show ?thesis
    using assms(1,2,4,5) checksum_string_rfc [OF refl assms(5)] add
    by (simp add: hms_msg_set_body_def hms_msg_del_body_def copy_out_def Let_def)
qed

lemma malloc_buffer:
  "poke (malloc_area (Suc n)) n NUL = Inr ((malloc_area (Suc n))[n := NUL])"
  "length ((malloc_area (Suc n))[n := NUL]) = Suc n"
  by (simp_all only: poke_def malloc_area_def length_list_update length_replicate lessI if_True)

lemma nth_malloc_buffer: "(malloc_area (Suc n))[n := NUL] ! n = NUL"
  by (simp only: malloc_area_def nth_list_update_eq length_replicate lessI)

lemma find_named_mem:
  "named_wf hs \<Longrightarrow> h \<in> set hs \<Longrightarrow> lower (nh_key h) = lower k \<Longrightarrow> find_named k hs = Some (nh_val h)"
  by (induction hs) (force simp: named_wf_def)+

lemma header_text_long: "header_ok m \<Longrightarrow> 2 < length (header_text m)"
  by (auto simp: header_ok_def header_text_def word_ok_def split: option.splits)

lemma checksum_ok_error:
  assumes "checksum_ok ck m" "content m = Some c" "int (length c) \<le> int_max"
  shows "checksum_error ck (m\<lparr>msg_id := None, content_len := 0, content := None\<rparr>) c
    (int (length c)) = Inr False"
  using assms checksum_string_rfc [OF refl assms(3)]
  by (auto simp: checksum_error_def hms_msg_get_named_header_eq checksum_ok_def strncasecmp_def
      length_rfc_md5 split: option.splits)

definition body_length :: "hms_msg \<Rightarrow> int" where
  "body_length m =
     (case find_named HMS_CONTENT_LENGTH (named_headers m) of None \<Rightarrow> 0 | Some v \<Rightarrow> atoi v)"

abbreviation head_of :: "hms_msg \<Rightarrow> hms_msg" where
  "head_of m \<equiv> m\<lparr>msg_id := None, content_len := 0, content := None\<rparr>"

lemma parse_after_header:
  assumes "header_ok m" "\<forall>h \<in> set (named_headers m). is_length h \<longrightarrow> atoi (nh_val h) \<noteq> 0"
    "length (header_text m) \<le> n" "int n < int_max"
  shows "hms_msg_parse ck list_read (int n) (header_text m @ s) =
    (if body_length m = 0 then Inr (Some (head_of m), s)
     else bind_res (hms_parse_read_body ck list_read (head_of m) (body_length m) s) (\<lambda>((m, ret), s).
       if ret \<noteq> 0 then bind_res (hms_msg_destroy (Some m)) (\<lambda>_. Inr (None, s))
       else Inr (Some m, s)))"
proof -
  obtain v where v: "verb m = Some v" using assms(1) by (auto simp: header_ok_def split: option.splits)
  obtain buf where buf: "hms_parse_read_header list_read (Some ((malloc_area (Suc n))[n := NUL])) (int n)
      (header_text m @ s) = Inr ((buf, int (length (header_text m))), s)"
    "cstr buf = unlines ((v @ uheaders_text (headers m)) # map nline (named_headers m))"
    using read_header_text [OF assms(1,3) malloc_buffer(2) _ v] assms(4) by fastforce
  have "hms_parse_header hms_msg_create buf (int (length (header_text m))) 0 =
      Inr (head_of m, body_length m, 0)"
    using parse_header_text [OF assms(1) v assms(2)] assms(3,4)
    by (simp add: hms_parse_header_def buf(2) body_length_def)
  with buf header_text_long [OF assms(1)] assms(4) show ?thesis
    by (simp add: hms_msg_parse_def malloc_buffer nat_add_distrib int_min_def bind_res_assoc case_prod_unfold
        cong: if_cong)
qed

lemma body_length_wf:
  assumes "hdr_wf m" "body_wf m"
  shows "body_length m = content_len m"
    "\<forall>h \<in> set (named_headers m). is_length h \<longrightarrow> atoi (nh_val h) \<noteq> 0"
proof -
  show "body_length m = content_len m"
    using assms by (auto simp: body_length_def body_wf_def split: option.splits)
  have "named_wf (named_headers m)" using assms(1) by (simp add: hdr_wf_def)
  from find_named_mem [OF this] assms(2)
  show "\<forall>h \<in> set (named_headers m). is_length h \<longrightarrow> atoi (nh_val h) \<noteq> 0"
    by (auto simp: is_length_def body_wf_def split: option.splits)
qed

lemma parse_msg_bytes:
  assumes "header_ok m" "body_wf m" "checksum_ok ck m" "content_len m < int_max"
    "length (header_text m) \<le> n" "int n < int_max"
  shows "hms_msg_parse ck list_read (int n) (msg_bytes m @ rest) = Inr (Some (received ck m), rest)"
proof -
  have wf: "hdr_wf m" using assms(1) by (simp add: header_ok_def)
  note len = body_length_wf [OF wf assms(2)]
  note parse = parse_after_header [OF assms(1) len(2) assms(5,6)]
  show ?thesis
  proof (cases "content m")
    case None
    then have "content_len m = 0" using assms(2) by (simp add: body_wf_def)
    moreover from this None have "head_of m = m\<lparr>msg_id := None\<rparr>" by (cases m) simp
    ultimately show ?thesis by (simp add: parse len(1) msg_bytes_def None received_def)
  next
    case (Some c)
    let ?n = "int (length c)"
    have c: "content_len m = ?n" "0 < ?n" "c \<noteq> []" using Some assms(2) by (auto simp: body_wf_def)
    then have small: "?n \<le> int_max" "?n + 1 \<le> int_max" "int_min \<le> ?n + 1"
      using assms(4) by (simp_all add: int_min_def)
    have loop: "read_body_loop list_read ?n 0 [] (c @ rest) = ((c, ?n, False), rest)"
      using list_read_body_loop [of 0 ?n "[]" "c @ rest"] by auto
    have "hdr_wf (head_of m)" "num_named_headers (head_of m) < int_max"
      using wf header_counts [of m] assms(5,6) by (simp_all add: hdr_wf_def)
    moreover have "find_named HMS_CONTENT_LENGTH (named_headers (head_of m)) \<noteq> None"
      using assms(2) Some by (auto simp: body_wf_def)
    ultimately have "hms_parse_read_body ck list_read (head_of m) ?n (c @ rest) =
        Inr ((received ck m, 0), rest)"
      using set_body_fresh [of "head_of m" c ck] checksum_ok_error [OF assms(3) Some small(1)] loop
        small Some c
      by (simp add: hms_parse_read_body_def Let_def received_def)
    with c show ?thesis by (simp add: parse len(1) msg_bytes_def Some)
  qed
qed

subsection \<open>Any input\<close>

definition ran :: "nat \<Rightarrow> char list \<Rightarrow> ((char list \<times> nat \<times> nat option \<times> bool) \<times> 's) res \<Rightarrow> bool" where
  "ran n b0 r \<longleftrightarrow> (\<exists>buf h d fin s. r = Inr ((buf, h, d, fin), s) \<and> length buf = length b0 \<and>
     buf ! n = b0 ! n \<and> (case d of None \<Rightarrow> True | Some i \<Rightarrow> i < n))"

lemma ran_Inr [simp]:
  "ran n b0 (Inr ((buf, h, d, fin), s)) \<longleftrightarrow>
     length buf = length b0 \<and> buf ! n = b0 ! n \<and> (case d of None \<Rightarrow> True | Some i \<Rightarrow> i < n)"
  by (simp add: ran_def)

lemma ran_update: "i < n \<Longrightarrow> ran n (b0[i := x]) r = ran n b0 r"
  by (simp add: ran_def)

lemma read_header_loop_total:
  "n < length buf \<Longrightarrow> (case d of None \<Rightarrow> True | Some i \<Rightarrow> i < n) \<Longrightarrow>
   ran n buf (read_header_loop list_read n buf h seen d s)"
proof (induction "n - h" arbitrary: buf h seen d s rule: less_induct)
  case less
  show ?case
  proof (cases "h < n \<and> s \<noteq> []")
    case True
    then obtain c s' where s: "s = c # s'" by (cases s) auto
    have rd: "list_read s (Suc 0) = (1, [c], s')" by (simp add: list_read_def s)
    have lt: "n - Suc h < n - h" using True by (intro diff_less_mono2) simp_all
    have IH: "ran n buf (read_header_loop list_read n (buf[h := x]) (Suc h) seen d t)"
      if "case d of None \<Rightarrow> True | Some i \<Rightarrow> i < n" for x seen d t
      using less.hyps [OF lt, of "buf[h := x]" d seen t] less.prems that True by (simp add: ran_update)
    show ?thesis
      using True less.prems
      by (subst read_header_loop.simps) (auto simp: rd poke_def Let_def intro!: IH)
  next
    case False
    then show ?thesis
      using less.prems by (subst read_header_loop.simps) (auto simp: list_read_def)
  qed
qed

lemma length_cstr_NUL: "n < length buf \<Longrightarrow> buf ! n = NUL \<Longrightarrow> length (cstr buf) \<le> n"
  using nth_mem [of n "cstr buf"] takeWhile_nth [of n "\<lambda>c. c \<noteq> NUL" buf] set_takeWhileD
  unfolding cstr_def by (metis (full_types) linorder_not_le)

lemma read_header_total:
  assumes "0 < n" "int n \<le> int_max" "length buf = Suc n" "buf ! n = NUL"
  shows "\<exists>buf' r s'. hms_parse_read_header list_read (Some buf) (int n) s = Inr ((buf', r), s') \<and>
    length (cstr buf') \<le> n"
proof -
  have n: "to_unsigned (int n) = n" using assms(2) by (simp add: to_unsigned_def int_max_def nat_mod_distrib)
  obtain buf' h d fin s' where l: "read_header_loop list_read n buf 0 False None s = Inr ((buf', h, d, fin), s')"
    "length buf' = length buf" "buf' ! n = NUL" "case d of None \<Rightarrow> True | Some i \<Rightarrow> i < n"
    using read_header_loop_total [of n buf None 0 False s] assms(3,4) by (auto simp: ran_def)
  have "length (cstr b) \<le> n" if "length b = Suc n" "b ! n = NUL" for b
    using length_cstr_NUL [of n b] that by simp
  with assms n l show ?thesis
    by (cases d) (auto simp: hms_parse_read_header_def poke_def nth_list_update)
qed

text \<open>A message under construction, with the \<open>body_len\<close> read so far.\<close>

definition parsed :: "hms_msg \<Rightarrow> int \<Rightarrow> bool" where
  "parsed m len \<longleftrightarrow> hdr_wf m \<and> content m = None \<and> content_len m = 0 \<and>
     (case find_named HMS_CONTENT_LENGTH (named_headers m) of
        None \<Rightarrow> len = 0 | Some v \<Rightarrow> len = atoi v \<and> len \<noteq> 0)"

lemma verb_line_total:
  "parsed m len \<Longrightarrow> room (length s + c) m \<Longrightarrow>
   \<exists>m' f. verb_line_loop m count found s = Inr (m', f) \<and> parsed m' len \<and> room c m'"
proof (induction m count found s rule: verb_line_loop.induct)
  case (1 msg count found s)
  show ?case
  proof (cases "strtok_r [CHR '' '', CHR 0x09] s")
    case None
    with "1.prems" show ?thesis by (subst verb_line_loop.simps) (simp add: room_le)
  next
    case (Some p)
    then obtain w s' where s: "strtok_r [CHR '' '', CHR 0x09] s = Some (w, s')" by (cases p) simp
    then have short: "length s' < length s" by (rule strtok_r_shorter)
    have set: "hms_msg_set_verb (Some msg) (Some w) = Inr (msg\<lparr>verb := Some w\<rparr>, 0)"
      by (rule hms_msg_set_verb_eq)
    have "0 \<le> num_headers msg" "num_headers msg < int_max"
      using "1.prems" short by (simp_all add: parsed_def hdr_wf_def room_def)
    note add = hms_msg_add_header_eq [OF this, of w]
    show ?thesis
    proof (cases "count = 0")
      case True
      have "room (length s' + c) (msg\<lparr>verb := Some w\<rparr>)" using "1.prems"(2) short by (simp add: room_def)
      with s "1.IH"(1) [OF s refl True set refl] "1.prems"(1) show ?thesis
        by (subst verb_line_loop.simps) (simp add: True set parsed_def hdr_wf_def)
    next
      case False
      have "room (length s' + c)
          (msg\<lparr>headers := headers msg @ [\<lparr>uh_val = w\<rparr>], num_headers := num_headers msg + 1\<rparr>)"
        using "1.prems"(2) short by (simp add: room_def)
      with s "1.IH"(2) [OF s refl False add refl] "1.prems"(1) False show ?thesis
        by (subst verb_line_loop.simps) (simp add: add parsed_def hdr_wf_def)
    qed
  qed
qed

lemma named_header_total:
  assumes "parsed m len" "room (Suc c) m"
  shows "\<exists>m' len' r. hms_parse_named_header m line len = Inr (m', len', r) \<and> hdr_wf m' \<and> room c m' \<and>
    (r = 0 \<longrightarrow> parsed m' len')"
proof (cases "strchr line (CHR '':'')")
  case None
  with assms show ?thesis by (simp add: hms_parse_named_header_def parsed_def room_def)
next
  case (Some i)
  let ?k = "hms_str_strip (take i line)" and ?v = "hms_str_strip (drop (i + 1) line)"
  from assms have wf: "hdr_wf m" "named_wf (named_headers m)" "num_named_headers m < int_max" "room c m"
    by (simp_all add: parsed_def hdr_wf_def room_def)
  from hms_msg_add_named_header_ok [OF wf(1,3), of ?k ?v] obtain m1 where
    m1: "hms_msg_add_named_header (Some m) (Some ?k) (Some ?v) = Inr (m1, 0)"
    "named_headers m1 = put_named ?k ?v (named_headers m)" "content m1 = content m"
    "content_len m1 = content_len m" "num_headers m1 = num_headers m"
    "num_named_headers m1 \<le> num_named_headers m + 1" by fastforce
  have m1': "hdr_wf m1" "room c m1"
    using hdr_wf_add [OF wf(1) m1(1)] m1(5,6) assms(2) by (simp_all add: room_def)
  let ?len = "if lower ?k = lower HMS_CONTENT_LENGTH then atoi ?v else len"
  have "parsed m1 ?len" if "lower ?k = lower HMS_CONTENT_LENGTH \<longrightarrow> atoi ?v \<noteq> 0"
    using m1 m1' assms that by (simp add: parsed_def find_put_named [OF wf(2)])
  with m1(1) m1' wf Some show ?thesis
    by (auto simp: hms_parse_named_header_def Let_def simp flip: atoi_def)
qed

lemma parse_header_total:
  "parsed m len \<Longrightarrow> room (length s + c) m \<Longrightarrow>
   \<exists>m' len' r. parse_header_loop m count len s = Inr (m', len', r) \<and> hdr_wf m' \<and> room c m' \<and>
    (r = 0 \<longrightarrow> parsed m' len')"
proof (induction m count len s rule: parse_header_loop.induct)
  case (1 msg count len s)
  show ?case
  proof (cases "strtok_r [NL] s")
    case None
    with "1.prems" show ?thesis by (subst parse_header_loop.simps) (simp add: parsed_def room_le)
  next
    case (Some p)
    then obtain l s' where s: "strtok_r [NL] s = Some (l, s')" by (cases p) simp
    then have short: "length l + length s' \<le> length s" "length s' < length s"
      by (rule strtok_r_parts, rule strtok_r_shorter)
    show ?thesis
    proof (cases "count = 0")
      case True
      have "room (length l + (length s' + c)) msg" using "1.prems"(2) short(1) by (simp add: room_def)
      then obtain m' f where v: "verb_line_loop msg 0 False l = Inr (m', f)" "parsed m' len"
        "room (length s' + c) m'" using verb_line_total [OF "1.prems"(1)] by blast
      then have line: "hms_parse_verb_line msg l = Inr (m', if f then 0 else -1)"
        by (simp add: hms_parse_verb_line_def)
      from "1.IH"(1) [OF s refl True line refl] v show ?thesis
        by (subst parse_header_loop.simps) (simp add: s True line parsed_def room_le)
    next
      case False
      have "room (Suc (length s' + c)) msg" using "1.prems"(2) short(2) by (simp add: room_def)
      then obtain m' len' r where line: "hms_parse_named_header msg l len = Inr (m', len', r)" "hdr_wf m'"
        "room (length s' + c) m'" "r = 0 \<longrightarrow> parsed m' len'"
        using named_header_total [OF "1.prems"(1)] by blast
      from "1.IH"(2) [OF s refl False line(1) refl refl] line show ?thesis
        by (subst parse_header_loop.simps) (simp add: s False room_le)
    qed
  qed
qed

lemma set_body_fresh_wf:
  assumes "content m = None" "content_len m = 0" "hdr_wf m" "c \<noteq> []" "int (length c) \<le> int_max"
    "find_named HMS_CONTENT_LENGTH (named_headers m) \<noteq> None" "num_named_headers m < int_max"
  shows "\<exists>m'. hms_msg_set_body ck (Some m) (Some c) (int (length c)) = Inr (m', 0) \<and> msg_wf m'"
proof -
  let ?nh = "put_named HMS_CONTENT_LENGTH (sprintf_d (int (length c))) (named_headers m)"
  have wf: "named_wf (named_headers m)" "named_wf ?nh"
    using assms(3) by (simp_all add: hdr_wf_def named_wf_put)
  have "atoi (sprintf_d (int (length c))) = int (length c)"
    using assms(5) by (simp add: atoi_sprintf_d int_min_def)
  with wf assms(3-5) lower_keys show ?thesis
    unfolding set_body_fresh [OF assms]
    by (simp add: Let_def msg_wf_def hdr_wf_def body_wf_def named_wf_put find_put_named)
qed

lemma checksum_error_total:
  assumes "int (length c) = n" "n \<le> int_max"
  shows "\<exists>b. checksum_error ck m c n = Inr b"
  using checksum_string_rfc [OF assms] by (auto simp: checksum_error_def hms_msg_get_named_header_eq)

lemma read_body_cases:
  assumes "parsed m n" "n \<noteq> 0" "int_min \<le> n" "n \<le> int_max" "num_named_headers m < int_max"
  shows "(case hms_parse_read_body ck list_read m n s of
            Inl e \<Rightarrow> n = -1 \<or> n = int_max
          | Inr ((m', r), s') \<Rightarrow> hdr_wf m' \<and> (r = 0 \<longrightarrow> msg_wf m'))"
proof -
  have neg: "read_body_loop list_read n 0 [] s = (([], 0, False), s)" if "n < 0"
    using that by (subst read_body_loop.simps) simp
  consider "n = int_max" | "n = -1" | "n < -1" | "0 < n" "n < int_max" using assms(2,4) by linarith
  then show ?thesis
  proof cases
    case 1
    then show ?thesis by (simp add: hms_parse_read_body_def int_add_def)
  next
    case 2
    with neg show ?thesis
      by (cases "checksum_error ck m [] (- 1)")
        (simp_all add: hms_parse_read_body_def int_max_def int_min_def Let_def)
  next
    case 3
    with neg assms(1,3) show ?thesis
      by (simp add: hms_parse_read_body_def int_max_def Let_def parsed_def)
  next
    case 4
    then have add: "int_add n 1 = Inr (n + 1)" by (simp add: int_min_def)
    have wf: "hdr_wf m" "content m = None" "content_len m = 0"
      "find_named HMS_CONTENT_LENGTH (named_headers m) \<noteq> None"
      using assms(1,2) by (auto simp: parsed_def split: option.splits)
    from list_read_body_loop [of 0 n "[]" s] 4 obtain t where
      loop: "read_body_loop list_read n 0 [] s =
        (if nat n \<le> length s then (take (nat n) s, n, False) else (s, int (length s), True), t)" by auto
    show ?thesis
    proof (cases "nat n \<le> length s")
      case True
      let ?c = "take (nat n) s"
      have c: "int (length ?c) = n" "n \<le> int_max" "?c \<noteq> []" using True 4 by auto
      obtain m' where "hms_msg_set_body ck (Some m) (Some ?c) n = Inr (m', 0)" "msg_wf m'"
        using set_body_fresh_wf [OF wf(2,3,1) c(3) _ wf(4) assms(5), of ck] c by auto
      with checksum_error_total [OF c(1,2), of ck m] loop True 4 add show ?thesis
        by (auto simp: hms_parse_read_body_def Let_def msg_wf_def)
    next
      case False
      with loop 4 add wf(1) show ?thesis by (simp add: hms_parse_read_body_def Let_def)
    qed
  qed
qed

lemma parse_cases:
  assumes "0 < n" "int n < int_max"
  shows "case hms_msg_parse ck list_read (int n) s of
      Inr (Some m, s') \<Rightarrow> msg_wf m
    | Inr (None, s') \<Rightarrow> True
    | Inl e \<Rightarrow> (\<exists>buf hdr_len s' m len.
        hms_parse_read_header list_read (Some ((malloc_area (Suc n))[n := NUL])) (int n) s =
          Inr ((buf, hdr_len), s') \<and>
        hms_parse_header hms_msg_create buf hdr_len 0 = Inr (m, len, 0) \<and>
        (len = -1 \<or> len = int_max))"
proof -
  obtain buf r s' where rh: "hms_parse_read_header list_read (Some ((malloc_area (Suc n))[n := NUL]))
      (int n) s = Inr ((buf, r), s')" "length (cstr buf) \<le> n"
    using read_header_total [OF assms(1) _ malloc_buffer(2) nth_malloc_buffer] assms(2) by fastforce
  have "parsed hms_msg_create 0"
    by (simp add: parsed_def hms_msg_create_def hdr_wf_def named_wf_def)
  moreover have "room (length (cstr buf) + 1) hms_msg_create" using rh(2) assms(2) by (simp add: room_create)
  ultimately obtain m len k where
    ph: "hms_parse_header hms_msg_create buf r 0 = Inr (m, len, k)" "hdr_wf m" "k = 0 \<longrightarrow> parsed m len"
    "room 1 m" using parse_header_total unfolding hms_parse_header_def by blast
  have size: "int_add (int n) 1 = Inr (1 + int n)" "nat (1 + int n) = Suc n"
    using assms(2) by (simp_all add: int_min_def)
  have msg: "msg_wf m" if "parsed m 0"
    using that by (auto simp: parsed_def msg_wf_def body_wf_def split: option.splits)
  note d = hms_msg_destroy_wf
  show ?thesis
  proof (cases "2 < r \<and> k = 0 \<and> len \<noteq> 0")
    case True
    then have p: "parsed m len" "int_min \<le> len" "len \<le> int_max"
      using ph(3) to_int32_range by (auto simp: parsed_def atoi_def split: option.splits)
    have "num_named_headers m < int_max" using ph(4) by (simp add: room_def)
    from read_body_cases [OF p(1) _ p(2,3) this, of ck s'] True d show ?thesis
      by (auto simp: hms_msg_parse_def size malloc_buffer rh(1) ph(1) split: sum.splits prod.splits)
  next
    case False
    with d [OF ph(2)] msg ph(3) show ?thesis
      by (auto simp: hms_msg_parse_def size malloc_buffer rh(1) ph(1))
  qed
qed

subsection \<open>Messages that do not get through\<close>

lemma parse_short_body:
  assumes "header_ok m" "body_wf m" "int (length s) < content_len m" "content_len m < int_max"
    "length (header_text m) \<le> n" "int n < int_max"
  shows "\<exists>t. hms_msg_parse ck list_read (int n) (header_text m @ s) = Inr (None, t)"
proof -
  have wf: "hdr_wf m" using assms(1) by (simp add: header_ok_def)
  note len = body_length_wf [OF wf assms(2)]
  note parse = parse_after_header [OF assms(1) len(2) assms(5,6)]
  from list_read_body_loop [of 0 "content_len m" "[]" s] assms(3) obtain t where
    "read_body_loop list_read (content_len m) 0 [] s = ((s, int (length s), True), t)" by auto
  then have "hms_parse_read_body ck list_read (head_of m) (content_len m) s = Inr ((head_of m, -1), t)"
    using assms(3,4) by (simp add: hms_parse_read_body_def Let_def int_min_def)
  moreover have "hms_msg_destroy (Some (head_of m)) = Inr 0"
    using wf by (intro hms_msg_destroy_wf) (simp add: hdr_wf_def)
  ultimately show ?thesis using parse assms(3) by (simp add: len(1))
qed

lemma parse_bad_checksum:
  assumes "header_ok m" "body_wf m" "content m = Some c" "content_len m < int_max"
    "find_named HMS_CONTENT_CHECKSUM (named_headers m) = Some v" "length s = length c"
    "lower (take 33 v) \<noteq> lower (hex_string (rfc_md5 (map of_char s)))"
    "length (header_text m) \<le> n" "int n < int_max"
  shows "hms_msg_parse True list_read (int n) (header_text m @ s @ rest) = Inr (None, rest)"
proof -
  have wf: "hdr_wf m" using assms(1) by (simp add: header_ok_def)
  note len = body_length_wf [OF wf assms(2)]
  note parse = parse_after_header [OF assms(1) len(2) assms(8,9)]
  let ?n = "int (length s)"
  have c: "content_len m = ?n" "0 < ?n" "s \<noteq> []" using assms(2,3,6) by (auto simp: body_wf_def)
  then have small: "?n \<le> int_max" "?n + 1 \<le> int_max" "int_min \<le> ?n + 1"
    using assms(4) by (simp_all add: int_min_def)
  have loop: "read_body_loop list_read ?n 0 [] (s @ rest) = ((s, ?n, False), rest)"
    using list_read_body_loop [of 0 ?n "[]" "s @ rest"] by auto
  have "hdr_wf (head_of m)" "num_named_headers (head_of m) < int_max"
    using wf header_counts [of m] assms(8,9) by (simp_all add: hdr_wf_def)
  moreover have "find_named HMS_CONTENT_LENGTH (named_headers (head_of m)) \<noteq> None"
    using assms(2,3) by (auto simp: body_wf_def)
  ultimately obtain m' where m': "hms_msg_set_body True (Some (head_of m)) (Some s) ?n = Inr (m', 0)" "msg_wf m'"
    using set_body_fresh_wf [of "head_of m" s True] c small by auto
  have "checksum_error True (head_of m) s ?n = Inr True"
    using assms(5,7) checksum_string_rfc [OF refl small(1)]
    by (simp add: checksum_error_def hms_msg_get_named_header_eq strncasecmp_def length_rfc_md5)
  with loop m' small have "hms_parse_read_body True list_read (head_of m) ?n (s @ rest) = Inr ((m', -1), rest)"
    by (simp add: hms_parse_read_body_def Let_def)
  moreover have "hms_msg_destroy (Some m') = Inr 0"
    using m'(2) by (intro hms_msg_destroy_wf) (simp add: msg_wf_def)
  ultimately show ?thesis using parse c by (simp add: len(1))
qed

lemma parse_minus_one:
  assumes "header_ok m" "find_named HMS_CONTENT_LENGTH (named_headers m) = Some v" "atoi v = -1"
    "length (header_text m) \<le> n" "int n < int_max"
  shows "hms_msg_parse False list_read (int n) (header_text m @ s) = Inl AssertAbort"
proof -
  have "named_wf (named_headers m)" using assms(1) by (simp add: header_ok_def hdr_wf_def)
  from find_named_mem [OF this] assms(2,3)
  have "\<forall>h \<in> set (named_headers m). is_length h \<longrightarrow> atoi (nh_val h) \<noteq> 0"
    by (auto simp: is_length_def)
  note parse = parse_after_header [OF assms(1) this assms(4,5)]
  have "read_body_loop list_read (-1) 0 [] s = (([], 0, False), s)"
    by (subst read_body_loop.simps) simp
  then show ?thesis
    using parse assms(2,3)
    by (simp add: body_length_def hms_parse_read_body_def checksum_error_def Let_def int_min_def int_max_def)
qed

text \<open>A header that does not end: the peer stops, or there is no room left.\<close>

lemma read_header_unfinished:
  assumes "\<forall>l \<in> set ls. plain l \<and> \<not> dot_line l" "plain l" "length (unlines ls @ l) \<le> n"
    "s = [] \<or> length (unlines ls @ l) = n" "length buf = Suc n" "int n \<le> int_max" "0 < n"
  shows "\<exists>buf' t. hms_parse_read_header list_read (Some buf) (int n) (unlines ls @ l @ s) =
    Inr ((buf', -1), t)"
proof -
  let ?h = "length (unlines ls)"
  have n: "to_unsigned (int n) = n" using assms(6) by (simp add: to_unsigned_def int_max_def nat_mod_distrib)
  have "read_header_loop list_read n buf 0 False None (unlines ls @ l @ s) =
      read_header_loop list_read n (put_at (put_at buf 0 (unlines ls)) ?h l) (?h + length l)
        (dot_scan None ?h l \<noteq> None) (dot_scan None ?h l) s"
    using read_header_lines [OF assms(1), of 0 n buf "l @ s"] assms
      read_header_chars [OF assms(2), of ?h n "put_at buf 0 (unlines ls)" None s] by simp
  moreover have "read_header_loop list_read n b (?h + length l) x d s = Inr ((b, ?h + length l, d, False), t)"
    if "t = (if ?h + length l < n then [] else s)" for b x d t
    using assms(3,4) that by (subst read_header_loop.simps) (auto simp: list_read_def)
  ultimately obtain b h d t where loop:
    "read_header_loop list_read n buf 0 False None (unlines ls @ l @ s) = Inr ((b, h, d, False), t)"
    by metis
  have "n < length buf" using assms(5) by simp
  from read_header_loop_total [OF this, of None 0 False "unlines ls @ l @ s"] loop
  have "length b = length buf" "case d of None \<Rightarrow> True | Some i \<Rightarrow> i < n" by simp_all
  with loop n assms(5,7) show ?thesis
    by (cases d) (simp_all add: hms_parse_read_header_def poke_def)
qed

lemma parse_unfinished:
  assumes "\<forall>l \<in> set ls. plain l \<and> \<not> dot_line l" "plain l" "length (unlines ls @ l) \<le> n"
    "s = [] \<or> length (unlines ls @ l) = n" "int n < int_max" "0 < n"
  shows "\<exists>t. hms_msg_parse ck list_read (int n) (unlines ls @ l @ s) = Inr (None, t)"
proof -
  obtain b t where "hms_parse_read_header list_read (Some ((malloc_area (Suc n))[n := NUL])) (int n)
      (unlines ls @ l @ s) = Inr ((b, -1), t)"
    using read_header_unfinished [OF assms(1-4) malloc_buffer(2) _ assms(6)] assms(5) by fastforce
  with assms(5) show ?thesis
    by (simp add: hms_msg_parse_def malloc_buffer nat_add_distrib int_min_def)
qed

text \<open>From the list of the pending bytes to a socket.\<close>

lemma sock_parse_Some:
  "hms_msg_parse ck list_read n (sock_pending evs) = Inr (Some m, rest) \<Longrightarrow>
   \<exists>evs'. hms_msg_parse ck sock_read n evs = Inr (Some m, evs') \<and> sock_pending evs' = rest"
  using script.parse_same [where ck = ck and max_hdr_len = n and s = evs] by (auto simp: same_run_def split: sum.splits)

lemma sock_parse_None:
  "hms_msg_parse ck list_read n (sock_pending evs) = Inr (None, t) \<Longrightarrow>
   \<exists>evs'. hms_msg_parse ck sock_read n evs = Inr (None, evs')"
  using script.parse_same [where ck = ck and max_hdr_len = n and s = evs] by (auto simp: same_run_def split: sum.splits)

lemma sock_parse_Inl:
  "hms_msg_parse ck list_read n (sock_pending evs) = Inl e \<longleftrightarrow> hms_msg_parse ck sock_read n evs = Inl e"
  using script.parse_same [where ck = ck and max_hdr_len = n and s = evs] by (auto simp: same_run_def split: sum.splits)

subsection \<open>Properties\<close>

text \<open>A message for the examples.\<close>

definition sample_msg :: hms_msg where
  "sample_msg = \<lparr>msg_id = None, verb = Some ''PUT'', headers = [\<lparr>uh_val = ''/a''\<rparr>], num_headers = 1,
     named_headers = [\<lparr>nh_key = ''k'', nh_val = ''v w''\<rparr>,
       \<lparr>nh_key = HMS_CONTENT_LENGTH, nh_val = ''3''\<rparr>], num_named_headers = 2,
     content_len = 3, content = Some ''abc''\<rparr>"

lemma sample_ok:
  "header_ok sample_msg" "body_wf sample_msg" "content_len sample_msg = 3"
  "checksum_ok ck sample_msg" "received False sample_msg = sample_msg"
proof -
  show "header_ok sample_msg" by code_simp
  have "find_named HMS_CONTENT_LENGTH (named_headers sample_msg) = Some ''3''" "atoi ''3'' = 3"
    by code_simp+
  then show "body_wf sample_msg" by (simp add: sample_msg_def body_wf_def int_max_def)
  show "content_len sample_msg = 3" by code_simp
  have "find_named HMS_CONTENT_CHECKSUM (named_headers sample_msg) = None" by code_simp
  then show "checksum_ok ck sample_msg" by (simp add: checksum_ok_def split: option.splits)
  have "put_named HMS_CONTENT_LENGTH (sprintf_d (int (length ''abc''))) (named_headers sample_msg) =
      named_headers sample_msg" by code_simp
  then show "received False sample_msg = sample_msg"
    by (simp add: received_def sample_msg_def)
qed

lemma sample_text: "length (header_text sample_msg) = 32" "header_text sample_msg \<noteq> []"
  by code_simp+

text \<open>
  C1: What one side prints the other side reads. If the bytes that arrive on a socket, cut into segments in
  any way, start with the printed header of a message the wire format can carry and its body, then
  \<open>hms_msg_parse\<close> returns exactly that message (its content headers set again by \<open>hms_msg_set_body\<close>, with
  and without checksums compiled in) and leaves exactly the bytes behind it unread, so that messages can
  follow each other on a connection.
\<close>
theorem parse_print_roundtrip:
  assumes "header_ok m" "body_wf m" "checksum_ok ck m" "content_len m < int_max"
    "length (header_text m) \<le> n" "int n < int_max" "sock_pending evs = msg_bytes m @ rest"
  shows "\<exists>evs'. hms_msg_parse ck sock_read (int n) evs = Inr (Some (received ck m), evs') \<and>
    sock_pending evs' = rest"
  by (rule sock_parse_Some) (simp only: assms(7) parse_msg_bytes [OF assms(1-6)])

theorem parse_print_roundtrip_witness:
  "\<exists>evs'. hms_msg_parse False sock_read 32
      [RData (header_text sample_msg @ ''ab''), RData ''cGET'', RErr] = Inr (Some sample_msg, evs') \<and>
    sock_pending evs' = ''GET''"
  using parse_print_roundtrip [OF sample_ok(1,2), of False 32
      "[RData (header_text sample_msg @ ''ab''), RData ''cGET'', RErr]" "''GET''"]
    sample_ok(3-5) sample_text
  by (simp add: int_max_def msg_bytes_def) (simp add: sample_msg_def)

text \<open>
  C33: Segmentation does not matter: two sockets on which the same bytes arrive before the first end of file
  or error give the same message, the same failure or the same stop, however the bytes are cut.
\<close>
theorem parse_segmentation:
  assumes "sock_pending evs = sock_pending evs'"
  shows "map_sum id fst (hms_msg_parse ck sock_read n evs) =
    map_sum id fst (hms_msg_parse ck sock_read n evs')"
  using script.parse_same [where ck = ck and max_hdr_len = n and s = evs] script.parse_same [where ck = ck and max_hdr_len = n and s = evs'] assms
  by (auto simp: same_run_def split: sum.splits)

theorem parse_segmentation_witness:
  "map_sum id fst (hms_msg_parse False sock_read 32 [RData ''GET'', RData [NL, CHR ''.''], RData [NL], RErr]) =
   map_sum id fst (hms_msg_parse False sock_read 32 [RData (''GET'' @ [NL, CHR ''.'', NL])])"
  by (rule parse_segmentation) simp

text \<open>The headers with a \<open>Content-Length\<close> of -1 or \<open>INT_MAX\<close>.\<close>

definition fatal_length :: "nat \<Rightarrow> char list \<Rightarrow> bool" where
  "fatal_length n s \<longleftrightarrow> (\<exists>buf hdr_len s' m len.
     hms_parse_read_header list_read (Some ((malloc_area (Suc n))[n := NUL])) (int n) s =
       Inr ((buf, hdr_len), s') \<and>
     hms_parse_header hms_msg_create buf hdr_len 0 = Inr (m, len, 0) \<and>
     (len = -1 \<or> len = int_max))"

text \<open>
  C2: No input can make the parser misbehave beyond one check: whatever arrives and however it is cut, a
  message \<open>hms_msg_parse\<close> returns is well-formed, so that every operation of the message API on it is safe,
  and all accesses to the header buffer stay inside it; the parser stops the process only on a header
  whose \<open>Content-Length\<close> converts to -1 or to \<open>INT_MAX\<close>.
\<close>
theorem parse_safe:
  assumes "0 < n" "int n < int_max"
  shows "case hms_msg_parse ck sock_read (int n) evs of
      Inr (Some m, evs') \<Rightarrow> msg_wf m
    | Inr (None, evs') \<Rightarrow> True
    | Inl e \<Rightarrow> fatal_length n (sock_pending evs)"
  using parse_cases [OF assms, where ck = ck and s = "sock_pending evs"] script.parse_same [where ck = ck and max_hdr_len = "int n" and s = evs]
  by (auto simp: same_run_def fatal_length_def split: sum.splits option.splits)

theorem parse_safe_witness:
  "case hms_msg_parse True sock_read 4 [RData ''GE'', RErr] of
      Inr (Some m, evs') \<Rightarrow> msg_wf m
    | Inr (None, evs') \<Rightarrow> True
    | Inl e \<Rightarrow> fatal_length 4 ''GE''"
proof -
  have "sock_pending [RData ''GE'', RErr] = ''GE''" by simp
  then show ?thesis
    using parse_safe [where n = 4 and ck = True and evs = "[RData ''GE'', RErr]"]
    by (simp only: int_max_def) simp
qed

text \<open>
  C34: The remote abort: a peer that sends any acceptable header with a \<open>Content-Length\<close> whose value converts
  to -1 makes the receiver fail \<open>assert (read_in == body_len)\<close>; the process aborts, whatever the peer sends
  next. (-1 passes the test for 0, \<open>malloc (0)\<close> succeeds and the read loop does not run.)
\<close>
theorem content_length_minus_one_aborts:
  assumes "header_ok m" "find_named HMS_CONTENT_LENGTH (named_headers m) = Some v" "atoi v = -1"
    "length (header_text m) \<le> n" "int n < int_max" "sock_pending evs = header_text m @ s"
  shows "hms_msg_parse False sock_read (int n) evs = Inl AssertAbort"
  using parse_minus_one [OF assms(1-5), of s] by (simp add: sock_parse_Inl [symmetric] assms(6))

theorem content_length_minus_one_aborts_witness:
  "hms_msg_parse False sock_read 64
     [RData (''GET'' @ [NL]), RData (''content-length:-1'' @ [NL]), RData [CHR ''.'', NL]] = Inl AssertAbort"
proof -
  let ?m = "hms_msg_create\<lparr>verb := Some ''GET'', num_named_headers := 1,
      named_headers := [\<lparr>nh_key = ''content-length'', nh_val = ''-1''\<rparr>]\<rparr>"
  have "header_ok ?m" by code_simp
  moreover have "find_named HMS_CONTENT_LENGTH (named_headers ?m) = Some ''-1''" by code_simp
  moreover have "atoi ''-1'' = -1" by code_simp
  moreover have "length (header_text ?m) \<le> 64" by code_simp
  moreover have "sock_pending [RData (''GET'' @ [NL]), RData (''content-length:-1'' @ [NL]),
      RData [CHR ''.'', NL]] = header_text ?m @ []" by code_simp
  ultimately show ?thesis
    using content_length_minus_one_aborts [of ?m "''-1''" 64] by (simp add: int_max_def)
qed

text \<open>
  C39: A header ends at the first line whose last character that is not a blank is a period, not only at a
  line that is just a period: the rest of that line is kept as a header line, and the bytes behind it are
  left on the socket.
\<close>
theorem header_ends_at_dot_line:
  assumes "\<forall>l \<in> set ls. plain l \<and> \<not> dot_line l" "plain l"
    "length (unlines ls) + length l + k + 2 \<le> n" "length buf = Suc n" "int n \<le> int_max"
    "sock_pending evs = unlines ls @ l @ CHR ''.'' # replicate k CHR '' '' @ NL # s"
  shows "\<exists>buf' evs'. hms_parse_read_header sock_read (Some buf) (int n) evs =
      Inr ((buf', int (length (unlines ls) + length l + k + 2)), evs') \<and>
    cstr buf' = unlines ls @ l \<and> sock_pending evs' = s"
proof -
  from read_header_done [OF assms(1-5), of s] obtain b where
    "hms_parse_read_header list_read (Some buf) (int n) (sock_pending evs) =
      Inr ((b, int (length (unlines ls) + length l + k + 2)), s)" "cstr b = unlines ls @ l"
    using assms(6) by auto
  with script.read_header_same [of "Some buf" "int n" evs] show ?thesis
    by (auto simp: same_run_def split: sum.splits)
qed

theorem header_ends_at_dot_line_witness:
  "\<exists>buf' evs'. hms_parse_read_header sock_read (Some (replicate 41 CHR ''#'')) 40
      [RData ''SAY hello. '', RData (NL # ''To:all'')] = Inr ((buf', 12), evs') \<and>
    cstr buf' = ''SAY hello'' \<and> sock_pending evs' = ''To:all''"
  using header_ends_at_dot_line [of "[]" "''SAY hello''" 1 40 "replicate 41 CHR ''#''"
      "[RData ''SAY hello. '', RData (NL # ''To:all'')]" "''To:all''"]
  by (simp add: plain_def int_max_def)

text \<open>
  A header that is not finished gives no message: if the peer closes or fails before a line that ends in
  a period, or \<open>max_hdr_len\<close> bytes arrive without one, \<open>hms_msg_parse\<close> returns NULL.
\<close>
theorem unfinished_header_rejected:
  assumes "\<forall>l \<in> set ls. plain l \<and> \<not> dot_line l" "plain l" "length (unlines ls @ l) \<le> n"
    "s = [] \<or> length (unlines ls @ l) = n" "int n < int_max" "0 < n"
    "sock_pending evs = unlines ls @ l @ s"
  shows "\<exists>evs'. hms_msg_parse ck sock_read (int n) evs = Inr (None, evs')"
  using parse_unfinished [OF assms(1-6), of ck] sock_parse_None assms(7) by metis

theorem unfinished_header_rejected_witness:
  "\<exists>evs'. hms_msg_parse True sock_read 10
     [RData (''GET'' @ [NL]), RData ''key.:valueand more''] = Inr (None, evs')"
  using unfinished_header_rejected [of "[''GET'']" "''key.:v''" 10 "''alueand more''"]
  by (simp add: plain_def int_max_def dot_line_def)

text \<open>
  A truncated body gives no message: after an acceptable header, if fewer bytes than its
  \<open>Content-Length\<close> arrive before the end of file or an error, \<open>hms_msg_parse\<close> returns NULL.
\<close>
theorem truncated_body_rejected:
  assumes "header_ok m" "body_wf m" "content_len m < int_max" "length (header_text m) \<le> n"
    "int n < int_max" "sock_pending evs = header_text m @ s" "int (length s) < content_len m"
  shows "\<exists>evs'. hms_msg_parse ck sock_read (int n) evs = Inr (None, evs')"
  using parse_short_body [OF assms(1,2,7,3-5), of ck] sock_parse_None assms(6) by metis

theorem truncated_body_rejected_witness:
  "\<exists>evs'. hms_msg_parse True sock_read 64
     [RData (header_text sample_msg), RData ''a'', RErr, RData ''bc''] = Inr (None, evs')"
  using truncated_body_rejected [OF sample_ok(1,2), of 64
      "[RData (header_text sample_msg), RData ''a'', RErr, RData ''bc'']" "''a''" True]
    sample_ok(3) sample_text
  by (simp add: int_max_def)

text \<open>
  C38: With checksums compiled in, a corrupted body gives no message: for every body of the right length whose
  MD5 is not the one in the \<open>Content-Checksum\<close> header \<open>hms_msg_parse\<close> returns NULL.
\<close>
theorem corrupted_body_rejected:
  assumes "header_ok m" "body_wf m" "content m = Some c" "content_len m < int_max"
    "find_named HMS_CONTENT_CHECKSUM (named_headers m) = Some v" "length s = length c"
    "lower (take 33 v) \<noteq> lower (hex_string (rfc_md5 (map of_char s)))"
    "length (header_text m) \<le> n" "int n < int_max" "sock_pending evs = header_text m @ s @ rest"
  shows "\<exists>evs'. hms_msg_parse True sock_read (int n) evs = Inr (None, evs')"
  using parse_bad_checksum [OF assms(1-9), of rest] sock_parse_None assms(10) by metis

theorem corrupted_body_rejected_witness:
  "\<exists>evs'. hms_msg_parse True sock_read 64
     [RData (''PUT'' @ [NL] @ ''Content-Length:1'' @ [NL]), RData (''Content-Checksum:00'' @ [NL, CHR ''.'', NL]),
      RData ''b'', RErr] = Inr (None, evs')"
proof -
  let ?m = "hms_msg_create\<lparr>verb := Some ''PUT'', num_named_headers := 2, content := Some ''a'',
      named_headers := [\<lparr>nh_key = HMS_CONTENT_LENGTH, nh_val = ''1''\<rparr>,
        \<lparr>nh_key = HMS_CONTENT_CHECKSUM, nh_val = ''00''\<rparr>], content_len := 1\<rparr>"
  have m: "header_ok ?m" by code_simp
  have "find_named HMS_CONTENT_LENGTH (named_headers ?m) = Some ''1''" "atoi ''1'' = 1"
    by code_simp+
  then have wf: "body_wf ?m" by (simp add: body_wf_def int_max_def)
  have v: "find_named HMS_CONTENT_CHECKSUM (named_headers ?m) = Some ''00''" by code_simp
  have ne: "lower (take 33 ''00'') \<noteq> lower (hex_string (rfc_md5 (map of_char ''b'')))"
    by (rule notI, drule arg_cong [where f = length]) (simp add: length_rfc_md5)
  have len: "length (header_text ?m) \<le> 64" by code_simp
  have evs: "sock_pending [RData (''PUT'' @ [NL] @ ''Content-Length:1'' @ [NL]),
      RData (''Content-Checksum:00'' @ [NL, CHR ''.'', NL]), RData ''b'', RErr] =
      header_text ?m @ ''b'' @ []" by code_simp
  have "content ?m = Some ''a''" "content_len ?m < int_max" "length ''b'' = length ''a''" "int 64 < int_max"
    by (simp_all add: int_max_def)
  from corrupted_body_rejected [OF m wf this(1,2) v this(3) ne len this(4) evs] show ?thesis by simp
qed

end
