(* ===== verification/Hashtab.thy ===== *)
theory Hashtab
  imports Prelude "HOL-Library.Word"
begin

section \<open>The hash table (src/src/hashtab/hashtable.c, src/src/include/hashtable.h)\<close>

text \<open>
  A table of chains. A chain of nodes linked by \<open>next\<close> is the list of its nodes, \<open>htable\<close> the list of the
  chains, and an access outside \<open>htable\<close> is undefined. Keys and data are pointers the table only stores and
  hands to the functions of its creator; a datum is an option (\<open>None\<close> is NULL), a table an option where the
  code tests it for NULL. \<open>hash_value\<close> and \<open>keycmp\<close> are called with the table; of it they see the size.
  Allocation of a request that does not overflow succeeds, \<open>free\<close> has no effect on the values.
\<close>

record ('k, 'd) hashtab_node =
  node_key :: 'k
  node_datum :: "'d option"

record ('k, 'd) hashtab =
  htable :: "('k, 'd) hashtab_node list list"
  ht_size :: nat
  nel :: "64 word"
  hash_value :: "nat \<Rightarrow> 'k \<Rightarrow> nat"
  keycmp :: "'k \<Rightarrow> 'k \<Rightarrow> int"

definition HASHTAB_MAX_NODES :: "64 word" where "HASHTAB_MAX_NODES = 0xffffffff"

definition EINVAL :: int where "EINVAL = 22"

definition EEXIST :: int where "EEXIST = 17"

subsection \<open>Creation\<close>

text \<open>\<open>malloc (sizeof (*(p->htable)) * size)\<close> has to hold the slots the loop sets: the product must not wrap.\<close>

definition hashtab_create ::
    "(nat \<Rightarrow> 'k \<Rightarrow> nat) \<Rightarrow> ('k \<Rightarrow> 'k \<Rightarrow> int) \<Rightarrow> nat \<Rightarrow> ('k, 'd) hashtab res" where
  "hashtab_create hash cmp sz =
     (if 8 * sz < 2 ^ 64 then
        Inr \<lparr>htable = replicate sz [], ht_size = sz, nel = 0, hash_value = hash, keycmp = cmp\<rparr>
      else Inl Undefined)"

text \<open>\<open>h->htable[i]\<close>, read and written.\<close>

definition slot :: "('k, 'd) hashtab \<Rightarrow> nat \<Rightarrow> ('k, 'd) hashtab_node list res" where
  "slot h i = (if i < length (htable h) then Inr (htable h ! i) else Inl Undefined)"

definition set_slot ::
    "('k, 'd) hashtab \<Rightarrow> nat \<Rightarrow> ('k, 'd) hashtab_node list \<Rightarrow> ('k, 'd) hashtab" where
  "set_slot h i chain = h\<lparr>htable := (htable h)[i := chain]\<rparr>"

subsection \<open>Insertion\<close>

text \<open>
  The walk of \<open>hashtab_insert\<close> along a chain: past the smaller keys, then \<open>None\<close> for an equal key, or the
  chain with the new node between \<open>prev\<close> and \<open>cur\<close>.
\<close>

fun insert_node ::
    "('k \<Rightarrow> 'k \<Rightarrow> int) \<Rightarrow> ('k, 'd) hashtab_node \<Rightarrow> ('k, 'd) hashtab_node list \<Rightarrow>
     ('k, 'd) hashtab_node list option" where
  "insert_node cmp newnode [] = Some [newnode]"
| "insert_node cmp newnode (cur # next) =
     (if cmp (node_key newnode) (node_key cur) > 0 then
        map_option (\<lambda>next. cur # next) (insert_node cmp newnode next)
      else if cmp (node_key newnode) (node_key cur) = 0 then None
      else Some (newnode # cur # next))"

definition hashtab_insert ::
    "('k, 'd) hashtab option \<Rightarrow> 'k \<Rightarrow> 'd option \<Rightarrow> (('k, 'd) hashtab option \<times> int) res" where
  "hashtab_insert p key datum =
     (case p of
        None \<Rightarrow> Inr (None, - EINVAL)
      | Some h \<Rightarrow>
          if nel h = HASHTAB_MAX_NODES then Inr (Some h, - EINVAL)
          else
            let hvalue = hash_value h (ht_size h) key in
            bind_res (slot h hvalue) (\<lambda>chain.
            case insert_node (keycmp h) \<lparr>node_key = key, node_datum = datum\<rparr> chain of
              None \<Rightarrow> Inr (Some h, - EEXIST)
            | Some chain \<Rightarrow> Inr (Some ((set_slot h hvalue chain)\<lparr>nel := nel h + 1\<rparr>), 0)))"

subsection \<open>Deletion\<close>

text \<open>
  \<open>hashtab_delete\<close> tests the first node and then walks along the others; both cases unlink the first
  node whose key is equal and return its datum. (Only the first node of a chain is also freed.)
\<close>

fun delete_node ::
    "('k \<Rightarrow> 'k \<Rightarrow> int) \<Rightarrow> 'k \<Rightarrow> ('k, 'd) hashtab_node list \<Rightarrow>
     (('k, 'd) hashtab_node list \<times> 'd option) option" where
  "delete_node cmp key [] = None"
| "delete_node cmp key (cur # next) =
     (if cmp key (node_key cur) = 0 then Some (next, node_datum cur)
      else map_option (\<lambda>(next, d). (cur # next, d)) (delete_node cmp key next))"

definition hashtab_delete ::
    "('k, 'd) hashtab option \<Rightarrow> 'k \<Rightarrow> (('k, 'd) hashtab option \<times> 'd option) res" where
  "hashtab_delete p key =
     (case p of
        None \<Rightarrow> Inr (None, None)
      | Some h \<Rightarrow>
          let hvalue = hash_value h (ht_size h) key in
          bind_res (slot h hvalue) (\<lambda>chain.
          case delete_node (keycmp h) key chain of
            None \<Rightarrow> Inr (Some h, None)
          | Some (chain, d) \<Rightarrow> Inr (Some ((set_slot h hvalue chain)\<lparr>nel := nel h - 1\<rparr>), d)))"

subsection \<open>Search\<close>

fun find_node ::
    "('k \<Rightarrow> 'k \<Rightarrow> int) \<Rightarrow> 'k \<Rightarrow> ('k, 'd) hashtab_node list \<Rightarrow> ('k, 'd) hashtab_node option" where
  "find_node cmp key [] = None"
| "find_node cmp key (cur # next) =
     (if cmp key (node_key cur) > 0 then find_node cmp key next
      else if cmp key (node_key cur) \<noteq> 0 then None
      else Some cur)"

definition hashtab_search :: "('k, 'd) hashtab option \<Rightarrow> 'k \<Rightarrow> 'd option res" where
  "hashtab_search p key =
     (case p of
        None \<Rightarrow> Inr None
      | Some h \<Rightarrow>
          bind_res (slot h (hash_value h (ht_size h) key)) (\<lambda>chain.
          Inr (case find_node (keycmp h) key chain of None \<Rightarrow> None | Some cur \<Rightarrow> node_datum cur)))"

subsection \<open>The whole table\<close>

text \<open>
  \<open>hashtab_map\<close>. The callback \<open>apply\<close> works on a state \<open>'s\<close> (what its \<open>args\<close> point to). The outer loop
  runs over the slots \<open>i\<close> to \<open>size - 1\<close>.
\<close>

fun map_chain ::
    "('k \<Rightarrow> 'd option \<Rightarrow> 's \<Rightarrow> int \<times> 's) \<Rightarrow> ('k, 'd) hashtab_node list \<Rightarrow> 's \<Rightarrow> int \<times> 's" where
  "map_chain apply [] s = (0, s)"
| "map_chain apply (cur # next) s =
     (let (ret, s) = apply (node_key cur) (node_datum cur) s in
      if ret \<noteq> 0 then (ret, s) else map_chain apply next s)"

function map_slots ::
    "('k \<Rightarrow> 'd option \<Rightarrow> 's \<Rightarrow> int \<times> 's) \<Rightarrow> ('k, 'd) hashtab \<Rightarrow> nat \<Rightarrow> 's \<Rightarrow> (int \<times> 's) res" where
  "map_slots apply h i s =
     (if i < ht_size h then
        bind_res (slot h i) (\<lambda>chain.
        let (ret, s) = map_chain apply chain s in
        if ret \<noteq> 0 then Inr (ret, s) else map_slots apply h (i + 1) s)
      else Inr (0, s))"
  by pat_completeness auto
termination by (relation "measure (\<lambda>(apply, h, i, s). ht_size h - i)") auto

declare map_slots.simps [simp del]

definition hashtab_map ::
    "('k, 'd) hashtab option \<Rightarrow> ('k \<Rightarrow> 'd option \<Rightarrow> 's \<Rightarrow> int \<times> 's) \<Rightarrow> 's \<Rightarrow> (int \<times> 's) res" where
  "hashtab_map p apply s =
     (case p of None \<Rightarrow> Inr (0, s) | Some h \<Rightarrow> map_slots apply h 0 s)"

record hashtab_info =
  slots_used :: nat
  max_chain_len :: nat

fun chain_len_loop :: "nat \<Rightarrow> ('k, 'd) hashtab_node list \<Rightarrow> nat" where
  "chain_len_loop chain_len [] = chain_len"
| "chain_len_loop chain_len (cur # next) = chain_len_loop (chain_len + 1) next"

function stat_loop :: "('k, 'd) hashtab \<Rightarrow> nat \<Rightarrow> nat \<Rightarrow> nat \<Rightarrow> (nat \<times> nat) res" where
  "stat_loop h i used longest =
     (if i < ht_size h then
        bind_res (slot h i) (\<lambda>cur.
        if cur \<noteq> [] then
          let chain_len = chain_len_loop 0 cur in
          stat_loop h (i + 1) (used + 1) (if chain_len > longest then chain_len else longest)
        else stat_loop h (i + 1) used longest)
      else Inr (used, longest))"
  by pat_completeness auto
termination by (relation "measure (\<lambda>(h, i, used, longest). ht_size h - i)") auto

declare stat_loop.simps [simp del]

definition hashtab_stat :: "('k, 'd) hashtab \<Rightarrow> hashtab_info res" where
  "hashtab_stat h =
     bind_res (stat_loop h 0 0 0) (\<lambda>(used, longest).
     Inr \<lparr>slots_used = used, max_chain_len = longest\<rparr>)"

text \<open>
  \<open>hashtab_iterate\<close>. A pointer to a node is the number of its slot and its position in the chain. The
  \<open>int\<close> slot number of the iterator is taken to reach the size of the table.
\<close>

record hashtab_iterator =
  slot_id :: nat
  node_ptr :: "(nat \<times> nat) option"

function iterate_loop :: "('k, 'd) hashtab \<Rightarrow> nat \<Rightarrow> nat \<times> nat \<Rightarrow> hashtab_iterator option res" where
  "iterate_loop h level cur =
     (if level < ht_size h then
        bind_res (slot h (fst cur)) (\<lambda>chain.
        if snd cur < length chain then Inr (Some \<lparr>slot_id = level, node_ptr = Some cur\<rparr>)
        else iterate_loop h (level + 1) (level + 1, 0))
      else Inr None)"
  by pat_completeness auto
termination by (relation "measure (\<lambda>(h, level, cur). ht_size h - level)") auto

declare iterate_loop.simps [simp del]

definition hashtab_iterate ::
    "('k, 'd) hashtab \<Rightarrow> hashtab_iterator option \<Rightarrow> hashtab_iterator option res" where
  "hashtab_iterate h p =
     (let it = (case p of None \<Rightarrow> \<lparr>slot_id = 0, node_ptr = None\<rparr> | Some it \<Rightarrow> it) in
      case node_ptr it of
        Some (i, pos) \<Rightarrow> iterate_loop h (slot_id it) (i, pos + 1)
      | None \<Rightarrow> bind_res (slot h 0) (\<lambda>chain. iterate_loop h (slot_id it) (0, 0)))"

end
