(* ===== verification/Hashtab_Correct.thy ===== *)
theory Hashtab_Correct
  imports Hashtab Keyed_Map CString
begin

section \<open>Correctness of the hash table\<close>

text \<open>
  The contract of the comparison function, sorted chains, the table as a keyed collection that keeps what
  is there, and the traversals.
\<close>

subsection \<open>The comparison function\<close>

text \<open>What the table needs of \<open>keycmp\<close>: it orders the keys, with equivalent keys at 0.\<close>

locale key_order =
  fixes cmp :: "'k \<Rightarrow> 'k \<Rightarrow> int"
  assumes cmp_flip: "cmp a b \<le> 0 \<longleftrightarrow> 0 \<le> cmp b a"
    and cmp_trans: "cmp a b \<le> 0 \<Longrightarrow> cmp b c \<le> 0 \<Longrightarrow> cmp a c \<le> 0"
begin

lemma cmp_sym: "cmp a b = 0 \<longleftrightarrow> cmp b a = 0"
  using cmp_flip [of a b] cmp_flip [of b a] by linarith

lemma cmp_refl [simp]: "cmp a a = 0"
  using cmp_flip [of a a] by linarith

lemma cmp_less_flip: "cmp a b < 0 \<longleftrightarrow> 0 < cmp b a"
  using cmp_flip [of a b] cmp_flip [of b a] by linarith

lemma cmp_less_trans:
  assumes "cmp a b < 0" "cmp b c \<le> 0"
  shows "cmp a c < 0"
proof (rule ccontr)
  assume "\<not> cmp a c < 0"
  then have "cmp c a \<le> 0" using cmp_flip [of c a] by simp
  with assms cmp_trans [of b c a] have "cmp b a \<le> 0" by simp
  with assms(1) cmp_flip [of b a] show False by simp
qed

lemma cmp_trans_less:
  assumes "cmp a b \<le> 0" "cmp b c < 0"
  shows "cmp a c < 0"
proof (rule ccontr)
  assume "\<not> cmp a c < 0"
  then have "cmp c a \<le> 0" using cmp_flip [of c a] by simp
  with assms cmp_trans [of c a b] have "cmp c b \<le> 0" by simp
  with assms(2) cmp_flip [of c b] show False by simp
qed

lemma cmp_eq_left: "cmp a b = 0 \<Longrightarrow> cmp a c < 0 \<longleftrightarrow> cmp b c < 0"
  using cmp_trans_less [of a b c] cmp_trans_less [of b a c] cmp_sym [of a b] by auto

lemma cmp_eq_right: "cmp a b = 0 \<Longrightarrow> cmp c a < 0 \<longleftrightarrow> cmp c b < 0"
  using cmp_less_trans [of c a b] cmp_less_trans [of c b a] cmp_sym [of a b] by auto

lemma cmp_eq_zero: "cmp a b = 0 \<Longrightarrow> cmp a c = 0 \<longleftrightarrow> cmp b c = 0"
  using cmp_eq_left [of a b c] cmp_eq_right [of a b c] cmp_less_flip [of c a] cmp_less_flip [of c b]
  by (cases "cmp a c" "0::int" rule: linorder_cases) auto

text \<open>A chain in ascending order, and what it holds for a key.\<close>

definition chain_ok :: "('k, 'd) hashtab_node list \<Rightarrow> bool" where
  "chain_ok ns \<longleftrightarrow> sorted_wrt (\<lambda>m n. cmp (node_key m) (node_key n) < 0) ns"

lemma chain_ok_simps [simp]:
  "chain_ok []"
  "chain_ok (n # ns) \<longleftrightarrow> (\<forall>x \<in> set ns. cmp (node_key n) (node_key x) < 0) \<and> chain_ok ns"
  by (auto simp: chain_ok_def)

lemma find_node_smaller:
  "\<forall>n \<in> set ns. cmp k (node_key n) < 0 \<Longrightarrow> find_node cmp k ns = None"
  by (cases ns) auto

lemma find_node_Some: "find_node cmp k ns = Some n \<Longrightarrow> n \<in> set ns \<and> cmp k (node_key n) = 0"
  by (induction ns) (auto split: if_splits)

lemma find_node_None:
  "chain_ok ns \<Longrightarrow> find_node cmp k ns = None \<longleftrightarrow> (\<forall>n \<in> set ns. cmp k (node_key n) \<noteq> 0)"
proof (induction ns)
  case (Cons n ns)
  show ?case
  proof (cases "cmp k (node_key n) < 0")
    case True
    with Cons.prems have "\<forall>x \<in> set ns. cmp k (node_key x) < 0"
      using cmp_less_trans by fastforce
    with True show ?thesis by auto
  next
    case False
    with Cons show ?thesis by auto
  qed
qed simp

lemma insert_node_None:
  "chain_ok ns \<Longrightarrow> insert_node cmp new ns = None \<longleftrightarrow> find_node cmp (node_key new) ns \<noteq> None"
  by (induction ns) auto

lemma insert_node_set: "insert_node cmp new ns = Some ns' \<Longrightarrow> set ns' = insert new (set ns)"
  by (induction ns arbitrary: ns') (auto split: if_splits)

lemma insert_node_length: "insert_node cmp new ns = Some ns' \<Longrightarrow> length ns' = Suc (length ns)"
  by (induction ns arbitrary: ns') (auto split: if_splits)

lemma insert_node_ok: "insert_node cmp new ns = Some ns' \<Longrightarrow> chain_ok ns \<Longrightarrow> chain_ok ns'"
proof (induction ns arbitrary: ns')
  case (Cons n ns)
  consider "0 < cmp (node_key new) (node_key n)" | "cmp (node_key new) (node_key n) < 0"
    using Cons.prems(1) by (fastforce split: if_splits)
  then show ?case
  proof cases
    case 1
    with Cons.prems(1) obtain ns1 where "insert_node cmp new ns = Some ns1" "ns' = n # ns1" by auto
    with Cons 1 show ?thesis
      using insert_node_set [of new ns ns1] cmp_less_flip by auto
  next
    case 2
    with Cons.prems have "ns' = new # n # ns" by auto
    with 2 Cons.prems(2) show ?thesis using cmp_less_trans by fastforce
  qed
qed simp

lemma find_node_eq:
  assumes "chain_ok ns" "n \<in> set ns" "cmp k (node_key n) = 0"
  shows "find_node cmp k ns = Some n"
proof (cases "find_node cmp k ns")
  case None
  with find_node_None [OF assms(1)] assms(2,3) show ?thesis by auto
next
  case (Some m)
  from find_node_Some [OF this] have m: "m \<in> set ns" "cmp k (node_key m) = 0" by auto
  have "cmp (node_key m) (node_key n) = 0" "cmp (node_key n) (node_key m) = 0"
    using cmp_eq_zero [OF m(2), of "node_key n"] assms(3) cmp_sym by auto
  moreover have "m = n \<or> cmp (node_key m) (node_key n) < 0 \<or> cmp (node_key n) (node_key m) < 0"
    using assms(1,2) m(1) by (induction ns) auto
  ultimately show ?thesis using Some by auto
qed

lemma find_node_insert:
  assumes "insert_node cmp new ns = Some ns'" "chain_ok ns"
  shows "find_node cmp k ns' = (if cmp (node_key new) k = 0 then Some new else find_node cmp k ns)"
proof (cases "cmp (node_key new) k = 0")
  case True
  then show ?thesis
    using find_node_eq [OF insert_node_ok [OF assms]] insert_node_set [OF assms(1)] cmp_sym by simp
next
  case False
  have "find_node cmp k ns' = find_node cmp k ns"
  proof (cases "find_node cmp k ns")
    case None
    then have "find_node cmp k ns' = None"
      using False find_node_None [OF insert_node_ok [OF assms]] find_node_None [OF assms(2)]
        insert_node_set [OF assms(1)] cmp_sym [of k "node_key new"] by simp
    with None show ?thesis by simp
  next
    case (Some n)
    then show ?thesis
      using find_node_Some [OF Some] find_node_eq [OF insert_node_ok [OF assms], of n k]
        insert_node_set [OF assms(1)] by auto
  qed
  with False show ?thesis by simp
qed

lemma delete_node_None:
  "chain_ok ns \<Longrightarrow> delete_node cmp k ns = None \<longleftrightarrow> find_node cmp k ns = None"
proof -
  have "delete_node cmp k ns = None \<longleftrightarrow> (\<forall>n \<in> set ns. cmp k (node_key n) \<noteq> 0)"
    by (induction ns) auto
  then show "chain_ok ns \<Longrightarrow> ?thesis" using find_node_None [of ns k] by blast
qed

lemma delete_node_facts:
  assumes "delete_node cmp k ns = Some (ns', d)" "chain_ok ns"
  shows "set ns' = {n \<in> set ns. cmp k (node_key n) \<noteq> 0} \<and> length ns = Suc (length ns') \<and> chain_ok ns' \<and>
    (\<exists>n \<in> set ns. cmp k (node_key n) = 0 \<and> node_datum n = d)"
  using assms
proof (induction ns arbitrary: ns' d)
  case (Cons n ns)
  show ?case
  proof (cases "cmp k (node_key n) = 0")
    case True
    with Cons.prems have "\<forall>x \<in> set ns. cmp k (node_key x) < 0"
      using cmp_eq_left [OF True] by auto
    with True Cons.prems show ?thesis by auto
  next
    case False
    with Cons.prems(1) obtain ns1 where "delete_node cmp k ns = Some (ns1, d)" "ns' = n # ns1" by auto
    with Cons False show ?thesis by fastforce
  qed
qed simp

lemma find_node_delete:
  assumes "delete_node cmp k ns = Some (ns', d)" "chain_ok ns"
  shows "find_node cmp k' ns' = (if cmp k k' = 0 then None else find_node cmp k' ns)"
proof -
  note facts = delete_node_facts [OF assms]
  show ?thesis
  proof (cases "cmp k k' = 0")
    case True
    then have "\<forall>n \<in> set ns'. cmp k' (node_key n) \<noteq> 0"
      using facts cmp_eq_zero [OF True] by simp
    with True facts find_node_None [of ns' k'] show ?thesis by simp
  next
    case False
    have "find_node cmp k' ns' = find_node cmp k' ns"
    proof (cases "find_node cmp k' ns")
      case None
      then have "\<forall>n \<in> set ns. cmp k' (node_key n) \<noteq> 0" using find_node_None [OF assms(2)] by blast
      with facts find_node_None [of ns' k'] None show ?thesis by simp
    next
      case (Some n)
      from find_node_Some [OF this] have n: "n \<in> set ns" "cmp k' (node_key n) = 0" by auto
      then have "cmp k (node_key n) \<noteq> 0"
        using False cmp_eq_zero [of "node_key n" k' k] cmp_sym by metis
      with n facts find_node_eq [of ns' n k'] Some show ?thesis by auto
    qed
    with False show ?thesis by simp
  qed
qed

end
subsection \<open>The table\<close>

abbreviation hash_of :: "('k, 'd) hashtab \<Rightarrow> 'k \<Rightarrow> nat" where
  "hash_of h k \<equiv> hash_value h (ht_size h) k"

text \<open>
  A well-formed table with room for \<open>c\<close> more nodes: the functions of its creator keep their part, every
  chain is sorted and holds only keys of its slot, and \<open>nel\<close> counts the nodes.
\<close>

definition ht_wf :: "nat \<Rightarrow> ('k, 'd) hashtab \<Rightarrow> bool" where
  "ht_wf c h \<longleftrightarrow> key_order (keycmp h) \<and>
     (\<forall>k. hash_of h k < ht_size h) \<and> (\<forall>k k'. keycmp h k k' = 0 \<longrightarrow> hash_of h k = hash_of h k') \<and>
     length (htable h) = ht_size h \<and>
     (\<forall>i < ht_size h. key_order.chain_ok (keycmp h) (htable h ! i) \<and>
        (\<forall>n \<in> set (htable h ! i). hash_of h (node_key n) = i)) \<and>
     unat (nel h) = length (concat (htable h)) \<and> length (concat (htable h)) + c \<le> 2 ^ 32 - 1"

text \<open>What the table holds for a key.\<close>

definition ht_get :: "('k, 'd) hashtab \<Rightarrow> 'k \<Rightarrow> 'd option option" where
  "ht_get h k = map_option node_datum (find_node (keycmp h) k (htable h ! hash_of h k))"

lemma length_concat_update:
  "i < length xss \<Longrightarrow> length (concat (xss[i := ys])) + length (xss ! i) = length (concat xss) + length ys"
  by (induction xss arbitrary: i) (auto split: nat.splits)

lemma ht_wf_simps:
  assumes "ht_wf c h"
  shows "key_order (keycmp h)" "hash_of h k < length (htable h)" "hash_of h k < ht_size h"
    "keycmp h k k' = 0 \<Longrightarrow> hash_of h k = hash_of h k'"
    "key_order.chain_ok (keycmp h) (htable h ! hash_of h k)" "slot h (hash_of h k) = Inr (htable h ! hash_of h k)"
    "unat (nel h) = length (concat (htable h))" "length (htable h) = ht_size h"
  using assms by (simp_all add: ht_wf_def slot_def)

text \<open>Replacing one chain by another of keys of its slot.\<close>

lemma ht_wf_set_slot:
  assumes "ht_wf c h" "key_order.chain_ok (keycmp h) chain" "\<forall>n \<in> set chain. hash_of h (node_key n) = i"
    "i < ht_size h" "unat nel' = length (concat ((htable h)[i := chain]))"
    "length (concat ((htable h)[i := chain])) + c' \<le> 2 ^ 32 - 1"
  shows "ht_wf c' ((set_slot h i chain)\<lparr>nel := nel'\<rparr>)"
  using assms by (auto simp: ht_wf_def set_slot_def nth_list_update)

lemma ht_get_set_slot:
  assumes "ht_wf c h"
  shows "ht_get ((set_slot h i chain)\<lparr>nel := nel'\<rparr>) k =
    (if hash_of h k = i then map_option node_datum (find_node (keycmp h) k chain) else ht_get h k)"
  using ht_wf_simps(2) [OF assms, of k] by (auto simp: ht_get_def set_slot_def)

lemma not_full:
  assumes "ht_wf (Suc c) h"
  shows "nel h \<noteq> HASHTAB_MAX_NODES" "unat (nel h + 1) = Suc (length (concat (htable h)))"
proof -
  have n: "unat (nel h) = length (concat (htable h))" "length (concat (htable h)) < 2 ^ 32 - 1"
    using assms by (auto simp: ht_wf_def)
  then show "nel h \<noteq> HASHTAB_MAX_NODES" by (auto simp: HASHTAB_MAX_NODES_def)
  have "Suc (unat (nel h)) < 2 ^ 64" using n by simp
  then show "unat (nel h + 1) = Suc (length (concat (htable h)))"
    using n(1) by (simp add: unat_word_ariths)
qed

lemma insert_present:
  assumes "ht_wf (Suc c) h" "ht_get h k = Some d'"
  shows "hashtab_insert (Some h) k d = Inr (Some h, - EEXIST)"
proof -
  note wf = ht_wf_simps [OF assms(1)]
  have "insert_node (keycmp h) \<lparr>node_key = k, node_datum = d\<rparr> (htable h ! hash_of h k) = None"
    using assms(2) by (subst key_order.insert_node_None [OF wf(1,5)]) (auto simp: ht_get_def)
  then show ?thesis using wf(6) not_full(1) [OF assms(1)] by (simp add: hashtab_insert_def Let_def)
qed

lemma insert_absent:
  assumes "ht_wf (Suc c) h" "ht_get h k = None"
  shows "\<exists>h'. hashtab_insert (Some h) k d = Inr (Some h', 0) \<and> ht_wf c h' \<and> keycmp h' = keycmp h \<and>
    ht_get h' = (\<lambda>k'. if keycmp h k k' = 0 then Some d else ht_get h k')"
proof -
  note wf = ht_wf_simps [OF assms(1)]
  let ?i = "hash_of h k" and ?n = "\<lparr>node_key = k, node_datum = d\<rparr>"
  have "insert_node (keycmp h) ?n (htable h ! ?i) \<noteq> None"
    using assms(2) by (subst key_order.insert_node_None [OF wf(1,5)]) (auto simp: ht_get_def)
  then obtain chain where ins: "insert_node (keycmp h) ?n (htable h ! ?i) = Some chain" by auto
  note ok = key_order.insert_node_ok [OF wf(1) ins wf(5)]
  let ?h = "(set_slot h ?i chain)\<lparr>nel := nel h + 1\<rparr>"
  have slots: "\<forall>n \<in> set chain. hash_of h (node_key n) = ?i"
    using key_order.insert_node_set [OF wf(1) ins] assms(1) wf(3) by (auto simp: ht_wf_def)
  have len: "length (concat ((htable h)[?i := chain])) = Suc (length (concat (htable h)))"
    using length_concat_update [OF wf(2), of k chain] key_order.insert_node_length [OF wf(1) ins] by simp
  have "hashtab_insert (Some h) k d = Inr (Some ?h, 0)"
    using wf(6) not_full(1) [OF assms(1)] ins by (simp add: hashtab_insert_def Let_def)
  moreover have "ht_wf c ?h"
    using ht_wf_set_slot [OF assms(1) ok slots wf(3), of "nel h + 1" c] not_full(2) [OF assms(1)] len
      assms(1) by (simp add: ht_wf_def)
  moreover have "ht_get ?h = (\<lambda>k'. if keycmp h k k' = 0 then Some d else ht_get h k')"
  proof
    fix k'
    show "ht_get ?h k' = (if keycmp h k k' = 0 then Some d else ht_get h k')"
      using key_order.find_node_insert [OF wf(1) ins wf(5), of k'] wf(4) [of k k']
      by (subst ht_get_set_slot [OF assms(1)]) (auto simp: ht_get_def)
  qed
  moreover have "keycmp ?h = keycmp h" by (simp add: set_slot_def)
  ultimately show ?thesis by blast
qed

lemma delete_absent:
  assumes "ht_wf c h" "ht_get h k = None"
  shows "hashtab_delete (Some h) k = Inr (Some h, None)"
proof -
  note wf = ht_wf_simps [OF assms(1)]
  have "delete_node (keycmp h) k (htable h ! hash_of h k) = None"
    using assms(2) key_order.delete_node_None [OF wf(1,5), of k k] by (simp add: ht_get_def)
  then show ?thesis using wf(6) by (simp add: hashtab_delete_def Let_def)
qed

lemma delete_present:
  assumes "ht_wf c h" "ht_get h k = Some d"
  shows "\<exists>h'. hashtab_delete (Some h) k = Inr (Some h', d) \<and> ht_wf (Suc c) h' \<and> keycmp h' = keycmp h \<and>
    ht_get h' = (\<lambda>k'. if keycmp h k k' = 0 then None else ht_get h k')"
proof -
  note wf = ht_wf_simps [OF assms(1)]
  let ?i = "hash_of h k"
  from assms(2) obtain n where n: "find_node (keycmp h) k (htable h ! ?i) = Some n" "node_datum n = d"
    by (auto simp: ht_get_def)
  with key_order.delete_node_None [OF wf(1,5), of k k] obtain chain d' where
    del: "delete_node (keycmp h) k (htable h ! ?i) = Some (chain, d')" by fastforce
  note facts = key_order.delete_node_facts [OF wf(1) del wf(5)]
  have "d' = d"
    using facts key_order.find_node_eq [OF wf(1,5)] n by fastforce
  have slots: "\<forall>n \<in> set chain. hash_of h (node_key n) = ?i"
    using facts assms(1) wf(3) by (auto simp: ht_wf_def)
  have len: "Suc (length (concat ((htable h)[?i := chain]))) = length (concat (htable h))"
    using length_concat_update [OF wf(2), of k chain] facts by simp
  have "nel h \<noteq> 0"
  proof
    assume "nel h = 0"
    with wf(7) have "length (concat (htable h)) = 0" by (simp only: unsigned_0)
    with len show False by linarith
  qed
  then have nel: "unat (nel h - 1) = length (concat ((htable h)[?i := chain]))"
    using len wf(7) by (simp add: unat_minus_one)
  let ?h = "(set_slot h ?i chain)\<lparr>nel := nel h - 1\<rparr>"
  have "hashtab_delete (Some h) k = Inr (Some ?h, d)"
    using wf(6) del \<open>d' = d\<close> by (simp add: hashtab_delete_def Let_def)
  moreover have "ht_wf (Suc c) ?h"
    using facts len assms(1) by (intro ht_wf_set_slot [OF assms(1) _ slots wf(3) nel]) (auto simp: ht_wf_def)
  moreover have "ht_get ?h = (\<lambda>k'. if keycmp h k k' = 0 then None else ht_get h k')"
  proof
    fix k'
    show "ht_get ?h k' = (if keycmp h k k' = 0 then None else ht_get h k')"
      using key_order.find_node_delete [OF wf(1) del wf(5), of k'] wf(4) [of k k']
      by (subst ht_get_set_slot [OF assms(1)]) (auto simp: ht_get_def)
  qed
  moreover have "keycmp ?h = keycmp h" by (simp add: set_slot_def)
  ultimately show ?thesis by blast
qed

lemma search_get:
  assumes "ht_wf c h"
  shows "hashtab_search (Some h) k = Inr (case ht_get h k of None \<Rightarrow> None | Some d \<Rightarrow> d)"
  using ht_wf_simps(6) [OF assms, of k]
  by (simp add: hashtab_search_def ht_get_def split: option.splits)

lemma ht_wf_create:
  assumes "key_order cmp" "\<forall>k. hash sz k < sz" "\<forall>k k'. cmp k k' = 0 \<longrightarrow> hash sz k = hash sz k'"
    "8 * sz < 2 ^ 64" "c \<le> 2 ^ 32 - 1"
  shows "\<exists>h. hashtab_create hash cmp sz = Inr h \<and> ht_wf c h \<and> ht_get h = (\<lambda>k. None) \<and> keycmp h = cmp"
  using assms
  by (auto simp: hashtab_create_def ht_wf_def ht_get_def key_order.chain_ok_simps)

subsection \<open>The table as a keyed collection\<close>

lemma ht_wf_less: "ht_wf (Suc c) h \<Longrightarrow> ht_wf c h"
  by (simp add: ht_wf_def)

lemma ht_get_same:
  assumes "ht_wf c h" "keycmp h k k' = 0"
  shows "ht_get h k' = ht_get h k"
proof -
  note wf = ht_wf_simps [OF assms(1)]
  have eq: "keycmp h k x = 0 \<longleftrightarrow> keycmp h k' x = 0" for x
    using key_order.cmp_eq_zero [OF wf(1) assms(2)] .
  have "find_node (keycmp h) k' (htable h ! hash_of h k) = find_node (keycmp h) k (htable h ! hash_of h k)"
  proof (cases "find_node (keycmp h) k (htable h ! hash_of h k)")
    case None
    with key_order.find_node_None [OF wf(1,5), of k k] eq
    have "find_node (keycmp h) k' (htable h ! hash_of h k) = None"
      by (subst key_order.find_node_None [OF wf(1,5)]) simp
    with None show ?thesis by simp
  next
    case (Some n)
    from key_order.find_node_Some [OF wf(1) Some] eq
    have "n \<in> set (htable h ! hash_of h k)" "keycmp h k' (node_key n) = 0" by auto
    with key_order.find_node_eq [OF wf(1,5)] Some show ?thesis by auto
  qed
  with wf(4) [OF assms(2)] show ?thesis by (simp add: ht_get_def)
qed

definition ht_put :: "('k, 'd) hashtab \<Rightarrow> 'k \<Rightarrow> 'd option \<Rightarrow> ('k, 'd) hashtab res" where
  "ht_put h k d = bind_res (hashtab_insert (Some h) k d)
     (\<lambda>(p, ret). case p of None \<Rightarrow> Inl Undefined | Some h \<Rightarrow> Inr h)"

definition ht_del :: "('k, 'd) hashtab \<Rightarrow> 'k \<Rightarrow> ('k, 'd) hashtab res" where
  "ht_del h k = bind_res (hashtab_delete (Some h) k)
     (\<lambda>(p, d). case p of None \<Rightarrow> Inl Undefined | Some h \<Rightarrow> Inr h)"

definition keep_old :: "'v option \<Rightarrow> 'v \<Rightarrow> 'v option" where
  "keep_old old v = (case old of None \<Rightarrow> Some v | Some w \<Rightarrow> Some w)"

interpretation ht: keeping_map ht_get ht_put ht_del "\<lambda>h k k'. keycmp h k k' = 0" keep_old ht_wf
proof unfold_locales
  fix c and h :: "('k, 'd) hashtab" and k v
  assume wf: "ht_wf (Suc c) h"
  show "\<exists>h'. ht_put h k v = Inr h' \<and> ht_wf c h' \<and>
      (\<lambda>k k'. keycmp h' k k' = 0) = (\<lambda>k k'. keycmp h k k' = 0) \<and>
      ht_get h' = (\<lambda>k'. if keycmp h k k' = 0 then keep_old (ht_get h k) v else ht_get h k')"
  proof (cases "ht_get h k")
    case None
    with insert_absent [OF wf None, of v] show ?thesis
      by (auto simp: ht_put_def keep_old_def cong: if_cong)
  next
    case (Some d)
    with insert_present [OF wf Some, of v] ht_get_same [OF wf] ht_wf_less [OF wf] show ?thesis
      by (auto simp: ht_put_def keep_old_def cong: if_cong)
  qed
next
  fix c and h :: "('k, 'd) hashtab" and k
  assume wf: "ht_wf c h"
  show "\<exists>h'. ht_del h k = Inr h' \<and> ht_wf c h' \<and>
      (\<lambda>k k'. keycmp h' k k' = 0) = (\<lambda>k k'. keycmp h k k' = 0) \<and>
      ht_get h' = (\<lambda>k'. if keycmp h k k' = 0 then None else ht_get h k')"
  proof (cases "ht_get h k")
    case None
    with delete_absent [OF wf None] ht_get_same [OF wf] wf show ?thesis by (auto simp: ht_del_def)
  next
    case (Some d)
    with delete_present [OF wf Some] ht_wf_less show ?thesis by (fastforce simp: ht_del_def)
  qed
qed (auto simp: keep_old_def intro: ht_wf_less)

subsection \<open>Traversals\<close>

lemma map_chain_append:
  "map_chain f (ns @ ns') s =
     (let (r, s') = map_chain f ns s in if r \<noteq> 0 then (r, s') else map_chain f ns' s')"
proof (induction ns arbitrary: s)
  case (Cons n ns)
  then show ?case by (cases "f (node_key n) (node_datum n) s") (simp add: Let_def)
qed simp

lemma drop_slot: "i < length xs \<Longrightarrow> drop i xs = xs ! i # drop (Suc i) xs"
  by (simp add: Cons_nth_drop_Suc)

lemma map_slots_concat:
  assumes "length (htable h) = ht_size h"
  shows "map_slots f h i s = Inr (map_chain f (concat (drop i (htable h))) s)"
proof (induction "ht_size h - i" arbitrary: i s rule: less_induct)
  case less
  show ?case
  proof (cases "i < ht_size h")
    case True
    obtain r s' where f: "map_chain f (htable h ! i) s = (r, s')" by (cases "map_chain f (htable h ! i) s")
    have "map_slots f h (Suc i) s' = Inr (map_chain f (concat (drop (Suc i) (htable h))) s')"
      using True by (intro less) simp
    with f True assms show ?thesis
      by (subst map_slots.simps) (simp add: slot_def drop_slot map_chain_append Let_def)
  next
    case False
    with assms show ?thesis by (subst map_slots.simps) simp
  qed
qed

lemma chain_len_loop_length: "chain_len_loop n ns = n + length ns"
  by (induction n ns rule: chain_len_loop.induct) auto

lemma Max_insert_max: "finite S \<Longrightarrow> Max (insert a (insert b S)) = Max (insert (max a b) S)"
  by (cases "S = {}") (auto simp: max.assoc)

lemma stat_loop_eq:
  assumes "length (htable h) = ht_size h"
  shows "stat_loop h i u l = Inr (u + length (filter (\<lambda>c. c \<noteq> []) (drop i (htable h))),
    Max (insert l (length ` set (drop i (htable h)))))"
proof (induction "ht_size h - i" arbitrary: i u l rule: less_induct)
  case less
  show ?case
  proof (cases "i < ht_size h")
    case True
    then have d: "drop i (htable h) = htable h ! i # drop (Suc i) (htable h)"
      and slot: "slot h i = Inr (htable h ! i)" using assms by (simp_all add: drop_slot slot_def)
    let ?x = "length (htable h ! i)"
    have IH: "stat_loop h (Suc i) u' l' = Inr (u' + length (filter (\<lambda>c. c \<noteq> []) (drop (Suc i) (htable h))),
        Max (insert l' (length ` set (drop (Suc i) (htable h)))))" for u' l'
      using True by (intro less) simp
    have m: "(if ?x > l then ?x else l) = max l ?x" by (simp add: max_def)
    have z: "max l ?x = l" if "htable h ! i = []" using that by simp
    have "stat_loop h i u l =
        stat_loop h (Suc i) (if htable h ! i = [] then u else Suc u) (max l ?x)"
      using True slot z
      by (subst stat_loop.simps) (simp add: chain_len_loop_length Let_def m)
    moreover have "Max (insert l (length ` set (drop i (htable h)))) =
        Max (insert (max l ?x) (length ` set (drop (Suc i) (htable h))))"
      unfolding d by (simp only: list.set image_insert Max_insert_max finite_imageI finite_set)
    moreover have "length (filter (\<lambda>c. c \<noteq> []) (drop i (htable h))) =
        (if htable h ! i = [] then 0 else 1) + length (filter (\<lambda>c. c \<noteq> []) (drop (Suc i) (htable h)))"
      by (simp add: d)
    ultimately show ?thesis by (simp only: IH) simp
  next
    case False
    with assms show ?thesis by (subst stat_loop.simps) simp
  qed
qed

text \<open>
  The iterator: \<open>rest_of h it\<close> are the nodes behind it. A call answers with the next node, or frees the
  iterator and answers NULL.
\<close>

fun rest_at :: "('k, 'd) hashtab \<Rightarrow> nat \<times> nat \<Rightarrow> ('k, 'd) hashtab_node list" where
  "rest_at h (i, pos) = drop pos (htable h ! i) @ concat (drop (Suc i) (htable h))"

definition node_at :: "('k, 'd) hashtab \<Rightarrow> hashtab_iterator \<Rightarrow> ('k, 'd) hashtab_node" where
  "node_at h it = (case node_ptr it of Some (i, pos) \<Rightarrow> htable h ! i ! pos | None \<Rightarrow> undefined)"

definition it_ok :: "('k, 'd) hashtab \<Rightarrow> hashtab_iterator \<Rightarrow> bool" where
  "it_ok h it \<longleftrightarrow> (case node_ptr it of
     Some (i, pos) \<Rightarrow> slot_id it = i \<and> i < ht_size h \<and> pos < length (htable h ! i) | None \<Rightarrow> False)"

lemma iterate_loop_next:
  assumes "length (htable h) = ht_size h" "i < ht_size h"
  shows "if rest_at h (i, pos) = [] then iterate_loop h i (i, pos) = Inr None
    else \<exists>j p. iterate_loop h i (i, pos) = Inr (Some \<lparr>slot_id = j, node_ptr = Some (j, p)\<rparr>) \<and>
      j < ht_size h \<and> p < length (htable h ! j) \<and>
      rest_at h (i, pos) = (htable h ! j ! p) # rest_at h (j, Suc p)"
  using assms(2)
proof (induction "ht_size h - i" arbitrary: i pos rule: less_induct)
  case less
  have slot: "slot h i = Inr (htable h ! i)" using less.prems assms by (simp add: slot_def)
  show ?case
  proof (cases "pos < length (htable h ! i)")
    case True
    with less.prems slot show ?thesis
      by (subst (1 2) iterate_loop.simps) (simp add: drop_slot)
  next
    case False
    then have step: "iterate_loop h i (i, pos) = iterate_loop h (Suc i) (Suc i, 0)"
      using less.prems slot by (subst iterate_loop.simps) simp
    show ?thesis
    proof (cases "Suc i < ht_size h")
      case True
      have "rest_at h (i, pos) = rest_at h (Suc i, 0)"
        using False True assms(1) by (simp add: drop_slot)
      with less.hyps [of "Suc i" 0] True step show ?thesis by (simp del: rest_at.simps)
    next
      case last: False
      then have "rest_at h (i, pos) = []" using False assms(1) by simp
      moreover have "iterate_loop h (Suc i) (Suc i, 0) = Inr None"
        using last by (subst iterate_loop.simps) simp
      ultimately show ?thesis using step by simp
    qed
  qed
qed

text \<open>Calling it until it answers NULL, at most \<open>n\<close> times: the nodes it stood at, and whether it ended.\<close>

fun visit ::
    "nat \<Rightarrow> ('k, 'd) hashtab \<Rightarrow> hashtab_iterator option \<Rightarrow> (('k, 'd) hashtab_node list \<times> bool) res" where
  "visit 0 h p = Inr ([], False)"
| "visit (Suc n) h p =
     bind_res (hashtab_iterate h p) (\<lambda>p.
     case p of
       None \<Rightarrow> Inr ([], True)
     | Some it \<Rightarrow> bind_res (visit n h (Some it)) (\<lambda>(ns, ended). Inr (node_at h it # ns, ended)))"

lemma visit_rest:
  assumes "length (htable h) = ht_size h" "i < ht_size h"
    "hashtab_iterate h p = iterate_loop h i (i, pos)" "length (rest_at h (i, pos)) < n"
  shows "visit n h p = Inr (rest_at h (i, pos), True)"
  using assms(2-4)
proof (induction n arbitrary: p i pos)
  case (Suc n)
  show ?case
  proof (cases "rest_at h (i, pos) = []")
    case True
    with iterate_loop_next [OF assms(1) Suc.prems(1), of pos] Suc.prems(2) show ?thesis
      by (simp del: rest_at.simps)
  next
    case False
    with iterate_loop_next [OF assms(1) Suc.prems(1), of pos] obtain j q where
      j: "iterate_loop h i (i, pos) = Inr (Some \<lparr>slot_id = j, node_ptr = Some (j, q)\<rparr>)"
        "j < ht_size h" "q < length (htable h ! j)"
        "rest_at h (i, pos) = (htable h ! j ! q) # rest_at h (j, Suc q)"
      by (auto simp del: rest_at.simps)
    let ?it = "\<lparr>slot_id = j, node_ptr = Some (j, q)\<rparr>"
    have "visit n h (Some ?it) = Inr (rest_at h (j, Suc q), True)"
      using j Suc.prems(3)
      by (intro Suc.IH) (simp_all add: hashtab_iterate_def del: rest_at.simps)
    with j Suc.prems(2) show ?thesis by (simp add: node_at_def del: rest_at.simps)
  qed
qed simp

lemma visit_all:
  assumes "length (htable h) = ht_size h" "0 < ht_size h" "length (concat (htable h)) < n"
  shows "visit n h None = Inr (concat (htable h), True)"
proof -
  have rest: "rest_at h (0, 0) = concat (htable h)"
    using assms by (cases "htable h") simp_all
  moreover have "hashtab_iterate h None = iterate_loop h 0 (0, 0)"
    using assms by (simp add: hashtab_iterate_def slot_def)
  ultimately show ?thesis using visit_rest [OF assms(1,2), of None 0 n] assms(3) by simp
qed

subsection \<open>Keys compared by \<open>strcasecmp\<close>\<close>

text \<open>The comparison of the program's own keys keeps the contract.\<close>

lemma strcasecmp_swap: "strcasecmp s t = - strcasecmp t s"
  by (induction s t rule: strcasecmp.induct) auto

lemma strcasecmp_trans: "strcasecmp s t \<le> 0 \<Longrightarrow> strcasecmp t u \<le> 0 \<Longrightarrow> strcasecmp s u \<le> 0"
proof (induction s t arbitrary: u rule: strcasecmp.induct)
  case (1 u)
  then show ?case by (cases u) auto
next
  case (2 y ys u)
  then show ?case by (cases u) auto
next
  case (3 x xs u)
  then show ?case by simp
next
  case (4 x xs y ys u)
  then obtain z zs where "u = z # zs" by (cases u) auto
  with 4 show ?case by (auto split: if_splits)
qed

interpretation nocase: key_order strcasecmp
proof
  fix a b c
  show "strcasecmp a b \<le> 0 \<longleftrightarrow> 0 \<le> strcasecmp b a"
    using strcasecmp_swap [of a b] by linarith
  show "strcasecmp a b \<le> 0 \<Longrightarrow> strcasecmp b c \<le> 0 \<Longrightarrow> strcasecmp a c \<le> 0"
    by (rule strcasecmp_trans)
qed

subsection \<open>Properties\<close>

text \<open>
  C11: The hash table is a map that keeps what is there: any sequence of insertions and deletions on a
  well-formed table with room for it runs without an access outside the slots, keeps the table well-formed
  (chains sorted, every key in its slot, \<open>nel\<close> the number of nodes), and a search afterwards finds what the
  same sequence of updates of a partial function holds, with keys equal when \<open>keycmp\<close> gives 0 and an
  insertion under a key that is present changing nothing.
\<close>
theorem hashtab_refines_map:
  assumes "ht_wf (length ops) h"
  shows "\<exists>h'. run_ops ht_put ht_del h ops = Inr h' \<and> ht_wf 0 h' \<and>
    ht_get h' = spec_ops (\<lambda>k k'. keycmp h k k' = 0) keep_old (ht_get h) ops \<and>
    (\<forall>k. hashtab_search (Some h') k =
      Inr (case spec_ops (\<lambda>k k'. keycmp h k k' = 0) keep_old (ht_get h) ops k of
             None \<Rightarrow> None | Some d \<Rightarrow> d))"
  using ht.run_ops_refines [OF assms] search_get by metis

text \<open>A small table of strings.\<close>

definition first_byte :: "nat \<Rightarrow> string \<Rightarrow> nat" where
  "first_byte sz k = (if k = [] then 0 else of_char (c_tolower (hd k)) mod sz)"

definition small_table :: "(string, nat) hashtab" where
  "small_table = \<lparr>htable = [[], [], []], ht_size = 3, nel = 0, hash_value = first_byte, keycmp = strcasecmp\<rparr>"

lemma small_table_wf: "c \<le> 2 ^ 32 - 1 \<Longrightarrow> ht_wf c small_table"
proof -
  assume c: "c \<le> 2 ^ 32 - 1"
  have lt: "\<forall>k. first_byte 3 k < 3" by (simp add: first_byte_def)
  have same: "\<forall>k k'. strcasecmp k k' = 0 \<longrightarrow> first_byte 3 k = first_byte 3 k'"
  proof (intro allI impI)
    fix k k' :: string
    assume "strcasecmp k k' = 0"
    then have "lower k = lower k'" by simp
    then show "first_byte 3 k = first_byte 3 k'"
      by (cases k; cases k') (simp_all add: first_byte_def lower_def)
  qed
  have "8 * (3::nat) < 2 ^ 64" by simp
  from ht_wf_create [where hash = first_byte and sz = 3, OF nocase.key_order_axioms lt same this c]
  obtain h :: "(string, nat) hashtab"
    where h: "hashtab_create first_byte strcasecmp 3 = Inr h" "ht_wf c h" by blast
  have "replicate 3 x = [x, x, x]" for x :: "(string, nat) hashtab_node list"
    by (simp add: eval_nat_numeral)
  with h show ?thesis by (simp add: small_table_def hashtab_create_def)
qed

lemma small_table_get: "ht_get small_table = (\<lambda>k. None)"
proof
  fix k
  have "first_byte 3 k < 3" by (simp add: first_byte_def)
  then have "([[], [], []] :: (string, nat) hashtab_node list list) ! first_byte 3 k \<in> {[]}"
    using nth_mem [of "first_byte 3 k" "[[], [], []]"] by simp
  then show "ht_get small_table k = None" by (simp add: small_table_def ht_get_def)
qed

theorem hashtab_refines_map_witness:
  "\<exists>h'. run_ops ht_put ht_del small_table
      [Put ''Key'' (Some 1), Put ''KEY'' (Some 2), Put ''other'' None, Del ''Other''] = Inr h' \<and>
    hashtab_search (Some h') ''key'' = Inr (Some 1) \<and> hashtab_search (Some h') ''other'' = Inr None"
proof -
  let ?ops = "[Put ''Key'' (Some 1), Put ''KEY'' (Some 2), Put ''other'' None, Del ''Other'']"
  have "ht_wf (length ?ops) small_table" by (rule small_table_wf) simp
  note r = hashtab_refines_map [OF this]
  have "keycmp small_table = strcasecmp" "ht_get small_table = (\<lambda>k. None)"
    by (simp add: small_table_def) (rule small_table_get)
  moreover have "lower ''Key'' = ''key''" "lower ''KEY'' = ''key''" "lower ''key'' = ''key''"
    "lower ''other'' = ''other''" "lower ''Other'' = ''other''" by code_simp+
  ultimately show ?thesis using r by (auto simp: keep_old_def)
qed

text \<open>
  What \<open>hashtab_insert\<close> and \<open>hashtab_delete\<close> return: on a well-formed table an insertion answers
  \<open>-EEXIST\<close> and changes nothing exactly if the key is present, else 0 and the key is found from then on; a
  deletion returns the datum of the key, or NULL with the table unchanged. A NULL table or a full one
  answers \<open>-EINVAL\<close>.
\<close>
theorem hashtab_results:
  assumes "ht_wf (Suc c) h"
  shows "(ht_get h k \<noteq> None \<longrightarrow> hashtab_insert (Some h) k d = Inr (Some h, - EEXIST)) \<and>
    (ht_get h k = None \<longrightarrow> (\<exists>h'. hashtab_insert (Some h) k d = Inr (Some h', 0) \<and> ht_get h' k = Some d)) \<and>
    (ht_get h k = None \<longrightarrow> hashtab_delete (Some h) k = Inr (Some h, None)) \<and>
    (\<forall>x. ht_get h k = Some x \<longrightarrow>
      (\<exists>h'. hashtab_delete (Some h) k = Inr (Some h', x) \<and> ht_get h' k = None)) \<and>
    hashtab_insert None k d = Inr (None, - EINVAL) \<and>
    hashtab_insert (Some (h\<lparr>nel := HASHTAB_MAX_NODES\<rparr>)) k d =
      Inr (Some (h\<lparr>nel := HASHTAB_MAX_NODES\<rparr>), - EINVAL)"
proof -
  have refl: "keycmp h k k = 0"
    using key_order.cmp_refl [OF ht_wf_simps(1) [OF assms]] .
  have "\<exists>h'. hashtab_insert (Some h) k d = Inr (Some h', 0) \<and> ht_get h' k = Some d" if "ht_get h k = None"
    using insert_absent [OF assms that, of d] refl by auto
  moreover have "\<exists>h'. hashtab_delete (Some h) k = Inr (Some h', x) \<and> ht_get h' k = None"
    if "ht_get h k = Some x" for x
    using delete_present [OF assms that] refl by auto
  ultimately show ?thesis
    using insert_present [OF assms] delete_absent [OF assms] by (auto simp: hashtab_insert_def)
qed

theorem hashtab_results_witness:
  "\<exists>h'. hashtab_insert (Some small_table) ''k'' (Some 7) = Inr (Some h', 0) \<and> ht_get h' ''k'' = Some (Some 7)"
proof -
  have "ht_wf (Suc 0) small_table" by (rule small_table_wf) simp
  moreover have "ht_get small_table ''k'' = None" by (simp add: small_table_get)
  ultimately show ?thesis
    using hashtab_results [of 0 small_table "''k''" "Some 7"] by simp
qed

text \<open>
  \<open>hashtab_map\<close> applies the function to every node once, slot after slot in chain order, and stops at the
  first result that is not 0, which it returns; \<open>hashtab_stat\<close> reports the number of slots in use and the
  length of the longest chain.
\<close>
theorem hashtab_map_stat:
  assumes "length (htable h) = ht_size h"
  shows "hashtab_map (Some h) f s = Inr (map_chain f (concat (htable h)) s) \<and>
    hashtab_stat h = Inr \<lparr>slots_used = length (filter (\<lambda>c. c \<noteq> []) (htable h)),
      max_chain_len = Max (insert 0 (length ` set (htable h)))\<rparr>"
  using map_slots_concat [OF assms, of f 0 s] stat_loop_eq [OF assms, of 0 0 0]
  by (simp add: hashtab_map_def hashtab_stat_def)

theorem hashtab_map_stat_witness:
  "hashtab_stat (small_table\<lparr>htable := [[\<lparr>node_key = ''c'', node_datum = Some 1\<rparr>,
      \<lparr>node_key = ''f'', node_datum = None\<rparr>], [], [\<lparr>node_key = ''b'', node_datum = None\<rparr>]]\<rparr>) =
    Inr \<lparr>slots_used = 2, max_chain_len = 2\<rparr>"
  by (subst conjunct2 [OF hashtab_map_stat]) (simp_all add: small_table_def)

text \<open>
  Iterating visits every node exactly once: on a table with at least one slot, calling
  \<open>hashtab_iterate\<close> from NULL with each iterator it returns yields the nodes of all chains in order and then
  NULL, which frees the iterator; so a bound of one call more than there are nodes is enough for any
  traversal to end.
\<close>
theorem hashtab_iterate_all:
  assumes "length (htable h) = ht_size h" "0 < ht_size h" "length (concat (htable h)) < n"
  shows "visit n h None = Inr (concat (htable h), True)"
  using assms by (rule visit_all)

theorem hashtab_iterate_all_witness:
  "visit 3 (small_table\<lparr>htable := [[], [\<lparr>node_key = ''a'', node_datum = None\<rparr>],
      [\<lparr>node_key = ''b'', node_datum = Some 2\<rparr>]]\<rparr>) None =
    Inr ([\<lparr>node_key = ''a'', node_datum = None\<rparr>, \<lparr>node_key = ''b'', node_datum = Some 2\<rparr>], True)"
  by (subst hashtab_iterate_all) (simp_all add: small_table_def)

end
