(* ===== verification/Run.thy ===== *)
theory Run
  imports Prelude
begin

section \<open>Calls that may not return\<close>

text \<open>
  The result of a function with a loop whose end the model does not know beforehand: \<open>None\<close> is a call that
  does not return, \<open>Some (Inl _)\<close> one that stops the process, \<open>Some (Inr x)\<close> one that returns. That such a
  call returns is a theorem about its result.
\<close>

type_synonym 'a run = "'a res option"

definition bind_run :: "'a run \<Rightarrow> ('a \<Rightarrow> 'b run) \<Rightarrow> 'b run" where
  "bind_run m f = Option.bind m (\<lambda>r. case r of Inl e \<Rightarrow> Some (Inl e) | Inr x \<Rightarrow> f x)"

abbreviation returns :: "'a \<Rightarrow> 'a run" where
  "returns x \<equiv> Some (Inr x)"

lemma bind_run_simps [simp]:
  "bind_run None f = None"
  "bind_run (Some (Inl e)) f = Some (Inl e)"
  "bind_run (Some (Inr x)) f = f x"
  by (simp_all add: bind_run_def)

lemma bind_run_iff [res_iff]:
  "bind_run m f = returns y \<longleftrightarrow> (\<exists>x. m = returns x \<and> f x = returns y)"
  by (auto simp: bind_run_def split: sum.splits Option.bind_splits)

lemma bind_run_mono [partial_function_mono]:
  assumes "mono_option B" "\<And>y. mono_option (\<lambda>f. C y f)"
  shows "mono_option (\<lambda>f. bind_run (B f) (\<lambda>y. C y f))"
  unfolding bind_run_def
proof (rule bind_mono [OF assms(1)])
  fix r
  show "mono_option (\<lambda>f. case r of Inl e \<Rightarrow> Some (Inl e) | Inr x \<Rightarrow> C x f)"
    by (cases r) (auto intro: assms(2) partial_function_mono)
qed

lemma bind_run_cong [fundef_cong]:
  "m = m' \<Longrightarrow> (\<And>x. m' = returns x \<Longrightarrow> f x = f' x) \<Longrightarrow> bind_run m f = bind_run m' f'"
  by (auto simp: bind_run_def split: sum.splits Option.bind_splits)

lemma Some_bind_res: "Some (bind_res x f) = bind_run (Some x) (\<lambda>y. Some (f y))"
  by (cases x) simp_all

lemma bind_run_assoc: "bind_run (bind_run m f) g = bind_run m (\<lambda>x. bind_run (f x) g)"
  by (auto simp: bind_run_def split: sum.splits Option.bind_splits)

text \<open>
  \<open>run_rel Q v w\<close>: whenever \<open>v\<close> returns or stops the process, so does \<open>w\<close>, and the results are related by \<open>Q\<close>.
\<close>

definition run_rel :: "('x \<Rightarrow> 'y \<Rightarrow> bool) \<Rightarrow> 'x run \<Rightarrow> 'y run \<Rightarrow> bool" where
  "run_rel Q v w \<longleftrightarrow>
     (case v of
        None \<Rightarrow> True
      | Some (Inl e) \<Rightarrow> w = Some (Inl e)
      | Some (Inr x) \<Rightarrow> \<exists>y. w = returns y \<and> Q x y)"

lemma run_rel_simps [simp]:
  "run_rel Q None w" "run_rel Q (Some (Inl e)) w \<longleftrightarrow> w = Some (Inl e)"
  "run_rel Q (returns x) w \<longleftrightarrow> (\<exists>y. w = returns y \<and> Q x y)"
  by (simp_all add: run_rel_def)

lemma run_rel_bind:
  assumes "run_rel Q v w" "\<And>x y. Q x y \<Longrightarrow> run_rel Q' (f x) (g y)"
  shows "run_rel Q' (bind_run v f) (bind_run w g)"
proof (cases v)
  case (Some r)
  with assms show ?thesis by (cases r) auto
qed simp

lemma run_rel_same:
  "(\<And>x. v = returns x \<Longrightarrow> run_rel Q (f x) (g x)) \<Longrightarrow> run_rel Q (bind_run v f) (bind_run v g)"
  by (rule run_rel_bind [where Q = "\<lambda>x y. v = returns x \<and> x = y"]) (auto simp: run_rel_def split: option.splits sum.splits)

lemma run_rel_mono: "run_rel Q v w \<Longrightarrow> (\<And>x y. Q x y \<Longrightarrow> Q' x y) \<Longrightarrow> run_rel Q' v w"
  by (auto simp: run_rel_def split: option.splits sum.splits)

lemma run_rel_if: "(b \<Longrightarrow> run_rel Q v w) \<Longrightarrow> (\<not> b \<Longrightarrow> run_rel Q v' w') \<Longrightarrow> run_rel Q (if b then v else v') (if b then w else w')"
  by simp

text \<open>The other side also runs a step that has no effect on the result.\<close>

lemma run_rel_right:
  "w = returns y \<Longrightarrow> run_rel Q v (g y) \<Longrightarrow> run_rel Q v (bind_run w g)"
  by simp

end
