(* ===== verification/Hashtab_Memory.thy ===== *)
theory Hashtab_Memory
  imports Hashtab Hms_Util Run
begin

section \<open>The hash table in memory (src/src/hashtab/hashtable.c)\<close>

text \<open>
  Creation, insertion, deletion, search, printing and destruction once more, now with every pointer: nodes,
  arrays of slots and tables are objects of a memory, at the addresses the code reaches them by (0 is NULL).
  An access to an object that is not allocated is undefined, and so is a second \<open>free\<close>; every
  assignment to memory is one step, in the order of the source. What \<open>malloc\<close> answers is a parameter, a
  function of the memory; 0 is its failure. Hashtab_Memory_Correct shows that Hashtab is what the links hold.
\<close>

type_synonym addr = nat

record ('k, 'd) mem_node =
  mn_key :: 'k
  mn_datum :: "'d option"
  mn_next :: addr

record 'k mem_table =
  mt_htable :: addr
  mt_size :: nat
  mt_nel :: "64 word"
  mt_hash_value :: "nat \<Rightarrow> 'k \<Rightarrow> nat"
  mt_keycmp :: "'k \<Rightarrow> 'k \<Rightarrow> int"

record ('k, 'd) memory =
  nodes :: "addr \<rightharpoonup> ('k, 'd) mem_node"
  arrays :: "addr \<rightharpoonup> addr list"
  tables :: "addr \<rightharpoonup> 'k mem_table"

text \<open>Reading an object: NULL and what is not allocated give no value.\<close>

definition load :: "(addr \<rightharpoonup> 'a) \<Rightarrow> addr \<Rightarrow> 'a run" where
  "load f p =
     (if p = 0 then Some (Inl Undefined)
      else case f p of None \<Rightarrow> Some (Inl Undefined) | Some x \<Rightarrow> returns x)"

text \<open>\<open>h->htable[i]\<close>, read and written.\<close>

definition get_slot :: "'k mem_table \<Rightarrow> nat \<Rightarrow> ('k, 'd) memory \<Rightarrow> addr run" where
  "get_slot t i m =
     bind_run (load (arrays m) (mt_htable t)) (\<lambda>slots.
     if i < length slots then returns (slots ! i) else Some (Inl Undefined))"

definition put_slot ::
    "'k mem_table \<Rightarrow> nat \<Rightarrow> addr \<Rightarrow> ('k, 'd) memory \<Rightarrow> ('k, 'd) memory run" where
  "put_slot t i p m =
     bind_run (load (arrays m) (mt_htable t)) (\<lambda>slots.
     if i < length slots then returns (m\<lparr>arrays := (arrays m)(mt_htable t \<mapsto> slots[i := p])\<rparr>)
     else Some (Inl Undefined))"

text \<open>\<open>p->next = q\<close>, and \<open>h->nel\<close> set to a new value.\<close>

definition set_node_next ::
    "addr \<Rightarrow> addr \<Rightarrow> ('k, 'd) memory \<Rightarrow> ('k, 'd) memory run" where
  "set_node_next p q m =
     bind_run (load (nodes m) p) (\<lambda>n. returns (m\<lparr>nodes := (nodes m)(p \<mapsto> n\<lparr>mn_next := q\<rparr>)\<rparr>))"

definition set_nel :: "addr \<Rightarrow> 64 word \<Rightarrow> ('k, 'd) memory \<Rightarrow> ('k, 'd) memory run" where
  "set_nel h n m =
     bind_run (load (tables m) h) (\<lambda>t. returns (m\<lparr>tables := (tables m)(h \<mapsto> t\<lparr>mt_nel := n\<rparr>)\<rparr>))"

text \<open>\<open>free\<close> of a node.\<close>

definition free_node :: "addr \<Rightarrow> ('k, 'd) memory \<Rightarrow> ('k, 'd) memory run" where
  "free_node p m =
     (if p = 0 then returns m
      else bind_run (load (nodes m) p) (\<lambda>_. returns (m\<lparr>nodes := (nodes m)(p := None)\<rparr>)))"

definition ENOMEM :: int where "ENOMEM = 12"

subsection \<open>Creation\<close>

text \<open>The answers of the two calls of \<open>malloc\<close>: \<open>mt\<close> for the table, \<open>ma\<close> for the slots.\<close>

definition hashtab_create_mem ::
    "(('k, 'd) memory \<Rightarrow> addr) \<Rightarrow> (('k, 'd) memory \<Rightarrow> addr) \<Rightarrow> (nat \<Rightarrow> 'k \<Rightarrow> nat) \<Rightarrow>
     ('k \<Rightarrow> 'k \<Rightarrow> int) \<Rightarrow> nat \<Rightarrow> ('k, 'd) memory \<Rightarrow> (('k, 'd) memory \<times> addr) run" where
  "hashtab_create_mem mt ma hash cmp sz m =
     (let p = mt m in
      if p = 0 then returns (m, 0)
      else
        let t = \<lparr>mt_htable = 0, mt_size = sz, mt_nel = 0, mt_hash_value = hash, mt_keycmp = cmp\<rparr>;
            m = m\<lparr>tables := (tables m)(p \<mapsto> t)\<rparr>;
            a = ma m in
        if a = 0 then returns (m\<lparr>tables := (tables m)(p := None)\<rparr>, 0)
        else if 8 * sz < 2 ^ 64 then
          returns (m\<lparr>tables := (tables m)(p \<mapsto> t\<lparr>mt_htable := a\<rparr>),
                     arrays := (arrays m)(a \<mapsto> replicate sz 0)\<rparr>, p)
        else Some (Inl Undefined))"

subsection \<open>Insertion\<close>

text \<open>The loop over \<open>prev\<close> and \<open>cur\<close>.\<close>

partial_function (option) insert_walk ::
    "('k \<Rightarrow> 'k \<Rightarrow> int) \<Rightarrow> 'k \<Rightarrow> ('k, 'd) memory \<Rightarrow> addr \<Rightarrow> addr \<Rightarrow> (addr \<times> addr) run" where
  [code]: "insert_walk cmp key m prev cur =
     (if cur = 0 then returns (prev, cur)
      else bind_run (load (nodes m) cur) (\<lambda>n.
        if cmp key (mn_key n) > 0 then insert_walk cmp key m cur (mn_next n)
        else returns (prev, cur)))"

text \<open>\<open>cur && keycmp (h, key, cur->key) == 0\<close>.\<close>

definition is_key :: "('k \<Rightarrow> 'k \<Rightarrow> int) \<Rightarrow> 'k \<Rightarrow> addr \<Rightarrow> ('k, 'd) memory \<Rightarrow> bool run" where
  "is_key cmp key cur m =
     (if cur = 0 then returns False
      else bind_run (load (nodes m) cur) (\<lambda>n. returns (cmp key (mn_key n) = 0)))"

text \<open>The new node, linked in behind \<open>prev\<close> or at the slot \<open>hvalue\<close>.\<close>

definition insert_new ::
    "(('k, 'd) memory \<Rightarrow> addr) \<Rightarrow> addr \<Rightarrow> 'k mem_table \<Rightarrow> nat \<Rightarrow> addr \<Rightarrow> 'k \<Rightarrow> 'd option \<Rightarrow>
     ('k, 'd) memory \<Rightarrow> (('k, 'd) memory \<times> int) run" where
  "insert_new malloc h t hvalue prev key datum m =
     (let newnode = malloc m in
      if newnode = 0 then returns (m, - ENOMEM)
      else let m = m\<lparr>nodes := (nodes m)(newnode \<mapsto> \<lparr>mn_key = key, mn_datum = datum, mn_next = 0\<rparr>)\<rparr> in
      bind_run
        (if prev \<noteq> 0 then
           bind_run (load (nodes m) prev) (\<lambda>pn.
           bind_run (set_node_next newnode (mn_next pn) m) (\<lambda>m.
           set_node_next prev newnode m))
         else
           bind_run (get_slot t hvalue m) (\<lambda>p.
           bind_run (set_node_next newnode p m) (\<lambda>m.
           put_slot t hvalue newnode m))) (\<lambda>m.
      bind_run (set_nel h (mt_nel t + 1) m) (\<lambda>m. returns (m, 0))))"

definition hashtab_insert_mem ::
    "(('k, 'd) memory \<Rightarrow> addr) \<Rightarrow> addr \<Rightarrow> 'k \<Rightarrow> 'd option \<Rightarrow> ('k, 'd) memory \<Rightarrow>
     (('k, 'd) memory \<times> int) run" where
  "hashtab_insert_mem malloc h key datum m =
     (if h = 0 then returns (m, - EINVAL)
      else bind_run (load (tables m) h) (\<lambda>t.
      if mt_nel t = HASHTAB_MAX_NODES then returns (m, - EINVAL)
      else let hvalue = mt_hash_value t (mt_size t) key in
      bind_run (get_slot t hvalue m) (\<lambda>first.
      bind_run (insert_walk (mt_keycmp t) key m 0 first) (\<lambda>(prev, cur).
      bind_run (is_key (mt_keycmp t) key cur m) (\<lambda>present.
      if present then returns (m, - EEXIST)
      else insert_new malloc h t hvalue prev key datum m)))))"

subsection \<open>Deletion\<close>

text \<open>The loop behind the first node: the node found and the one in front of it.\<close>

partial_function (option) delete_walk ::
    "('k \<Rightarrow> 'k \<Rightarrow> int) \<Rightarrow> 'k \<Rightarrow> ('k, 'd) memory \<Rightarrow> addr \<Rightarrow> addr \<Rightarrow> (addr \<times> addr) option run" where
  [code]: "delete_walk cmp key m prev cur =
     (if cur = 0 then returns None
      else bind_run (load (nodes m) cur) (\<lambda>n.
        if cmp key (mn_key n) = 0 then returns (Some (prev, cur))
        else delete_walk cmp key m cur (mn_next n)))"

text \<open>The first node is unlinked and freed; a node behind it is unlinked only.\<close>

definition delete_first ::
    "addr \<Rightarrow> 'k mem_table \<Rightarrow> nat \<Rightarrow> addr \<Rightarrow> ('k, 'd) memory \<Rightarrow> (('k, 'd) memory \<times> 'd option) run" where
  "delete_first h t hvalue cur m =
     bind_run (load (nodes m) cur) (\<lambda>n.
     bind_run (put_slot t hvalue (mn_next n) m) (\<lambda>m.
     bind_run (set_node_next cur 0 m) (\<lambda>m.
     bind_run (load (nodes m) cur) (\<lambda>n.
     let d = mn_datum n in
     bind_run (free_node cur m) (\<lambda>m.
     bind_run (set_nel h (mt_nel t - 1) m) (\<lambda>m. returns (m, d)))))))"

definition delete_behind ::
    "addr \<Rightarrow> 'k mem_table \<Rightarrow> addr \<Rightarrow> addr \<Rightarrow> ('k, 'd) memory \<Rightarrow> (('k, 'd) memory \<times> 'd option) run" where
  "delete_behind h t prev cur m =
     bind_run (load (nodes m) cur) (\<lambda>n.
     bind_run (set_node_next prev (mn_next n) m) (\<lambda>m.
     bind_run (set_node_next cur 0 m) (\<lambda>m.
     bind_run (load (nodes m) cur) (\<lambda>n.
     let d = mn_datum n in
     bind_run (set_nel h (mt_nel t - 1) m) (\<lambda>m. returns (m, d))))))"

definition hashtab_delete_mem ::
    "addr \<Rightarrow> 'k \<Rightarrow> ('k, 'd) memory \<Rightarrow> (('k, 'd) memory \<times> 'd option) run" where
  "hashtab_delete_mem h key m =
     (if h = 0 then returns (m, None)
      else bind_run (load (tables m) h) (\<lambda>t.
      let hvalue = mt_hash_value t (mt_size t) key in
      bind_run (get_slot t hvalue m) (\<lambda>cur.
      bind_run (is_key (mt_keycmp t) key cur m) (\<lambda>found.
      if found then delete_first h t hvalue cur m
      else if cur \<noteq> 0 then
        bind_run (load (nodes m) cur) (\<lambda>n.
        bind_run (delete_walk (mt_keycmp t) key m cur (mn_next n)) (\<lambda>r.
        case r of None \<Rightarrow> returns (m, None) | Some (prev, cur) \<Rightarrow> delete_behind h t prev cur m))
      else returns (m, None)))))"

subsection \<open>Search\<close>

partial_function (option) search_walk ::
    "('k \<Rightarrow> 'k \<Rightarrow> int) \<Rightarrow> 'k \<Rightarrow> ('k, 'd) memory \<Rightarrow> addr \<Rightarrow> addr run" where
  [code]: "search_walk cmp key m cur =
     (if cur = 0 then returns cur
      else bind_run (load (nodes m) cur) (\<lambda>n.
        if cmp key (mn_key n) > 0 then search_walk cmp key m (mn_next n) else returns cur))"

definition hashtab_search_mem :: "addr \<Rightarrow> 'k \<Rightarrow> ('k, 'd) memory \<Rightarrow> 'd option run" where
  "hashtab_search_mem h key m =
     (if h = 0 then returns None
      else bind_run (load (tables m) h) (\<lambda>t.
      bind_run (get_slot t (mt_hash_value t (mt_size t) key) m) (\<lambda>first.
      bind_run (search_walk (mt_keycmp t) key m first) (\<lambda>cur.
      if cur = 0 then returns None
      else bind_run (load (nodes m) cur) (\<lambda>n.
      if mt_keycmp t key (mn_key n) \<noteq> 0 then returns None else returns (mn_datum n))))))"

subsection \<open>Destruction\<close>

text \<open>The arguments \<open>key_free\<close> and \<open>datum_free\<close> of \<open>hashtab_destroy\<close> are never used.\<close>

partial_function (option) free_chain :: "addr \<Rightarrow> ('k, 'd) memory \<Rightarrow> ('k, 'd) memory run" where
  [code]: "free_chain cur m =
     (if cur = 0 then returns m
      else bind_run (load (nodes m) cur) (\<lambda>n.
        bind_run (free_node cur m) (\<lambda>m. free_chain (mn_next n) m)))"

function destroy_slots :: "'k mem_table \<Rightarrow> nat \<Rightarrow> ('k, 'd) memory \<Rightarrow> ('k, 'd) memory run" where
  "destroy_slots t i m =
     (if i < mt_size t then
        bind_run (get_slot t i m) (\<lambda>cur.
        bind_run (free_chain cur m) (\<lambda>m.
        bind_run (put_slot t i 0 m) (\<lambda>m. destroy_slots t (i + 1) m)))
      else returns m)"
  by pat_completeness auto
termination by (relation "measure (\<lambda>(t, i, m). mt_size t - i)") auto

declare destroy_slots.simps [simp del]

definition hashtab_destroy_mem :: "addr \<Rightarrow> ('k, 'd) memory \<Rightarrow> ('k, 'd) memory run" where
  "hashtab_destroy_mem h m =
     (if h = 0 then returns m
      else bind_run (load (tables m) h) (\<lambda>t.
      bind_run (destroy_slots t 0 m) (\<lambda>m.
      bind_run (load (arrays m) (mt_htable t)) (\<lambda>_.
      let m = m\<lparr>arrays := (arrays m)(mt_htable t := None)\<rparr> in
      let m = m\<lparr>tables := (tables m)(h \<mapsto> t\<lparr>mt_htable := 0\<rparr>)\<rparr> in
      returns (m\<lparr>tables := (tables m)(h := None)\<rparr>)))))"

subsection \<open>Printing\<close>

text \<open>What \<open>hashtab_print\<close> prints, one entry for each call of \<open>printf\<close>. The \<open>int\<close> count may overflow.\<close>

datatype printed = Slot_Label nat | Node_Address addr | Newline | Total_Items int

partial_function (option) print_chain ::
    "('k, 'd) memory \<Rightarrow> addr \<Rightarrow> int \<Rightarrow> printed list \<Rightarrow> (int \<times> printed list) run" where
  [code]: "print_chain m cur count out =
     (if cur = 0 then returns (count, out)
      else
        let out = out @ [Node_Address cur] in
        bind_run (Some (int_add count 1)) (\<lambda>count.
        bind_run (load (nodes m) cur) (\<lambda>n. print_chain m (mn_next n) count out)))"

function print_slots ::
    "'k mem_table \<Rightarrow> nat \<Rightarrow> ('k, 'd) memory \<Rightarrow> int \<Rightarrow> printed list \<Rightarrow> (int \<times> printed list) run" where
  "print_slots t i m count out =
     (if i < mt_size t then
        bind_run (get_slot t i m) (\<lambda>cur.
        bind_run (print_chain m cur count (out @ [Slot_Label i])) (\<lambda>(count, out).
        print_slots t (i + 1) m count (out @ [Newline])))
      else returns (count, out))"
  by pat_completeness auto
termination by (relation "measure (\<lambda>(t, i, m, count, out). mt_size t - i)") auto

declare print_slots.simps [simp del]

definition hashtab_print_mem :: "addr \<Rightarrow> ('k, 'd) memory \<Rightarrow> printed list run" where
  "hashtab_print_mem h m =
     (if h = 0 then returns []
      else bind_run (load (tables m) h) (\<lambda>t.
      bind_run (print_slots t 0 m 0 []) (\<lambda>(count, out). returns (out @ [Total_Items count]))))"

end
