(* ===== verification/Hashtab_Chains.thy ===== *)
theory Hashtab_Chains
  imports Hashtab_Memory
begin

section \<open>Chains of the hash table in memory\<close>

text \<open>
  \<open>seg\<close>: the chains as paths along the links, and what the loops do on them. \<open>table_in m h pss H\<close>: at \<open>h\<close>
  the memory \<open>m\<close> holds the table \<open>H\<close> of Hashtab, its chains at the addresses \<open>pss\<close>; how it changes with one
  chain.
\<close>

subsection \<open>Chains\<close>

text \<open>\<open>seg f p qs r\<close>: from \<open>p\<close> the links lead along \<open>qs\<close> to \<open>r\<close>.\<close>

fun seg :: "(addr \<rightharpoonup> ('k, 'd) mem_node) \<Rightarrow> addr \<Rightarrow> addr list \<Rightarrow> addr \<Rightarrow> bool" where
  "seg f p [] r \<longleftrightarrow> p = r"
| "seg f p (q # qs) r \<longleftrightarrow> p = q \<and> q \<noteq> 0 \<and>
     (case f q of None \<Rightarrow> False | Some n \<Rightarrow> seg f (mn_next n) qs r)"

definition node_val :: "(addr \<rightharpoonup> ('k, 'd) mem_node) \<Rightarrow> addr \<Rightarrow> ('k, 'd) hashtab_node" where
  "node_val f p =
     (case f p of Some n \<Rightarrow> \<lparr>node_key = mn_key n, node_datum = mn_datum n\<rparr> | None \<Rightarrow> undefined)"

lemma node_val_Some [simp]:
  "f p = Some n \<Longrightarrow> node_val f p = \<lparr>node_key = mn_key n, node_datum = mn_datum n\<rparr>"
  by (simp add: node_val_def)

lemma load_Some [simp]: "p \<noteq> 0 \<Longrightarrow> f p = Some x \<Longrightarrow> load f p = returns x"
  by (simp add: load_def)

lemma seg_append: "seg f p (us @ vs) r \<longleftrightarrow> (\<exists>q. seg f p us q \<and> seg f q vs r)"
  by (induction us arbitrary: p) (auto split: option.splits)

lemma seg_cong: "(\<And>q. q \<in> set qs \<Longrightarrow> f' q = f q) \<Longrightarrow> seg f' p qs r = seg f p qs r"
  by (induction qs arbitrary: p) (auto split: option.splits)

lemma seg_upd [simp]: "q \<notin> set qs \<Longrightarrow> seg (f(q := v)) p qs r = seg f p qs r"
  by (rule seg_cong) auto

lemma seg_nonnull: "seg f p qs r \<Longrightarrow> q \<in> set qs \<Longrightarrow> q \<noteq> 0 \<and> f q \<noteq> None"
  by (induction qs arbitrary: p) (auto split: option.splits)

lemma seg_start: "seg f p qs 0 \<Longrightarrow> p = 0 \<longleftrightarrow> qs = []"
  by (cases qs) auto

lemma node_val_cong: "f' p = f p \<Longrightarrow> node_val f' p = node_val f p"
  by (simp add: node_val_def)

lemma node_vals_cong: "(\<And>q. q \<in> set qs \<Longrightarrow> f' q = f q) \<Longrightarrow> map (node_val f') qs = map (node_val f) qs"
  by (auto intro: node_val_cong)

text \<open>Redirecting the last link of a segment.\<close>

lemma seg_redirect:
  assumes "seg f p (us @ [q]) r" "distinct (us @ [q])" "f q = Some n"
  shows "seg (f(q \<mapsto> n\<lparr>mn_next := r'\<rparr>)) p (us @ [q]) r'"
proof -
  from assms(1) have "seg f p us q" "q \<noteq> 0" by (auto simp: seg_append)
  moreover have "seg (f(q \<mapsto> n\<lparr>mn_next := r'\<rparr>)) p us q = seg f p us q"
    using assms(2) by (intro seg_cong) auto
  ultimately show ?thesis by (auto simp: seg_append)
qed

subsection \<open>The walks\<close>

lemma dropWhile_map': "dropWhile P (map g xs) = map g (dropWhile (\<lambda>x. P (g x)) xs)"
  by (induction xs) auto

lemma takeWhile_map': "takeWhile P (map g xs) = map g (takeWhile (\<lambda>x. P (g x)) xs)"
  by (induction xs) auto

text \<open>Where \<open>insert_node\<close> puts the new node: behind the smaller keys.\<close>

lemma insert_node_eq:
  "insert_node cmp new ns =
     (let us = takeWhile (\<lambda>n. cmp (node_key new) (node_key n) > 0) ns;
          vs = dropWhile (\<lambda>n. cmp (node_key new) (node_key n) > 0) ns in
      if vs \<noteq> [] \<and> cmp (node_key new) (node_key (hd vs)) = 0 then None else Some (us @ new # vs))"
  by (induction ns) (auto simp: Let_def)

abbreviation key_gt :: "('k \<Rightarrow> 'k \<Rightarrow> int) \<Rightarrow> 'k \<Rightarrow> (addr \<rightharpoonup> ('k, 'd) mem_node) \<Rightarrow> addr \<Rightarrow> bool" where
  "key_gt cmp key f p \<equiv> cmp key (node_key (node_val f p)) > 0"

lemma insert_node_map:
  assumes "us = takeWhile (key_gt cmp (node_key new) f) qs" "vs = dropWhile (key_gt cmp (node_key new) f) qs"
  shows "insert_node cmp new (map (node_val f) qs) =
    (if vs \<noteq> [] \<and> cmp (node_key new) (node_key (node_val f (hd vs))) = 0 then None
     else Some (map (node_val f) us @ new # map (node_val f) vs))"
  using assms [symmetric] by (cases vs) (simp_all add: insert_node_eq takeWhile_map' dropWhile_map')

lemma insert_walk_seg:
  "seg (nodes m) cur qs 0 \<Longrightarrow>
   \<exists>p. insert_walk cmp key m prev cur =
      returns (last (prev # takeWhile (key_gt cmp key (nodes m)) qs), p) \<and>
     seg (nodes m) cur (takeWhile (key_gt cmp key (nodes m)) qs) p \<and>
     seg (nodes m) p (dropWhile (key_gt cmp key (nodes m)) qs) 0"
proof (induction qs arbitrary: prev cur)
  case Nil
  then show ?case by (subst insert_walk.simps) simp
next
  case (Cons q qs)
  then obtain n where n: "cur = q" "q \<noteq> 0" "nodes m q = Some n" "seg (nodes m) (mn_next n) qs 0"
    by (auto split: option.splits)
  show ?case
  proof (cases "cmp key (mn_key n) > 0")
    case True
    with Cons.IH [OF n(4), of q] n show ?thesis by (subst insert_walk.simps) auto
  next
    case False
    with n show ?thesis by (subst insert_walk.simps) auto
  qed
qed

lemma find_node_split:
  "find_node cmp key ns =
     (let vs = dropWhile (\<lambda>n. cmp key (node_key n) > 0) ns in
      if vs = [] \<or> cmp key (node_key (hd vs)) \<noteq> 0 then None else Some (hd vs))"
  by (induction ns) (auto simp: Let_def)

lemma search_walk_seg:
  "seg (nodes m) cur qs 0 \<Longrightarrow>
   \<exists>p. search_walk cmp key m cur = returns p \<and> seg (nodes m) p (dropWhile (key_gt cmp key (nodes m)) qs) 0"
proof (induction qs arbitrary: cur)
  case Nil
  then show ?case by (subst search_walk.simps) simp
next
  case (Cons q qs)
  then obtain n where n: "cur = q" "q \<noteq> 0" "nodes m q = Some n" "seg (nodes m) (mn_next n) qs 0"
    by (auto split: option.splits)
  then show ?case using Cons.IH [OF n(4)] by (subst search_walk.simps) auto
qed

text \<open>Where \<open>delete_node\<close> finds its node.\<close>

lemma delete_node_eq:
  "delete_node cmp key ns =
     (let us = takeWhile (\<lambda>n. cmp key (node_key n) \<noteq> 0) ns;
          vs = dropWhile (\<lambda>n. cmp key (node_key n) \<noteq> 0) ns in
      if vs = [] then None else Some (us @ tl vs, node_datum (hd vs)))"
  by (induction ns) (auto simp: Let_def)

abbreviation key_ne :: "('k \<Rightarrow> 'k \<Rightarrow> int) \<Rightarrow> 'k \<Rightarrow> (addr \<rightharpoonup> ('k, 'd) mem_node) \<Rightarrow> addr \<Rightarrow> bool" where
  "key_ne cmp key f p \<equiv> cmp key (node_key (node_val f p)) \<noteq> 0"

lemma delete_node_map:
  assumes "us = takeWhile (key_ne cmp key f) qs" "vs = dropWhile (key_ne cmp key f) qs"
  shows "delete_node cmp key (map (node_val f) qs) =
    (if vs = [] then None else Some (map (node_val f) (us @ tl vs), node_datum (node_val f (hd vs))))"
  using assms [symmetric] by (cases vs) (simp_all add: delete_node_eq takeWhile_map' dropWhile_map')

lemma delete_walk_seg:
  "seg (nodes m) cur qs 0 \<Longrightarrow>
   delete_walk cmp key m prev cur = returns
     (case dropWhile (key_ne cmp key (nodes m)) qs of
        [] \<Rightarrow> None
      | q # _ \<Rightarrow> Some (last (prev # takeWhile (key_ne cmp key (nodes m)) qs), q))"
proof (induction qs arbitrary: prev cur)
  case Nil
  then show ?case by (subst delete_walk.simps) simp
next
  case (Cons q qs)
  then obtain n where n: "cur = q" "q \<noteq> 0" "nodes m q = Some n" "seg (nodes m) (mn_next n) qs 0"
    by (auto split: option.splits)
  show ?case
  proof (cases "cmp key (mn_key n) = 0")
    case True
    with n show ?thesis by (subst delete_walk.simps) simp
  next
    case False
    with Cons.IH [OF n(4), of q] n show ?thesis by (subst delete_walk.simps) (simp cong: list.case_cong)
  qed
qed

lemma free_chain_seg:
  "seg (nodes m) cur qs 0 \<Longrightarrow> distinct qs \<Longrightarrow>
   free_chain cur m = returns (m\<lparr>nodes := nodes m |` (- set qs)\<rparr>)"
proof (induction qs arbitrary: cur m)
  case Nil
  have "m\<lparr>nodes := nodes m |` (- set [])\<rparr> = m" by (cases m) (simp add: restrict_map_def)
  with Nil show ?case by (subst free_chain.simps) simp
next
  case (Cons q qs)
  then obtain n where n: "cur = q" "q \<noteq> 0" "nodes m q = Some n" "seg (nodes m) (mn_next n) qs 0"
    by (auto split: option.splits)
  let ?m = "m\<lparr>nodes := (nodes m)(q := None)\<rparr>"
  have "seg (nodes ?m) (mn_next n) qs 0"
    using n(4) Cons.prems(2) by simp
  moreover have "distinct qs" using Cons.prems(2) by simp
  ultimately have "free_chain (mn_next n) ?m = returns (?m\<lparr>nodes := nodes ?m |` (- set qs)\<rparr>)"
    by (rule Cons.IH)
  moreover have "nodes ?m |` (- set qs) = nodes m |` (- set (q # qs))"
    by (auto simp: restrict_map_def)
  ultimately have "free_chain (mn_next n) ?m = returns (m\<lparr>nodes := nodes m |` (- set (q # qs))\<rparr>)" by simp
  then show ?case using n by (subst free_chain.simps) (simp add: free_node_def)
qed


subsection \<open>The table\<close>

definition table_in ::
    "('k, 'd) memory \<Rightarrow> addr \<Rightarrow> addr list list \<Rightarrow> ('k, 'd) hashtab \<Rightarrow> bool" where
  "table_in m h pss H \<longleftrightarrow> h \<noteq> 0 \<and>
     (\<exists>t ss. tables m h = Some t \<and> mt_htable t \<noteq> 0 \<and> arrays m (mt_htable t) = Some ss \<and>
        length ss = mt_size t \<and> length pss = mt_size t \<and> mt_size t = ht_size H \<and> mt_nel t = nel H \<and>
        mt_hash_value t = hash_value H \<and> mt_keycmp t = keycmp H \<and>
        htable H = map (map (node_val (nodes m))) pss \<and> distinct (concat pss) \<and>
        (\<forall>i < mt_size t. seg (nodes m) (ss ! i) (pss ! i) 0))"

lemma nth_in_concat: "j < length xss \<Longrightarrow> q \<in> set (xss ! j) \<Longrightarrow> q \<in> set (concat xss)"
  using nth_mem by fastforce

lemma set_concat_update:
  assumes "i < length xss" "distinct (concat xss)"
  shows "set (concat (xss[i := ys])) = set (concat xss) - set (xss ! i) \<union> set ys"
  using assms
proof (induction xss arbitrary: i)
  case (Cons xs xss)
  show ?case
  proof (cases i)
    case (Suc j)
    have "set (xss ! j) \<subseteq> set (concat xss)" using Cons.prems(1) Suc nth_in_concat [of j xss] by auto
    with Cons Suc show ?thesis by auto
  qed (use Cons.prems in auto)
qed simp

lemma distinct_concat_update:
  assumes "i < length xss" "distinct (concat xss)" "distinct ys"
    "set ys \<inter> (set (concat xss) - set (xss ! i)) = {}"
  shows "distinct (concat (xss[i := ys]))"
  using assms
proof (induction xss arbitrary: i)
  case (Cons xs xss)
  show ?case
  proof (cases i)
    case 0
    with Cons.prems show ?thesis by auto
  next
    case (Suc j)
    then have j: "j < length xss" "distinct (concat xss)" using Cons.prems by auto
    have sub: "set (xss ! j) \<subseteq> set (concat xss)" using j(1) nth_in_concat [of j xss] by auto
    then have "distinct (concat (xss[j := ys]))"
      using Cons.IH [OF j Cons.prems(3)] Cons.prems(4) Suc by auto
    moreover have "set xs \<inter> set (concat (xss[j := ys])) = {}"
    proof -
      have d: "set xs \<inter> set (concat xss) = {}" using Cons.prems(2) by simp
      then have "set ys \<inter> set xs = {}" using Cons.prems(4) Suc sub by (simp del: set_concat) blast
      with d show ?thesis unfolding set_concat_update [OF j] by blast
    qed
    ultimately show ?thesis using Cons.prems(2) Suc by simp
  qed
qed simp

lemma distinct_concat_disjoint:
  "distinct (concat xss) \<Longrightarrow> i < length xss \<Longrightarrow> j < length xss \<Longrightarrow> i \<noteq> j \<Longrightarrow> q \<in> set (xss ! j) \<Longrightarrow>
   q \<notin> set (xss ! i)"
proof (induction xss arbitrary: i j)
  case (Cons xs xss)
  then have d: "set xs \<inter> set (concat xss) = {}" "distinct (concat xss)" by auto
  show ?case
  proof (cases i)
    case 0
    then obtain j' where "j = Suc j'" using Cons.prems by (cases j) auto
    with 0 d(1) Cons.prems nth_in_concat [of j' xss q] show ?thesis by auto
  next
    case (Suc i')
    show ?thesis
    proof (cases j)
      case 0
      with Suc d(1) Cons.prems nth_in_concat [of i' xss q] show ?thesis by auto
    next
      case (Suc j')
      with \<open>i = Suc i'\<close> Cons.IH [OF d(2), of i' j'] Cons.prems show ?thesis by simp
    qed
  qed
qed simp

text \<open>Replacing one chain.\<close>

lemma table_in_update:
  assumes T: "table_in m h pss H" "tables m h = Some t" "arrays m (mt_htable t) = Some ss"
    and i: "i < mt_size t" and s: "seg f s qs 0" "distinct qs"
    and dis: "set qs \<inter> (set (concat pss) - set (pss ! i)) = {}"
    and same: "\<And>q. q \<in> set (concat pss) - set (pss ! i) \<Longrightarrow> f q = nodes m q"
  shows "table_in (m\<lparr>nodes := f, arrays := (arrays m)(mt_htable t \<mapsto> ss[i := s]),
      tables := (tables m)(h \<mapsto> t\<lparr>mt_nel := c\<rparr>)\<rparr>) h (pss[i := qs])
      ((set_slot H i (map (node_val f) qs))\<lparr>nel := c\<rparr>)"
proof -
  have t: "h \<noteq> 0" "mt_htable t \<noteq> 0" "length ss = mt_size t" "length pss = mt_size t"
    "mt_size t = ht_size H" "mt_hash_value t = hash_value H" "mt_keycmp t = keycmp H"
    "htable H = map (map (node_val (nodes m))) pss" "distinct (concat pss)"
    "\<And>j. j < mt_size t \<Longrightarrow> seg (nodes m) (ss ! j) (pss ! j) 0"
    using T by (auto simp: table_in_def)
  have other: "f q = nodes m q" if "j < mt_size t" "j \<noteq> i" "q \<in> set (pss ! j)" for j q
  proof (rule same)
    have "q \<notin> set (pss ! i)" using distinct_concat_disjoint [OF t(9), of i j q] that t(4) i by auto
    moreover have "q \<in> set (concat pss)" using that t(4) by auto
    ultimately show "q \<in> set (concat pss) - set (pss ! i)" by simp
  qed
  have "seg f (ss[i := s] ! j) (pss[i := qs] ! j) 0" if "j < mt_size t" for j
  proof (cases "j = i")
    case True
    then show ?thesis using s t(3,4) that by simp
  next
    case False
    then show ?thesis using t(3,4,10) that seg_cong [of "pss ! j" f "nodes m"] other [OF that] by simp
  qed
  moreover have "(map (map (node_val (nodes m))) pss)[i := map (node_val f) qs] =
      map (map (node_val f)) (pss[i := qs])"
  proof (rule nth_equalityI)
    fix j assume "j < length ((map (map (node_val (nodes m))) pss)[i := map (node_val f) qs])"
    then have "j < mt_size t" using t(4) by simp
    then show "(map (map (node_val (nodes m))) pss)[i := map (node_val f) qs] ! j =
        map (map (node_val f)) (pss[i := qs]) ! j"
      using t(4) node_vals_cong [of "pss ! j" f "nodes m"] other [of j] by (cases "j = i") simp_all
  qed simp
  moreover have "distinct (concat (pss[i := qs]))"
    using distinct_concat_update [OF _ t(9) s(2) dis] t(4) i by simp
  ultimately show ?thesis using t(1-8) by (simp add: table_in_def set_slot_def)
qed


text \<open>What the operations read of a table, and the nodes that no chain holds.\<close>

definition table_data ::
    "('k, 'd) memory \<Rightarrow> addr \<Rightarrow> addr list list \<Rightarrow> ('k, 'd) hashtab \<Rightarrow> 'k mem_table \<Rightarrow> addr list \<Rightarrow> bool" where
  "table_data m h pss H t ss \<longleftrightarrow> table_in m h pss H \<and> tables m h = Some t \<and>
     arrays m (mt_htable t) = Some ss \<and> (\<forall>k. hash_value H (ht_size H) k < ht_size H)"

lemma table_in_data:
  assumes "table_in m h pss H" "\<And>k. hash_value H (ht_size H) k < ht_size H"
  obtains t ss where "table_data m h pss H t ss"
  using assms by (auto simp: table_in_def table_data_def)

lemma table_dataD:
  assumes "table_data m h pss H t ss"
  shows "tables m h = Some t" "h \<noteq> 0" "arrays m (mt_htable t) = Some ss" "mt_htable t \<noteq> 0"
    "length ss = mt_size t" "length pss = mt_size t" "mt_size t = ht_size H" "mt_nel t = nel H"
    "mt_hash_value t = hash_value H" "mt_keycmp t = keycmp H"
    "i < mt_size t \<Longrightarrow> seg (nodes m) (ss ! i) (pss ! i) 0"
    "i < mt_size t \<Longrightarrow> get_slot t i m = returns (ss ! i)"
    "i < mt_size t \<Longrightarrow> slot H i = Inr (map (node_val (nodes m)) (pss ! i))"
    "hash_value H (ht_size H) k < mt_size t" "distinct (concat pss)"
  using assms by (auto simp: table_data_def table_in_def get_slot_def slot_def)

definition lost :: "('k, 'd) memory \<Rightarrow> addr list list \<Rightarrow> addr set" where
  "lost m pss = dom (nodes m) - set (concat pss)"

text \<open>The tables and arrays that are allocated.\<close>

definition same_objects :: "('k, 'd) memory \<Rightarrow> ('k, 'd) memory \<Rightarrow> bool" where
  "same_objects m m' \<longleftrightarrow> dom (tables m') = dom (tables m) \<and> dom (arrays m') = dom (arrays m)"

lemma same_objects_update:
  "tables m h \<noteq> None \<Longrightarrow> arrays m a \<noteq> None \<Longrightarrow>
   same_objects m (m\<lparr>nodes := f, arrays := (arrays m)(a \<mapsto> ss), tables := (tables m)(h \<mapsto> t)\<rparr>)"
  by (auto simp: same_objects_def)

lemma node_val_next [simp]:
  "f q = Some n \<Longrightarrow> node_val (f(q \<mapsto> n\<lparr>mn_next := r\<rparr>)) = node_val f"
  by (rule ext) (simp add: node_val_def)

lemma node_vals_upd [simp]:
  "x \<notin> set qs \<Longrightarrow> map (node_val (f(x := v))) qs = map (node_val f) qs"
  by (rule node_vals_cong) auto

lemma distinct_nth_concat: "distinct (concat xss) \<Longrightarrow> i < length xss \<Longrightarrow> distinct (xss ! i)"
  by (induction xss arbitrary: i) (auto simp: nth_Cons split: nat.splits)

text \<open>A new node in a chain: behind the nodes \<open>us\<close>, in front of \<open>vs\<close>.\<close>

lemma chain_insert:
  fixes f :: "addr \<rightharpoonup> ('k, 'd) mem_node" and n :: "('k, 'd) mem_node"
  assumes "seg f s us p" "seg f p vs 0" "distinct (us @ vs)" "f x = None" "x \<noteq> 0" "mn_next n = p"
    and "us \<noteq> [] \<Longrightarrow> f (last us) = Some pn"
  defines "g \<equiv> if us = [] then f(x \<mapsto> n) else f(x \<mapsto> n, last us \<mapsto> pn\<lparr>mn_next := x\<rparr>)"
  shows "seg g (if us = [] then x else s) (us @ x # vs) 0" (is ?seg)
    "map (node_val g) (us @ x # vs) =
       map (node_val f) us @ \<lparr>node_key = mn_key n, node_datum = mn_datum n\<rparr> # map (node_val f) vs" (is ?vals)
    "us \<noteq> [] \<Longrightarrow> mn_next pn = p" "dom g = insert x (dom f)" "x \<notin> set (us @ vs)"
proof -
  have x: "x \<notin> set us" "x \<notin> set vs"
    using seg_nonnull [OF assms(1), of x] seg_nonnull [OF assms(2), of x] assms(4) by blast+
  then show "x \<notin> set (us @ vs)" by simp
  show "us \<noteq> [] \<Longrightarrow> mn_next pn = p"
    using assms(1,7) by (cases us rule: rev_cases) (auto simp: seg_append)
  show "dom g = insert x (dom f)" using assms(7) by (auto simp: g_def)
  show ?seg
  proof (cases us rule: rev_cases)
    case Nil
    with assms x show ?thesis by (simp add: g_def)
  next
    case (snoc us' q)
    have q: "q \<noteq> x" "q \<notin> set vs" "q \<noteq> 0" "f q = Some pn" using assms(1,3,7) x snoc by (auto simp: seg_append)
    have "seg (f(x \<mapsto> n)) s (us' @ [q]) p"
      unfolding snoc [symmetric] using assms(1) x(1) by (simp only: seg_upd not_False_eq_True)
    then have "seg (f(x \<mapsto> n, q \<mapsto> pn\<lparr>mn_next := x\<rparr>)) s (us' @ [q]) x"
      using seg_redirect [of "f(x \<mapsto> n)" s us' q p pn x] assms(3) q snoc by simp
    moreover have "seg (f(x \<mapsto> n, q \<mapsto> pn\<lparr>mn_next := x\<rparr>)) x (x # vs) 0"
      using assms(2,5,6) q x by simp
    ultimately show ?thesis using snoc by (simp add: g_def seg_append)
  qed
  show ?vals
  proof (cases us rule: rev_cases)
    case Nil
    with x show ?thesis by (simp add: g_def)
  next
    case (snoc us' q)
    have "(f(x \<mapsto> n)) q = Some pn" using assms(7) x snoc by auto
    then have "node_val g = node_val (f(x \<mapsto> n))" using snoc by (simp add: g_def)
    with x show ?thesis by simp
  qed
qed


lemma table_in_live: "table_in m h pss H \<Longrightarrow> q \<in> set (concat pss) \<Longrightarrow> q \<noteq> 0 \<and> nodes m q \<noteq> None"
  unfolding table_in_def using seg_nonnull [of "nodes m" _ _ 0 q]
  by (auto simp: in_set_conv_nth) metis+

end
