(* ===== verification/Hashtab_Memory_Correct.thy ===== *)
theory Hashtab_Memory_Correct
  imports Hashtab_Chains
begin

section \<open>Correctness of the hash table in memory\<close>

text \<open>
  Every operation on the memory does to the table it holds what the operation of Hashtab does, and allocates
  and frees the nodes it should, except that \<open>hashtab_delete\<close> frees only the first node of a chain. What is
  printed, sequences of calls, the life of a table.
\<close>

subsection \<open>Insertion\<close>

text \<open>The new node, linked into the chain of slot \<open>i\<close> behind the nodes \<open>us\<close>.\<close>

lemma insert_new_table:
  assumes td: "table_data m h pss H t ss" and i: "i < mt_size t" and qs: "pss ! i = us @ vs"
    and p: "seg (nodes m) (ss ! i) us p" "seg (nodes m) p vs 0"
    and "malloc m \<noteq> 0" "nodes m (malloc m) = None"
  shows "\<exists>m' pss'. insert_new malloc h t i (last (0 # us)) key d m = returns (m', 0) \<and>
    table_in m' h pss' ((set_slot H i (map (node_val (nodes m)) us @
      \<lparr>node_key = key, node_datum = d\<rparr> # map (node_val (nodes m)) vs))\<lparr>nel := nel H + 1\<rparr>) \<and>
    lost m' pss' = lost m pss \<and> same_objects m m'"
proof -
  note t = table_dataD [OF td]
  have T: "table_in m h pss H" using td by (simp add: table_data_def)
  have i': "i < length pss" "i < length ss" using t(5,6) i by simp_all
  define x where "x = malloc m"
  define n where "n = \<lparr>mn_key = key, mn_datum = d, mn_next = p\<rparr>"
  have x: "x \<noteq> 0" "nodes m x = None" using assms(6,7) by (simp_all add: x_def)
  obtain pn where pn: "us \<noteq> [] \<Longrightarrow> nodes m (last us) = Some pn \<and> last us \<noteq> 0"
    using seg_nonnull [OF p(1), of "last us"] by fastforce
  define g where "g = (if us = [] then (nodes m)(x \<mapsto> n) else (nodes m)(x \<mapsto> n, last us \<mapsto> pn\<lparr>mn_next := x\<rparr>))"
  have d: "distinct (us @ vs)" using distinct_nth_concat [OF t(15) i'(1)] qs by simp
  have pn': "nodes m (last us) = Some pn" if "us \<noteq> []" using pn [OF that] by simp
  have n: "mn_next n = p" by (simp add: n_def)
  note ci = chain_insert [OF p(1,2) d x(2,1) n pn', folded g_def]
  let ?m = "m\<lparr>nodes := g, arrays := (arrays m)(mt_htable t \<mapsto> ss[i := (if us = [] then x else ss ! i)]),
    tables := (tables m)(h \<mapsto> t\<lparr>mt_nel := nel H + 1\<rparr>)\<rparr>"
  have live: "\<And>q. q \<in> set (concat pss) \<Longrightarrow> nodes m q \<noteq> None" using table_in_live [OF T] by simp
  have slot': "get_slot t i (m\<lparr>nodes := f\<rparr>) = returns (ss ! i)" for f
    using t(3,4) i'(2) by (simp add: get_slot_def)
  have "insert_new malloc h t i (last (0 # us)) key d m = returns (?m, 0)"
  proof (cases "us = []")
    case True
    with p(1) have "p = ss ! i" by simp
    with True x i' t(1-4,8) show ?thesis
      by (simp add: insert_new_def x_def [symmetric] slot' set_node_next_def put_slot_def set_nel_def g_def n_def)
  next
    case False
    have "last us \<noteq> x" using ci(5) False by auto
    with False pn [OF False] ci(3) x t(1,2,8) show ?thesis
      by (simp add: map_upd_triv [of "arrays m" "mt_htable t" ss, OF t(3)] insert_new_def x_def [symmetric] set_node_next_def set_nel_def g_def n_def)
  qed
  moreover have "table_in ?m h (pss[i := us @ x # vs])
      ((set_slot H i (map (node_val g) (us @ x # vs)))\<lparr>nel := nel H + 1\<rparr>)"
  proof (rule table_in_update [OF T t(1,3) i ci(1)])
    show "distinct (us @ x # vs)" using d ci(5) by auto
    show "set (us @ x # vs) \<inter> (set (concat pss) - set (pss ! i)) = {}"
      using live [of x] x(2) qs by auto
    show "g q = nodes m q" if "q \<in> set (concat pss) - set (pss ! i)" for q
    proof -
      have "q \<noteq> x" using that live [of x] x(2) by auto
      moreover have "us \<noteq> [] \<Longrightarrow> q \<noteq> last us" using that qs by auto
      ultimately show ?thesis by (simp add: g_def)
    qed
  qed
  moreover have "lost ?m (pss[i := us @ x # vs]) = lost m pss"
  proof -
    have "set (concat (pss[i := us @ x # vs])) = insert x (set (concat pss))"
      unfolding set_concat_update [OF i'(1) t(15)] using nth_in_concat [OF i'(1)] qs by auto
    moreover have "x \<notin> dom (nodes m)" using x(2) by auto
    ultimately show ?thesis using ci(4) by (simp add: lost_def)
  qed
  moreover have "same_objects m ?m" using t(1,3) by (intro same_objects_update) auto
  moreover have "map (node_val g) (us @ x # vs) = map (node_val (nodes m)) us @
      \<lparr>node_key = key, node_datum = d\<rparr> # map (node_val (nodes m)) vs"
    using ci(2) by (simp add: n_def)
  ultimately show ?thesis by metis
qed

lemma insert_mem_refines:
  assumes T: "table_in m h pss H" and hash: "\<And>k. hash_value H (ht_size H) k < ht_size H"
    and fresh: "malloc m \<noteq> 0 \<Longrightarrow> nodes m (malloc m) = None"
  shows "hashtab_insert_mem malloc h key d m = returns (m, - ENOMEM) \<or>
    (\<exists>m' pss' H' r. hashtab_insert_mem malloc h key d m = returns (m', r) \<and>
      hashtab_insert (Some H) key d = Inr (Some H', r) \<and> table_in m' h pss' H' \<and>
      lost m' pss' = lost m pss \<and> same_objects m m')"
proof -
  obtain t ss where td: "table_data m h pss H t ss" using table_in_data [OF T hash] by blast
  note t = table_dataD [OF this]
  define i where "i = hash_value H (ht_size H) key"
  define us where "us = takeWhile (key_gt (keycmp H) key (nodes m)) (pss ! i)"
  define vs where "vs = dropWhile (key_gt (keycmp H) key (nodes m)) (pss ! i)"
  have i: "i < mt_size t" and i': "i < length pss" "i < length ss" using t by (simp_all add: i_def)
  have qs: "pss ! i = us @ vs" by (simp add: us_def vs_def)
  obtain p where p: "insert_walk (keycmp H) key m 0 (ss ! i) = returns (last (0 # us), p)"
    "seg (nodes m) (ss ! i) us p" "seg (nodes m) p vs 0"
    using insert_walk_seg [OF t(11) [OF i], of "keycmp H" key 0] by (auto simp: us_def vs_def)
  let ?present = "vs \<noteq> [] \<and> keycmp H key (node_key (node_val (nodes m) (hd vs))) = 0"
  have list: "insert_node (keycmp H) new (map (node_val (nodes m)) (pss ! i)) =
      (if ?present then None
       else Some (map (node_val (nodes m)) us @ new # map (node_val (nodes m)) vs))"
    if "node_key new = key" for new
    using insert_node_map [of us "keycmp H" new] that by (simp add: us_def vs_def)
  have present: "is_key (keycmp H) key p m = returns ?present"
    using p(3) by (cases vs) (auto simp: is_key_def split: option.splits)
  show ?thesis
  proof (cases "nel H = HASHTAB_MAX_NODES")
    case True
    then have "hashtab_insert_mem malloc h key d m = returns (m, - EINVAL)"
      "hashtab_insert (Some H) key d = Inr (Some H, - EINVAL)"
      using t(1,2,8) by (simp_all add: hashtab_insert_mem_def hashtab_insert_def)
    with T show ?thesis by (auto simp: same_objects_def)
  next
    case False
    note run = hashtab_insert_mem_def t(1,2,7-10) t(12) [OF i] i_def [symmetric] p(1) present
    have spec: "hashtab_insert (Some H) key d =
        (if ?present then Inr (Some H, - EEXIST)
         else Inr (Some ((set_slot H i (map (node_val (nodes m)) us @
           \<lparr>node_key = key, node_datum = d\<rparr> # map (node_val (nodes m)) vs))\<lparr>nel := nel H + 1\<rparr>), 0))"
      using False t(13) [OF i] list [of "\<lparr>node_key = key, node_datum = d\<rparr>"]
      by (simp add: hashtab_insert_def i_def [symmetric] Let_def)
    consider ?present | "\<not> ?present" "malloc m = 0" | "\<not> ?present" "malloc m \<noteq> 0" by blast
    then show ?thesis
    proof cases
      case 1
      then have "hashtab_insert_mem malloc h key d m = returns (m, - EEXIST)"
        using False by (simp add: run)
      with 1 spec T show ?thesis by (auto simp: same_objects_def)
    next
      case 2
      then have "hashtab_insert_mem malloc h key d m = returns (m, - ENOMEM)"
        using False by (auto simp: run insert_new_def)
      then show ?thesis by simp
    next
      case 3
      from insert_new_table [where malloc = malloc and key = key and d = d, OF td i qs p(2,3) 3(2) fresh [OF 3(2)]] obtain m' pss' where
        "insert_new malloc h t i (last (0 # us)) key d m = returns (m', 0)"
        "table_in m' h pss' ((set_slot H i (map (node_val (nodes m)) us @
          \<lparr>node_key = key, node_datum = d\<rparr> # map (node_val (nodes m)) vs))\<lparr>nel := nel H + 1\<rparr>)"
        "lost m' pss' = lost m pss" "same_objects m m'" by blast
      moreover from this(1) have "hashtab_insert_mem malloc h key d m = returns (m', 0)"
        using 3(1) False by (auto simp: run)
      ultimately show ?thesis using spec 3(1) by auto
    qed
  qed
qed


subsection \<open>Deletion\<close>

text \<open>The deletions that do not free their node: of a node that is not the first of its chain.\<close>

definition deletes_behind :: "('k, 'd) hashtab \<Rightarrow> 'k \<Rightarrow> bool" where
  "deletes_behind H key =
     (case slot H (hash_value H (ht_size H) key) of
        Inl _ \<Rightarrow> False
      | Inr [] \<Rightarrow> False
      | Inr (cur # next) \<Rightarrow>
          keycmp H key (node_key cur) \<noteq> 0 \<and> delete_node (keycmp H) key next \<noteq> None)"

text \<open>A node taken out of a chain: behind the nodes \<open>us\<close>, in front of \<open>vs\<close>.\<close>

lemma chain_delete:
  fixes f :: "addr \<rightharpoonup> ('k, 'd) mem_node"
  assumes "seg f s (us @ x # vs) 0" "distinct (us @ x # vs)" "f x = Some n" "us \<noteq> []" "f (last us) = Some pn"
  defines "g \<equiv> f(last us \<mapsto> pn\<lparr>mn_next := mn_next n\<rparr>, x \<mapsto> n\<lparr>mn_next := 0\<rparr>)"
  shows "seg g s (us @ vs) 0" "map (node_val g) (us @ vs) = map (node_val f) (us @ vs)"
proof -
  obtain us' q where us: "us = us' @ [q]" using assms(4) by (cases us rule: rev_cases) auto
  have d: "x \<notin> set us" "x \<notin> set vs" "q \<notin> set vs" "distinct us" using assms(2) us by auto
  have sg: "seg f s us x" "seg f (mn_next n) vs 0" using assms(1,3) by (auto simp: seg_append)
  have "seg (f(q \<mapsto> pn\<lparr>mn_next := mn_next n\<rparr>)) s us (mn_next n)"
    using seg_redirect [of f s us' q x pn] sg(1) d(4) assms(5) us by simp
  then have "seg g s us (mn_next n)" using d(1) us by (simp add: g_def del: set_append)
  moreover have "seg g (mn_next n) vs 0" using sg(2) d us by (simp add: g_def)
  ultimately show "seg g s (us @ vs) 0" by (auto simp: seg_append)
  have "node_val g = node_val f"
  proof
    fix p
    have "last us \<noteq> x" using d(1) us by auto
    then show "node_val g p = node_val f p" using assms(3,5) by (simp add: node_val_def g_def)
  qed
  then show "map (node_val g) (us @ vs) = map (node_val f) (us @ vs)" by simp
qed

text \<open>The first node of the chain of slot \<open>i\<close>, unlinked and freed.\<close>

lemma delete_first_table:
  assumes td: "table_data m h pss H t ss" and i: "i < mt_size t" and Cons: "pss ! i = q # qs"
    and "nodes m q = Some n"
  shows "\<exists>m' pss'. delete_first h t i q m = returns (m', mn_datum n) \<and>
    table_in m' h pss' ((set_slot H i (map (node_val (nodes m)) qs))\<lparr>nel := nel H - 1\<rparr>) \<and>
    lost m' pss' = lost m pss \<and> same_objects m m'"
proof -
  note t = table_dataD [OF td]
  have T: "table_in m h pss H" using td by (simp add: table_data_def)
  have i': "i < length pss" "i < length ss" using t(5,6) i by simp_all
  have n: "q \<noteq> 0" "nodes m q = Some n" "seg (nodes m) (mn_next n) qs 0"
    using t(11) [OF i] Cons assms(4) by auto
  have q: "q \<notin> set qs" "distinct qs" using distinct_nth_concat [OF t(15) i'(1)] Cons by auto
  let ?g = "(nodes m)(q := None)"
  let ?m = "m\<lparr>nodes := ?g, arrays := (arrays m)(mt_htable t \<mapsto> ss[i := mn_next n]),
    tables := (tables m)(h \<mapsto> t\<lparr>mt_nel := nel H - 1\<rparr>)\<rparr>"
  have "delete_first h t i q m = returns (?m, mn_datum n)"
    using n t(1-4,8) i'
    by (simp add: delete_first_def put_slot_def set_node_next_def free_node_def set_nel_def)
  moreover have "table_in ?m h (pss[i := qs]) ((set_slot H i (map (node_val ?g) qs))\<lparr>nel := nel H - 1\<rparr>)"
    by (rule table_in_update [OF T t(1,3) i]) (use n q Cons in auto)
  moreover have "lost ?m (pss[i := qs]) = lost m pss"
    using Cons q n(2) nth_in_concat [OF i'(1)]
    by (auto simp: lost_def set_concat_update [OF i'(1) t(15)] simp del: set_concat)
  moreover have "same_objects m ?m" using t(1,3) by (intro same_objects_update) auto
  moreover have "map (node_val ?g) qs = map (node_val (nodes m)) qs" using q by simp
  ultimately show ?thesis by metis
qed

text \<open>A node behind \<open>us\<close>, unlinked only.\<close>

lemma delete_behind_table:
  assumes td: "table_data m h pss H t ss" and i: "i < mt_size t" and chain: "pss ! i = us @ x # vs'"
    and ne: "us \<noteq> []" and "nodes m x = Some nx"
  shows "\<exists>m' pss'. delete_behind h t (last us) x m = returns (m', mn_datum nx) \<and>
    table_in m' h pss' ((set_slot H i (map (node_val (nodes m)) (us @ vs')))\<lparr>nel := nel H - 1\<rparr>) \<and>
    lost m' pss' = insert x (lost m pss) \<and> x \<notin> lost m pss \<and> same_objects m m'"
proof -
  note t = table_dataD [OF td]
  have T: "table_in m h pss H" using td by (simp add: table_data_def)
  have i': "i < length pss" "i < length ss" using t(5,6) i by simp_all
  have sg: "seg (nodes m) (ss ! i) (pss ! i) 0" and dq: "distinct (pss ! i)"
    using t(11) [OF i] distinct_nth_concat [OF t(15) i'(1)] by auto
  have d: "distinct (us @ x # vs')" using dq chain by simp
  have sx: "seg (nodes m) (ss ! i) (us @ x # vs') 0" using sg chain by simp
  have "last us \<in> set (pss ! i)" "x \<in> set (pss ! i)" unfolding chain using ne by auto
  then obtain pn where x: "nodes m (last us) = Some pn" "last us \<noteq> 0"
    "nodes m x = Some nx" "x \<noteq> 0" "x \<in> set (pss ! i)"
    using seg_nonnull [OF sg, of "last us"] seg_nonnull [OF sg, of x] assms(5) by auto
  have lx: "last us \<noteq> x" using d ne last_in_set [of us] by auto
  define g where "g = (nodes m)(last us \<mapsto> pn\<lparr>mn_next := mn_next nx\<rparr>, x \<mapsto> nx\<lparr>mn_next := 0\<rparr>)"
  note cd = chain_delete [OF sx d x(3) ne x(1), folded g_def]
  let ?m = "m\<lparr>nodes := g, arrays := (arrays m)(mt_htable t \<mapsto> ss[i := ss ! i]),
    tables := (tables m)(h \<mapsto> t\<lparr>mt_nel := nel H - 1\<rparr>)\<rparr>"
  have same: "(arrays m)(mt_htable t \<mapsto> ss[i := ss ! i]) = arrays m"
    using t(3) by (auto simp: fun_upd_idem)
  have del: "delete_behind h t (last us) x m = returns (?m, mn_datum nx)"
    unfolding same using x lx t(1,2)
    by (simp add: delete_behind_def set_node_next_def set_nel_def g_def t(8) del: last.simps)
  have "table_in ?m h (pss[i := us @ vs'])
      ((set_slot H i (map (node_val g) (us @ vs')))\<lparr>nel := nel H - 1\<rparr>)"
  proof (rule table_in_update [OF T t(1,3) i cd(1)])
    show "distinct (us @ vs')" using d by simp
    show "set (us @ vs') \<inter> (set (concat pss) - set (pss ! i)) = {}" unfolding chain by auto
    show "g p = nodes m p" if "p \<in> set (concat pss) - set (pss ! i)" for p
      using that x(5) \<open>last us \<in> set (pss ! i)\<close> by (auto simp: g_def)
  qed
  moreover have "lost ?m (pss[i := us @ vs']) = insert x (lost m pss)" "x \<notin> lost m pss"
  proof -
    have "dom g = dom (nodes m)" using x(1,3) by (auto simp: g_def)
    moreover have "set (concat (pss[i := us @ vs'])) = set (concat pss) - {x}"
      unfolding set_concat_update [OF i'(1) t(15)] using nth_in_concat [OF i'(1)] d
      unfolding chain by auto
    moreover have "x \<in> dom (nodes m)" "x \<in> set (concat pss)"
      using x(3,5) nth_in_concat [OF i'(1)] by auto
    ultimately show "lost ?m (pss[i := us @ vs']) = insert x (lost m pss)" "x \<notin> lost m pss"
      by (auto simp: lost_def simp del: set_concat)
  qed
  moreover have "same_objects m ?m" using t(1,3) by (intro same_objects_update) auto
  moreover note del cd(2)
  ultimately show ?thesis by metis
qed

text \<open>What a deletion does to the memory and to the table with the content \<open>H\<close>.\<close>

definition deletes_in :: "addr \<Rightarrow> 'k \<Rightarrow> ('k, 'd) memory \<Rightarrow> addr list list \<Rightarrow> ('k, 'd) hashtab \<Rightarrow> bool" where
  "deletes_in h key m pss H \<longleftrightarrow>
     (\<exists>m' pss' H' d. hashtab_delete_mem h key m = returns (m', d) \<and>
      hashtab_delete (Some H) key = Inr (Some H', d) \<and> table_in m' h pss' H' \<and> same_objects m m' \<and>
      (if deletes_behind H key then \<exists>x. x \<notin> lost m pss \<and> lost m' pss' = insert x (lost m pss)
       else lost m' pss' = lost m pss))"

lemma deletes_nothing:
  "table_in m h pss H \<Longrightarrow> hashtab_delete_mem h key m = returns (m, None) \<Longrightarrow>
   hashtab_delete (Some H) key = Inr (Some H, None) \<Longrightarrow> \<not> deletes_behind H key \<Longrightarrow> deletes_in h key m pss H"
  by (auto simp: deletes_in_def same_objects_def)

text \<open>The walk behind the first node, which is not the one searched for.\<close>

lemma delete_behind_mem:
  assumes td: "table_data m h pss H t ss" and i: "i = hash_value H (ht_size H) key" "i < mt_size t"
    and Cons: "pss ! i = q # qs" and n: "ss ! i = q" "q \<noteq> 0" "nodes m q = Some n" "seg (nodes m) (mn_next n) qs 0"
    and ne: "keycmp H key (mn_key n) \<noteq> 0"
  shows "deletes_in h key m pss H"
proof -
  note t = table_dataD [OF td]
  have T: "table_in m h pss H" using td by (simp add: table_data_def)
  note run = hashtab_delete_mem_def t(1,2,7-10) t(12) [OF i(2)] i(1) [symmetric]
  note spec = hashtab_delete_def i(1) [symmetric] t(13) [OF i(2)]
  note behind = deletes_behind_def i(1) [symmetric] t(13) [OF i(2)]
  define us where "us = takeWhile (key_ne (keycmp H) key (nodes m)) qs"
  define vs where "vs = dropWhile (key_ne (keycmp H) key (nodes m)) qs"
  have qs: "qs = us @ vs" by (simp add: us_def vs_def)
  have walk: "delete_walk (keycmp H) key m q (mn_next n) =
      returns (case vs of [] \<Rightarrow> None | x # _ \<Rightarrow> Some (last (q # us), x))"
    unfolding us_def vs_def by (rule delete_walk_seg [OF n(4)])
  note dn = delete_node_map [where cmp = "keycmp H" and key = key and f = "nodes m", OF us_def vs_def]
  show ?thesis
  proof (cases vs)
    case Nil
    then show ?thesis
      using ne n Cons walk dn by (intro deletes_nothing [OF T]) (simp_all add: run spec behind is_key_def)
  next
    case vs: (Cons x vs')
    have chain: "pss ! i = (q # us) @ x # vs'" using Cons qs vs by simp
    have "x \<in> set (pss ! i)" unfolding chain by simp
    then obtain nx where x: "nodes m x = Some nx" using seg_nonnull [OF t(11) [OF i(2)]] by fastforce
    from delete_behind_table [OF td i(2) chain list.distinct(2) x] obtain m' pss' where
      "delete_behind h t (last (q # us)) x m = returns (m', mn_datum nx)" "table_in m' h pss'
        ((set_slot H i (map (node_val (nodes m)) ((q # us) @ vs')))\<lparr>nel := nel H - 1\<rparr>)"
      "lost m' pss' = insert x (lost m pss)" "x \<notin> lost m pss" "same_objects m m'" by blast
    moreover have "deletes_behind H key" using ne n Cons vs dn by (simp add: behind)
    moreover have "hashtab_delete (Some H) key = Inr (Some ((set_slot H i (map (node_val (nodes m))
        ((q # us) @ vs')))\<lparr>nel := nel H - 1\<rparr>), mn_datum nx)"
      using ne n Cons vs dn x by (simp add: spec)
    moreover have "hashtab_delete_mem h key m = delete_behind h t (last (q # us)) x m"
      using ne n walk vs by (simp add: run is_key_def del: last.simps)
    ultimately show ?thesis by (auto simp: deletes_in_def)
  qed
qed

lemma delete_mem_refines:
  assumes T: "table_in m h pss H" and hash: "\<And>k. hash_value H (ht_size H) k < ht_size H"
  shows "deletes_in h key m pss H"
proof -
  obtain t ss where td: "table_data m h pss H t ss" using table_in_data [OF T hash] by blast
  note t = table_dataD [OF this]
  define i where "i = hash_value H (ht_size H) key"
  have i: "i < mt_size t" using t by (simp add: i_def)
  note run = hashtab_delete_mem_def t(1,2,7-10) t(12) [OF i] i_def [symmetric]
  note spec = hashtab_delete_def i_def [symmetric] t(13) [OF i]
  note behind = deletes_behind_def i_def [symmetric] t(13) [OF i]
  show ?thesis
  proof (cases "pss ! i")
    case Nil
    then show ?thesis
      using t(11) [OF i] by (intro deletes_nothing [OF T]) (simp_all add: run spec behind is_key_def)
  next
    case (Cons q qs)
    with t(11) [OF i] obtain n where n: "ss ! i = q" "q \<noteq> 0" "nodes m q = Some n" "seg (nodes m) (mn_next n) qs 0"
      by (auto split: option.splits)
    show ?thesis
    proof (cases "keycmp H key (mn_key n) = 0")
      case True
      from delete_first_table [OF td i Cons n(3)] obtain m' pss' where
        "delete_first h t i q m = returns (m', mn_datum n)" "table_in m' h pss'
          ((set_slot H i (map (node_val (nodes m)) qs))\<lparr>nel := nel H - 1\<rparr>)"
        "lost m' pss' = lost m pss" "same_objects m m'" by blast
      moreover have "\<not> deletes_behind H key" using True n Cons by (simp add: behind)
      ultimately show ?thesis unfolding deletes_in_def using True n Cons by (simp add: run is_key_def spec) blast
    qed (rule delete_behind_mem [OF td i_def i Cons n])
  qed
qed


subsection \<open>Search\<close>

lemma search_mem_refines:
  assumes T: "table_in m h pss H" and hash: "\<And>k. hash_value H (ht_size H) k < ht_size H"
  shows "\<exists>d. hashtab_search_mem h key m = returns d \<and> hashtab_search (Some H) key = Inr d"
proof -
  obtain t ss where td: "table_data m h pss H t ss" using table_in_data [OF T hash] by blast
  note t = table_dataD [OF this]
  define i where "i = hash_value H (ht_size H) key"
  define vs where "vs = dropWhile (key_gt (keycmp H) key (nodes m)) (pss ! i)"
  have i: "i < mt_size t" using t by (simp add: i_def)
  obtain p where p: "search_walk (keycmp H) key m (ss ! i) = returns p" "seg (nodes m) p vs 0"
    using search_walk_seg [OF t(11) [OF i]] by (auto simp: vs_def)
  have "find_node (keycmp H) key (map (node_val (nodes m)) (pss ! i)) =
      (if vs = [] \<or> keycmp H key (node_key (node_val (nodes m) (hd vs))) \<noteq> 0 then None
       else Some (node_val (nodes m) (hd vs)))"
  proof -
    have "dropWhile (\<lambda>n. keycmp H key (node_key n) > 0) (map (node_val (nodes m)) (pss ! i)) =
        map (node_val (nodes m)) vs" by (simp add: dropWhile_map' vs_def)
    then show ?thesis by (cases vs) (simp_all add: find_node_split)
  qed
  then show ?thesis
    using p t(1,2,7,9,10) t(12,13) [OF i] by (cases vs)
      (auto simp: hashtab_search_mem_def hashtab_search_def i_def [symmetric] split: option.splits)
qed

subsection \<open>Destruction\<close>

lemma destroy_slots_run:
  assumes "mt_htable t \<noteq> 0" "length pss = mt_size t" "distinct (concat pss)" "i \<le> mt_size t"
    "arrays m (mt_htable t) = Some ss" "length ss = mt_size t"
    "\<And>j. i \<le> j \<Longrightarrow> j < mt_size t \<Longrightarrow> seg (nodes m) (ss ! j) (pss ! j) 0"
  shows "\<exists>ss'. destroy_slots t i m = returns (m\<lparr>nodes := nodes m |` (- set (concat (drop i pss))),
    arrays := (arrays m)(mt_htable t \<mapsto> ss')\<rparr>)"
  using assms(4-7)
proof (induction "mt_size t - i" arbitrary: i m ss)
  case 0
  then have "i = mt_size t" by simp
  moreover have "m\<lparr>nodes := nodes m |` (- {}), arrays := (arrays m)(mt_htable t \<mapsto> ss)\<rparr> = m"
    using 0 by (cases m) (simp add: restrict_map_def fun_upd_idem)
  ultimately show ?case using assms(2) by (subst destroy_slots.simps) (auto intro: sym)
next
  case (Suc k)
  then have i: "i < mt_size t" "i < length ss" "i < length pss" using assms(2) by simp_all
  define m1 where "m1 = m\<lparr>nodes := nodes m |` (- set (pss ! i)),
    arrays := (arrays m)(mt_htable t \<mapsto> ss[i := 0])\<rparr>"
  have "\<exists>ss'. destroy_slots t (i + 1) m1 = returns (m1\<lparr>nodes := nodes m1 |` (- set (concat (drop (i + 1) pss))),
    arrays := (arrays m1)(mt_htable t \<mapsto> ss')\<rparr>)"
  proof (rule Suc.hyps(1))
    fix j assume j: "i + 1 \<le> j" "j < mt_size t"
    have "nodes m1 q = nodes m q" if "q \<in> set (pss ! j)" for q
      using distinct_concat_disjoint [OF assms(3), of i j q] j that assms(2) i by (simp add: m1_def)
    then have "seg (nodes m1) (ss ! j) (pss ! j) 0 = seg (nodes m) (ss ! j) (pss ! j) 0"
      by (rule seg_cong)
    then show "seg (nodes m1) (ss[i := 0] ! j) (pss ! j) 0" using Suc.prems(4) [of j] j by simp
  qed (use Suc i in \<open>simp_all add: m1_def\<close>)
  then obtain ss' where rec: "destroy_slots t (i + 1) m1 = returns (m1\<lparr>nodes := nodes m1 |` (- set (concat (drop (i + 1) pss))),
    arrays := (arrays m1)(mt_htable t \<mapsto> ss')\<rparr>)" by blast
  have "destroy_slots t i m = destroy_slots t (i + 1) m1"
    using i assms(1) Suc.prems(2) free_chain_seg [OF Suc.prems(4) [of i]] distinct_nth_concat [OF assms(3) i(3)]
    by (subst destroy_slots.simps) (simp add: get_slot_def put_slot_def m1_def)
  moreover have "set (concat (drop i pss)) = set (pss ! i) \<union> set (concat (drop (i + 1) pss))"
    using i(3) by (simp add: Cons_nth_drop_Suc [symmetric])
  ultimately show ?case using rec by (auto simp: m1_def)
qed

text \<open>\<open>hashtab_destroy\<close> frees the table, its slots and the nodes of its chains, and nothing else.\<close>

lemma destroy_mem_frees:
  assumes T: "table_in m h pss H" and hash: "\<And>k. hash_value H (ht_size H) k < ht_size H"
  shows "\<exists>m' a. hashtab_destroy_mem h m = returns m' \<and> nodes m' = nodes m |` (- set (concat pss)) \<and>
    tables m' = (tables m)(h := None) \<and> a \<in> dom (arrays m) \<and> arrays m' = (arrays m)(a := None)"
proof -
  obtain t ss where td: "table_data m h pss H t ss" using table_in_data [OF T hash] by blast
  note t = table_dataD [OF this]
  from destroy_slots_run [OF t(4,6,15) _ t(3,5) t(11), of 0] obtain ss' where
    "destroy_slots t 0 m = returns (m\<lparr>nodes := nodes m |` (- set (concat pss)),
      arrays := (arrays m)(mt_htable t \<mapsto> ss')\<rparr>)" by auto
  with t(1-4) show ?thesis by (simp add: hashtab_destroy_mem_def) blast
qed


subsection \<open>Printing\<close>

lemma print_chain_seg:
  "seg (nodes m) cur qs 0 \<Longrightarrow> 0 \<le> count \<Longrightarrow> count + int (length qs) \<le> int_max \<Longrightarrow>
   print_chain m cur count out = returns (count + int (length qs), out @ map Node_Address qs)"
proof (induction qs arbitrary: cur count out)
  case Nil
  then show ?case by (subst print_chain.simps) simp
next
  case (Cons q qs)
  then obtain n where n: "cur = q" "q \<noteq> 0" "nodes m q = Some n" "seg (nodes m) (mn_next n) qs 0"
    by (auto split: option.splits)
  have "int_add count 1 = Inr (count + 1)" using Cons.prems by (simp add: int_add_def int_min_def)
  with n Cons.prems Cons.IH [OF n(4), of "count + 1" "out @ [Node_Address q]"] show ?case
    by (subst print_chain.simps) (simp add: add.commute)
qed

text \<open>What is printed for slot \<open>i\<close>.\<close>

definition slot_lines :: "addr list list \<Rightarrow> nat \<Rightarrow> printed list" where
  "slot_lines pss i = Slot_Label i # map Node_Address (pss ! i) @ [Newline]"

lemma print_slots_run:
  assumes "table_data m h pss H t ss"
  shows "i \<le> mt_size t \<Longrightarrow> 0 \<le> count \<Longrightarrow> count + int (length (concat (drop i pss))) \<le> int_max \<Longrightarrow>
    print_slots t i m count out = returns (count + int (length (concat (drop i pss))),
      out @ concat (map (slot_lines pss) [i ..< mt_size t]))"
proof (induction "mt_size t - i" arbitrary: i count out)
  case 0
  then show ?case using table_dataD(6) [OF assms] by (subst print_slots.simps) simp
next
  case (Suc k)
  note t = table_dataD [OF assms]
  have i: "i < mt_size t" "i < length pss" using Suc t(6) by simp_all
  have c: "concat (drop i pss) = pss ! i @ concat (drop (i + 1) pss)"
    using i(2) by (simp add: Cons_nth_drop_Suc [symmetric])
  have "print_slots t (i + 1) m (count + int (length (pss ! i)))
      (out @ slot_lines pss i) = returns (count + int (length (pss ! i)) + int (length (concat (drop (i + 1) pss))),
      (out @ slot_lines pss i) @ concat (map (slot_lines pss) [i + 1 ..< mt_size t]))"
    using Suc.prems Suc.hyps(2) i c by (intro Suc.hyps(1)) simp_all
  moreover have "print_chain m (ss ! i) count (out @ [Slot_Label i]) =
      returns (count + int (length (pss ! i)), (out @ [Slot_Label i]) @ map Node_Address (pss ! i))"
    using Suc.prems c by (intro print_chain_seg [OF t(11) [OF i(1)]]) simp_all
  ultimately show ?case
    using i t(12) [OF i(1)] c
    by (subst print_slots.simps) (simp add: slot_lines_def upt_conv_Cons [of i "mt_size t"])
qed

text \<open>\<open>hashtab_print\<close> prints the slots with the addresses in their chains, and how many there are.\<close>

lemma print_mem_lines:
  assumes "table_in m h pss H" "\<And>k. hash_value H (ht_size H) k < ht_size H"
    "int (length (concat pss)) \<le> int_max"
  shows "hashtab_print_mem h m = returns (concat (map (slot_lines pss) [0 ..< ht_size H]) @
    [Total_Items (int (length (concat pss)))])"
proof -
  obtain t ss where td: "table_data m h pss H t ss" using table_in_data [OF assms(1,2)] by blast
  note t = table_dataD [OF this]
  show ?thesis using print_slots_run [OF td, of 0 0 "[]"] assms(3) t(1,2,7)
    by (simp add: hashtab_print_mem_def)
qed

subsection \<open>Calls on a table\<close>

datatype ('k, 'd) ht_call = Insert 'k "'d option" | Delete 'k | Search 'k

datatype 'd ht_answer = Code int | Datum "'d option"

fun call_mem ::
    "(('k, 'd) memory \<Rightarrow> addr) \<Rightarrow> addr \<Rightarrow> ('k, 'd) ht_call \<Rightarrow> ('k, 'd) memory \<Rightarrow>
     (('k, 'd) memory \<times> 'd ht_answer) run" where
  "call_mem malloc h (Insert key d) m =
     bind_run (hashtab_insert_mem malloc h key d m) (\<lambda>(m, r). returns (m, Code r))"
| "call_mem malloc h (Delete key) m =
     bind_run (hashtab_delete_mem h key m) (\<lambda>(m, d). returns (m, Datum d))"
| "call_mem malloc h (Search key) m =
     bind_run (hashtab_search_mem h key m) (\<lambda>d. returns (m, Datum d))"

fun calls_mem ::
    "(('k, 'd) memory \<Rightarrow> addr) \<Rightarrow> addr \<Rightarrow> ('k, 'd) ht_call list \<Rightarrow> ('k, 'd) memory \<Rightarrow>
     (('k, 'd) memory \<times> 'd ht_answer list) run" where
  "calls_mem malloc h [] m = returns (m, [])"
| "calls_mem malloc h (c # cs) m =
     bind_run (call_mem malloc h c m) (\<lambda>(m, a).
     bind_run (calls_mem malloc h cs m) (\<lambda>(m, as). returns (m, a # as)))"

text \<open>
  The same calls on a table of Hashtab, with the answers the memory gave: a failed allocation changes
  nothing, any other answer has to be that of the table (else \<open>None\<close>). With it the number of deletions that
  do not free their node.
\<close>

fun call_spec ::
    "('k, 'd) hashtab \<Rightarrow> ('k, 'd) ht_call \<Rightarrow> 'd ht_answer \<Rightarrow> (('k, 'd) hashtab \<times> nat) option" where
  "call_spec H (Insert key d) a =
     (if a = Code (- ENOMEM) then Some (H, 0)
      else case hashtab_insert (Some H) key d of
        Inr (Some H', r) \<Rightarrow> if a = Code r then Some (H', 0) else None
      | _ \<Rightarrow> None)"
| "call_spec H (Delete key) a =
     (case hashtab_delete (Some H) key of
        Inr (Some H', d) \<Rightarrow>
          if a = Datum d then Some (H', if deletes_behind H key then 1 else 0) else None
      | _ \<Rightarrow> None)"
| "call_spec H (Search key) a =
     (case hashtab_search (Some H) key of
        Inr d \<Rightarrow> if a = Datum d then Some (H, 0) else None
      | _ \<Rightarrow> None)"

fun calls_spec ::
    "('k, 'd) hashtab \<Rightarrow> ('k, 'd) ht_call list \<Rightarrow> 'd ht_answer list \<Rightarrow> (('k, 'd) hashtab \<times> nat) option" where
  "calls_spec H [] [] = Some (H, 0)"
| "calls_spec H (c # cs) (a # as) =
     (case call_spec H c a of
        None \<Rightarrow> None
      | Some (H, n) \<Rightarrow> map_option (\<lambda>(H, n'). (H, n + n')) (calls_spec H cs as))"
| "calls_spec H _ _ = None"

lemma insert_fixed:
  "hashtab_insert (Some H) key d = Inr (Some H', r) \<Longrightarrow> hash_value H' = hash_value H \<and> ht_size H' = ht_size H"
  by (auto simp: hashtab_insert_def set_slot_def Let_def res_iff split: if_splits option.splits)

lemma delete_fixed:
  "hashtab_delete (Some H) key = Inr (Some H', d) \<Longrightarrow> hash_value H' = hash_value H \<and> ht_size H' = ht_size H"
  by (auto simp: hashtab_delete_def set_slot_def Let_def res_iff split: if_splits option.splits)

lemma call_mem_refines:
  assumes T: "table_in m h pss H" "finite (lost m pss)" and hash: "\<And>k. hash_value H (ht_size H) k < ht_size H"
    and fresh: "\<And>m. malloc m \<noteq> 0 \<Longrightarrow> nodes m (malloc m) = None"
  shows "\<exists>m' a H' n pss'. call_mem malloc h c m = returns (m', a) \<and> call_spec H c a = Some (H', n) \<and>
    table_in m' h pss' H' \<and> finite (lost m' pss') \<and> card (lost m' pss') = card (lost m pss) + n \<and>
    same_objects m m' \<and> hash_value H' = hash_value H \<and> ht_size H' = ht_size H"
proof (cases c)
  case (Insert key d)
  have e: "- ENOMEM \<noteq> 0" "- ENOMEM \<noteq> - EEXIST" "- ENOMEM \<noteq> - EINVAL"
    by (simp_all add: ENOMEM_def EEXIST_def EINVAL_def)
  from insert_mem_refines [where malloc = malloc and m = m and key = key and d = d, OF T(1) hash fresh]
  consider "hashtab_insert_mem malloc h key d m = returns (m, - ENOMEM)"
    | m' pss' H' r where "hashtab_insert_mem malloc h key d m = returns (m', r)"
      "hashtab_insert (Some H) key d = Inr (Some H', r)" "table_in m' h pss' H'"
      "lost m' pss' = lost m pss" "same_objects m m'" by blast
  then show ?thesis
  proof cases
    case 1
    with T Insert show ?thesis by (auto simp: same_objects_def)
  next
    case 2
    moreover have "r \<noteq> - ENOMEM"
      using 2(2) e by (auto simp: hashtab_insert_def Let_def res_iff split: if_splits option.splits)
    ultimately show ?thesis using Insert T insert_fixed [OF 2(2)] by auto
  qed
next
  case (Delete key)
  from delete_mem_refines [OF T(1) hash, where key = key, unfolded deletes_in_def] obtain m' pss' H' d where
    d: "hashtab_delete_mem h key m = returns (m', d)" "hashtab_delete (Some H) key = Inr (Some H', d)"
    "table_in m' h pss' H'" "same_objects m m'"
    "if deletes_behind H key then \<exists>x. x \<notin> lost m pss \<and> lost m' pss' = insert x (lost m pss)
     else lost m' pss' = lost m pss" by blast
  from d(5) T(2) have "finite (lost m' pss')"
    "card (lost m' pss') = card (lost m pss) + (if deletes_behind H key then 1 else 0)"
    by (auto split: if_splits)
  with d(1-4) Delete delete_fixed [OF d(2)] show ?thesis by auto
next
  case (Search key)
  with search_mem_refines [OF T(1) hash, where key = key] T show ?thesis
    by (auto simp: same_objects_def)
qed

lemma calls_mem_refines:
  assumes "table_in m h pss H" "finite (lost m pss)" "\<And>k. hash_value H (ht_size H) k < ht_size H"
    and fresh: "\<And>m. malloc m \<noteq> 0 \<Longrightarrow> nodes m (malloc m) = None"
  shows "\<exists>m' as H' n pss'. calls_mem malloc h cs m = returns (m', as) \<and> calls_spec H cs as = Some (H', n) \<and>
    table_in m' h pss' H' \<and> finite (lost m' pss') \<and> card (lost m' pss') = card (lost m pss) + n \<and>
    same_objects m m' \<and> hash_value H' = hash_value H \<and> ht_size H' = ht_size H"
  using assms(1-3)
proof (induction cs arbitrary: m pss H)
  case Nil
  then show ?case by (auto simp: same_objects_def)
next
  case (Cons c cs)
  from call_mem_refines [OF Cons.prems fresh, where c = c] obtain m1 a H1 n1 pss1 where
    1: "call_mem malloc h c m = returns (m1, a)" "call_spec H c a = Some (H1, n1)" "table_in m1 h pss1 H1"
    "finite (lost m1 pss1)" "card (lost m1 pss1) = card (lost m pss) + n1" "same_objects m m1"
    "hash_value H1 = hash_value H" "ht_size H1 = ht_size H" by blast
  have "\<And>k. hash_value H1 (ht_size H1) k < ht_size H1" using Cons.prems(3) 1(7,8) by simp
  from Cons.IH [OF 1(3,4) this] obtain m2 as H2 n2 pss2 where
    2: "calls_mem malloc h cs m1 = returns (m2, as)" "calls_spec H1 cs as = Some (H2, n2)"
    "table_in m2 h pss2 H2" "finite (lost m2 pss2)" "card (lost m2 pss2) = card (lost m1 pss1) + n2"
    "same_objects m1 m2" "hash_value H2 = hash_value H1" "ht_size H2 = ht_size H1" by blast
  have "calls_mem malloc h (c # cs) m = returns (m2, a # as)" using 1(1) 2(1) by simp
  moreover have "calls_spec H (c # cs) (a # as) = Some (H2, n1 + n2)" using 1(2) 2(2) by simp
  moreover have "card (lost m2 pss2) = card (lost m pss) + (n1 + n2)" using 1(5) 2(5) by simp
  moreover have "same_objects m m2" using 1(6) 2(6) by (simp add: same_objects_def)
  ultimately show ?case using 2(3,4,7,8) 1(7,8) by auto
qed


lemma create_mem_table:
  assumes "\<And>k. hash sz k < sz" "8 * sz < 2 ^ 64" "mt m \<noteq> 0 \<Longrightarrow> tables m (mt m) = None"
  shows "hashtab_create_mem mt ma hash cmp sz m = returns (m, 0) \<or>
    (\<exists>m' h H a. hashtab_create_mem mt ma hash cmp sz m = returns (m', h) \<and> h \<noteq> 0 \<and>
      hashtab_create hash cmp sz = Inr H \<and> hash_value H = hash \<and> ht_size H = sz \<and>
      table_in m' h (replicate sz []) H \<and> nodes m' = nodes m \<and>
      dom (tables m') = insert h (dom (tables m)) \<and> dom (arrays m') = insert a (dom (arrays m)))"
proof -
  let ?p = "mt m"
  let ?t = "\<lparr>mt_htable = 0, mt_size = sz, mt_nel = 0, mt_hash_value = hash, mt_keycmp = cmp\<rparr>"
  let ?a = "ma (m\<lparr>tables := (tables m)(?p \<mapsto> ?t)\<rparr>)"
  consider "?p = 0" | "?p \<noteq> 0" "?a = 0" | "?p \<noteq> 0" "?a \<noteq> 0" by blast
  then show ?thesis
  proof cases
    case 2
    then have "(tables m)(?p := None) = tables m" using assms(3) by (simp add: fun_upd_idem)
    with 2 show ?thesis by (simp add: hashtab_create_mem_def Let_def)
  next
    case 3
    let ?m = "m\<lparr>tables := (tables m)(?p \<mapsto> ?t\<lparr>mt_htable := ?a\<rparr>),
      arrays := (arrays m)(?a \<mapsto> replicate sz 0)\<rparr>"
    let ?H = "\<lparr>htable = replicate sz [], ht_size = sz, nel = 0, hash_value = hash, keycmp = cmp\<rparr>"
    have "hashtab_create_mem mt ma hash cmp sz m = returns (?m, ?p)"
      using 3 assms(2) by (simp add: hashtab_create_mem_def Let_def)
    moreover have "table_in ?m ?p (replicate sz []) ?H" using 3 by (auto simp: table_in_def)
    moreover have "hashtab_create hash cmp sz = Inr ?H" using assms(2) by (simp add: hashtab_create_def)
    ultimately show ?thesis using 3 by auto
  qed (simp add: hashtab_create_mem_def)
qed

definition no_memory :: "('k, 'd) memory" where
  "no_memory = \<lparr>nodes = Map.empty, arrays = Map.empty, tables = Map.empty\<rparr>"

subsection \<open>Properties\<close>

text \<open>
  C12: The chains of Hashtab are what the pointers hold: on a table in memory with the content \<open>H\<close>, any
  sequence of insertions, deletions and searches runs without touching NULL or an object that is not
  allocated and comes to an end; every answer is the one Hashtab gives for \<open>H\<close>, or \<open>-ENOMEM\<close> from an
  insertion that changed nothing, and the memory then holds the table Hashtab computes. All that is asked of
  \<open>malloc\<close> is that it answers NULL or the address of no node in use; of the hash function, that it stays
  below the size.
\<close>
theorem hashtab_memory_refines:
  assumes "table_in m h pss H" "finite (dom (nodes m))" "\<And>k. hash_value H (ht_size H) k < ht_size H"
    and "\<And>m. malloc m \<noteq> 0 \<Longrightarrow> nodes m (malloc m) = None"
  shows "\<exists>m' as H' n pss'. calls_mem malloc h cs m = returns (m', as) \<and> calls_spec H cs as = Some (H', n) \<and>
    table_in m' h pss' H'"
proof -
  have "finite (lost m pss)" using assms(2) by (simp add: lost_def)
  from calls_mem_refines [OF assms(1) this assms(3,4)] show ?thesis by blast
qed

text \<open>A table with one slot, a memory with two addresses for nodes.\<close>

definition two_nodes :: "(int, nat) memory \<Rightarrow> addr" where
  "two_nodes m = (if nodes m 1 = None then 1 else if nodes m 2 = None then 2 else 0)"

lemma two_nodes_fresh: "two_nodes m \<noteq> 0 \<Longrightarrow> nodes m (two_nodes m) = None"
  by (simp add: two_nodes_def split: if_splits)

theorem hashtab_memory_refines_witness:
  "\<exists>m' as H' n pss'. calls_mem two_nodes 3 [Insert 4 (Some 8), Search 5, Delete 5]
      \<lparr>nodes = [1 \<mapsto> \<lparr>mn_key = 5, mn_datum = Some 7, mn_next = 0\<rparr>], arrays = [2 \<mapsto> [1]],
        tables = [3 \<mapsto> \<lparr>mt_htable = 2, mt_size = 1, mt_nel = 1, mt_hash_value = \<lambda>n k. 0, mt_keycmp = (-)\<rparr>]\<rparr> =
      returns (m', as) \<and>
    calls_spec \<lparr>htable = [[\<lparr>node_key = 5, node_datum = Some 7\<rparr>]], ht_size = 1, nel = 1,
      hash_value = \<lambda>n k. 0, keycmp = (-)\<rparr> [Insert 4 (Some 8), Search 5, Delete 5] as = Some (H', n) \<and>
    table_in m' 3 pss' H'"
  by (rule hashtab_memory_refines [where pss = "[[1]]"]) (simp_all add: table_in_def two_nodes_fresh)

text \<open>
  C13: The life of a table in an otherwise empty memory: \<open>hashtab_create\<close> answers NULL and leaves nothing
  behind, or a table on which any sequence of calls and then \<open>hashtab_destroy\<close> run without an access to
  memory that is not allocated and without a second \<open>free\<close>; the table and its slots are freed, and of the
  nodes all but as many as there were deletions of a node behind the first of its chain: \<open>hashtab_delete\<close>
  unlinks such a node but does not free it.
\<close>
theorem hashtab_lifetime:
  assumes "\<And>k. hash sz k < sz" "8 * sz < 2 ^ 64" "\<And>m. malloc m \<noteq> 0 \<Longrightarrow> nodes m (malloc m) = None"
  shows "hashtab_create_mem mt ma hash cmp sz no_memory = returns (no_memory, 0) \<or>
    (\<exists>m h H m' as H' n m''. hashtab_create_mem mt ma hash cmp sz no_memory = returns (m, h) \<and>
      hashtab_create hash cmp sz = Inr H \<and>
      calls_mem malloc h cs m = returns (m', as) \<and> calls_spec H cs as = Some (H', n) \<and>
      hashtab_destroy_mem h m' = returns m'' \<and>
      tables m'' = Map.empty \<and> arrays m'' = Map.empty \<and> finite (dom (nodes m'')) \<and> card (dom (nodes m'')) = n)"
proof -
  have "mt no_memory \<noteq> 0 \<Longrightarrow> tables no_memory (mt no_memory) = None" by (simp add: no_memory_def)
  from create_mem_table [where hash = hash and sz = sz and mt = mt and m = no_memory and ma = ma and cmp = cmp,
      OF assms(1,2) this]
  consider "hashtab_create_mem mt ma hash cmp sz no_memory = returns (no_memory, 0)"
    | m h H a where "hashtab_create_mem mt ma hash cmp sz no_memory = returns (m, h)"
      "hashtab_create hash cmp sz = Inr H" "hash_value H = hash" "ht_size H = sz"
      "table_in m h (replicate sz []) H" "nodes m = Map.empty" "dom (tables m) = {h}" "dom (arrays m) = {a}"
    by (auto simp: no_memory_def)
  then show ?thesis
  proof cases
    case 2
    have "lost m (replicate sz []) = {}" using 2(6) by (simp add: lost_def)
    with calls_mem_refines [where malloc = malloc and cs = cs, OF 2(5) _ _ assms(3)] assms(1) 2(3,4) obtain m' as H' n pss' where
      r: "calls_mem malloc h cs m = returns (m', as)" "calls_spec H cs as = Some (H', n)"
      "table_in m' h pss' H'" "finite (lost m' pss')" "card (lost m' pss') = n" "same_objects m m'"
      "hash_value H' = hash" "ht_size H' = sz" by auto
    have "\<And>k. hash_value H' (ht_size H') k < ht_size H'" using r(7,8) assms(1) by simp
    from destroy_mem_frees [OF r(3) this] obtain m'' b where
      d: "hashtab_destroy_mem h m' = returns m''" "nodes m'' = nodes m' |` (- set (concat pss'))"
      "tables m'' = (tables m')(h := None)" "b \<in> dom (arrays m')" "arrays m'' = (arrays m')(b := None)" by blast
    have "dom (tables m'') = {}" "dom (arrays m'') = {}"
      using d(3-5) r(6) 2(7,8) by (auto simp: same_objects_def)
    moreover have "dom (nodes m'') = lost m' pss'" using d(2) by (auto simp: lost_def)
    ultimately have "tables m'' = Map.empty" "arrays m'' = Map.empty" "finite (dom (nodes m''))"
      "card (dom (nodes m'')) = n" using r(4,5) by simp_all
    with 2(1,2) r(1,2) d(1) show ?thesis by blast
  qed simp
qed

text \<open>One deletion of a second node, one node lost.\<close>

theorem hashtab_lifetime_witness:
  "\<exists>m h m' as m''. hashtab_create_mem (\<lambda>m. 1) (\<lambda>m. 1) (\<lambda>n k. 0) (-) 1 no_memory = returns (m, h) \<and>
    calls_mem two_nodes h [Insert 4 (Some 8), Insert 5 None, Delete 5] m = returns (m', as) \<and>
    hashtab_destroy_mem h m' = returns m'' \<and> tables m'' = Map.empty \<and> card (dom (nodes m'')) = 1"
proof -
  let ?cs = "[Insert 4 (Some 8), Insert 5 None, Delete 5] :: (int, nat) ht_call list"
  let ?new = "hashtab_create_mem (\<lambda>m. 1) (\<lambda>m. 1) (\<lambda>n k. 0) (-) 1 (no_memory :: (int, nat) memory)"
  let ?as = "[Code 0, Code 0, Datum None] :: nat ht_answer list"
  let ?m = "\<lparr>nodes = Map.empty, arrays = [1 \<mapsto> [0]], tables = [1 \<mapsto>
    \<lparr>mt_htable = 1, mt_size = 1, mt_nel = 0, mt_hash_value = (\<lambda>n k. 0), mt_keycmp = (-)\<rparr>]\<rparr> :: (int, nat) memory"
  have new: "?new = returns (?m, 1)" by (simp add: hashtab_create_mem_def no_memory_def Let_def)
  have answers: "(case calls_mem two_nodes 1 ?cs ?m of Some (Inr (m, as)) \<Rightarrow> as = ?as | _ \<Rightarrow> False)"
    by code_simp
  have count: "(case hashtab_create (\<lambda>n k. 0) (-) 1 :: (int, nat) hashtab res of
      Inr H \<Rightarrow> map_option snd (calls_spec H ?cs ?as) = Some 1 | _ \<Rightarrow> False)"
    by (simp add: hashtab_create_def hashtab_insert_def hashtab_delete_def slot_def set_slot_def
      deletes_behind_def HASHTAB_MAX_NODES_def ENOMEM_def)
  have "?new \<noteq> returns (no_memory, 0)" unfolding new by simp
  with hashtab_lifetime [of "\<lambda>n k. 0" 1 two_nodes "\<lambda>m. 1" "\<lambda>m. 1" "(-)" ?cs, OF _ _ two_nodes_fresh]
  obtain m h H m' as H' n m'' where r: "?new = returns (m, h)"
    "hashtab_create (\<lambda>n k. 0) (-) 1 = Inr (H :: (int, nat) hashtab)"
    "calls_mem two_nodes h ?cs m = returns (m', as)" "calls_spec H ?cs as = Some (H', n)"
    "hashtab_destroy_mem h m' = returns m''" "tables m'' = Map.empty" "card (dom (nodes m'')) = n" by auto
  have "m = ?m" "h = 1" using r(1) unfolding new
    by (simp_all only: option.inject sum.inject prod.inject)
  then have "as = ?as" using answers r(3) by (simp del: One_nat_def)
  then have "n = 1" using count r(2,4) by simp
  with r(1,3,5-7) show ?thesis by blast
qed

end
