(* ===== verification/Hms_List.thy ===== *)
theory Hms_List
  imports Run
begin

section \<open>Linked lists (src/src/include/hms_list.h)\<close>

text \<open>
  The circular doubly linked lists the headers of a message are kept in, at the level of their links. An
  address is a number, 0 is NULL; the memory has the two fields of every list head, and the addresses at which
  there is one: reading or writing a field anywhere else is undefined. Every assignment of the source is one
  step, in its order. The functions work on any memory that contains the list heads (on a record that extends
  \<open>hms_list_head\<close>): Msg_Memory runs them on the memory of whole messages.
\<close>

type_synonym ptr = nat

record hms_list_head =
  mapped :: "ptr \<Rightarrow> bool"
  next_of :: "ptr \<Rightarrow> ptr"
  prev_of :: "ptr \<Rightarrow> ptr"

type_synonym 'a heap = "'a hms_list_head_scheme"

definition is_head :: "'a heap \<Rightarrow> ptr \<Rightarrow> bool" where
  "is_head h p \<longleftrightarrow> p \<noteq> 0 \<and> mapped h p"

definition get_next :: "'a heap \<Rightarrow> ptr \<Rightarrow> ptr res" where
  "get_next h p = (if is_head h p then Inr (next_of h p) else Inl Undefined)"

definition get_prev :: "'a heap \<Rightarrow> ptr \<Rightarrow> ptr res" where
  "get_prev h p = (if is_head h p then Inr (prev_of h p) else Inl Undefined)"

definition set_next :: "ptr \<Rightarrow> ptr \<Rightarrow> 'a heap \<Rightarrow> 'a heap res" where
  "set_next p q h = (if is_head h p then Inr (h\<lparr>next_of := (next_of h)(p := q)\<rparr>) else Inl Undefined)"

definition set_prev :: "ptr \<Rightarrow> ptr \<Rightarrow> 'a heap \<Rightarrow> 'a heap res" where
  "set_prev p q h = (if is_head h p then Inr (h\<lparr>prev_of := (prev_of h)(p := q)\<rparr>) else Inl Undefined)"

definition HMS_INIT_LIST_HEAD :: "ptr \<Rightarrow> 'a heap \<Rightarrow> 'a heap res" where
  "HMS_INIT_LIST_HEAD p h = bind_res (set_next p p h) (set_prev p p)"

definition hms_list_add_between :: "ptr \<Rightarrow> ptr \<Rightarrow> ptr \<Rightarrow> 'a heap \<Rightarrow> 'a heap res" where
  "hms_list_add_between nnew prev next h =
     bind_res (set_prev next nnew h) (\<lambda>h.
     bind_res (set_next nnew next h) (\<lambda>h.
     bind_res (set_prev nnew prev h) (\<lambda>h.
     set_next prev nnew h)))"

definition hms_list_add :: "ptr \<Rightarrow> ptr \<Rightarrow> 'a heap \<Rightarrow> 'a heap res" where
  "hms_list_add newp head h =
     bind_res (get_next h head) (\<lambda>next. hms_list_add_between newp head next h)"

definition hms_list_add_tail :: "ptr \<Rightarrow> ptr \<Rightarrow> 'a heap \<Rightarrow> 'a heap res" where
  "hms_list_add_tail newp head h =
     bind_res (get_prev h head) (\<lambda>prev. hms_list_add_between newp prev head h)"

definition hms_list_del_between :: "ptr \<Rightarrow> ptr \<Rightarrow> 'a heap \<Rightarrow> 'a heap res" where
  "hms_list_del_between prev next h = bind_res (set_prev next prev h) (set_next prev next)"

text \<open>\<open>__hms_list_del (entry->prev, entry->next)\<close>.\<close>

definition hms_list_unlink :: "ptr \<Rightarrow> 'a heap \<Rightarrow> 'a heap res" where
  "hms_list_unlink entry h =
     bind_res (get_prev h entry) (\<lambda>prev.
     bind_res (get_next h entry) (\<lambda>next. hms_list_del_between prev next h))"

definition hms_list_del :: "ptr \<Rightarrow> 'a heap \<Rightarrow> 'a heap res" where
  "hms_list_del entry h =
     bind_res (hms_list_unlink entry h) (\<lambda>h.
     bind_res (set_next entry 0 h) (set_prev entry 0))"

definition hms_list_del_init :: "ptr \<Rightarrow> 'a heap \<Rightarrow> 'a heap res" where
  "hms_list_del_init entry h = bind_res (hms_list_unlink entry h) (HMS_INIT_LIST_HEAD entry)"

definition hms_list_move :: "ptr \<Rightarrow> ptr \<Rightarrow> 'a heap \<Rightarrow> 'a heap res" where
  "hms_list_move entry head h = bind_res (hms_list_unlink entry h) (hms_list_add entry head)"

definition hms_list_move_tail :: "ptr \<Rightarrow> ptr \<Rightarrow> 'a heap \<Rightarrow> 'a heap res" where
  "hms_list_move_tail entry head h = bind_res (hms_list_unlink entry h) (hms_list_add_tail entry head)"

definition hms_list_empty :: "ptr \<Rightarrow> 'a heap \<Rightarrow> bool res" where
  "hms_list_empty head h = bind_res (get_next h head) (\<lambda>next. Inr (next = head))"

definition hms_list_splice_between :: "ptr \<Rightarrow> ptr \<Rightarrow> 'a heap \<Rightarrow> 'a heap res" where
  "hms_list_splice_between lst head h =
     bind_res (get_next h lst) (\<lambda>first.
     bind_res (get_prev h lst) (\<lambda>last.
     bind_res (get_next h head) (\<lambda>at.
     bind_res (set_prev first head h) (\<lambda>h.
     bind_res (set_next head first h) (\<lambda>h.
     bind_res (set_next last at h) (\<lambda>h.
     set_prev at last h))))))"

definition hms_list_splice :: "ptr \<Rightarrow> ptr \<Rightarrow> 'a heap \<Rightarrow> 'a heap res" where
  "hms_list_splice lst head h =
     bind_res (hms_list_empty lst h) (\<lambda>e.
     if \<not> e then hms_list_splice_between lst head h else Inr h)"

definition hms_list_splice_init :: "ptr \<Rightarrow> ptr \<Rightarrow> 'a heap \<Rightarrow> 'a heap res" where
  "hms_list_splice_init lst head h =
     bind_res (hms_list_empty lst h) (\<lambda>e.
     if \<not> e then bind_res (hms_list_splice_between lst head h) (HMS_INIT_LIST_HEAD lst) else Inr h)"

subsection \<open>Loops over a list\<close>

text \<open>
  \<open>hms_list_for_each_entry\<close> with a body that reads the memory and works on local variables \<open>'s\<close>; it answers
  with them and whether it leaves the loop (\<open>break\<close>). The entry the loop stops at is part of the result.
\<close>

partial_function (option) for_each ::
    "(ptr \<Rightarrow> 's \<Rightarrow> ('s \<times> bool) res) \<Rightarrow> 'a heap \<Rightarrow> ptr \<Rightarrow> ptr \<Rightarrow> 's \<Rightarrow> ('s \<times> ptr) run" where
  [code]: "for_each body h head pos s =
     (if pos = head then returns (s, pos)
      else bind_run (Some (body pos s)) (\<lambda>(s, stop).
        if stop then returns (s, pos)
        else bind_run (Some (get_next h pos)) (\<lambda>next. for_each body h head next s)))"

definition hms_list_for_each_entry ::
    "(ptr \<Rightarrow> 's \<Rightarrow> ('s \<times> bool) res) \<Rightarrow> 'a heap \<Rightarrow> ptr \<Rightarrow> 's \<Rightarrow> ('s \<times> ptr) run" where
  "hms_list_for_each_entry body h head s =
     bind_run (Some (get_next h head)) (\<lambda>first. for_each body h head first s)"

text \<open>
  \<open>hms_list_for_each\<close> and \<open>hms_list_for_each_prev\<close> run over the list heads themselves; here with a body that
  collects them.
\<close>

definition hms_list_for_each :: "'a heap \<Rightarrow> ptr \<Rightarrow> ptr list run" where
  "hms_list_for_each h head =
     bind_run (Some (get_next h head)) (\<lambda>first.
     bind_run (for_each (\<lambda>pos ps. Inr (ps @ [pos], False)) h head first []) (\<lambda>(ps, pos). returns ps))"

partial_function (option) for_each_prev ::
    "'a heap \<Rightarrow> ptr \<Rightarrow> ptr \<Rightarrow> ptr list \<Rightarrow> ptr list run" where
  [code]: "for_each_prev h head pos ps =
     (if pos = head then returns ps
      else bind_run (Some (get_prev h pos)) (\<lambda>prev. for_each_prev h head prev (ps @ [pos])))"

definition hms_list_for_each_prev :: "'a heap \<Rightarrow> ptr \<Rightarrow> ptr list run" where
  "hms_list_for_each_prev h head =
     bind_run (Some (get_prev h head)) (\<lambda>last. for_each_prev h head last [])"

text \<open>
  \<open>hms_list_for_each_entry_safe\<close>, which has read the next entry before the body runs, with a body that may
  change the memory.
\<close>

partial_function (option) for_each_safe ::
    "(ptr \<Rightarrow> 's \<Rightarrow> 'a heap \<Rightarrow> ('s \<times> 'a heap \<times> bool) res) \<Rightarrow> ptr \<Rightarrow> ptr \<Rightarrow> ptr \<Rightarrow> 's \<Rightarrow> 'a heap \<Rightarrow>
     ('s \<times> 'a heap) run" where
  [code]: "for_each_safe body head pos n s h =
     (if pos = head then returns (s, h)
      else bind_run (Some (body pos s h)) (\<lambda>(s, h, stop).
        if stop then returns (s, h)
        else bind_run (Some (get_next h n)) (\<lambda>n'. for_each_safe body head n n' s h)))"

definition hms_list_for_each_entry_safe ::
    "(ptr \<Rightarrow> 's \<Rightarrow> 'a heap \<Rightarrow> ('s \<times> 'a heap \<times> bool) res) \<Rightarrow> ptr \<Rightarrow> 's \<Rightarrow> 'a heap \<Rightarrow>
     ('s \<times> 'a heap) run" where
  "hms_list_for_each_entry_safe body head s h =
     bind_run (Some (get_next h head)) (\<lambda>pos.
     bind_run (Some (get_next h pos)) (\<lambda>n. for_each_safe body head pos n s h))"

text \<open>
  The two bodies hms_msg.c has, as far as they concern the links: delete every entry (\<open>hms_msg_destroy\<close>), and
  delete the first entry that satisfies a test and leave (\<open>hms_msg_del_header\<close>, \<open>hms_msg_del_named_header\<close>).
\<close>

definition del_body :: "ptr \<Rightarrow> unit \<Rightarrow> 'a heap \<Rightarrow> (unit \<times> 'a heap \<times> bool) res" where
  "del_body hdr s h = bind_res (hms_list_del hdr h) (\<lambda>h. Inr (s, h, False))"

definition del_first_body :: "(ptr \<Rightarrow> bool) \<Rightarrow> ptr \<Rightarrow> unit \<Rightarrow> 'a heap \<Rightarrow> (unit \<times> 'a heap \<times> bool) res" where
  "del_first_body matches hdr s h =
     (if matches hdr then bind_res (hms_list_del hdr h) (\<lambda>h. Inr (s, h, True)) else Inr (s, h, False))"

end
