(* ===== verification/Sequence.thy ===== *)
theory Sequence
  imports Prelude
begin

section \<open>The interface of a linked sequence\<close>

text \<open>
  What the message operations need of the lists they keep headers in: to append an entry that is not in the
  list and to take an entry out. \<open>rep h xs\<close> says that the memory \<open>h\<close> holds the sequence \<open>xs\<close>, \<open>ok p\<close> that
  \<open>p\<close> may be an entry.
\<close>

datatype 'p seq_op = Append 'p | Remove 'p

text \<open>The sequence after the operations, \<open>None\<close> if one of them is not allowed.\<close>

fun seq_spec :: "('p \<Rightarrow> bool) \<Rightarrow> 'p list \<Rightarrow> 'p seq_op list \<Rightarrow> 'p list option" where
  "seq_spec ok xs [] = Some xs"
| "seq_spec ok xs (Append p # ops) =
     (if ok p \<and> p \<notin> set xs then seq_spec ok (xs @ [p]) ops else None)"
| "seq_spec ok xs (Remove p # ops) = (if p \<in> set xs then seq_spec ok (remove1 p xs) ops else None)"

fun run_seq ::
    "('p \<Rightarrow> 'h \<Rightarrow> 'h res) \<Rightarrow> ('p \<Rightarrow> 'h \<Rightarrow> 'h res) \<Rightarrow> 'h \<Rightarrow> 'p seq_op list \<Rightarrow> 'h res" where
  "run_seq app rem h [] = Inr h"
| "run_seq app rem h (Append p # ops) =
     bind_res (app p h) (\<lambda>h. run_seq app rem h ops)"
| "run_seq app rem h (Remove p # ops) =
     bind_res (rem p h) (\<lambda>h. run_seq app rem h ops)"

locale sequence =
  fixes rep :: "'h \<Rightarrow> 'p list \<Rightarrow> bool"
    and ok :: "'p \<Rightarrow> bool"
    and app :: "'p \<Rightarrow> 'h \<Rightarrow> 'h res"
    and rem :: "'p \<Rightarrow> 'h \<Rightarrow> 'h res"
  assumes append_law: "rep h xs \<Longrightarrow> ok p \<Longrightarrow> p \<notin> set xs \<Longrightarrow>
      \<exists>h'. app p h = Inr h' \<and> rep h' (xs @ [p])"
    and remove_law: "rep h (xs @ p # ys) \<Longrightarrow> \<exists>h'. rem p h = Inr h' \<and> rep h' (xs @ ys)"
begin

lemma remove_member:
  assumes "rep h xs" "p \<in> set xs"
  shows "\<exists>h'. rem p h = Inr h' \<and> rep h' (remove1 p xs)"
proof -
  obtain us vs where "xs = us @ p # vs" "p \<notin> set us" using split_list_first [OF assms(2)] by blast
  with remove_law [of h us p vs] assms(1) show ?thesis by (simp add: remove1_append)
qed

lemma run_refines:
  "rep h xs \<Longrightarrow> seq_spec ok xs ops = Some ys \<Longrightarrow> \<exists>h'. run_seq app rem h ops = Inr h' \<and> rep h' ys"
proof (induction ops arbitrary: h xs)
  case (Cons op ops)
  show ?case
  proof (cases op)
    case (Append p)
    with Cons.prems have "ok p" "p \<notin> set xs" "seq_spec ok (xs @ [p]) ops = Some ys"
      by (auto split: if_splits)
    with Cons append_law [of h xs p] Append show ?thesis by fastforce
  next
    case (Remove p)
    with Cons.prems have "p \<in> set xs" "seq_spec ok (remove1 p xs) ops = Some ys"
      by (auto split: if_splits)
    with Cons remove_member [of h xs p] Remove show ?thesis by fastforce
  qed
qed simp

end

end
