(* ===== verification/Hms_List_Correct.thy ===== *)
theory Hms_List_Correct
  imports Hms_List Hms_Msg_Correct Sequence
begin

section \<open>Correctness of the linked lists\<close>

text \<open>
  \<open>ring h head xs\<close>: the memory \<open>h\<close> holds at \<open>head\<close> the circular list whose entries are \<open>xs\<close>. Every
  operation is shown to do to the rings what its list operation does to the entries, and to leave the links
  of all other addresses alone.
\<close>

subsection \<open>Paths and rings\<close>

text \<open>\<open>path h ps\<close>: each address of \<open>ps\<close> is linked, both ways, with the one behind it.\<close>

fun path :: "'a heap \<Rightarrow> ptr list \<Rightarrow> bool" where
  "path h (p # q # ps) \<longleftrightarrow> next_of h p = q \<and> prev_of h q = p \<and> path h (q # ps)"
| "path h _ \<longleftrightarrow> True"

definition ring :: "'a heap \<Rightarrow> ptr \<Rightarrow> ptr list \<Rightarrow> bool" where
  "ring h head xs \<longleftrightarrow> distinct (head # xs) \<and> (\<forall>p \<in> set (head # xs). is_head h p) \<and>
     path h (head # xs @ [head])"

lemma path_join:
  "path h (us @ a # b # vs) \<longleftrightarrow>
     path h (us @ [a]) \<and> next_of h a = b \<and> prev_of h b = a \<and> path h (b # vs)"
  by (induction h us rule: path.induct) (auto simp: neq_Nil_conv elim!: path.elims)

lemma in_set_tlD: "p \<in> set (tl ps) \<Longrightarrow> p \<in> set ps"
  by (cases ps) auto

lemma path_cong:
  "(\<And>p. p \<in> set (butlast ps) \<Longrightarrow> next_of h' p = next_of h p) \<Longrightarrow>
   (\<And>p. p \<in> set (tl ps) \<Longrightarrow> prev_of h' p = prev_of h p) \<Longrightarrow> path h' ps = path h ps"
proof (induction h ps rule: path.induct)
  case (1 h p q ps)
  have "path h' (q # ps) = path h (q # ps)"
    using "1.prems" by (intro "1.IH") (auto dest: in_set_tlD)
  moreover have "next_of h' p = next_of h p" "prev_of h' q = prev_of h q"
    using "1.prems" by auto
  ultimately show ?case by simp
qed auto

text \<open>The list heads stay where they are, and change only in a set of addresses.\<close>

definition same_outside :: "ptr set \<Rightarrow> 'a heap \<Rightarrow> 'a heap \<Rightarrow> bool" where
  "same_outside A h h' \<longleftrightarrow> mapped h' = mapped h \<and> hms_list_head.more h' = hms_list_head.more h \<and>
     (\<forall>p. p \<notin> A \<longrightarrow> next_of h' p = next_of h p \<and> prev_of h' p = prev_of h p)"

lemma is_head_same [simp]: "same_outside A h h' \<Longrightarrow> is_head h' p = is_head h p"
  by (simp add: same_outside_def is_head_def)

lemma is_head_upd [simp]:
  "is_head (h\<lparr>next_of := f\<rparr>) = is_head h" "is_head (h\<lparr>prev_of := f\<rparr>) = is_head h"
  by (rule ext, simp add: is_head_def)+

text \<open>A ring depends only on the list heads at its addresses.\<close>

lemma ring_cong:
  assumes "\<And>p. p \<in> set (head # xs) \<Longrightarrow> is_head h' p = is_head h p \<and> next_of h' p = next_of h p \<and> prev_of h' p = prev_of h p"
  shows "ring h' head xs = ring h head xs"
proof -
  have "path h' (head # xs @ [head]) = path h (head # xs @ [head])"
    using assms by (intro path_cong) (auto simp: butlast_append)
  then show ?thesis using assms by (simp add: ring_def)
qed

lemma ring_frame:
  assumes "same_outside A h h'" "A \<inter> set (head # xs) = {}"
  shows "ring h' head xs = ring h head xs"
  using assms is_head_same [OF assms(1)] by (intro ring_cong) (auto simp: same_outside_def)

lemma same_outside_trans:
  "same_outside A h h' \<Longrightarrow> same_outside A h' h'' \<Longrightarrow> same_outside A h h''"
  "same_outside A h h' \<Longrightarrow> A \<subseteq> B \<Longrightarrow> same_outside B h h'"
  by (auto simp: same_outside_def)

lemmas link_simps = get_next_def get_prev_def set_next_def set_prev_def

lemma init_ring:
  "is_head h p \<Longrightarrow> \<exists>h'. HMS_INIT_LIST_HEAD p h = Inr h' \<and> ring h' p [] \<and> same_outside {p} h h'"
  by (simp add: HMS_INIT_LIST_HEAD_def link_simps ring_def same_outside_def)

text \<open>The two neighbours \<open>a\<close>, \<open>b\<close> at a position of a ring, and what they are apart from.\<close>

lemma ring_split:
  assumes "ring h head (xs @ ys)"
  obtains us a b vs where "head # xs = us @ [a]" "ys @ [head] = b # vs"
    "path h (us @ [a])" "path h (b # vs)" "next_of h a = b" "prev_of h b = a" "is_head h a" "is_head h b"
    "a \<notin> set us" "a \<notin> set ys" "b \<notin> set vs" "b \<notin> set xs"
    "set us \<subseteq> set (head # xs)" "set vs \<subseteq> set (head # ys)" "a \<in> set (head # xs)" "b \<in> set (head # ys)"
proof -
  obtain us a where us: "head # xs = us @ [a]" by (metis append_butlast_last_id list.distinct(1))
  obtain b vs where vs: "ys @ [head] = b # vs" by (cases ys) auto
  have "head # (xs @ ys) @ [head] = us @ a # b # vs" using us vs by simp
  with assms have "path h (us @ a # b # vs)" by (metis ring_def)
  then have p: "path h (us @ [a])" "path h (b # vs)" "next_of h a = b" "prev_of h b = a"
    by (simp_all add: path_join)
  have d: "distinct (head # xs @ ys)" "\<forall>p \<in> set (head # xs @ ys). is_head h p" using assms by (simp_all add: ring_def)
  have ab: "a \<in> set (head # xs)" "b \<in> set (ys @ [head])" unfolding us vs by auto
  have "distinct (us @ [a])" "distinct (b # vs)" unfolding us [symmetric] vs [symmetric] using d by auto
  moreover have "set us \<subseteq> set (head # xs)" "set vs \<subseteq> set (ys @ [head])" unfolding us vs by auto
  moreover have "is_head h a" "is_head h b" "a \<notin> set ys" "b \<notin> set xs" using ab d by auto
  ultimately show thesis using that [OF us vs p] ab by auto
qed

text \<open>Changing only the outgoing links of the neighbours.\<close>

lemma path_ends:
  assumes "path h (us @ [a])" "path h (b # vs)"
    "\<And>p. p \<in> set us \<union> set (butlast (b # vs)) \<Longrightarrow> next_of h' p = next_of h p"
    "\<And>p. p \<in> set (tl (us @ [a])) \<union> set vs \<Longrightarrow> prev_of h' p = prev_of h p"
  shows "path h' (us @ [a])" "path h' (b # vs)"
  using assms by (subst path_cong [where h = h]; auto)+

lemma add_ring:
  assumes "ring h head (xs @ ys)" "n \<notin> set (head # xs @ ys)" "is_head h n"
    "a = last (head # xs)" "b = hd (ys @ [head])"
  shows "\<exists>h'. hms_list_add_between n a b h = Inr h' \<and> ring h' head (xs @ n # ys) \<and>
    same_outside (set (n # head # xs @ ys)) h h'"
  using assms(1)
proof (rule ring_split)
  fix us a' b' vs
  assume s: "head # xs = us @ [a']" "ys @ [head] = b' # vs"
    and p: "path h (us @ [a'])" "path h (b' # vs)" "is_head h a'" "is_head h b'"
    and e: "a' \<notin> set us" "a' \<notin> set ys" "b' \<notin> set vs" "b' \<notin> set xs"
    "set us \<subseteq> set (head # xs)" "set vs \<subseteq> set (head # ys)" "a' \<in> set (head # xs)" "b' \<in> set (head # ys)"
  have ab: "a = a'" "b = b'" using assms(4,5) s by (metis last_snoc) (metis assms(5) list.sel(1) s(2))
  have tl: "tl (us @ [a]) = xs" "butlast (b # vs) = ys" using s ab by (metis list.sel(3)) (metis ab butlast_snoc s(2))
  have n: "n \<noteq> a" "n \<noteq> b" "n \<notin> set us" "n \<notin> set vs" "n \<notin> set xs" "n \<notin> set ys"
    using assms(2) e ab by auto
  let ?h = "h\<lparr>next_of := (next_of h)(n := b, a := n), prev_of := (prev_of h)(b := n, n := a)\<rparr>"
  have run: "hms_list_add_between n a b h = Inr ?h"
    using p(3,4) assms(3) n ab by (simp add: hms_list_add_between_def link_simps)
  have "next_of ?h p = next_of h p" if "p \<in> set us \<union> set (butlast (b # vs))" for p
    using that e(1,2) n ab(1) unfolding tl by auto
  moreover have "prev_of ?h p = prev_of h p" if "p \<in> set (tl (us @ [a])) \<union> set vs" for p
    using that e(3,4) n ab(2) unfolding tl by auto
  ultimately have "path ?h (us @ [a])" "path ?h (b # vs)"
    using path_ends [of h us a b vs ?h] p(1,2) ab by blast+
  then have "path ?h (us @ a # n # b # vs)" using n path_join [of ?h us a n "b # vs"] by simp
  moreover have "us @ a # n # b # vs = head # (xs @ n # ys) @ [head]"
    using s ab by (metis append.assoc append_Cons append_Nil)
  ultimately have "ring ?h head (xs @ n # ys)"
    using assms(1-3) by (auto simp: ring_def)
  moreover have "same_outside (set (n # head # xs @ ys)) h ?h"
    using e ab by (auto simp: same_outside_def)
  ultimately show ?thesis using run by blast
qed

lemma ring_neighbours:
  assumes "ring h head (xs @ ys)"
  shows "next_of h (last (head # xs)) = hd (ys @ [head])" "prev_of h (hd (ys @ [head])) = last (head # xs)"
    "is_head h (last (head # xs))" "is_head h (hd (ys @ [head]))"
  using ring_split [OF assms] by (metis last_snoc list.sel(1))+

lemma hms_list_add_ring:
  assumes "ring h head xs" "n \<notin> set (head # xs)" "is_head h n"
  shows "\<exists>h'. hms_list_add n head h = Inr h' \<and> ring h' head (n # xs) \<and>
    same_outside (set (n # head # xs)) h h'"
  using add_ring [of h head "[]" xs n head "hd (xs @ [head])"] ring_neighbours [of h head "[]" xs] assms
  by (auto simp: hms_list_add_def link_simps)

lemma hms_list_add_tail_ring:
  assumes "ring h head xs" "n \<notin> set (head # xs)" "is_head h n"
  shows "\<exists>h'. hms_list_add_tail n head h = Inr h' \<and> ring h' head (xs @ [n]) \<and>
    same_outside (set (n # head # xs)) h h'"
  using add_ring [of h head xs "[]" n "last (head # xs)" head] ring_neighbours [of h head xs "[]"] assms
  by (auto simp: hms_list_add_tail_def link_simps)

lemma unlink_ring:
  assumes "ring h head (xs @ e # ys)"
  shows "\<exists>h'. hms_list_unlink e h = Inr h' \<and> ring h' head (xs @ ys) \<and>
    same_outside (set (head # xs @ ys)) h h' \<and> next_of h' e = next_of h e \<and> prev_of h' e = prev_of h e"
  using assms
proof (rule ring_split)
  fix us a e' vs
  assume s: "head # xs = us @ [a]" "(e # ys) @ [head] = e' # vs"
    and p: "path h (us @ [a])" "path h (e' # vs)" "prev_of h e' = a" "is_head h a"
    and e: "a \<notin> set us" "a \<notin> set (e # ys)" "set us \<subseteq> set (head # xs)" "a \<in> set (head # xs)"
  obtain b vs' where vs: "vs = b # vs'" "e' = e" "ys @ [head] = b # vs'"
    using s(2) by (cases ys) auto
  have d: "distinct (head # xs @ e # ys)" "\<forall>p \<in> set (head # xs @ e # ys). is_head h p" using assms by (simp_all add: ring_def)
  have b: "b \<in> set (head # ys)" "b \<notin> set vs'" "is_head h b" "b \<notin> set xs" "set vs' \<subseteq> set (head # ys)"
  proof -
    have "b \<in> set (ys @ [head])" "set vs' \<subseteq> set (ys @ [head])" unfolding vs(3) by auto
    with d show "b \<in> set (head # ys)" "is_head h b" "b \<notin> set xs" "set vs' \<subseteq> set (head # ys)" by auto
    have "distinct (b # vs')" unfolding vs(3) [symmetric] using d by auto
    then show "b \<notin> set vs'" by simp
  qed
  have en: "is_head h e" "e \<noteq> a" "e \<noteq> b" "next_of h e = b" "prev_of h e = a"
  proof -
    show "is_head h e" "e \<noteq> a" "prev_of h e = a" using d(2) e(2) p(3) vs(2) by auto
    show "e \<noteq> b" using d(1) b(1) by auto
    show "next_of h e = b" using p(2) vs(1,2) by simp
  qed
  have tl: "tl (us @ [a]) = xs" "butlast (b # vs') = ys"
    using s(1) vs(3) by (metis list.sel(3)) (metis butlast_snoc vs(3))
  let ?h = "h\<lparr>next_of := (next_of h)(a := b), prev_of := (prev_of h)(b := a)\<rparr>"
  have run: "hms_list_unlink e h = Inr ?h"
    using en p(4) b(3) by (simp add: hms_list_unlink_def hms_list_del_between_def link_simps)
  have "next_of ?h p = next_of h p" if "p \<in> set us \<union> set (butlast (b # vs'))" for p
    using that e(1,2) unfolding tl by auto
  moreover have "prev_of ?h p = prev_of h p" if "p \<in> set (tl (us @ [a])) \<union> set vs'" for p
    using that b(2,4) unfolding tl by auto
  ultimately have "path ?h (us @ [a])" "path ?h (b # vs')"
    using path_ends [of h us a b vs' ?h] p(1,2) vs by auto
  then have "path ?h (us @ a # b # vs')" by (simp add: path_join)
  moreover have "us @ a # b # vs' = head # (xs @ ys) @ [head]"
    using s(1) vs(3) by (metis append.assoc append_Cons append_Nil)
  ultimately have "ring ?h head (xs @ ys)" using d by (auto simp: ring_def)
  moreover have "same_outside (set (head # xs @ ys)) h ?h"
    using e(4) b(1) by (auto simp: same_outside_def)
  ultimately show ?thesis using run en by auto
qed

lemma reset_outside:
  assumes "ring h head xs" "e \<notin> set (head # xs)"
  shows "ring (h\<lparr>next_of := (next_of h)(e := a), prev_of := (prev_of h)(e := b)\<rparr>) head xs"
  using ring_frame [of "{e}" h _ head xs] assms by (simp add: same_outside_def)

lemma hms_list_del_ring:
  assumes "ring h head (xs @ e # ys)"
  shows "\<exists>h'. hms_list_del e h = Inr h' \<and> ring h' head (xs @ ys) \<and>
    same_outside (set (head # xs @ e # ys)) h h' \<and> next_of h' e = 0 \<and> prev_of h' e = 0"
proof -
  obtain h1 where h1: "hms_list_unlink e h = Inr h1" "ring h1 head (xs @ ys)"
    "same_outside (set (head # xs @ ys)) h h1" using unlink_ring [OF assms] by blast
  have e: "is_head h e" "e \<notin> set (head # xs @ ys)" using assms by (auto simp: ring_def)
  let ?h = "h1\<lparr>next_of := (next_of h1)(e := 0), prev_of := (prev_of h1)(e := 0)\<rparr>"
  have "hms_list_del e h = Inr ?h" using h1(1) e is_head_same [OF h1(3)] by (simp add: hms_list_del_def link_simps)
  moreover have "ring ?h head (xs @ ys)" using reset_outside [OF h1(2) e(2)] .
  moreover have "same_outside (set (head # xs @ e # ys)) h ?h"
    using h1(3) by (auto simp: same_outside_def)
  ultimately show ?thesis by auto
qed

lemma hms_list_del_init_ring:
  assumes "ring h head (xs @ e # ys)"
  shows "\<exists>h'. hms_list_del_init e h = Inr h' \<and> ring h' head (xs @ ys) \<and> ring h' e [] \<and>
    same_outside (set (head # xs @ e # ys)) h h'"
proof -
  obtain h1 where h1: "hms_list_unlink e h = Inr h1" "ring h1 head (xs @ ys)"
    "same_outside (set (head # xs @ ys)) h h1" using unlink_ring [OF assms] by blast
  have e: "is_head h e" "e \<notin> set (head # xs @ ys)" using assms by (auto simp: ring_def)
  let ?h = "h1\<lparr>next_of := (next_of h1)(e := e), prev_of := (prev_of h1)(e := e)\<rparr>"
  have "hms_list_del_init e h = Inr ?h"
    using h1(1) e is_head_same [OF h1(3)] by (simp add: hms_list_del_init_def HMS_INIT_LIST_HEAD_def link_simps)
  moreover have "ring ?h head (xs @ ys)" using reset_outside [OF h1(2) e(2)] .
  moreover have "ring ?h e []" using e is_head_same [OF h1(3)] by (simp add: ring_def)
  moreover have "same_outside (set (head # xs @ e # ys)) h ?h"
    using h1(3) by (auto simp: same_outside_def)
  ultimately show ?thesis by blast
qed

text \<open>Moving between two lists that share no address, or within one list.\<close>

lemma move_ring:
  assumes "ring h head (xs @ e # ys)" "ring h head' zs" "set (head # xs @ e # ys) \<inter> set (head' # zs) = {}"
  shows "\<exists>h'. hms_list_move e head' h = Inr h' \<and> ring h' head (xs @ ys) \<and> ring h' head' (e # zs)"
    "\<exists>h'. hms_list_move_tail e head' h = Inr h' \<and> ring h' head (xs @ ys) \<and> ring h' head' (zs @ [e])"
proof -
  obtain h1 where h1: "hms_list_unlink e h = Inr h1" "ring h1 head (xs @ ys)"
    "same_outside (set (head # xs @ ys)) h h1" using unlink_ring [OF assms(1)] by blast
  have e: "is_head h e" "e \<notin> set (head # xs @ ys)" "e \<notin> set (head' # zs)"
    using assms(1,3) by (auto simp: ring_def)
  have r1: "ring h1 head' zs" using ring_frame [OF h1(3), of head' zs] assms(2,3) by auto
  have e1: "is_head h1 e" using e(1) is_head_same [OF h1(3)] by simp
  note add = hms_list_add_ring [OF r1 e(3) e1] hms_list_add_tail_ring [OF r1 e(3) e1]
  have "ring h2 head (xs @ ys)" if "same_outside (set (e # head' # zs)) h1 h2" for h2
    using ring_frame [OF that, of head "xs @ ys"] h1(2) e(2) assms(3) by auto
  with add h1(1) show
    "\<exists>h'. hms_list_move e head' h = Inr h' \<and> ring h' head (xs @ ys) \<and> ring h' head' (e # zs)"
    "\<exists>h'. hms_list_move_tail e head' h = Inr h' \<and> ring h' head (xs @ ys) \<and> ring h' head' (zs @ [e])"
    by (fastforce simp: hms_list_move_def hms_list_move_tail_def)+
qed

lemma hms_list_empty_ring: "ring h head xs \<Longrightarrow> hms_list_empty head h = Inr (xs = [])"
  using ring_neighbours [of h head "[]" xs]
  by (cases xs) (auto simp: hms_list_empty_def link_simps ring_def)

lemma path_inner: "path h (a # xs @ [b]) \<Longrightarrow> path h xs"
proof (cases xs rule: rev_cases)
  case (snoc us c)
  assume p: "path h (a # xs @ [b])"
  have "path h (xs @ [b])" using p snoc by (cases us) auto
  then show ?thesis using path_join [of h us c b "[]"] snoc by simp
qed simp

lemma splice_ring:
  assumes "ring h lst ys" "ring h head xs" "set (lst # ys) \<inter> set (head # xs) = {}" "ys \<noteq> []"
  shows "\<exists>h'. hms_list_splice_between lst head h = Inr h' \<and> ring h' head (ys @ xs) \<and>
    same_outside (set (head # xs) \<union> set ys) h h'"
proof -
  let ?f = "hd ys" and ?l = "last ys" and ?at = "hd (xs @ [head])"
  have d: "distinct (lst # ys)" "\<forall>p \<in> set (lst # ys). is_head h p" "distinct (xs @ [head])" "\<forall>p \<in> set (xs @ [head]). is_head h p"
    using assms(1,2) by (auto simp: ring_def)
  have m: "?f \<in> set ys" "?l \<in> set ys" "?at \<in> set (xs @ [head])" using assms(4) by (cases xs; auto)+
  have links: "next_of h lst = ?f" "prev_of h lst = ?l" "next_of h head = ?at"
    using ring_neighbours [of h lst "[]" ys] ring_neighbours [of h lst ys "[]"]
      ring_neighbours [of h head "[]" xs] assms by auto
  have dis: "set ys \<inter> set (xs @ [head]) = {}" using assms(3) by auto
  let ?h = "h\<lparr>next_of := (next_of h)(head := ?f, ?l := ?at), prev_of := (prev_of h)(?f := head, ?at := ?l)\<rparr>"
  have ne: "is_head h ?f" "is_head h ?l" "is_head h ?at" "is_head h head" "is_head h lst"
    using m d by (metis list.set_intros in_set_conv_decomp)+
  have run: "hms_list_splice_between lst head h = Inr ?h"
    using links ne by (simp add: hms_list_splice_between_def link_simps)
  obtain us where us: "ys = us @ [?l]" using assms(4) by (metis append_butlast_last_id)
  obtain vs where vs: "xs @ [head] = ?at # vs" by (cases xs) auto
  have p: "path h ys" "path h (xs @ [head])"
    using assms(1,2) path_inner [of h lst ys lst] by (auto simp: ring_def) (cases xs; auto)
  have "path ?h ys"
  proof (subst path_cong [where h = h])
    fix p assume "p \<in> set (butlast ys)"
    then have pu: "p \<in> set us" using us by (metis butlast_snoc)
    have "distinct (us @ [?l])" using d(1) us by (metis distinct.simps(2))
    then have "p \<noteq> ?l" using pu by auto
    have "p \<in> set ys" using pu us by (metis UnI1 set_append)
    with \<open>p \<noteq> ?l\<close> have "p \<in> set ys" "p \<noteq> ?l" by auto
    then show "next_of ?h p = next_of h p" using dis by auto
  next
    fix p assume "p \<in> set (tl ys)"
    then have "p \<in> set ys" "p \<noteq> ?f" using d(1) assms(4) by (cases ys; auto)+
    then show "prev_of ?h p = prev_of h p" using dis m(3) by auto
  qed (rule p)
  moreover have "path ?h (xs @ [head])"
  proof (subst path_cong [where h = h])
    fix p assume "p \<in> set (butlast (xs @ [head]))"
    then have "p \<in> set xs" by simp
    then show "next_of ?h p = next_of h p" using dis m(2) d(3) by auto
  next
    fix p assume "p \<in> set (tl (xs @ [head]))"
    then have "p \<in> set (xs @ [head])" "p \<noteq> ?at" using d(3) by (cases xs; auto)+
    then show "prev_of ?h p = prev_of h p" using dis m(1) by auto
  qed (rule p)
  moreover have "next_of ?h head = ?f" "prev_of ?h ?f = head" "next_of ?h ?l = ?at" "prev_of ?h ?at = ?l"
    using dis m by auto
  ultimately have "path ?h (us @ ?l # ?at # vs)" and first: "next_of ?h head = ?f" "prev_of ?h ?f = head"
    using us vs path_join [of ?h us ?l ?at vs] by simp_all
  then have "path ?h (ys @ xs @ [head])" using us vs by (metis append.assoc append_Cons append_Nil)
  then have "path ?h (head # (ys @ xs) @ [head])" using first assms(4) by (cases ys) simp_all
  then have "ring ?h head (ys @ xs)" using assms(1,2,3) by (auto simp: ring_def)
  moreover have "same_outside (set (head # xs) \<union> set ys) h ?h" using m by (auto simp: same_outside_def)
  ultimately show ?thesis using run by blast
qed

lemma hms_list_splice_ring:
  assumes "ring h lst ys" "ring h head xs" "set (lst # ys) \<inter> set (head # xs) = {}"
  shows "\<exists>h'. hms_list_splice lst head h = Inr h' \<and> ring h' head (ys @ xs)"
    "\<exists>h'. hms_list_splice_init lst head h = Inr h' \<and> ring h' head (ys @ xs) \<and> ring h' lst []"
proof -
  have e: "hms_list_empty lst h = Inr (ys = [])" using hms_list_empty_ring [OF assms(1)] .
  have l: "is_head h lst" "lst \<notin> set (head # ys @ xs)" using assms(1,3) by (auto simp: ring_def)
  show "\<exists>h'. hms_list_splice lst head h = Inr h' \<and> ring h' head (ys @ xs)"
    using e splice_ring [OF assms] assms(2) by (auto simp: hms_list_splice_def)
  show "\<exists>h'. hms_list_splice_init lst head h = Inr h' \<and> ring h' head (ys @ xs) \<and> ring h' lst []"
  proof (cases "ys = []")
    case True
    with e assms show ?thesis by (simp add: hms_list_splice_init_def)
  next
    case False
    from splice_ring [OF assms this] obtain h1 where h1: "hms_list_splice_between lst head h = Inr h1"
      "ring h1 head (ys @ xs)" "same_outside (set (head # xs) \<union> set ys) h h1" by blast
    have "is_head h1 lst" using l(1) is_head_same [OF h1(3)] by simp
    from init_ring [OF this] obtain h2 where h2: "HMS_INIT_LIST_HEAD lst h1 = Inr h2"
      "ring h2 lst []" "same_outside {lst} h1 h2" by blast
    then have "ring h2 head (ys @ xs)" using ring_frame [OF h2(3), of head "ys @ xs"] h1(2) l(2) by auto
    with e h1 h2 False show ?thesis by (simp add: hms_list_splice_init_def)
  qed
qed

subsection \<open>Loops\<close>

text \<open>A loop that reads, as a loop over the list of the entries; the entry a \<open>break\<close> left it at, if any.\<close>

fun loop_list :: "(ptr \<Rightarrow> 's \<Rightarrow> ('s \<times> bool) res) \<Rightarrow> ptr list \<Rightarrow> 's \<Rightarrow> ('s \<times> ptr option) res" where
  "loop_list body [] s = Inr (s, None)"
| "loop_list body (p # ps) s =
     bind_res (body p s) (\<lambda>(s, stop). if stop then Inr (s, Some p) else loop_list body ps s)"

lemma loop_list_skip:
  "(\<And>j. j < length ys \<Longrightarrow> body (ys ! j) (st j) = Inr (st (Suc j), False)) \<Longrightarrow>
   loop_list body (ys @ us) (st 0) = loop_list body us (st (length ys))"
proof (induction ys arbitrary: st)
  case (Cons y ys)
  have "body y (st 0) = Inr (st (Suc 0), False)" using Cons.prems [of 0] by simp
  moreover have "body (ys ! j) (st (Suc j)) = Inr (st (Suc (Suc j)), False)" if "j < length ys" for j
    using Cons.prems [of "Suc j"] that by simp
  note Cons.IH [of "\<lambda>j. st (Suc j)", OF this]
  ultimately show ?case by simp
qed simp

lemma for_each_path:
  "path h (ys @ [head]) \<Longrightarrow> head \<notin> set ys \<Longrightarrow> \<forall>p \<in> set ys. is_head h p \<Longrightarrow>
   for_each body h head (hd (ys @ [head])) s =
     Some (bind_res (loop_list body ys s) (\<lambda>(s, p). Inr (s, case p of None \<Rightarrow> head | Some p \<Rightarrow> p)))"
proof (induction ys arbitrary: s)
  case Nil
  then show ?case by (subst for_each.simps) simp
next
  case (Cons y ys)
  have "next_of h y = hd (ys @ [head])" "path h (ys @ [head])" using Cons.prems(1) by (cases ys; auto)+
  moreover have "y \<noteq> head" "is_head h y" using Cons.prems by auto
  ultimately show ?case using Cons
    by (subst for_each.simps) (cases "body y s"; auto simp: link_simps split: prod.splits)
qed

lemma ring_path: "ring h head xs \<Longrightarrow> path h (xs @ [head]) \<and> head \<notin> set xs \<and> (\<forall>p \<in> set xs. is_head h p)"
  by (cases xs) (auto simp: ring_def)

lemma ring_next: "ring h head (xs @ ys) \<Longrightarrow> get_next h (last (head # xs)) = Inr (hd (ys @ [head]))"
  using ring_neighbours [of h head xs ys] by (auto simp: link_simps)

lemma ring_first: "ring h head xs \<Longrightarrow> get_next h head = Inr (hd (xs @ [head]))"
  using ring_next [of h head "[]" xs] by simp

lemma for_each_entry_ring:
  assumes "ring h head xs"
  shows "hms_list_for_each_entry body h head s =
    Some (bind_res (loop_list body xs s) (\<lambda>(s, p). Inr (s, case p of None \<Rightarrow> head | Some p \<Rightarrow> p)))"
  using for_each_path [of h xs head body s] ring_path [OF assms] ring_first [OF assms]
  by (simp add: hms_list_for_each_entry_def)

lemma loop_list_collect: "loop_list (\<lambda>pos ps. Inr (ps @ [pos], False)) xs ps = Inr (ps @ xs, None)"
  by (induction xs arbitrary: ps) auto

lemma hms_list_for_each_ring:
  assumes "ring h head xs"
  shows "hms_list_for_each h head = returns xs"
  using for_each_entry_ring [OF assms, of "\<lambda>pos ps. Inr (ps @ [pos], False)" "[]"] ring_first [OF assms]
  by (simp add: hms_list_for_each_def hms_list_for_each_entry_def loop_list_collect)

text \<open>Backwards.\<close>

lemma path_prefix: "path h (ps @ [p]) \<Longrightarrow> path h ps"
proof (cases ps rule: rev_cases)
  case (snoc us a)
  then show "path h (ps @ [p]) \<Longrightarrow> path h ps" using path_join [of h us a p "[]"] by simp
qed simp

lemma for_each_prev_path:
  "path h (head # ys) \<Longrightarrow> head \<notin> set ys \<Longrightarrow> \<forall>p \<in> set ys. is_head h p \<Longrightarrow>
   for_each_prev h head (last (head # ys)) ps = returns (ps @ rev ys)"
proof (induction ys arbitrary: ps rule: rev_induct)
  case Nil
  then show ?case by (subst for_each_prev.simps) simp
next
  case (snoc y ys)
  obtain us a where us: "head # ys = us @ [a]" by (metis append_butlast_last_id list.distinct(1))
  have "path h (us @ a # y # [])" using snoc.prems(1) us by (metis append_Cons append.assoc append_Nil)
  then have "prev_of h y = a" "path h (head # ys)" using path_join [of h us a y "[]"] us by auto
  moreover have "a = last (head # ys)" using us by simp
  ultimately show ?case using snoc by (subst for_each_prev.simps) (auto simp: link_simps)
qed

lemma hms_list_for_each_prev_ring:
  assumes "ring h head xs"
  shows "hms_list_for_each_prev h head = returns (rev xs)"
proof -
  have "path h ((head # xs) @ [head])" using assms by (simp add: ring_def)
  then have "path h (head # xs)" by (rule path_prefix)
  with for_each_prev_path [of h head xs "[]"] ring_path [OF assms] ring_neighbours [of h head xs "[]"] assms
  show ?thesis by (auto simp: hms_list_for_each_prev_def link_simps ring_def)
qed

text \<open>
  A loop that may unlink, at the entries \<open>ys\<close> of \<open>zs @ ys\<close>: \<open>pos\<close> is the first of them, \<open>n\<close> the one
  behind it, read before the body ran. The lemmas take one step of it.
\<close>

definition at_entry :: "ptr \<Rightarrow> ptr list \<Rightarrow> ptr \<Rightarrow> ptr \<Rightarrow> bool" where
  "at_entry head ys pos n \<longleftrightarrow> pos = hd (ys @ [head]) \<and> (ys \<noteq> [] \<longrightarrow> n = hd (tl ys @ [head]))"

lemma at_entry_next:
  assumes "ring h head (zs @ ys)"
  shows "\<exists>n'. get_next h (hd (ys @ [head])) = Inr n' \<and> at_entry head ys (hd (ys @ [head])) n'"
proof (cases ys)
  case Nil
  with assms show ?thesis by (simp add: link_simps at_entry_def ring_def)
next
  case (Cons y ys')
  with ring_next [of h head "zs @ [y]" ys'] assms show ?thesis by (simp add: at_entry_def)
qed

lemma for_each_safe_end: "at_entry head [] pos n \<Longrightarrow> for_each_safe body head pos n s h = returns (s, h)"
  by (subst for_each_safe.simps) (simp add: at_entry_def)

lemma for_each_safe_stop:
  "at_entry head (y # ys) pos n \<Longrightarrow> y \<noteq> head \<Longrightarrow> body y s h = Inr (s', h', True) \<Longrightarrow>
   for_each_safe body head pos n s h = returns (s', h')"
  by (subst for_each_safe.simps) (simp add: at_entry_def)

lemma for_each_safe_fault:
  "at_entry head (y # ys) pos n \<Longrightarrow> y \<noteq> head \<Longrightarrow> body y s h = Inl e \<Longrightarrow>
   for_each_safe body head pos n s h = Some (Inl e)"
  by (subst for_each_safe.simps) (simp add: at_entry_def)

lemma for_each_safe_go:
  assumes "at_entry head (y # ys) pos n" "y \<noteq> head" "body y s h = Inr (s', h', False)" "ring h' head (zs @ ys)"
  shows "\<exists>n'. at_entry head ys (hd (ys @ [head])) n' \<and>
    for_each_safe body head pos n s h = for_each_safe body head (hd (ys @ [head])) n' s' h'"
proof -
  from at_entry_next [OF assms(4)] obtain n' where
    n': "get_next h' (hd (ys @ [head])) = Inr n'" "at_entry head ys (hd (ys @ [head])) n'" by blast
  with assms(1-3) have "for_each_safe body head pos n s h = for_each_safe body head (hd (ys @ [head])) n' s' h'"
    by (subst for_each_safe.simps) (simp add: at_entry_def)
  with n' show ?thesis by blast
qed

lemma for_each_safe_start:
  assumes "ring h head xs"
  shows "\<exists>n. at_entry head xs (hd (xs @ [head])) n \<and> hms_list_for_each_entry_safe body head s h =
      for_each_safe body head (hd (xs @ [head])) n s h"
  using at_entry_next [of h head "[]" xs] ring_first [OF assms] assms
  by (auto simp: hms_list_for_each_entry_safe_def)

text \<open>The body does nothing to the memory at the entries \<open>ys\<close>; \<open>st\<close> are the local variables on the way.\<close>

lemma for_each_safe_skip:
  "ring h head (zs @ ys @ us) \<Longrightarrow> at_entry head (ys @ us) pos n \<Longrightarrow>
   (\<And>j. j < length ys \<Longrightarrow> body (ys ! j) (st j) h = Inr (st (Suc j), h, False)) \<Longrightarrow>
   \<exists>n'. at_entry head us (hd (us @ [head])) n' \<and> for_each_safe body head pos n (st 0) h =
     for_each_safe body head (hd (us @ [head])) n' (st (length ys)) h"
proof (induction ys arbitrary: zs pos n st)
  case Nil
  then show ?case by (auto simp: at_entry_def)
next
  case (Cons y ys)
  have y: "y \<noteq> head" using Cons.prems(1) by (auto simp: ring_def)
  have at: "at_entry head (y # ys @ us) pos n" using Cons.prems(2) by simp
  have body: "body y (st 0) h = Inr (st (Suc 0), h, False)" using Cons.prems(3) [of 0] by simp
  have r: "ring h head ((zs @ [y]) @ ys @ us)" using Cons.prems(1) by simp
  from for_each_safe_go [where body = body, OF at y body r] obtain n1 where
    n1: "at_entry head (ys @ us) (hd ((ys @ us) @ [head])) n1"
    "for_each_safe body head pos n (st 0) h =
      for_each_safe body head (hd ((ys @ us) @ [head])) n1 (st (Suc 0)) h" by blast
  have "body (ys ! j) (st (Suc j)) h = Inr (st (Suc (Suc j)), h, False)" if "j < length ys" for j
    using Cons.prems(3) [of "Suc j"] that by simp
  from Cons.IH [of "zs @ [y]" _ _ "\<lambda>j. st (Suc j)", OF r n1(1) this] n1(2) show ?case by auto
qed

lemma for_each_safe_del:
  "ring h head ys \<Longrightarrow> at_entry head ys pos n \<Longrightarrow>
   \<exists>h'. for_each_safe del_body head pos n () h = returns ((), h') \<and> ring h' head [] \<and>
     (\<forall>e \<in> set ys. next_of h' e = 0) \<and> same_outside (set (head # ys)) h h'"
proof (induction ys arbitrary: h pos n)
  case Nil
  then show ?case by (auto simp: for_each_safe_end same_outside_def)
next
  case (Cons y ys)
  from hms_list_del_ring [of h head "[]" y ys] Cons.prems(1) obtain h1 where
    h1: "hms_list_del y h = Inr h1" "ring h1 head ys" "same_outside (set (head # y # ys)) h h1"
      "next_of h1 y = 0" by auto
  have y: "y \<noteq> head" "y \<notin> set ys" using Cons.prems(1) by (auto simp: ring_def)
  have "del_body y () h = Inr ((), h1, False)" using h1(1) by (simp add: del_body_def)
  from for_each_safe_go [where body = del_body and zs = "[]", OF Cons.prems(2) y(1) this] h1(2) obtain n' where
    n': "at_entry head ys (hd (ys @ [head])) n'"
    "for_each_safe del_body head pos n () h = for_each_safe del_body head (hd (ys @ [head])) n' () h1" by auto
  from Cons.IH [OF h1(2) n'(1)] obtain h' where
    h': "for_each_safe del_body head (hd (ys @ [head])) n' () h1 = returns ((), h')" "ring h' head []"
      "\<forall>e \<in> set ys. next_of h' e = 0" "same_outside (set (head # ys)) h1 h'" by auto
  have "next_of h' y = 0" using h'(4) h1(4) y by (auto simp: same_outside_def)
  moreover have "same_outside (set (head # y # ys)) h h'"
    using h1(3) h'(4) by (auto simp: same_outside_def)
  ultimately show ?case using h'(1-3) n'(2) by auto
qed

fun remove_first :: "('a \<Rightarrow> bool) \<Rightarrow> 'a list \<Rightarrow> 'a list" where
  "remove_first P [] = []"
| "remove_first P (x # xs) = (if P x then xs else x # remove_first P xs)"

lemma for_each_safe_del_first:
  "ring h head (zs @ ys) \<Longrightarrow> at_entry head ys pos n \<Longrightarrow>
   \<exists>h'. for_each_safe (del_first_body P) head pos n () h = returns ((), h') \<and>
     ring h' head (zs @ remove_first P ys)"
proof (induction ys arbitrary: zs pos n)
  case Nil
  then show ?case by (auto simp: for_each_safe_end)
next
  case (Cons y ys)
  have y: "y \<noteq> head" using Cons.prems(1) by (auto simp: ring_def)
  show ?case
  proof (cases "P y")
    case True
    from hms_list_del_ring [OF Cons.prems(1)] obtain h1 where
      h1: "hms_list_del y h = Inr h1" "ring h1 head (zs @ ys)" by blast
    then have "del_first_body P y () h = Inr ((), h1, True)" using True by (simp add: del_first_body_def)
    from for_each_safe_stop [where body = "del_first_body P", OF Cons.prems(2) y this] True h1(2) show ?thesis
      by simp
  next
    case False
    have "del_first_body P y () h = Inr ((), h, False)" using False by (simp add: del_first_body_def)
    from for_each_safe_go [where body = "del_first_body P" and zs = "zs @ [y]", OF Cons.prems(2) y this] Cons.prems(1) obtain n' where
      "at_entry head ys (hd (ys @ [head])) n'" "for_each_safe (del_first_body P) head pos n () h =
        for_each_safe (del_first_body P) head (hd (ys @ [head])) n' () h" by auto
    with Cons.IH [of "zs @ [y]"] Cons.prems(1) False show ?thesis by simp
  qed
qed

subsection \<open>The lists as a sequence\<close>

text \<open>In a memory whose list heads are at the addresses \<open>M\<close>.\<close>

interpretation links: sequence "\<lambda>h xs. mapped h = M \<and> ring h head xs" "\<lambda>p. p \<noteq> 0 \<and> M p \<and> p \<noteq> head"
  "\<lambda>p. hms_list_add_tail p head" hms_list_del for head :: ptr and M :: "ptr \<Rightarrow> bool"
proof unfold_locales
  fix h :: "'a heap" and xs p
  assume a: "mapped h = M \<and> ring h head xs" "p \<noteq> 0 \<and> M p \<and> p \<noteq> head" "p \<notin> set xs"
  then have "is_head h p" by (auto simp: is_head_def)
  with a show "\<exists>h'. hms_list_add_tail p head h = Inr h' \<and> mapped h' = M \<and> ring h' head (xs @ [p])"
    using hms_list_add_tail_ring [of h head xs p] by (auto simp: same_outside_def)
next
  fix h :: "'a heap" and xs p ys
  assume "mapped h = M \<and> ring h head (xs @ p # ys)"
  then show "\<exists>h'. hms_list_del p h = Inr h' \<and> mapped h' = M \<and> ring h' head (xs @ ys)"
    using hms_list_del_ring [of h head xs p ys] by (auto simp: same_outside_def)
qed

subsection \<open>The header lists of a message\<close>

text \<open>The loops of hms_msg.c, over the values of the entries.\<close>

lemma remove_first_named:
  "map val (remove_first (\<lambda>p. strcasecmp (nh_key (val p)) key = 0) ps) = del_named key (map val ps)"
  by (induction ps) auto

subsection \<open>Properties\<close>

text \<open>
  C30: The links implement a sequence: from a ring with the entries \<open>xs\<close>, any series of
  \<open>hms_list_add_tail\<close> of entries that are not in it and \<open>hms_list_del\<close> of entries that are runs without a
  access outside the list heads and leaves a ring with exactly the entries the list operations give, in order, linked both
  ways; \<open>hms_list_for_each\<close> and \<open>hms_list_for_each_prev\<close> then visit them in order and in reverse order, and
  end.
\<close>
theorem hms_list_refines_list:
  assumes "ring h head xs" "seq_spec (\<lambda>p. p \<noteq> 0 \<and> mapped h p \<and> p \<noteq> head) xs ops = Some ys"
  shows "\<exists>h'. run_seq (\<lambda>p. hms_list_add_tail p head) hms_list_del h ops = Inr h' \<and> ring h' head ys \<and>
    hms_list_for_each h' head = returns ys \<and> hms_list_for_each_prev h' head = returns (rev ys)"
  using links.run_refines [of h "mapped h" head xs ops ys] assms hms_list_for_each_ring
    hms_list_for_each_prev_ring by blast

theorem hms_list_refines_list_witness:
  "\<exists>h h'. HMS_INIT_LIST_HEAD 9 \<lparr>mapped = (\<lambda>p. True), next_of = (\<lambda>p. 0), prev_of = (\<lambda>p. 0)\<rparr> = Inr h \<and>
    run_seq (\<lambda>p. hms_list_add_tail p 9) hms_list_del h
      [Append 1, Append 2, Append 3, Remove 2, Append 4, Remove 1, Append 2] = Inr h' \<and>
    hms_list_for_each h' 9 = returns [3, 4, 2]"
proof -
  let ?h = "\<lparr>mapped = (\<lambda>p. True), next_of = (\<lambda>p. 0), prev_of = (\<lambda>p. 0)\<rparr> :: hms_list_head"
  obtain h where h: "HMS_INIT_LIST_HEAD 9 ?h = Inr h" "ring h 9 []" "mapped h = (\<lambda>p. True)"
    using init_ring [of ?h 9] by (auto simp: is_head_def same_outside_def)
  show ?thesis
    using hms_list_refines_list [where ys = "[3, 4, 2]" and ops = "[Append 1, Append 2, Append 3, Remove 2,
      Append 4, Remove 1, Append 2]", OF h(2)] h(1,3) by auto
qed

text \<open>
  The two loops hms_msg.c runs over a header list while it unlinks from it are safe and do what their
  list versions do: deleting every entry (\<open>hms_msg_destroy\<close>) ends with the empty ring and every entry
  unlinked; deleting the first entry whose key is equal up to case (\<open>hms_msg_del_named_header\<close>) ends with a
  ring whose entries hold exactly the headers \<open>del_named_loop\<close> keeps. Both loops end.
\<close>
theorem header_loops_on_links:
  assumes "ring h head ps"
  shows "(\<exists>h'. hms_list_for_each_entry_safe del_body head () h = returns ((), h') \<and> ring h' head [] \<and>
      (\<forall>p \<in> set ps. next_of h' p = 0)) \<and>
    (\<exists>h' ps'. hms_list_for_each_entry_safe (del_first_body (\<lambda>p. strcasecmp (nh_key (val p)) key = 0)) head () h
        = returns ((), h') \<and> ring h' head ps' \<and>
      map val ps' = fst (del_named_loop key num (map val ps)))"
proof
  obtain n where n: "at_entry head ps (hd (ps @ [head])) n" "hms_list_for_each_entry_safe del_body head () h =
      for_each_safe del_body head (hd (ps @ [head])) n () h"
    using for_each_safe_start [where body = del_body and s = "()", OF assms] by blast
  from for_each_safe_del [OF assms n(1)]
  show "\<exists>h'. hms_list_for_each_entry_safe del_body head () h = returns ((), h') \<and> ring h' head [] \<and>
      (\<forall>p \<in> set ps. next_of h' p = 0)" unfolding n(2) by blast
next
  let ?P = "\<lambda>p. strcasecmp (nh_key (val p)) key = 0"
  obtain n where n: "at_entry head ps (hd (ps @ [head])) n"
    "hms_list_for_each_entry_safe (del_first_body ?P) head () h =
      for_each_safe (del_first_body ?P) head (hd (ps @ [head])) n () h"
    using for_each_safe_start [where body = "del_first_body ?P" and s = "()", OF assms] by blast
  have "ring h head ([] @ ps)" using assms by simp
  from for_each_safe_del_first [OF this n(1), of ?P] show "\<exists>h' ps'. hms_list_for_each_entry_safe (del_first_body ?P) head () h = returns ((), h') \<and>
      ring h' head ps' \<and> map val ps' = fst (del_named_loop key num (map val ps))"
    unfolding n(2) using remove_first_named [of val key ps] by (simp add: del_named_loop_eq) blast
qed

text \<open>A ring with one entry.\<close>

definition ring_5_7 :: hms_list_head where
  "ring_5_7 = \<lparr>mapped = (\<lambda>p. True), next_of = (\<lambda>p. p)(5 := 7, 7 := 5), prev_of = (\<lambda>p. p)(5 := 7, 7 := 5)\<rparr>"

lemma ring_5_7: "ring ring_5_7 5 [7]" "ring ring_5_7 9 []"
  by (simp_all add: ring_def ring_5_7_def is_head_def)

theorem header_loops_on_links_witness:
  "\<exists>h'. hms_list_for_each_entry_safe del_body 5 () ring_5_7 = returns ((), h') \<and> ring h' 5 []"
  using header_loops_on_links [OF ring_5_7(1), of "\<lambda>_. \<lparr>nh_key = [], nh_val = []\<rparr>" "[]" 0, THEN conjunct1]
  by blast

text \<open>
  Moving and splicing: on two rings that share no address, \<open>hms_list_move\<close> and \<open>hms_list_move_tail\<close> take
  an entry out of one and put it first or last into the other, \<open>hms_list_splice\<close> and
  \<open>hms_list_splice_init\<close> put all entries of one in front of those of the other, the latter leaving the first
  one empty, also when it was empty to begin with.
\<close>
theorem hms_list_move_splice:
  assumes "ring h lst (xs @ e # ys)" "ring h head zs" "set (lst # xs @ e # ys) \<inter> set (head # zs) = {}"
  shows "(\<exists>h'. hms_list_move e head h = Inr h' \<and> ring h' lst (xs @ ys) \<and> ring h' head (e # zs)) \<and>
    (\<exists>h'. hms_list_move_tail e head h = Inr h' \<and> ring h' lst (xs @ ys) \<and> ring h' head (zs @ [e])) \<and>
    (\<exists>h'. hms_list_splice lst head h = Inr h' \<and> ring h' head (xs @ e # ys @ zs)) \<and>
    (\<exists>h'. hms_list_splice_init lst head h = Inr h' \<and> ring h' head (xs @ e # ys @ zs) \<and> ring h' lst []) \<and>
    (\<exists>h'. hms_list_splice_init head lst h = Inr h' \<and> ring h' lst (zs @ xs @ e # ys) \<and> ring h' head [])"
proof -
  have dis: "set (head # zs) \<inter> set (lst # xs @ e # ys) = {}" using assms(3) by blast
  show ?thesis
    using move_ring [OF assms] hms_list_splice_ring [OF assms] hms_list_splice_ring(2) [OF assms(2,1) dis]
    by simp
qed

theorem hms_list_move_splice_witness:
  "\<exists>h'. hms_list_splice_init 5 9 ring_5_7 = Inr h' \<and> ring h' 9 [7]"
proof -
  have "ring ring_5_7 5 ([] @ 7 # [])" using ring_5_7(1) by simp
  from hms_list_move_splice [OF this ring_5_7(2)] show ?thesis by auto
qed

end
