(* ===== verification/Msg_Memory.thy ===== *)
theory Msg_Memory
  imports Hms_List Hms_Msg
begin

section \<open>Messages in memory (src/src/hms/hms_msg.c)\<close>

text \<open>
  The operations on messages once more, with every pointer, allocation and \<open>free\<close>. The memory extends the
  list heads of Hms_List by the objects they are part of: headers and messages, and the character arrays they
  point to. A header is at the address of its list head; the two list heads in a message at \<open>p\<close> are at
  \<open>p + 1\<close> and \<open>p + 2\<close>. An access to an object that is not allocated, and a second \<open>free\<close>, are undefined. What
  \<open>malloc\<close>, \<open>calloc\<close> and \<open>strdup\<close> answer is a parameter, a function of the memory; 0 is their failure.
\<close>

record mem_uheader =
  uhp_val :: ptr

record mem_nheader =
  nhp_key :: ptr
  nhp_val :: ptr

record mem_msg =
  mm_id :: ptr
  mm_verb :: ptr
  mm_num_headers :: int
  mm_num_named_headers :: int
  mm_content_len :: int
  mm_content :: ptr

record msg_memory = hms_list_head +
  chars :: "ptr \<rightharpoonup> char list"
  uheaders :: "ptr \<rightharpoonup> mem_uheader"
  nheaders :: "ptr \<rightharpoonup> mem_nheader"
  msgs :: "ptr \<rightharpoonup> mem_msg"

abbreviation headers_lh :: "ptr \<Rightarrow> ptr" where "headers_lh p \<equiv> p + 1"

abbreviation named_headers_lh :: "ptr \<Rightarrow> ptr" where "named_headers_lh p \<equiv> p + 2"

record allocator =
  new_chars :: "msg_memory \<Rightarrow> ptr"
  new_uheader :: "msg_memory \<Rightarrow> ptr"
  new_nheader :: "msg_memory \<Rightarrow> ptr"
  new_msg :: "msg_memory \<Rightarrow> ptr"

subsection \<open>Objects\<close>

definition object :: "(ptr \<rightharpoonup> 'a) \<Rightarrow> ptr \<Rightarrow> 'a res" where
  "object f p =
     (if p = 0 then Inl Undefined else case f p of None \<Rightarrow> Inl Undefined | Some x \<Rightarrow> Inr x)"

definition set_msg :: "ptr \<Rightarrow> (mem_msg \<Rightarrow> mem_msg) \<Rightarrow> msg_memory \<Rightarrow> msg_memory res" where
  "set_msg p f m = bind_res (object (msgs m) p) (\<lambda>mm. Inr (m\<lparr>msgs := (msgs m)(p \<mapsto> f mm)\<rparr>))"

text \<open>
  A \<open>char *\<close> argument: a literal or an array of the caller's stack, an address, or a pointer into an array.
  \<open>deref_arg\<close> is the string or the bytes there; an array that was allocated for a string holds just the
  string, in any other the string ends at a NUL.
\<close>

datatype char_arg = Lit "char list" | At ptr | Inside ptr nat

definition deref_arg :: "msg_memory \<Rightarrow> char_arg \<Rightarrow> char list res" where
  "deref_arg m a =
     (case a of
        Lit s \<Rightarrow> Inr s
      | At p \<Rightarrow> object (chars m) p
      | Inside p i \<Rightarrow> bind_res (object (chars m) p) (\<lambda>b. cstr_at b i))"

definition assert_ptr :: "ptr \<Rightarrow> unit res" where
  "assert_ptr p = (if p = 0 then Inl AssertExit else Inr ())"

definition assert_arg :: "char_arg \<Rightarrow> unit res" where
  "assert_arg a = (case a of Lit s \<Rightarrow> Inr () | At p \<Rightarrow> assert_ptr p | Inside p i \<Rightarrow> assert_ptr p)"

text \<open>A new array with its contents (\<open>strdup\<close>, or \<open>malloc\<close> and \<open>memcpy\<close>); \<open>free\<close>.\<close>

definition put_chars :: "allocator \<Rightarrow> char list \<Rightarrow> msg_memory \<Rightarrow> ptr \<times> msg_memory" where
  "put_chars A s m =
     (let p = new_chars A m in
      if p = 0 then (0, m) else (p, m\<lparr>chars := (chars m)(p \<mapsto> s)\<rparr>))"

definition strdup :: "allocator \<Rightarrow> char_arg \<Rightarrow> msg_memory \<Rightarrow> (ptr \<times> msg_memory) res" where
  "strdup A a m = bind_res (deref_arg m a) (\<lambda>s. Inr (put_chars A s m))"

definition free_chars :: "ptr \<Rightarrow> msg_memory \<Rightarrow> msg_memory res" where
  "free_chars p m =
     (if p = 0 then Inr m
      else bind_res (object (chars m) p) (\<lambda>_. Inr (m\<lparr>chars := (chars m)(p := None)\<rparr>)))"

subsection \<open>Headers\<close>

text \<open>\<open>calloc\<close> of a header, with its list head; \<open>free\<close>.\<close>

definition calloc_uheader :: "allocator \<Rightarrow> msg_memory \<Rightarrow> ptr \<times> msg_memory" where
  "calloc_uheader A m =
     (let q = new_uheader A m in
      if q = 0 then (0, m)
      else (q, m\<lparr>mapped := (mapped m)(q := True), next_of := (next_of m)(q := 0),
        prev_of := (prev_of m)(q := 0), uheaders := (uheaders m)(q \<mapsto> \<lparr>uhp_val = 0\<rparr>)\<rparr>))"

definition free_uheader :: "ptr \<Rightarrow> msg_memory \<Rightarrow> msg_memory res" where
  "free_uheader q m =
     bind_res (object (uheaders m) q) (\<lambda>_.
     Inr (m\<lparr>mapped := (mapped m)(q := False), uheaders := (uheaders m)(q := None)\<rparr>))"

definition mem_init_header :: "allocator \<Rightarrow> ptr \<Rightarrow> char_arg \<Rightarrow> msg_memory \<Rightarrow> msg_memory res" where
  "mem_init_header A hdr value m =
     bind_res (assert_ptr hdr) (\<lambda>_.
     bind_res (assert_arg value) (\<lambda>_.
     bind_res (strdup A value m) (\<lambda>(v, m).
     bind_res (object (uheaders m) hdr) (\<lambda>u.
     let m = m\<lparr>uheaders := (uheaders m)(hdr \<mapsto> u\<lparr>uhp_val := v\<rparr>)\<rparr> in
     HMS_INIT_LIST_HEAD hdr m))))"

definition mem_create_header :: "allocator \<Rightarrow> char_arg \<Rightarrow> msg_memory \<Rightarrow> (ptr \<times> msg_memory) res" where
  "mem_create_header A value m =
     bind_res (assert_arg value) (\<lambda>_.
     let (hdr, m) = calloc_uheader A m in
     bind_res (assert_ptr hdr) (\<lambda>_.
     bind_res (mem_init_header A hdr value m) (\<lambda>m. Inr (hdr, m))))"

definition mem_deinit_header :: "ptr \<Rightarrow> msg_memory \<Rightarrow> msg_memory res" where
  "mem_deinit_header hdr m =
     bind_res (assert_ptr hdr) (\<lambda>_.
     bind_res (object (uheaders m) hdr) (\<lambda>u.
     bind_res (assert_ptr (uhp_val u)) (\<lambda>_.
     free_chars (uhp_val u) m)))"

definition mem_destroy_header :: "ptr \<Rightarrow> msg_memory \<Rightarrow> msg_memory res" where
  "mem_destroy_header hdr m =
     bind_res (assert_ptr hdr) (\<lambda>_.
     bind_res (object (uheaders m) hdr) (\<lambda>u.
     bind_res (assert_ptr (uhp_val u)) (\<lambda>_.
     bind_res (mem_deinit_header hdr m) (free_uheader hdr))))"

definition calloc_nheader :: "allocator \<Rightarrow> msg_memory \<Rightarrow> ptr \<times> msg_memory" where
  "calloc_nheader A m =
     (let q = new_nheader A m in
      if q = 0 then (0, m)
      else (q, m\<lparr>mapped := (mapped m)(q := True), next_of := (next_of m)(q := 0),
        prev_of := (prev_of m)(q := 0), nheaders := (nheaders m)(q \<mapsto> \<lparr>nhp_key = 0, nhp_val = 0\<rparr>)\<rparr>))"

definition free_nheader :: "ptr \<Rightarrow> msg_memory \<Rightarrow> msg_memory res" where
  "free_nheader q m =
     bind_res (object (nheaders m) q) (\<lambda>_.
     Inr (m\<lparr>mapped := (mapped m)(q := False), nheaders := (nheaders m)(q := None)\<rparr>))"

definition mem_init_named_header ::
    "allocator \<Rightarrow> ptr \<Rightarrow> char_arg \<Rightarrow> char_arg \<Rightarrow> msg_memory \<Rightarrow> msg_memory res" where
  "mem_init_named_header A hdr key value m =
     bind_res (assert_ptr hdr) (\<lambda>_.
     bind_res (assert_arg key) (\<lambda>_.
     bind_res (assert_arg value) (\<lambda>_.
     bind_res (strdup A key m) (\<lambda>(k, m).
     bind_res (object (nheaders m) hdr) (\<lambda>n.
     let m = m\<lparr>nheaders := (nheaders m)(hdr \<mapsto> n\<lparr>nhp_key := k\<rparr>)\<rparr> in
     bind_res (strdup A value m) (\<lambda>(v, m).
     bind_res (object (nheaders m) hdr) (\<lambda>n.
     let m = m\<lparr>nheaders := (nheaders m)(hdr \<mapsto> n\<lparr>nhp_val := v\<rparr>)\<rparr> in
     bind_res (HMS_INIT_LIST_HEAD hdr m) (\<lambda>m.
     bind_res (assert_ptr k) (\<lambda>_.
     bind_res (assert_ptr v) (\<lambda>_. Inr m))))))))))"

definition mem_create_named_header ::
    "allocator \<Rightarrow> char_arg \<Rightarrow> char_arg \<Rightarrow> msg_memory \<Rightarrow> (ptr \<times> msg_memory) res" where
  "mem_create_named_header A key value m =
     bind_res (assert_arg key) (\<lambda>_.
     bind_res (assert_arg value) (\<lambda>_.
     let (hdr, m) = calloc_nheader A m in
     bind_res (assert_ptr hdr) (\<lambda>_.
     bind_res (mem_init_named_header A hdr key value m) (\<lambda>m. Inr (hdr, m)))))"

definition mem_deinit_named_header :: "ptr \<Rightarrow> msg_memory \<Rightarrow> msg_memory res" where
  "mem_deinit_named_header hdr m =
     bind_res (assert_ptr hdr) (\<lambda>_.
     bind_res (object (nheaders m) hdr) (\<lambda>n.
     bind_res (assert_ptr (nhp_key n)) (\<lambda>_.
     bind_res (assert_ptr (nhp_val n)) (\<lambda>_.
     bind_res (free_chars (nhp_key n) m) (free_chars (nhp_val n))))))"

definition mem_destroy_named_header :: "ptr \<Rightarrow> msg_memory \<Rightarrow> msg_memory res" where
  "mem_destroy_named_header hdr m =
     bind_res (assert_ptr hdr) (\<lambda>_.
     bind_res (object (nheaders m) hdr) (\<lambda>n.
     bind_res (assert_ptr (nhp_key n)) (\<lambda>_.
     bind_res (assert_ptr (nhp_val n)) (\<lambda>_.
     bind_res (mem_deinit_named_header hdr m) (free_nheader hdr)))))"

subsection \<open>The message as a whole\<close>

definition mem_msg_create :: "allocator \<Rightarrow> msg_memory \<Rightarrow> (ptr \<times> msg_memory) res" where
  "mem_msg_create A m =
     (let p = new_msg A m in
      bind_res (assert_ptr p) (\<lambda>_.
      let m = m\<lparr>mapped := (mapped m)(headers_lh p := True, named_headers_lh p := True),
        next_of := (next_of m)(headers_lh p := 0, named_headers_lh p := 0),
        prev_of := (prev_of m)(headers_lh p := 0, named_headers_lh p := 0),
        msgs := (msgs m)(p \<mapsto> \<lparr>mm_id = 0, mm_verb = 0, mm_num_headers = 0, mm_num_named_headers = 0,
          mm_content_len = 0, mm_content = 0\<rparr>)\<rparr> in
      bind_res (HMS_INIT_LIST_HEAD (headers_lh p) m) (\<lambda>m.
      bind_res (HMS_INIT_LIST_HEAD (named_headers_lh p) m) (\<lambda>m.
      bind_res (set_msg p (\<lambda>mm. mm\<lparr>mm_num_headers := 0, mm_num_named_headers := 0,
        mm_content := 0, mm_content_len := 0\<rparr>) m) (\<lambda>m.
      Inr (p, m))))))"

definition free_msg :: "ptr \<Rightarrow> msg_memory \<Rightarrow> msg_memory res" where
  "free_msg p m =
     bind_res (object (msgs m) p) (\<lambda>_.
     Inr (m\<lparr>mapped := (mapped m)(headers_lh p := False, named_headers_lh p := False),
       msgs := (msgs m)(p := None)\<rparr>))"

text \<open>The bodies of the two loops of \<open>hms_msg_destroy\<close>.\<close>

definition destroy_header_body ::
    "ptr \<Rightarrow> ptr \<Rightarrow> unit \<Rightarrow> msg_memory \<Rightarrow> (unit \<times> msg_memory \<times> bool) res" where
  "destroy_header_body p hdr s m =
     bind_res (hms_list_del hdr m) (\<lambda>m.
     bind_res (mem_destroy_header hdr m) (\<lambda>m.
     bind_res (set_msg p (\<lambda>mm. mm\<lparr>mm_num_headers := mm_num_headers mm - 1\<rparr>) m) (\<lambda>m.
     Inr ((), m, False))))"

definition destroy_named_body ::
    "ptr \<Rightarrow> ptr \<Rightarrow> unit \<Rightarrow> msg_memory \<Rightarrow> (unit \<times> msg_memory \<times> bool) res" where
  "destroy_named_body p hdr s m =
     bind_res (hms_list_del hdr m) (\<lambda>m.
     bind_res (mem_destroy_named_header hdr m) (\<lambda>m.
     bind_res (set_msg p (\<lambda>mm. mm\<lparr>mm_num_named_headers := mm_num_named_headers mm - 1\<rparr>) m) (\<lambda>m.
     Inr ((), m, False))))"

definition mem_msg_destroy :: "ptr \<Rightarrow> msg_memory \<Rightarrow> (int \<times> msg_memory) run" where
  "mem_msg_destroy p m =
     bind_run (Some (assert_ptr p)) (\<lambda>_.
     bind_run (Some (object (msgs m) p)) (\<lambda>mm.
     bind_run (Some (if mm_content mm \<noteq> 0 then
         bind_res (free_chars (mm_content mm) m) (set_msg p (\<lambda>mm. mm\<lparr>mm_content := 0, mm_content_len := 0\<rparr>))
       else Inr m)) (\<lambda>m.
     bind_run (Some (if mm_verb mm \<noteq> 0 then
         bind_res (free_chars (mm_verb mm) m) (set_msg p (\<lambda>mm. mm\<lparr>mm_verb := 0\<rparr>))
       else Inr m)) (\<lambda>m.
     bind_run (hms_list_for_each_entry_safe (destroy_header_body p) (headers_lh p) () m) (\<lambda>(_, m).
     bind_run (Some (object (msgs m) p)) (\<lambda>mm.
     bind_run (Some (hms_assert_equals 0 (mm_num_headers mm))) (\<lambda>_.
     bind_run (hms_list_for_each_entry_safe (destroy_named_body p) (named_headers_lh p) () m) (\<lambda>(_, m).
     bind_run (Some (object (msgs m) p)) (\<lambda>mm.
     bind_run (Some (hms_assert_equals 0 (mm_num_named_headers mm))) (\<lambda>_.
     bind_run (Some (free_msg p m)) (\<lambda>m. returns (0, m))))))))))))"

subsection \<open>Verb\<close>

definition mem_msg_set_verb :: "allocator \<Rightarrow> ptr \<Rightarrow> char_arg \<Rightarrow> msg_memory \<Rightarrow> (int \<times> msg_memory) res" where
  "mem_msg_set_verb A p v m =
     bind_res (assert_ptr p) (\<lambda>_.
     bind_res (assert_arg v) (\<lambda>_.
     bind_res (object (msgs m) p) (\<lambda>mm.
     bind_res (if mm_verb mm \<noteq> 0 then
         bind_res (free_chars (mm_verb mm) m) (set_msg p (\<lambda>mm. mm\<lparr>mm_verb := 0\<rparr>))
       else Inr m) (\<lambda>m.
     bind_res (object (msgs m) p) (\<lambda>mm.
     bind_res (if mm_verb mm = 0 then Inr () else Inl AssertExit) (\<lambda>_.
     bind_res (strdup A v m) (\<lambda>(q, m).
     bind_res (set_msg p (\<lambda>mm. mm\<lparr>mm_verb := q\<rparr>) m) (\<lambda>m.
     bind_res (assert_ptr q) (\<lambda>_. Inr (0, m))))))))))"

text \<open>Where a function answers through a \<open>char **\<close>, the pointer is the first component.\<close>

definition mem_msg_get_verb :: "allocator \<Rightarrow> ptr \<Rightarrow> msg_memory \<Rightarrow> (ptr \<times> int \<times> msg_memory) res" where
  "mem_msg_get_verb A p m =
     bind_res (assert_ptr p) (\<lambda>_.
     bind_res (object (msgs m) p) (\<lambda>mm.
     if mm_verb mm = 0 then Inr (0, -1, m)
     else bind_res (strdup A (At (mm_verb mm)) m) (\<lambda>(q, m). Inr (q, 0, m))))"

subsection \<open>Unnamed headers\<close>

definition mem_msg_add_header :: "allocator \<Rightarrow> ptr \<Rightarrow> char_arg \<Rightarrow> msg_memory \<Rightarrow> (int \<times> msg_memory) res" where
  "mem_msg_add_header A p value m =
     bind_res (assert_ptr p) (\<lambda>_.
     bind_res (assert_arg value) (\<lambda>_.
     bind_res (mem_create_header A value m) (\<lambda>(hdr, m).
     bind_res (hms_list_add_tail hdr (headers_lh p) m) (\<lambda>m.
     bind_res (object (msgs m) p) (\<lambda>mm.
     bind_res (int_add (mm_num_headers mm) 1) (\<lambda>num.
     bind_res (set_msg p (\<lambda>mm. mm\<lparr>mm_num_headers := num\<rparr>) m) (\<lambda>m.
     Inr (0, m))))))))"

definition mem_msg_get_header ::
    "allocator \<Rightarrow> ptr \<Rightarrow> int \<Rightarrow> msg_memory \<Rightarrow> (ptr \<times> int \<times> msg_memory) run" where
  "mem_msg_get_header A p index m =
     bind_run (Some (assert_ptr p)) (\<lambda>_.
     bind_run (Some (object (msgs m) p)) (\<lambda>mm.
     if mm_num_headers mm \<le> 0 \<or> index < 0 \<or> index \<ge> mm_num_headers mm then returns (0, -1, m)
     else
       bind_run (hms_list_for_each_entry (\<lambda>hdr i. Inr (i + 1, i = index)) m (headers_lh p) 0) (\<lambda>(_, hdr).
       bind_run (Some (object (uheaders m) hdr)) (\<lambda>u.
       bind_run (Some (strdup A (At (uhp_val u)) m)) (\<lambda>(q, m). returns (q, 0, m))))))"

definition del_header_body ::
    "ptr \<Rightarrow> int \<Rightarrow> ptr \<Rightarrow> int \<Rightarrow> msg_memory \<Rightarrow> (int \<times> msg_memory \<times> bool) res" where
  "del_header_body p index hdr i m =
     (if i = index then
        bind_res (hms_list_del hdr m) (\<lambda>m.
        bind_res (mem_destroy_header hdr m) (\<lambda>m.
        bind_res (set_msg p (\<lambda>mm. mm\<lparr>mm_num_headers := mm_num_headers mm - 1\<rparr>) m) (\<lambda>m.
        Inr (i + 1, m, True))))
      else Inr (i + 1, m, False))"

definition mem_msg_del_header :: "ptr \<Rightarrow> int \<Rightarrow> msg_memory \<Rightarrow> (int \<times> msg_memory) run" where
  "mem_msg_del_header p index m =
     bind_run (Some (assert_ptr p)) (\<lambda>_.
     bind_run (Some (object (msgs m) p)) (\<lambda>mm.
     if mm_num_headers mm \<le> 0 \<or> index < 0 \<or> index \<ge> mm_num_headers mm then returns (-1, m)
     else bind_run (hms_list_for_each_entry_safe (del_header_body p index) (headers_lh p) 0 m) (\<lambda>(_, m).
       returns (0, m))))"

definition mem_msg_num_headers :: "ptr \<Rightarrow> msg_memory \<Rightarrow> int res" where
  "mem_msg_num_headers p m =
     bind_res (assert_ptr p) (\<lambda>_. bind_res (object (msgs m) p) (\<lambda>mm. Inr (mm_num_headers mm)))"

subsection \<open>Named headers\<close>

text \<open>\<open>strcasecmp (hdr->key, key) == 0\<close>.\<close>

definition key_matches :: "msg_memory \<Rightarrow> char_arg \<Rightarrow> ptr \<Rightarrow> bool res" where
  "key_matches m key hdr =
     bind_res (object (nheaders m) hdr) (\<lambda>n.
     bind_res (deref_arg m (At (nhp_key n))) (\<lambda>k.
     bind_res (deref_arg m key) (\<lambda>k'. Inr (strcasecmp k k' = 0))))"

definition del_named_body ::
    "ptr \<Rightarrow> char_arg \<Rightarrow> ptr \<Rightarrow> unit \<Rightarrow> msg_memory \<Rightarrow> (unit \<times> msg_memory \<times> bool) res" where
  "del_named_body p key hdr s m =
     bind_res (key_matches m key hdr) (\<lambda>matches.
     if matches then
       bind_res (hms_list_del hdr m) (\<lambda>m.
       bind_res (mem_destroy_named_header hdr m) (\<lambda>m.
       bind_res (set_msg p (\<lambda>mm. mm\<lparr>mm_num_named_headers := mm_num_named_headers mm - 1\<rparr>) m) (\<lambda>m.
       Inr ((), m, True))))
     else Inr ((), m, False))"

definition mem_msg_del_named_header :: "ptr \<Rightarrow> char_arg \<Rightarrow> msg_memory \<Rightarrow> (int \<times> msg_memory) run" where
  "mem_msg_del_named_header p key m =
     bind_run (Some (assert_ptr p)) (\<lambda>_.
     bind_run (Some (assert_arg key)) (\<lambda>_.
     bind_run (hms_list_for_each_entry_safe (del_named_body p key) (named_headers_lh p) () m) (\<lambda>(_, m).
     returns (0, m))))"

definition mem_msg_add_named_header ::
    "allocator \<Rightarrow> ptr \<Rightarrow> char_arg \<Rightarrow> char_arg \<Rightarrow> msg_memory \<Rightarrow> (int \<times> msg_memory) run" where
  "mem_msg_add_named_header A p key value m =
     bind_run (Some (assert_ptr p)) (\<lambda>_.
     bind_run (Some (assert_arg key)) (\<lambda>_.
     bind_run (Some (assert_arg value)) (\<lambda>_.
     bind_run (mem_msg_del_named_header p key m) (\<lambda>(_, m).
     bind_run (Some (mem_create_named_header A key value m)) (\<lambda>(hdr, m).
     bind_run (Some (assert_ptr hdr)) (\<lambda>_.
     bind_run (Some (hms_list_add_tail hdr (named_headers_lh p) m)) (\<lambda>m.
     bind_run (Some (object (msgs m) p)) (\<lambda>mm.
     bind_run (Some (int_add (mm_num_named_headers mm) 1)) (\<lambda>num.
     bind_run (Some (set_msg p (\<lambda>mm. mm\<lparr>mm_num_named_headers := num\<rparr>) m)) (\<lambda>m.
     returns (0, m)))))))))))"

definition mem_msg_get_named_header ::
    "allocator \<Rightarrow> ptr \<Rightarrow> char_arg \<Rightarrow> msg_memory \<Rightarrow> (ptr \<times> int \<times> msg_memory) run" where
  "mem_msg_get_named_header A p key m =
     bind_run (Some (assert_ptr p)) (\<lambda>_.
     bind_run (Some (assert_arg key)) (\<lambda>_.
     bind_run (hms_list_for_each_entry
       (\<lambda>hdr found. bind_res (key_matches m key hdr) (\<lambda>matches. Inr (if matches then (True, True) else (found, False))))
       m (named_headers_lh p) False) (\<lambda>(found, hdr).
     if found \<and> hdr \<noteq> 0 then
       bind_run (Some (object (nheaders m) hdr)) (\<lambda>n.
       bind_run (Some (strdup A (At (nhp_val n)) m)) (\<lambda>(q, m). returns (q, 0, m)))
     else returns (0, -1, m))))"

definition mem_msg_num_named_headers :: "ptr \<Rightarrow> msg_memory \<Rightarrow> int res" where
  "mem_msg_num_named_headers p m =
     bind_res (assert_ptr p) (\<lambda>_. bind_res (object (msgs m) p) (\<lambda>mm. Inr (mm_num_named_headers mm)))"

subsection \<open>Content\<close>

text \<open>
  \<open>content_len = atoi (value); free (value)\<close>, and the check that it is the stored length.
\<close>

definition check_length :: "ptr \<Rightarrow> ptr \<Rightarrow> msg_memory \<Rightarrow> msg_memory res" where
  "check_length p value m =
     bind_res (deref_arg m (At value)) (\<lambda>v.
     bind_res (free_chars value m) (\<lambda>m.
     bind_res (object (msgs m) p) (\<lambda>mm.
     bind_res (hms_assert_equals (mm_content_len mm) (atoi v)) (\<lambda>_. Inr m))))"

definition mem_msg_get_body_size :: "allocator \<Rightarrow> ptr \<Rightarrow> msg_memory \<Rightarrow> (int \<times> msg_memory) run" where
  "mem_msg_get_body_size A p m =
     bind_run (Some (assert_ptr p)) (\<lambda>_.
     bind_run (mem_msg_get_named_header A p (Lit HMS_CONTENT_LENGTH) m) (\<lambda>(value, ret, m).
     if 0 = ret then
       bind_run (Some (check_length p value m)) (\<lambda>m.
       bind_run (Some (object (msgs m) p)) (\<lambda>mm. returns (mm_content_len mm, m)))
     else
       bind_run (Some (object (msgs m) p)) (\<lambda>mm.
       bind_run (Some (hms_assert_equals 0 (mm_content_len mm))) (\<lambda>_. returns (0, m)))))"

text \<open>The answers: the data, its length, the result.\<close>

definition mem_msg_get_body ::
    "allocator \<Rightarrow> ptr \<Rightarrow> msg_memory \<Rightarrow> (ptr \<times> int \<times> int \<times> msg_memory) run" where
  "mem_msg_get_body A p m =
     bind_run (Some (assert_ptr p)) (\<lambda>_.
     bind_run (Some (object (msgs m) p)) (\<lambda>mm.
     if mm_content mm \<noteq> 0 then
       bind_run (mem_msg_get_named_header A p (Lit HMS_CONTENT_LENGTH) m) (\<lambda>(value, ret, m).
       bind_run (Some (hms_assert_equals 0 ret)) (\<lambda>_.
       bind_run (Some (check_length p value m)) (\<lambda>m.
       bind_run (Some (object (chars m) (mm_content mm))) (\<lambda>c.
       bind_run (Some (copy_out c (mm_content_len mm))) (\<lambda>data.
       let (q, m) = put_chars A data m in
       bind_run (Some (assert_ptr q)) (\<lambda>_. returns (q, mm_content_len mm, 0, m)))))))
     else returns (0, 0, 0, m)))"

definition mem_msg_del_body :: "allocator \<Rightarrow> ptr \<Rightarrow> msg_memory \<Rightarrow> (int \<times> msg_memory) run" where
  "mem_msg_del_body A p m =
     bind_run (Some (assert_ptr p)) (\<lambda>_.
     bind_run (Some (object (msgs m) p)) (\<lambda>mm.
     if mm_content mm \<noteq> 0 then
       bind_run (Some (free_chars (mm_content mm) m)) (\<lambda>m.
       bind_run (mem_msg_get_named_header A p (Lit HMS_CONTENT_LENGTH) m) (\<lambda>(value, ret, m).
       bind_run (Some (hms_assert_equals 0 ret)) (\<lambda>_.
       bind_run (Some (check_length p value m)) (\<lambda>m.
       bind_run (mem_msg_del_named_header p (Lit HMS_CONTENT_LENGTH) m) (\<lambda>(ret, m).
       bind_run (Some (hms_assert_equals 0 ret)) (\<lambda>_.
       bind_run (mem_msg_del_named_header p (Lit HMS_CONTENT_CHECKSUM) m) (\<lambda>(ret, m).
       bind_run (Some (hms_assert_equals 0 ret)) (\<lambda>_.
       bind_run (Some (set_msg p (\<lambda>mm. mm\<lparr>mm_content := 0, mm_content_len := 0\<rparr>) m)) (\<lambda>m.
       returns (0, m))))))))))
     else returns (0, m)))"

text \<open>The array \<open>value\<close> and the two arrays of the checksum are on the stack.\<close>

definition mem_msg_set_body ::
    "bool \<Rightarrow> allocator \<Rightarrow> ptr \<Rightarrow> char_arg \<Rightarrow> int \<Rightarrow> msg_memory \<Rightarrow> (int \<times> msg_memory) run" where
  "mem_msg_set_body ck A p data len m =
     bind_run (Some (assert_ptr p)) (\<lambda>_.
     bind_run (Some (assert_arg data)) (\<lambda>_.
     bind_run (Some (hms_assert_not_equals 0 len)) (\<lambda>_.
     bind_run (mem_msg_del_body A p m) (\<lambda>(_, m).
     bind_run (Some (object (msgs m) p)) (\<lambda>mm.
     bind_run (Some (if mm_content mm = 0 then Inr () else Inl AssertExit)) (\<lambda>_.
     bind_run (Some (hms_assert_equals 0 (mm_content_len mm))) (\<lambda>_.
     bind_run (Some (if len < 0 then Inl AssertExit else deref_arg m data)) (\<lambda>d.
     bind_run (Some (copy_out d len)) (\<lambda>c.
     let (q, m) = put_chars A c m in
     bind_run (Some (set_msg p (\<lambda>mm. mm\<lparr>mm_content := q\<rparr>) m)) (\<lambda>m.
     bind_run (Some (assert_ptr q)) (\<lambda>_.
     bind_run (Some (set_msg p (\<lambda>mm. mm\<lparr>mm_content_len := len\<rparr>) m)) (\<lambda>m.
     bind_run (mem_msg_add_named_header A p (Lit HMS_CONTENT_LENGTH) (Lit (sprintf_d len)) m) (\<lambda>(ret, m).
     bind_run (Some (hms_assert_equals 0 ret)) (\<lambda>_.
     if ck then
       bind_run (Some (checksum_string c len)) (\<lambda>s.
       bind_run (mem_msg_add_named_header A p (Lit HMS_CONTENT_CHECKSUM) (Lit s) m) (\<lambda>(ret, m).
       bind_run (Some (hms_assert_equals 0 ret)) (\<lambda>_. returns (0, m))))
     else returns (0, m)))))))))))))))"

end
