(* ===== verification/Msg_Layout.thy ===== *)
theory Msg_Layout
  imports Msg_Memory Hms_List_Correct "HOL-Library.Multiset"
begin

section \<open>Layout of a message in memory\<close>

text \<open>
  \<open>holds f xs\<close>: a map \<open>f\<close> of objects has the objects \<open>xs\<close> at their addresses; \<open>outside f xs\<close> is what else
  it has. A \<open>layout\<close> is a message with the addresses of its parts; \<open>l_dead\<close> is what its content pointer is when
  there is no content: 0, except while \<open>hms_msg_del_body\<close> runs. \<open>in_memory m p L\<close>: the memory \<open>m\<close> has a
  message with the layout \<open>L\<close> at \<open>p\<close>; \<open>rest m p L\<close> is the memory without it, and \<open>msg_of L\<close> the message of
  Hms_Msg it is.
\<close>

subsection \<open>Objects\<close>

definition holds :: "(ptr \<rightharpoonup> 'a) \<Rightarrow> (ptr \<times> 'a) list \<Rightarrow> bool" where
  "holds f xs \<longleftrightarrow> distinct (map fst xs) \<and> (\<forall>(a, x) \<in> set xs. a \<noteq> 0 \<and> f a = Some x)"

definition outside :: "(ptr \<rightharpoonup> 'a) \<Rightarrow> (ptr \<times> 'a) list \<Rightarrow> (ptr \<rightharpoonup> 'a)" where
  "outside f xs = f |` (- fst ` set xs)"

lemma holds_mset:
  assumes "mset xs = mset ys"
  shows "holds f xs = holds f ys" "outside f xs = outside f ys"
proof -
  have "set xs = set ys" using assms by (metis set_mset_mset)
  moreover have "distinct (map fst xs) = distinct (map fst ys)"
    using assms by (metis mset_map distinct_count_atmost_1 set_map \<open>set xs = set ys\<close>)
  ultimately show "holds f xs = holds f ys" "outside f xs = outside f ys"
    by (simp_all add: holds_def outside_def)
qed

lemma holds_object: "holds f ((a, x) # xs) \<Longrightarrow> a \<noteq> 0 \<and> f a = Some x \<and> object f a = Inr x"
  by (simp add: holds_def object_def)

lemma holds_put:
  "holds f xs \<Longrightarrow> f a = None \<Longrightarrow> a \<noteq> 0 \<Longrightarrow>
   holds (f(a \<mapsto> x)) ((a, x) # xs) \<and> outside (f(a \<mapsto> x)) ((a, x) # xs) = outside f xs"
  by (force simp: holds_def outside_def restrict_map_def)

lemma holds_free:
  "holds f ((a, x) # xs) \<Longrightarrow>
   holds (f(a := None)) xs \<and> outside (f(a := None)) xs = outside f ((a, x) # xs)"
  by (force simp: holds_def outside_def restrict_map_def)

lemma holds_set:
  "holds f ((a, x) # xs) \<Longrightarrow>
   holds (f(a \<mapsto> y)) ((a, y) # xs) \<and> outside (f(a \<mapsto> y)) ((a, y) # xs) = outside f ((a, x) # xs)"
  by (force simp: holds_def outside_def restrict_map_def)

lemma holds_frame: "holds f xs \<Longrightarrow> f a = None \<Longrightarrow> holds (f(a \<mapsto> x)) xs"
  by (force simp: holds_def)

lemma outside_Nil [simp]: "outside f [] = f"
  by (simp add: outside_def restrict_map_def)

lemma dom_outside: "dom f \<subseteq> dom (outside f xs) \<union> fst ` set xs"
  by (auto simp: outside_def restrict_map_def dom_def)

subsection \<open>Layouts\<close>

record layout =
  l_verb :: "(ptr \<times> string) option"
  l_us :: "(ptr \<times> ptr \<times> string) list"
  l_ns :: "(ptr \<times> (ptr \<times> string) \<times> (ptr \<times> string)) list"
  l_len :: int
  l_content :: "(ptr \<times> char list) option"
  l_dead :: ptr

definition some_list :: "'a option \<Rightarrow> 'a list" where
  "some_list x = (case x of None \<Rightarrow> [] | Some y \<Rightarrow> [y])"

lemma some_list_simps [simp]: "some_list None = []" "some_list (Some x) = [x]"
  by (simp_all add: some_list_def)

text \<open>The character arrays, headers and list heads of a message.\<close>

definition l_chars :: "layout \<Rightarrow> (ptr \<times> char list) list" where
  "l_chars L = some_list (l_verb L) @ some_list (l_content L) @ map snd (l_us L) @
     concat (map (\<lambda>(q, k, v). [k, v]) (l_ns L))"

definition u_objects :: "(ptr \<times> ptr \<times> string) list \<Rightarrow> (ptr \<times> mem_uheader) list" where
  "u_objects us = map (\<lambda>(q, v, s). (q, \<lparr>uhp_val = v\<rparr>)) us"

definition n_objects :: "(ptr \<times> (ptr \<times> string) \<times> (ptr \<times> string)) list \<Rightarrow> (ptr \<times> mem_nheader) list" where
  "n_objects ns = map (\<lambda>(q, k, v). (q, \<lparr>nhp_key = fst k, nhp_val = fst v\<rparr>)) ns"

definition ptr_of :: "(ptr \<times> 'a) option \<Rightarrow> ptr" where
  "ptr_of x = (case x of None \<Rightarrow> 0 | Some (a, y) \<Rightarrow> a)"

lemma ptr_of_simps [simp]: "ptr_of None = 0" "ptr_of (Some x) = fst x"
  by (simp_all add: ptr_of_def split: prod.split)

definition struct_of :: "layout \<Rightarrow> mem_msg" where
  "struct_of L = \<lparr>mm_id = 0, mm_verb = ptr_of (l_verb L), mm_num_headers = int (length (l_us L)),
     mm_num_named_headers = int (length (l_ns L)), mm_content_len = l_len L,
     mm_content = (if l_content L = None then l_dead L else ptr_of (l_content L))\<rparr>"

definition uheader_of :: "ptr \<times> ptr \<times> string \<Rightarrow> hms_msg_uheader" where
  "uheader_of u = \<lparr>uh_val = snd (snd u)\<rparr>"

definition nheader_of :: "ptr \<times> (ptr \<times> string) \<times> (ptr \<times> string) \<Rightarrow> hms_msg_nheader" where
  "nheader_of n = \<lparr>nh_key = snd (fst (snd n)), nh_val = snd (snd (snd n))\<rparr>"

definition msg_of :: "layout \<Rightarrow> hms_msg" where
  "msg_of L = \<lparr>msg_id = None, verb = map_option snd (l_verb L), headers = map uheader_of (l_us L),
     num_headers = int (length (l_us L)), named_headers = map nheader_of (l_ns L), num_named_headers = int (length (l_ns L)),
     content_len = l_len L, content = map_option snd (l_content L)\<rparr>"

text \<open>The list heads of a memory apart from some.\<close>

definition other_heads :: "'a heap \<Rightarrow> ptr set \<Rightarrow> (ptr \<rightharpoonup> ptr \<times> ptr)" where
  "other_heads h A = (\<lambda>q. if q \<in> A \<or> \<not> mapped h q then None else Some (next_of h q, prev_of h q))"

definition l_heads :: "ptr \<Rightarrow> layout \<Rightarrow> ptr set" where
  "l_heads p L = set (headers_lh p # map fst (l_us L)) \<union> set (named_headers_lh p # map fst (l_ns L))"

definition in_memory :: "msg_memory \<Rightarrow> ptr \<Rightarrow> layout \<Rightarrow> bool" where
  "in_memory m p L \<longleftrightarrow> holds (msgs m) [(p, struct_of L)] \<and> holds (chars m) (l_chars L) \<and>
     holds (uheaders m) (u_objects (l_us L)) \<and> holds (nheaders m) (n_objects (l_ns L)) \<and>
     ring m (headers_lh p) (map fst (l_us L)) \<and> ring m (named_headers_lh p) (map fst (l_ns L)) \<and>
     set (headers_lh p # map fst (l_us L)) \<inter> set (named_headers_lh p # map fst (l_ns L)) = {}"

record rest_memory =
  r_msgs :: "ptr \<rightharpoonup> mem_msg"
  r_chars :: "ptr \<rightharpoonup> char list"
  r_uheaders :: "ptr \<rightharpoonup> mem_uheader"
  r_nheaders :: "ptr \<rightharpoonup> mem_nheader"
  r_heads :: "ptr \<rightharpoonup> ptr \<times> ptr"

definition rest :: "msg_memory \<Rightarrow> ptr \<Rightarrow> layout \<Rightarrow> rest_memory" where
  "rest m p L = \<lparr>r_msgs = outside (msgs m) [(p, struct_of L)], r_chars = outside (chars m) (l_chars L),
     r_uheaders = outside (uheaders m) (u_objects (l_us L)),
     r_nheaders = outside (nheaders m) (n_objects (l_ns L)), r_heads = other_heads m (l_heads p L)\<rparr>"

lemma other_heads_same:
  "same_outside A h h' \<Longrightarrow> A \<subseteq> B \<Longrightarrow> other_heads h' B = other_heads h B"
  by (rule ext) (auto simp: other_heads_def same_outside_def)

lemma more_msg_memory:
  fixes m m' :: msg_memory
  assumes "hms_list_head.more m' = hms_list_head.more m"
  shows "chars m' = chars m" "uheaders m' = uheaders m" "nheaders m' = nheaders m" "msgs m' = msgs m"
  using assms by (cases m; cases m'; simp)+

lemma same_outside_objects:
  fixes m m' :: msg_memory
  assumes "same_outside A m m'"
  shows "chars m' = chars m" "uheaders m' = uheaders m" "nheaders m' = nheaders m" "msgs m' = msgs m"
    "mapped m' = mapped m"
  using assms more_msg_memory [of m' m] by (simp_all add: same_outside_def)

text \<open>All of a memory: what \<open>rest\<close> is once the message is gone.\<close>

definition contents :: "msg_memory \<Rightarrow> rest_memory" where
  "contents m = \<lparr>r_msgs = msgs m, r_chars = chars m, r_uheaders = uheaders m, r_nheaders = nheaders m,
     r_heads = other_heads m {}\<rparr>"

text \<open>A memory with finitely many objects.\<close>

definition finite_memory :: "msg_memory \<Rightarrow> bool" where
  "finite_memory m \<longleftrightarrow> finite (dom (chars m)) \<and> finite (dom (uheaders m)) \<and> finite (dom (nheaders m)) \<and>
     finite (dom (msgs m)) \<and> finite {q. mapped m q}"

definition finite_rest :: "rest_memory \<Rightarrow> bool" where
  "finite_rest r \<longleftrightarrow> finite (dom (r_chars r)) \<and> finite (dom (r_uheaders r)) \<and> finite (dom (r_nheaders r)) \<and>
     finite (dom (r_msgs r)) \<and> finite (dom (r_heads r))"

lemma finite_memory_rest: "finite_memory m \<longleftrightarrow> finite_rest (rest m p L)"
proof -
  have f: "finite (dom g) \<longleftrightarrow> finite (dom (outside g xs))" for g :: "ptr \<rightharpoonup> 'b" and xs
  proof
    show "finite (dom g) \<Longrightarrow> finite (dom (outside g xs))" by (simp add: outside_def)
    show "finite (dom (outside g xs)) \<Longrightarrow> finite (dom g)"
      using finite_subset [OF dom_outside [of g xs]] by simp
  qed
  have "finite {q. mapped m q} \<longleftrightarrow> finite (dom (other_heads m (l_heads p L)))"
  proof
    have "dom (other_heads m (l_heads p L)) \<subseteq> {q. mapped m q}" by (auto simp: other_heads_def split: if_splits)
    then show "finite {q. mapped m q} \<Longrightarrow> finite (dom (other_heads m (l_heads p L)))" by (rule finite_subset)
    have "{q. mapped m q} \<subseteq> dom (other_heads m (l_heads p L)) \<union> l_heads p L"
      by (auto simp: other_heads_def)
    moreover have "finite (l_heads p L)" by (simp add: l_heads_def)
    ultimately show "finite (dom (other_heads m (l_heads p L))) \<Longrightarrow> finite {q. mapped m q}"
      by (meson finite_UnI finite_subset)
  qed
  then show ?thesis by (simp add: finite_memory_def finite_rest_def rest_def f [symmetric])
qed

end
