(* ===== verification/Msg_Steps.thy ===== *)
theory Msg_Steps
  imports Msg_Layout
begin

section \<open>Steps of the operations on messages in memory\<close>

text \<open>
  What the parts the operations are made of do to the layout of a message, and that they leave the rest of
  the memory alone.
\<close>

lemma in_memoryD:
  assumes "in_memory m p L"
  shows "holds (msgs m) [(p, struct_of L)]" "holds (chars m) (l_chars L)"
    "holds (uheaders m) (u_objects (l_us L))" "holds (nheaders m) (n_objects (l_ns L))"
    "ring m (headers_lh p) (map fst (l_us L))" "ring m (named_headers_lh p) (map fst (l_ns L))"
    "set (headers_lh p # map fst (l_us L)) \<inter> set (named_headers_lh p # map fst (l_ns L)) = {}"
    "p \<noteq> 0" "object (msgs m) p = Inr (struct_of L)" "msgs m p = Some (struct_of L)"
  using assms holds_object [of "msgs m" p "struct_of L" "[]"] by (simp_all add: in_memory_def)

lemma holds_msg_set:
  "holds f [(p, x)] \<Longrightarrow> holds (f(p \<mapsto> y)) [(p, y)] \<and> outside (f(p \<mapsto> y)) [(p, y)] = outside f [(p, x)]"
  by (rule holds_set)

text \<open>The arrays, and the fields of the message other than the lists, change.\<close>

lemma chars_layout:
  assumes "in_memory m p L" "holds c (l_chars L')" "outside c (l_chars L') = outside (chars m) (l_chars L)"
    "struct_of L' = struct_of L" "l_us L' = l_us L" "l_ns L' = l_ns L"
  shows "in_memory (m\<lparr>chars := c\<rparr>) p L' \<and> rest (m\<lparr>chars := c\<rparr>) p L' = rest m p L"
proof -
  let ?m = "m\<lparr>chars := c\<rparr>"
  have r: "ring ?m h xs = ring m h xs" for h xs by (rule ring_cong) (simp add: is_head_def)
  have "other_heads ?m B = other_heads m B" for B by (rule ext) (simp add: other_heads_def)
  then show ?thesis using in_memoryD [OF assms(1)] r assms(2-) by (simp add: in_memory_def rest_def l_heads_def)
qed

lemma set_msg_layout:
  assumes "in_memory m p L" "holds c (l_chars L')" "outside c (l_chars L') = outside (chars m) (l_chars L)"
    "f (struct_of L) = struct_of L'" "l_us L' = l_us L" "l_ns L' = l_ns L"
  shows "\<exists>m'. set_msg p f (m\<lparr>chars := c\<rparr>) = Inr m' \<and> in_memory m' p L' \<and> rest m' p L' = rest m p L"
proof -
  note im = in_memoryD [OF assms(1)]
  let ?m = "m\<lparr>chars := c, msgs := (msgs m)(p \<mapsto> struct_of L')\<rparr>"
  have r: "ring ?m h xs = ring m h xs" for h xs by (rule ring_cong) (simp add: is_head_def)
  have "other_heads ?m B = other_heads m B" for B by (rule ext) (simp add: other_heads_def)
  then have "in_memory ?m p L' \<and> rest ?m p L' = rest m p L"
    using im holds_msg_set [OF im(1)] r assms(2,3,5,6) by (simp add: in_memory_def rest_def l_heads_def)
  then show ?thesis using im(9) assms(4) by (simp add: set_msg_def)
qed

lemma set_msg_fields:
  assumes "in_memory m p L" "f (struct_of L) = struct_of L'" "l_us L' = l_us L" "l_ns L' = l_ns L"
    "l_chars L' = l_chars L"
  shows "\<exists>m'. set_msg p f m = Inr m' \<and> in_memory m' p L' \<and> rest m' p L' = rest m p L"
  using set_msg_layout [of m p L "chars m" L' f] assms in_memoryD(2) [OF assms(1)] by simp

text \<open>An array of the message is freed, or a new one becomes part of it.\<close>

lemma free_layout:
  assumes "in_memory m p L" "mset (l_chars L) = mset ((a, s) # l_chars L')"
  shows "free_chars a m = Inr (m\<lparr>chars := (chars m)(a := None)\<rparr>)" "a \<noteq> 0"
    "holds ((chars m)(a := None)) (l_chars L')"
    "outside ((chars m)(a := None)) (l_chars L') = outside (chars m) (l_chars L)"
proof -
  note hc = holds_mset [OF assms(2), of "chars m"]
  have h: "holds (chars m) ((a, s) # l_chars L')" using in_memoryD(2) [OF assms(1)] hc(1) by simp
  show "free_chars a m = Inr (m\<lparr>chars := (chars m)(a := None)\<rparr>)" "a \<noteq> 0"
    using holds_object [OF h] by (simp_all add: free_chars_def)
  show "holds ((chars m)(a := None)) (l_chars L')"
    "outside ((chars m)(a := None)) (l_chars L') = outside (chars m) (l_chars L)"
    using holds_free [OF h] hc(2) by simp_all
qed

lemma new_layout:
  assumes "in_memory m p L" "mset (l_chars L') = mset ((a, s) # l_chars L)" "a \<noteq> 0" "chars m a = None"
  shows "holds ((chars m)(a \<mapsto> s)) (l_chars L')"
    "outside ((chars m)(a \<mapsto> s)) (l_chars L') = outside (chars m) (l_chars L)"
  using holds_put [OF in_memoryD(2) [OF assms(1)] assms(4,3), of s] holds_mset [OF assms(2), of "(chars m)(a \<mapsto> s)"]
  by simp_all

subsection \<open>Removing a header\<close>

lemma ring_unmap:
  assumes "ring m h xs" "q \<notin> set (h # xs)" "\<And>a. a \<in> set (h # xs) \<Longrightarrow> mapped m' a = mapped m a"
    "next_of m' = next_of m" "prev_of m' = prev_of m"
  shows "ring m' h xs"
  using assms ring_cong [of h xs m' m] by (simp add: is_head_def)

lemma destroy_uheader:
  assumes "in_memory m p L" "l_us L = xs @ (q, v, s) # ys"
  defines "L' \<equiv> L\<lparr>l_us := xs @ ys\<rparr>"
  shows "\<exists>m1 m2 m3. hms_list_del q m = Inr m1 \<and> mem_destroy_header q m1 = Inr m2 \<and>
    set_msg p (\<lambda>mm. mm\<lparr>mm_num_headers := mm_num_headers mm - 1\<rparr>) m2 = Inr m3 \<and>
    in_memory m3 p L' \<and> rest m3 p L' = rest m p L"
proof -
  note im = in_memoryD [OF assms(1)]
  have "ring m (headers_lh p) (map fst xs @ q # map fst ys)" using im(5) assms(2) by simp
  from hms_list_del_ring [OF this] obtain m1 where m1: "hms_list_del q m = Inr m1"
    "ring m1 (headers_lh p) (map fst xs @ map fst ys)"
    "same_outside (set (headers_lh p # map fst xs @ q # map fst ys)) m m1" by blast
  note obj = same_outside_objects [OF m1(3)]
  have q: "q \<notin> set (headers_lh p # map fst xs @ map fst ys)" "q \<notin> set (named_headers_lh p # map fst (l_ns L))"
    using im(5,7) assms(2) by (auto simp: ring_def)
  have cs: "mset (l_chars L) = mset ((v, s) # l_chars L')" using assms(2) by (simp add: l_chars_def L'_def)
  have us: "mset (u_objects (l_us L)) = mset ((q, \<lparr>uhp_val = v\<rparr>) # u_objects (xs @ ys))"
    using assms(2) by (simp add: u_objects_def)
  note hc = holds_mset [OF cs, of "chars m"] note hu = holds_mset [OF us, of "uheaders m"]
  have c: "holds (chars m) ((v, s) # l_chars L')" using im(2) hc(1) by simp
  have u: "holds (uheaders m) ((q, \<lparr>uhp_val = v\<rparr>) # u_objects (xs @ ys))" using im(3) hu(1) by simp
  let ?m2 = "m1\<lparr>chars := (chars m)(v := None), mapped := (mapped m)(q := False),
    uheaders := (uheaders m)(q := None)\<rparr>"
  let ?m3 = "?m2\<lparr>msgs := (msgs m)(p \<mapsto> struct_of L')\<rparr>"
  have "mem_destroy_header q m1 = Inr ?m2"
    using holds_object [OF c] holds_object [OF u] obj
    by (simp add: mem_destroy_header_def mem_deinit_header_def assert_ptr_def free_chars_def free_uheader_def object_def)
  moreover have "set_msg p (\<lambda>mm. mm\<lparr>mm_num_headers := mm_num_headers mm - 1\<rparr>) ?m2 = Inr ?m3"
    using im(8,10) obj assms(2) by (simp add: set_msg_def object_def struct_of_def L'_def)
  moreover have "in_memory ?m3 p L'"
  proof -
    have "set (headers_lh p # map fst xs @ q # map fst ys) \<inter> set (named_headers_lh p # map fst (l_ns L)) = {}"
      using im(7) assms(2) by simp
    from ring_frame [OF m1(3) this] have "ring m1 (named_headers_lh p) (map fst (l_ns L))" using im(6) by simp
    then have "ring ?m3 (named_headers_lh p) (map fst (l_ns L))"
      by (rule ring_unmap [where q = q]) (use q(2) obj(5) in auto)
    moreover have "ring ?m3 (headers_lh p) (map fst xs @ map fst ys)"
      using m1(2) by (rule ring_unmap [where q = q]) (use q(1) obj(5) in auto)
    ultimately show ?thesis
      using holds_msg_set [OF im(1)] holds_free [OF c] holds_free [OF u] im(4,7) assms(2) obj
      by (auto simp: in_memory_def L'_def)
  qed
  moreover have "rest ?m3 p L' = rest m p L"
  proof -
    have "other_heads ?m3 (l_heads p L') = other_heads m (l_heads p L)"
      using m1(3) assms(2) q(2) by (auto simp: other_heads_def l_heads_def L'_def same_outside_def fun_eq_iff)
    then show ?thesis
      using holds_msg_set [OF im(1)] holds_free [OF c] holds_free [OF u] hc(2) hu(2) obj
      by (simp add: rest_def L'_def)
  qed
  ultimately show ?thesis using m1(1) by blast
qed

lemma destroy_nheader:
  assumes "in_memory m p L" "l_ns L = xs @ (q, (k, ks), (v, vs)) # ys"
  defines "L' \<equiv> L\<lparr>l_ns := xs @ ys\<rparr>"
  shows "\<exists>m1 m2 m3. hms_list_del q m = Inr m1 \<and> mem_destroy_named_header q m1 = Inr m2 \<and>
    set_msg p (\<lambda>mm. mm\<lparr>mm_num_named_headers := mm_num_named_headers mm - 1\<rparr>) m2 = Inr m3 \<and>
    in_memory m3 p L' \<and> rest m3 p L' = rest m p L"
proof -
  note im = in_memoryD [OF assms(1)]
  have "ring m (named_headers_lh p) (map fst xs @ q # map fst ys)" using im(6) assms(2) by simp
  from hms_list_del_ring [OF this] obtain m1 where m1: "hms_list_del q m = Inr m1"
    "ring m1 (named_headers_lh p) (map fst xs @ map fst ys)"
    "same_outside (set (named_headers_lh p # map fst xs @ q # map fst ys)) m m1" by blast
  note obj = same_outside_objects [OF m1(3)]
  have q: "q \<notin> set (named_headers_lh p # map fst xs @ map fst ys)" "q \<notin> set (headers_lh p # map fst (l_us L))"
    using im(6,7) assms(2) by (auto simp: ring_def)
  have cs: "mset (l_chars L) = mset ((k, ks) # (v, vs) # l_chars L')" using assms(2) by (simp add: l_chars_def L'_def)
  have ns: "mset (n_objects (l_ns L)) = mset ((q, \<lparr>nhp_key = k, nhp_val = v\<rparr>) # n_objects (xs @ ys))"
    using assms(2) by (simp add: n_objects_def)
  note hc = holds_mset [OF cs, of "chars m"] note hn = holds_mset [OF ns, of "nheaders m"]
  have c: "holds (chars m) ((k, ks) # (v, vs) # l_chars L')" using im(2) hc(1) by simp
  have c': "holds ((chars m)(k := None)) ((v, vs) # l_chars L')" using holds_free [OF c] by simp
  have n: "holds (nheaders m) ((q, \<lparr>nhp_key = k, nhp_val = v\<rparr>) # n_objects (xs @ ys))" using im(4) hn(1) by simp
  let ?m2 = "m1\<lparr>chars := (chars m)(k := None, v := None), mapped := (mapped m)(q := False),
    nheaders := (nheaders m)(q := None)\<rparr>"
  let ?m3 = "?m2\<lparr>msgs := (msgs m)(p \<mapsto> struct_of L')\<rparr>"
  have "mem_destroy_named_header q m1 = Inr ?m2"
    using holds_object [OF c] holds_object [OF c'] holds_object [OF n] obj
    by (simp add: mem_destroy_named_header_def mem_deinit_named_header_def assert_ptr_def free_chars_def
      free_nheader_def object_def)
  moreover have "set_msg p (\<lambda>mm. mm\<lparr>mm_num_named_headers := mm_num_named_headers mm - 1\<rparr>) ?m2 = Inr ?m3"
    using im(8,10) obj assms(2) by (simp add: set_msg_def object_def struct_of_def L'_def)
  moreover have "in_memory ?m3 p L'"
  proof -
    have "set (named_headers_lh p # map fst xs @ q # map fst ys) = set (named_headers_lh p # map fst (l_ns L))"
      using assms(2) by simp
    with im(7) have "set (named_headers_lh p # map fst xs @ q # map fst ys) \<inter> set (headers_lh p # map fst (l_us L)) = {}"
      by (metis Int_commute)
    from ring_frame [OF m1(3) this] have "ring m1 (headers_lh p) (map fst (l_us L))" using im(5) by simp
    then have "ring ?m3 (headers_lh p) (map fst (l_us L))"
      by (rule ring_unmap [where q = q]) (use q(2) obj(5) in auto)
    moreover have "ring ?m3 (named_headers_lh p) (map fst xs @ map fst ys)"
      using m1(2) by (rule ring_unmap [where q = q]) (use q(1) obj(5) in auto)
    ultimately show ?thesis
      using holds_msg_set [OF im(1)] holds_free [OF c'] holds_free [OF n] im(3,7) assms(2) obj
      by (auto simp: in_memory_def L'_def)
  qed
  moreover have "rest ?m3 p L' = rest m p L"
  proof -
    have "other_heads ?m3 (l_heads p L') = other_heads m (l_heads p L)"
      using m1(3) assms(2) q(2) by (auto simp: other_heads_def l_heads_def L'_def same_outside_def fun_eq_iff)
    then show ?thesis
      using holds_msg_set [OF im(1)] holds_free [OF c] holds_free [OF c'] holds_free [OF n] hc(2) hn(2) obj
      by (simp add: rest_def L'_def)
  qed
  ultimately show ?thesis using m1(1) by blast
qed

subsection \<open>The loops that remove headers\<close>

lemma l_us_update [simp]:
  "l_us (L\<lparr>l_us := us\<rparr>) = us" "L\<lparr>l_us := us\<rparr>\<lparr>l_us := us'\<rparr> = L\<lparr>l_us := us'\<rparr>" by simp_all

lemma in_memory_head:
  assumes "in_memory m p L"
  shows "l_us L = xs @ (q, u) # ys \<Longrightarrow> q \<noteq> headers_lh p" "l_ns L = ns @ (q, n) # ns' \<Longrightarrow> q \<noteq> named_headers_lh p"
  using in_memoryD(5,6) [OF assms] by (auto simp: ring_def)

lemma destroy_headers_loop:
  "in_memory m p L \<Longrightarrow> at_entry (headers_lh p) (map fst (l_us L)) pos n \<Longrightarrow>
   \<exists>m'. for_each_safe (destroy_header_body p) (headers_lh p) pos n () m = returns ((), m') \<and>
     in_memory m' p (L\<lparr>l_us := []\<rparr>) \<and> rest m' p (L\<lparr>l_us := []\<rparr>) = rest m p L"
proof (induction "l_us L" arbitrary: m L pos n)
  case Nil
  then have "L\<lparr>l_us := []\<rparr> = L" "map fst (l_us L) = []" by (cases L, simp)+
  then show ?case using Nil.prems for_each_safe_end [of "headers_lh p" pos n] by metis
next
  case (Cons u us)
  obtain q v s where u: "u = (q, v, s)" by (cases u)
  then have L: "l_us L = [] @ (q, v, s) # us" using Cons.hyps(2) by simp
  from destroy_uheader [OF Cons.prems(1) L] obtain m1 m2 m3 where
    s: "hms_list_del q m = Inr m1" "mem_destroy_header q m1 = Inr m2"
    "set_msg p (\<lambda>mm. mm\<lparr>mm_num_headers := mm_num_headers mm - 1\<rparr>) m2 = Inr m3"
    "in_memory m3 p (L\<lparr>l_us := us\<rparr>)" "rest m3 p (L\<lparr>l_us := us\<rparr>) = rest m p L" by auto
  have body: "destroy_header_body p q () m = Inr ((), m3, False)" using s by (simp add: destroy_header_body_def)
  have at: "at_entry (headers_lh p) (q # map fst us) pos n" using Cons.prems(2) L by simp
  have q: "q \<noteq> headers_lh p" using in_memory_head(1) [OF Cons.prems(1) L] .
  have "ring m3 (headers_lh p) ([] @ map fst us)" using in_memoryD(5) [OF s(4)] by simp
  from for_each_safe_go [where body = "destroy_header_body p", OF at q body this] obtain n' where
    n': "at_entry (headers_lh p) (map fst us) (hd (map fst us @ [headers_lh p])) n'"
    "for_each_safe (destroy_header_body p) (headers_lh p) pos n () m =
      for_each_safe (destroy_header_body p) (headers_lh p) (hd (map fst us @ [headers_lh p])) n' () m3" by blast
  from Cons.hyps(1) [of "L\<lparr>l_us := us\<rparr>", OF _ s(4)] n'(1) obtain m' where
    "for_each_safe (destroy_header_body p) (headers_lh p) (hd (map fst us @ [headers_lh p])) n' () m3 =
      returns ((), m')" "in_memory m' p (L\<lparr>l_us := []\<rparr>)" "rest m' p (L\<lparr>l_us := []\<rparr>) = rest m3 p (L\<lparr>l_us := us\<rparr>)"
    by auto
  with s(5) n'(2) show ?case by auto
qed

lemma destroy_named_loop:
  "in_memory m p L \<Longrightarrow> at_entry (named_headers_lh p) (map fst (l_ns L)) pos n \<Longrightarrow>
   \<exists>m'. for_each_safe (destroy_named_body p) (named_headers_lh p) pos n () m = returns ((), m') \<and>
     in_memory m' p (L\<lparr>l_ns := []\<rparr>) \<and> rest m' p (L\<lparr>l_ns := []\<rparr>) = rest m p L"
proof (induction "l_ns L" arbitrary: m L pos n)
  case Nil
  then have "L\<lparr>l_ns := []\<rparr> = L" "map fst (l_ns L) = []" by (cases L, simp)+
  then show ?case using Nil.prems for_each_safe_end [of "named_headers_lh p" pos n] by metis
next
  case (Cons u us)
  obtain q k ks v vs where u: "u = (q, (k, ks), (v, vs))" by (metis surj_pair)
  then have L: "l_ns L = [] @ (q, (k, ks), (v, vs)) # us" using Cons.hyps(2) by simp
  from destroy_nheader [OF Cons.prems(1) L] obtain m1 m2 m3 where
    s: "hms_list_del q m = Inr m1" "mem_destroy_named_header q m1 = Inr m2"
    "set_msg p (\<lambda>mm. mm\<lparr>mm_num_named_headers := mm_num_named_headers mm - 1\<rparr>) m2 = Inr m3"
    "in_memory m3 p (L\<lparr>l_ns := us\<rparr>)" "rest m3 p (L\<lparr>l_ns := us\<rparr>) = rest m p L" by auto
  have body: "destroy_named_body p q () m = Inr ((), m3, False)" using s by (simp add: destroy_named_body_def)
  have at: "at_entry (named_headers_lh p) (q # map fst us) pos n" using Cons.prems(2) L by simp
  have q: "q \<noteq> named_headers_lh p" using in_memory_head(2) [OF Cons.prems(1) L] .
  have "ring m3 (named_headers_lh p) ([] @ map fst us)" using in_memoryD(6) [OF s(4)] by simp
  from for_each_safe_go [where body = "destroy_named_body p", OF at q body this] obtain n' where
    n': "at_entry (named_headers_lh p) (map fst us) (hd (map fst us @ [named_headers_lh p])) n'"
    "for_each_safe (destroy_named_body p) (named_headers_lh p) pos n () m =
      for_each_safe (destroy_named_body p) (named_headers_lh p) (hd (map fst us @ [named_headers_lh p])) n' () m3" by blast
  from Cons.hyps(1) [of "L\<lparr>l_ns := us\<rparr>", OF _ s(4)] n'(1) obtain m' where
    "for_each_safe (destroy_named_body p) (named_headers_lh p) (hd (map fst us @ [named_headers_lh p])) n' () m3 =
      returns ((), m')" "in_memory m' p (L\<lparr>l_ns := []\<rparr>)" "rest m' p (L\<lparr>l_ns := []\<rparr>) = rest m3 p (L\<lparr>l_ns := us\<rparr>)"
    by auto
  with s(5) n'(2) show ?case by auto
qed

text \<open>The loops that stop at the first header they remove.\<close>

lemma del_header_loop_memory:
  assumes "in_memory m p L" "0 \<le> index" "nat index < length (l_us L)"
  defines "us \<equiv> take (nat index) (l_us L) @ drop (Suc (nat index)) (l_us L)"
  shows "\<exists>i m'. hms_list_for_each_entry_safe (del_header_body p index) (headers_lh p) 0 m = returns (i, m') \<and>
    in_memory m' p (L\<lparr>l_us := us\<rparr>) \<and> rest m' p (L\<lparr>l_us := us\<rparr>) = rest m p L"
proof -
  let ?ys = "map fst (take (nat index) (l_us L))"
  obtain q v s where u: "l_us L ! nat index = (q, v, s)" by (metis surj_pair)
  have L: "l_us L = take (nat index) (l_us L) @ (q, v, s) # drop (Suc (nat index)) (l_us L)"
    using id_take_nth_drop [OF assms(3)] u by simp
  then have us: "map fst (l_us L) = ?ys @ q # map fst (drop (Suc (nat index)) (l_us L))"
    by (metis fst_conv list.simps(9) map_append)
  note r = in_memoryD(5) [OF assms(1)]
  obtain n where n: "at_entry (headers_lh p) (map fst (l_us L)) (hd (map fst (l_us L) @ [headers_lh p])) n"
    "hms_list_for_each_entry_safe (del_header_body p index) (headers_lh p) 0 m =
      for_each_safe (del_header_body p index) (headers_lh p) (hd (map fst (l_us L) @ [headers_lh p])) n 0 m"
    using for_each_safe_start [where body = "del_header_body p index" and s = 0, OF r] by blast
  have skip: "del_header_body p index (?ys ! j) (int j) m = Inr (int (Suc j), m, False)" if "j < length ?ys" for j
  proof -
    have "int j \<noteq> index" using that by auto
    then show ?thesis by (simp add: del_header_body_def)
  qed
  have r': "ring m (headers_lh p) ([] @ ?ys @ q # map fst (drop (Suc (nat index)) (l_us L)))" using r us by simp
  have at: "at_entry (headers_lh p) (?ys @ q # map fst (drop (Suc (nat index)) (l_us L))) (hd (map fst (l_us L) @ [headers_lh p])) n"
    using n(1) us by simp
  from for_each_safe_skip [where body = "del_header_body p index" and st = int, OF r' at skip] obtain n' where
    n': "at_entry (headers_lh p) (q # map fst (drop (Suc (nat index)) (l_us L))) q n'"
    "for_each_safe (del_header_body p index) (headers_lh p) (hd (map fst (l_us L) @ [headers_lh p])) n 0 m =
      for_each_safe (del_header_body p index) (headers_lh p) q n' index m"
    using assms(2,3) by (auto simp: min_def)
  from destroy_uheader [OF assms(1) L] obtain m1 m2 m3 where
    s: "hms_list_del q m = Inr m1" "mem_destroy_header q m1 = Inr m2"
    "set_msg p (\<lambda>mm. mm\<lparr>mm_num_headers := mm_num_headers mm - 1\<rparr>) m2 = Inr m3"
    "in_memory m3 p (L\<lparr>l_us := us\<rparr>)" "rest m3 p (L\<lparr>l_us := us\<rparr>) = rest m p L" unfolding us_def by auto
  have body: "del_header_body p index q index m = Inr (index + 1, m3, True)" using s by (simp add: del_header_body_def)
  have "q \<noteq> headers_lh p" using in_memory_head(1) [OF assms(1) L] .
  from for_each_safe_stop [where body = "del_header_body p index", OF n'(1) this body] n(2) n'(2) s(4,5)
  show ?thesis by auto
qed

subsection \<open>Reading the named headers\<close>

text \<open>
  The caller's string \<open>s\<close> at the argument \<open>a\<close> is no part of the message.
\<close>

definition arg_is :: "rest_memory \<Rightarrow> char_arg \<Rightarrow> char list \<Rightarrow> bool" where
  "arg_is r a s \<longleftrightarrow> 
     (case a of
        Lit t \<Rightarrow> t = s
      | At q \<Rightarrow> q \<noteq> 0 \<and> r_chars r q = Some s
      | Inside q i \<Rightarrow> q \<noteq> 0 \<and> (\<exists>b. r_chars r q = Some b \<and> cstr_at b i = Inr s))"

lemma arg_is_Lit [simp]: "arg_is r (Lit s) s" by (simp add: arg_is_def)

lemma arg_is_deref:
  "arg_is (rest m p L) a s \<Longrightarrow> deref_arg m a = Inr s \<and> assert_arg a = Inr ()"
  by (auto simp: arg_is_def rest_def outside_def deref_arg_def object_def assert_arg_def assert_ptr_def restrict_map_def
      split: char_arg.splits if_splits)

lemma nheader_objects:
  assumes "in_memory m p L" "(q, (k, ks), (v, vs)) \<in> set (l_ns L)"
  shows "object (nheaders m) q = Inr \<lparr>nhp_key = k, nhp_val = v\<rparr>" "object (chars m) k = Inr ks"
    "object (chars m) v = Inr vs" "q \<noteq> 0" "k \<noteq> 0" "v \<noteq> 0"
proof -
  have "(q, \<lparr>nhp_key = k, nhp_val = v\<rparr>) \<in> set (n_objects (l_ns L))"
    using assms(2) by (force simp: n_objects_def)
  then show "object (nheaders m) q = Inr \<lparr>nhp_key = k, nhp_val = v\<rparr>" "q \<noteq> 0"
    using in_memoryD(4) [OF assms(1)] by (auto simp: holds_def object_def)
  have "(k, ks) \<in> set (l_chars L)" "(v, vs) \<in> set (l_chars L)"
    using assms(2) by (force simp: l_chars_def)+
  then show "object (chars m) k = Inr ks" "object (chars m) v = Inr vs" "k \<noteq> 0" "v \<noteq> 0"
    using in_memoryD(2) [OF assms(1)] by (auto simp: holds_def object_def)
qed

lemma uheader_objects:
  assumes "in_memory m p L" "(q, v, s) \<in> set (l_us L)"
  shows "object (uheaders m) q = Inr \<lparr>uhp_val = v\<rparr>" "object (chars m) v = Inr s" "q \<noteq> 0" "v \<noteq> 0"
proof -
  have "(q, \<lparr>uhp_val = v\<rparr>) \<in> set (u_objects (l_us L))"
    using assms(2) by (force simp: u_objects_def)
  then show "object (uheaders m) q = Inr \<lparr>uhp_val = v\<rparr>" "q \<noteq> 0"
    using in_memoryD(3) [OF assms(1)] by (auto simp: holds_def object_def)
  have "(v, s) \<in> set (l_chars L)" using assms(2) by (force simp: l_chars_def)
  then show "object (chars m) v = Inr s" "v \<noteq> 0"
    using in_memoryD(2) [OF assms(1)] by (auto simp: holds_def object_def)
qed

lemma nheader_of_simps [simp]:
  "nh_key (nheader_of (q, k, v)) = snd k" "nh_val (nheader_of (q, k, v)) = snd v"
  by (simp_all add: nheader_of_def)

text \<open>The first named header with a key, and that there is none.\<close>

lemma named_cases:
  obtains (none) "find_named ks (map nheader_of ns) = None" "\<And>q k v. (q, k, v) \<in> set ns \<Longrightarrow> strcasecmp (snd k) ks \<noteq> 0"
  | (found) xs q k s v vs ys where "ns = xs @ (q, (k, s), (v, vs)) # ys" "strcasecmp s ks = 0"
    "\<And>q k v. (q, k, v) \<in> set xs \<Longrightarrow> strcasecmp (snd k) ks \<noteq> 0"
    "find_named ks (map nheader_of ns) = Some vs" "del_named ks (map nheader_of ns) = map nheader_of (xs @ ys)"
proof (induction ns arbitrary: thesis)
  case Nil
  then show ?case by simp
next
  case (Cons n ns)
  obtain q k s v vs where n: "n = (q, (k, s), (v, vs))" by (metis surj_pair)
  show ?case
  proof (cases "strcasecmp s ks = 0")
    case True
    with n show ?thesis by (intro Cons.prems(2) [of "[]" q k s v vs ns]) simp_all
  next
    case False
    show ?thesis
    proof (rule Cons.IH)
      assume "find_named ks (map nheader_of ns) = None" "\<And>q k v. (q, k, v) \<in> set ns \<Longrightarrow> strcasecmp (snd k) ks \<noteq> 0"
      with n False show thesis by (intro Cons.prems(1)) auto
    next
      fix xs q' k' s' v' vs' ys
      assume "ns = xs @ (q', (k', s'), (v', vs')) # ys" "strcasecmp s' ks = 0"
        "\<And>q k v. (q, k, v) \<in> set xs \<Longrightarrow> strcasecmp (snd k) ks \<noteq> 0"
        "find_named ks (map nheader_of ns) = Some vs'" "del_named ks (map nheader_of ns) = map nheader_of (xs @ ys)"
      with n False show thesis
        by (intro Cons.prems(2) [of "n # xs" q' k' s' v' vs' ys]) auto
    qed
  qed
qed

lemma key_matches_memory:
  assumes "in_memory m p L" "deref_arg m a = Inr ks" "(q, (k, s), (v, vs)) \<in> set (l_ns L)"
  shows "key_matches m a q = Inr (strcasecmp s ks = 0)"
  using nheader_objects [OF assms(1,3)] assms(2) by (simp add: key_matches_def deref_arg_def)

end
