(* ===== verification/Msg_Ops.thy ===== *)
theory Msg_Ops
  imports Msg_Steps
begin

section \<open>The operations on messages in memory\<close>

text \<open>
  What every operation does to the layout of a message, and that it leaves the rest of the memory alone. The
  laws of an allocator that does not fail are the locale \<open>heap_allocator\<close>, interpreted on one that takes the
  address behind all others.
\<close>

subsection \<open>Deleting headers\<close>

lemma length_named: "map nheader_of ns' = del_named ks (map nheader_of ns) \<Longrightarrow>
  int (length ns') = int (length ns) - (if find_named ks (map nheader_of ns) = None then 0 else 1)"
  using length_del_named [of ks "map nheader_of ns"] by (metis length_map)

text \<open>The entries before the first with the key are left alone.\<close>

lemma del_named_skip:
  assumes "in_memory m p L" "deref_arg m a = Inr ks" "j < length (map fst xs)" "set xs \<subseteq> set (l_ns L)"
    "\<And>q k v. (q, k, v) \<in> set xs \<Longrightarrow> strcasecmp (snd k) ks \<noteq> 0"
  shows "del_named_body p a (map fst xs ! j) () m = Inr ((), m, False)"
proof -
  obtain q k s v vs where x: "xs ! j = (q, (k, s), (v, vs))" by (metis surj_pair)
  have "xs ! j \<in> set xs" using assms(3) by (intro nth_mem) simp
  then have x': "(q, (k, s), (v, vs)) \<in> set xs" using x by simp
  with assms(4) have "(q, (k, s), (v, vs)) \<in> set (l_ns L)" by blast
  from key_matches_memory [OF assms(1,2) this] assms(5) [OF x'] assms(3) x show ?thesis
    by (simp add: del_named_body_def)
qed

lemma del_named_call:
  assumes "in_memory m p L" "assert_arg a = Inr ()" "map fst (l_ns L) = map fst xs @ ys"
    "\<And>j. j < length (map fst xs) \<Longrightarrow> del_named_body p a (map fst xs ! j) () m = Inr ((), m, False)"
  shows "\<exists>n. at_entry (named_headers_lh p) ys (hd (ys @ [named_headers_lh p])) n \<and>
    mem_msg_del_named_header p a m =
      bind_run (for_each_safe (del_named_body p a) (named_headers_lh p) (hd (ys @ [named_headers_lh p])) n () m)
        (\<lambda>(_, m). returns (0, m))"
proof -
  have call: "mem_msg_del_named_header p a m =
      bind_run (hms_list_for_each_entry_safe (del_named_body p a) (named_headers_lh p) () m) (\<lambda>(_, m). returns (0, m))"
    using in_memoryD(8) [OF assms(1)] assms(2) by (simp add: mem_msg_del_named_header_def assert_ptr_def)
  have r: "ring m (named_headers_lh p) (map fst xs @ ys)" using in_memoryD(6) [OF assms(1)] assms(3) by simp
  obtain n where n: "at_entry (named_headers_lh p) (map fst xs @ ys) (hd ((map fst xs @ ys) @ [named_headers_lh p])) n"
    "hms_list_for_each_entry_safe (del_named_body p a) (named_headers_lh p) () m =
      for_each_safe (del_named_body p a) (named_headers_lh p) (hd ((map fst xs @ ys) @ [named_headers_lh p])) n () m"
    using for_each_safe_start [where body = "del_named_body p a" and s = "()", OF r] by blast
  have r': "ring m (named_headers_lh p) ([] @ map fst xs @ ys)" using r by simp
  from for_each_safe_skip [where body = "del_named_body p a" and st = "\<lambda>_. ()", OF r' n(1) assms(4)] call n(2)
  show ?thesis by auto
qed

lemma mem_del_named_at:
  assumes "in_memory m p L" "deref_arg m a = Inr ks" "assert_arg a = Inr ()"
    "l_ns L = xs @ (q, (k, s), (v, vs)) # ys" "strcasecmp s ks = 0"
    "\<And>q k v. (q, k, v) \<in> set xs \<Longrightarrow> strcasecmp (snd k) ks \<noteq> 0"
  shows "\<exists>m'. mem_msg_del_named_header p a m = returns (0, m') \<and> in_memory m' p (L\<lparr>l_ns := xs @ ys\<rparr>) \<and>
    rest m' p (L\<lparr>l_ns := xs @ ys\<rparr>) = rest m p L"
proof -
  have us: "map fst (l_ns L) = map fst xs @ (q # map fst ys)" using assms(4) by simp
  have sk: "del_named_body p a (map fst xs ! j) () m = Inr ((), m, False)" if "j < length (map fst xs)" for j
    by (rule del_named_skip [OF assms(1,2) that _ assms(6)]) (use assms(4) in auto)
  from del_named_call [OF assms(1,3) us sk] obtain n where
    n: "at_entry (named_headers_lh p) (q # map fst ys) q n" "mem_msg_del_named_header p a m =
      bind_run (for_each_safe (del_named_body p a) (named_headers_lh p) q n () m) (\<lambda>(_, m). returns (0, m))" by auto
  from destroy_nheader [OF assms(1,4)] obtain m1 m2 m3 where
    s: "hms_list_del q m = Inr m1" "mem_destroy_named_header q m1 = Inr m2"
    "set_msg p (\<lambda>mm. mm\<lparr>mm_num_named_headers := mm_num_named_headers mm - 1\<rparr>) m2 = Inr m3"
    "in_memory m3 p (L\<lparr>l_ns := xs @ ys\<rparr>)" "rest m3 p (L\<lparr>l_ns := xs @ ys\<rparr>) = rest m p L" by auto
  have "key_matches m a q = Inr True"
    using key_matches_memory [OF assms(1,2), of q k s v vs] assms(4,5) by simp
  then have body: "del_named_body p a q () m = Inr ((), m3, True)" using s by (simp add: del_named_body_def)
  have "q \<noteq> named_headers_lh p" using in_memory_head(2) [OF assms(1,4)] .
  from for_each_safe_stop [where body = "del_named_body p a", OF n(1) this body] n(2) s(4,5) show ?thesis by simp
qed

lemma mem_del_named:
  assumes "in_memory m p L" "deref_arg m a = Inr ks" "assert_arg a = Inr ()"
  shows "\<exists>ns' m'. mem_msg_del_named_header p a m = returns (0, m') \<and>
    map nheader_of ns' = del_named ks (map nheader_of (l_ns L)) \<and>
    in_memory m' p (L\<lparr>l_ns := ns'\<rparr>) \<and> rest m' p (L\<lparr>l_ns := ns'\<rparr>) = rest m p L"
proof (rule named_cases [where ks = ks and ns = "l_ns L"], goal_cases)
  case none: 1
  have sk: "del_named_body p a (map fst (l_ns L) ! j) () m = Inr ((), m, False)" if "j < length (map fst (l_ns L))" for j
    by (rule del_named_skip [OF assms(1,2) that _ none(2)]) simp_all
  have "map fst (l_ns L) = map fst (l_ns L) @ []" by simp
  from del_named_call [OF assms(1,3) this sk] have "mem_msg_del_named_header p a m = returns (0, m)"
    by (auto simp: for_each_safe_end)
  moreover have "L\<lparr>l_ns := l_ns L\<rparr> = L" by simp
  ultimately show ?case using assms(1) del_named_absent [OF none(1)] by metis
next
  case found: (2 xs q k s v vs ys)
  have "\<exists>m'. mem_msg_del_named_header p a m = returns (0, m') \<and> in_memory m' p (L\<lparr>l_ns := xs @ ys\<rparr>) \<and>
      rest m' p (L\<lparr>l_ns := xs @ ys\<rparr>) = rest m p L"
    by (rule mem_del_named_at [OF assms found(1,2)]) (rule found(3))
  with found(5) show ?case by metis
qed

lemma mem_del_header:
  assumes "in_memory m p L"
  shows "mem_msg_del_header p index m = returns (-1, m) \<and> \<not> (0 \<le> index \<and> index < int (length (l_us L))) \<or>
    (\<exists>m'. mem_msg_del_header p index m = returns (0, m') \<and> 0 \<le> index \<and> index < int (length (l_us L)) \<and>
      (let L' = L\<lparr>l_us := take (nat index) (l_us L) @ drop (Suc (nat index)) (l_us L)\<rparr> in
        in_memory m' p L' \<and> rest m' p L' = rest m p L))"
proof (cases "0 \<le> index \<and> index < int (length (l_us L))")
  case True
  then have "nat index < length (l_us L)" by linarith
  from del_header_loop_memory [OF assms _ this] True obtain i m' where
    "hms_list_for_each_entry_safe (del_header_body p index) (headers_lh p) 0 m = returns (i, m')"
    "in_memory m' p (L\<lparr>l_us := take (nat index) (l_us L) @ drop (Suc (nat index)) (l_us L)\<rparr>)"
    "rest m' p (L\<lparr>l_us := take (nat index) (l_us L) @ drop (Suc (nat index)) (l_us L)\<rparr>) = rest m p L" by blast
  moreover have "\<not> int (length (l_us L)) \<le> 0" using True by linarith
  ultimately show ?thesis using True in_memoryD(8,9) [OF assms]
    by (simp add: mem_msg_del_header_def assert_ptr_def struct_of_def Let_def)
next
  case False
  with in_memoryD(8,9) [OF assms] show ?thesis
    by (auto simp: mem_msg_del_header_def assert_ptr_def struct_of_def)
qed

subsection \<open>Refinement\<close>

text \<open>
  The call \<open>run\<close> on the memory \<open>m\<close> with the message \<open>L\<close> does what the operation of Hms_Msg answers: the same
  failure, or the same result and the same message, in a memory that is otherwise as before.
\<close>

definition performs ::
    "msg_memory \<Rightarrow> ptr \<Rightarrow> layout \<Rightarrow> (hms_msg \<times> 'r) res \<Rightarrow> ('r \<times> msg_memory) run \<Rightarrow> bool" where
  "performs m p L spec run \<longleftrightarrow>
     (case spec of
        Inl e \<Rightarrow> run = Some (Inl e)
      | Inr (M, r) \<Rightarrow> \<exists>m' L'. run = returns (r, m') \<and> in_memory m' p L' \<and> msg_of L' = M \<and>
          l_dead L' = l_dead L \<and> rest m' p L' = rest m p L)"

lemma performsI:
  "run = returns (r, m') \<Longrightarrow> in_memory m' p L' \<Longrightarrow> spec = Inr (msg_of L', r) \<Longrightarrow> l_dead L' = l_dead L \<Longrightarrow>
   rest m' p L' = rest m p L \<Longrightarrow> performs m p L spec run"
  by (auto simp: performs_def)

lemma performs_bind:
  assumes "performs m p L spec run"
    "\<And>m' L' r. in_memory m' p L' \<Longrightarrow> rest m' p L' = rest m p L \<Longrightarrow> l_dead L' = l_dead L \<Longrightarrow>
       spec = Inr (msg_of L', r) \<Longrightarrow> performs m' p L' (g (msg_of L', r)) (f (r, m'))"
  shows "performs m p L (bind_res spec g) (bind_run run f)"
proof (cases spec)
  case (Inl e)
  with assms(1) show ?thesis by (simp add: performs_def)
next
  case (Inr x)
  with assms(1) obtain m' L' r where r: "spec = Inr (msg_of L', r)" "run = returns (r, m')" "in_memory m' p L'"
    "l_dead L' = l_dead L" "rest m' p L' = rest m p L" by (auto simp: performs_def)
  from assms(2) [OF r(3,5,4,1)] have "performs m p L (g (msg_of L', r)) (f (r, m'))"
    using r(4,5) by (simp add: performs_def cong: sum.case_cong)
  with r(1,2) show ?thesis by simp
qed

lemma performs_pure:
  "(\<And>v. x = Inr v \<Longrightarrow> performs m p L (g v) (f v)) \<Longrightarrow> performs m p L (bind_res x g) (bind_run (Some x) f)"
  by (cases x) (simp_all add: performs_def)

lemma msg_of_update [simp]:
  "msg_of (L\<lparr>l_us := us\<rparr>) = (msg_of L)\<lparr>headers := map uheader_of us, num_headers := int (length us)\<rparr>"
  "msg_of (L\<lparr>l_ns := ns\<rparr>) = (msg_of L)\<lparr>named_headers := map nheader_of ns, num_named_headers := int (length ns)\<rparr>"
  "msg_of (L\<lparr>l_verb := v\<rparr>) = (msg_of L)\<lparr>verb := map_option snd v\<rparr>"
  "msg_of (L\<lparr>l_content := c\<rparr>) = (msg_of L)\<lparr>content := map_option snd c\<rparr>"
  "msg_of (L\<lparr>l_len := n\<rparr>) = (msg_of L)\<lparr>content_len := n\<rparr>"
  "msg_of (L\<lparr>l_dead := a\<rparr>) = msg_of L"
  by (simp_all add: msg_of_def)

lemma msg_of_sel [simp]:
  "verb (msg_of L) = map_option snd (l_verb L)" "headers (msg_of L) = map uheader_of (l_us L)"
  "num_headers (msg_of L) = int (length (l_us L))" "named_headers (msg_of L) = map nheader_of (l_ns L)"
  "num_named_headers (msg_of L) = int (length (l_ns L))" "content_len (msg_of L) = l_len L"
  "content (msg_of L) = map_option snd (l_content L)" "msg_id (msg_of L) = None"
  by (simp_all add: msg_of_def)

lemma performs_del_named:
  assumes "in_memory m p L" "arg_is (rest m p L) a ks"
  shows "performs m p L (hms_msg_del_named_header (Some (msg_of L)) (Some ks)) (mem_msg_del_named_header p a m)"
proof -
  obtain ns' m' where n: "mem_msg_del_named_header p a m = returns (0, m')"
    "map nheader_of ns' = del_named ks (map nheader_of (l_ns L))"
    "in_memory m' p (L\<lparr>l_ns := ns'\<rparr>)" "rest m' p (L\<lparr>l_ns := ns'\<rparr>) = rest m p L"
    using mem_del_named [OF assms(1)] arg_is_deref [OF assms(2)] by blast
  show ?thesis unfolding hms_msg_del_named_header_eq
    by (rule performsI [OF n(1,3) _ _ n(4)]) (simp_all add: n(2) length_named [OF n(2)])
qed

lemma performs_del_header:
  assumes "in_memory m p L"
  shows "performs m p L (hms_msg_del_header (Some (msg_of L)) index) (mem_msg_del_header p index m)"
proof (cases "0 \<le> index \<and> index < int (length (l_us L))")
  case True
  let ?L' = "L\<lparr>l_us := take (nat index) (l_us L) @ drop (Suc (nat index)) (l_us L)\<rparr>"
  from True mem_del_header [OF assms, of index] obtain m' where
    m': "mem_msg_del_header p index m = returns (0, m')" "in_memory m' p ?L'" "rest m' p ?L' = rest m p L"
    by (auto simp: Let_def)
  have "nat index < length (l_us L)" using True by linarith
  then have d: "del_header_loop 0 index (int (length (l_us L))) (map uheader_of (l_us L)) =
      (map uheader_of (l_us ?L'), int (length (l_us ?L')))"
    using True del_header_loop_eq [of 0 index "map uheader_of (l_us L)"]
    by (simp add: take_map drop_map of_nat_diff)
  have "hms_msg_del_header (Some (msg_of L)) index = Inr (msg_of ?L', 0)"
    using True d by (cases "l_us L = []") (auto simp: hms_msg_del_header_def)
  from performsI [OF m'(1,2) this _ m'(3)] show ?thesis by simp
next
  case False
  with mem_del_header [OF assms, of index] have run: "mem_msg_del_header p index m = returns (-1, m)" by auto
  have spec: "hms_msg_del_header (Some (msg_of L)) index = Inr (msg_of L, -1)"
    using False by (auto simp: hms_msg_del_header_def)
  show ?thesis by (rule performsI [OF run assms spec refl refl])
qed

subsection \<open>Allocation\<close>

locale heap_allocator =
  fixes A :: allocator
  assumes new_chars: "finite_memory m \<Longrightarrow> new_chars A m \<noteq> 0 \<and> chars m (new_chars A m) = None"
    and new_uheader: "finite_memory m \<Longrightarrow> new_uheader A m \<noteq> 0 \<and> \<not> mapped m (new_uheader A m) \<and>
      uheaders m (new_uheader A m) = None"
    and new_nheader: "finite_memory m \<Longrightarrow> new_nheader A m \<noteq> 0 \<and> \<not> mapped m (new_nheader A m) \<and>
      nheaders m (new_nheader A m) = None"
    and new_msg: "finite_memory m \<Longrightarrow> new_msg A m \<noteq> 0 \<and> msgs m (new_msg A m) = None \<and>
      \<not> mapped m (headers_lh (new_msg A m)) \<and> \<not> mapped m (named_headers_lh (new_msg A m))"

text \<open>A new entry of one of the two lists.\<close>

lemma link_new:
  assumes "ring m head ps" "ring m head' ps'" "set (head # ps) \<inter> set (head' # ps') = {}" "\<not> mapped m q" "q \<noteq> 0"
    "mapped m4 = (mapped m)(q := True)" "\<And>a. a \<noteq> q \<Longrightarrow> next_of m4 a = next_of m a \<and> prev_of m4 a = prev_of m a"
    "set (head # ps) \<subseteq> B"
  shows "\<exists>m5. hms_list_add_tail q head m4 = Inr m5 \<and> ring m5 head (ps @ [q]) \<and> ring m5 head' ps' \<and>
    same_outside (set (q # head # ps)) m4 m5 \<and> other_heads m5 (insert q B) = other_heads m B \<and>
    q \<notin> set (head # ps) \<and> q \<notin> set (head' # ps')"
proof -
  have q: "q \<notin> set (head # ps)" "q \<notin> set (head' # ps')" using assms(1,2,4) by (auto simp: ring_def is_head_def)
  have r4: "ring m4 h xs = ring m h xs" if "q \<notin> set (h # xs)" for h xs
    by (rule ring_cong) (use that assms(6,7) in \<open>auto simp: is_head_def\<close>)
  have r: "ring m4 head ps" "ring m4 head' ps'" using r4 q assms(1,2) by simp_all
  have "is_head m4 q" using assms(5,6) by (simp add: is_head_def)
  from hms_list_add_tail_ring [OF r(1) q(1) this] obtain m5 where
    m5: "hms_list_add_tail q head m4 = Inr m5" "ring m5 head (ps @ [q])" "same_outside (set (q # head # ps)) m4 m5"
    by auto
  have "set (q # head # ps) \<inter> set (head' # ps') = {}" using assms(3) q by auto
  from ring_frame [OF m5(3) this] r(2) have "ring m5 head' ps'" by simp
  moreover have "other_heads m5 (insert q B) = other_heads m B"
  proof (rule ext)
    fix a
    show "other_heads m5 (insert q B) a = other_heads m B a"
      using m5(3) assms(4,6,7,8) by (cases "a = q") (auto simp: other_heads_def same_outside_def)
  qed
  ultimately show ?thesis using m5 q by blast
qed

end
