(* ===== verification/Msg_New.thy ===== *)
theory Msg_New
  imports Msg_Ops
begin

section \<open>New headers and strings of a message in memory\<close>

text \<open>The operations that allocate, under the laws of an allocator that does not fail.\<close>

lemma finite_memory_upd [simp]:
  "finite_memory (m\<lparr>chars := (chars m)(a \<mapsto> s)\<rparr>) = finite_memory m"
  "finite_memory (m\<lparr>mapped := (mapped m)(q := True), next_of := f, prev_of := g,
     uheaders := (uheaders m)(q \<mapsto> u)\<rparr>) = finite_memory m"
  "finite_memory (m\<lparr>mapped := (mapped m)(q := True), next_of := f, prev_of := g,
     nheaders := (nheaders m)(q \<mapsto> n)\<rparr>) = finite_memory m"
proof -
  have "Collect ((mapped m)(q := True)) = insert q (Collect (mapped m))" by auto
  then have "finite (Collect ((mapped m)(q := True))) = finite (Collect (mapped m))" by simp
  then show "finite_memory (m\<lparr>mapped := (mapped m)(q := True), next_of := f, prev_of := g,
     uheaders := (uheaders m)(q \<mapsto> u)\<rparr>) = finite_memory m"
   "finite_memory (m\<lparr>mapped := (mapped m)(q := True), next_of := f, prev_of := g,
     nheaders := (nheaders m)(q \<mapsto> n)\<rparr>) = finite_memory m" unfolding finite_memory_def by simp_all
qed (simp add: finite_memory_def)

lemma deref_arg_cong: "chars m' = chars m \<Longrightarrow> deref_arg m' a = deref_arg m a"
  by (simp add: deref_arg_def split: char_arg.split)

lemma deref_arg_new: "deref_arg m a = Inr s \<Longrightarrow> chars m c = None \<Longrightarrow> chars m' = (chars m)(c \<mapsto> t) \<Longrightarrow> deref_arg m' a = Inr s"
  by (auto simp: deref_arg_def object_def split: char_arg.splits option.splits if_splits)

context heap_allocator begin

lemma create_header:
  assumes "finite_memory m" "assert_arg a = Inr ()" "deref_arg m a = Inr s"
  shows "\<exists>q c m'. mem_create_header A a m = Inr (q, m') \<and> q \<noteq> 0 \<and> \<not> mapped m q \<and> uheaders m q = None \<and>
    c \<noteq> 0 \<and> chars m c = None \<and> mapped m' = (mapped m)(q := True) \<and>
    (\<forall>x. x \<noteq> q \<longrightarrow> next_of m' x = next_of m x \<and> prev_of m' x = prev_of m x) \<and>
    chars m' = (chars m)(c \<mapsto> s) \<and> uheaders m' = (uheaders m)(q \<mapsto> \<lparr>uhp_val = c\<rparr>) \<and>
    nheaders m' = nheaders m \<and> msgs m' = msgs m"
proof -
  define q where "q = new_uheader A m"
  define m1 where "m1 = m\<lparr>mapped := (mapped m)(q := True), next_of := (next_of m)(q := 0),
    prev_of := (prev_of m)(q := 0), uheaders := (uheaders m)(q \<mapsto> \<lparr>uhp_val = 0\<rparr>)\<rparr>"
  have q: "q \<noteq> 0" "\<not> mapped m q" "uheaders m q = None" using new_uheader [OF assms(1)] by (simp_all add: q_def)
  define c where "c = new_chars A m1"
  have "finite_memory m1" using assms(1) by (simp add: m1_def)
  from new_chars [OF this] have c: "c \<noteq> 0" "chars m c = None" by (simp_all add: c_def) (simp add: m1_def)
  have d: "deref_arg m1 a = Inr s" using deref_arg_cong [of m1 m a] assms(3) by (simp add: m1_def)
  let ?m = "m\<lparr>mapped := (mapped m)(q := True), next_of := (next_of m)(q := q), prev_of := (prev_of m)(q := q),
    chars := (chars m)(c \<mapsto> s), uheaders := (uheaders m)(q \<mapsto> \<lparr>uhp_val = c\<rparr>)\<rparr>"
  have "calloc_uheader A m = (q, m1)" using q by (simp add: calloc_uheader_def q_def m1_def Let_def)
  moreover have "strdup A a m1 = Inr (c, m1\<lparr>chars := (chars m)(c \<mapsto> s)\<rparr>)"
    using d c(1) by (simp add: strdup_def put_chars_def c_def Let_def) (simp add: m1_def)
  ultimately have "mem_create_header A a m = Inr (q, ?m)"
    using q(1) assms(2)
    by (simp add: mem_create_header_def mem_init_header_def assert_ptr_def)
      (simp add: m1_def object_def HMS_INIT_LIST_HEAD_def link_simps is_head_def)
  then show ?thesis using q c by auto
qed

lemma create_named_header:
  assumes "finite_memory m" "assert_arg a = Inr ()" "deref_arg m a = Inr ks" "assert_arg b = Inr ()" "deref_arg m b = Inr vs"
  shows "\<exists>q k v m'. mem_create_named_header A a b m = Inr (q, m') \<and> q \<noteq> 0 \<and> \<not> mapped m q \<and> nheaders m q = None \<and>
    k \<noteq> 0 \<and> chars m k = None \<and> v \<noteq> 0 \<and> v \<noteq> k \<and> chars m v = None \<and> mapped m' = (mapped m)(q := True) \<and>
    (\<forall>x. x \<noteq> q \<longrightarrow> next_of m' x = next_of m x \<and> prev_of m' x = prev_of m x) \<and>
    chars m' = (chars m)(k \<mapsto> ks, v \<mapsto> vs) \<and> nheaders m' = (nheaders m)(q \<mapsto> \<lparr>nhp_key = k, nhp_val = v\<rparr>) \<and>
    uheaders m' = uheaders m \<and> msgs m' = msgs m"
proof -
  define q where "q = new_nheader A m"
  have q: "q \<noteq> 0" "\<not> mapped m q" "nheaders m q = None" using new_nheader [OF assms(1)] by (simp_all add: q_def)
  define m1 where "m1 = m\<lparr>mapped := (mapped m)(q := True), next_of := (next_of m)(q := 0),
    prev_of := (prev_of m)(q := 0), nheaders := (nheaders m)(q \<mapsto> \<lparr>nhp_key = 0, nhp_val = 0\<rparr>)\<rparr>"
  have f1: "finite_memory m1" using assms(1) by (simp add: m1_def)
  define k where "k = new_chars A m1"
  from new_chars [OF f1] have k: "k \<noteq> 0" "chars m k = None" by (simp_all add: k_def) (simp add: m1_def)
  define m2 where "m2 = m1\<lparr>chars := (chars m)(k \<mapsto> ks), nheaders := (nheaders m)(q \<mapsto> \<lparr>nhp_key = k, nhp_val = 0\<rparr>)\<rparr>"
  have "finite_memory m2 = finite_memory (m1\<lparr>chars := (chars m1)(k \<mapsto> ks)\<rparr>)"
    by (simp add: m2_def m1_def finite_memory_def)
  then have f2: "finite_memory m2" using f1 by simp
  define v where "v = new_chars A m2"
  from new_chars [OF f2] have v: "v \<noteq> 0" "v \<noteq> k" "chars m v = None"
    by (simp_all add: v_def [symmetric]) (simp_all add: m2_def split: if_splits)
  have d: "deref_arg m1 a = Inr ks" using deref_arg_cong [of m1 m a] assms(3) by (simp add: m1_def)
  have e: "deref_arg m2 b = Inr vs" by (rule deref_arg_new [OF assms(5) k(2)]) (simp add: m2_def)
  let ?m = "m\<lparr>mapped := (mapped m)(q := True), next_of := (next_of m)(q := q), prev_of := (prev_of m)(q := q),
    chars := (chars m)(k \<mapsto> ks, v \<mapsto> vs), nheaders := (nheaders m)(q \<mapsto> \<lparr>nhp_key = k, nhp_val = v\<rparr>)\<rparr>"
  have s1: "calloc_nheader A m = (q, m1)" using q by (simp add: calloc_nheader_def q_def m1_def Let_def)
  have s2: "strdup A a m1 = Inr (k, m1\<lparr>chars := (chars m)(k \<mapsto> ks)\<rparr>)"
    using d k(1) by (simp add: strdup_def put_chars_def k_def Let_def) (simp add: m1_def)
  have s3: "strdup A b m2 = Inr (v, m2\<lparr>chars := (chars m)(k \<mapsto> ks, v \<mapsto> vs)\<rparr>)"
    using e v(1) by (simp add: strdup_def put_chars_def v_def Let_def) (simp add: m2_def)
  have m2: "m1\<lparr>chars := (chars m)(k \<mapsto> ks), nheaders := (nheaders m1)(q \<mapsto> \<lparr>nhp_key = k, nhp_val = 0\<rparr>)\<rparr> = m2"
    by (simp add: m1_def m2_def)
  have o1: "object (nheaders m1) q = Inr \<lparr>nhp_key = 0, nhp_val = 0\<rparr>" using q(1) by (simp add: m1_def object_def)
  have o2: "object (nheaders m2) q = Inr \<lparr>nhp_key = k, nhp_val = 0\<rparr>" using q(1) by (simp add: m2_def object_def)
  have "mem_create_named_header A a b m = Inr (q, ?m)"
    using q(1) assms(2,4) k(1) v(1)
    by (simp add: mem_create_named_header_def mem_init_named_header_def assert_ptr_def s1 s2 o1 m2 s3 o2)
      (simp add: m2_def m1_def object_def HMS_INIT_LIST_HEAD_def link_simps is_head_def)
  then show ?thesis using q k v by auto
qed

lemma performs_add_header:
  assumes "in_memory m p L" "finite_memory m" "arg_is (rest m p L) a s"
  shows "performs m p L (hms_msg_add_header (Some (msg_of L)) (Some s)) (Some (mem_msg_add_header A p a m))"
proof -
  note im = in_memoryD [OF assms(1)]
  note a = arg_is_deref [OF assms(3)]
  from create_header [OF assms(2)] a obtain q c m1 where
    cr: "mem_create_header A a m = Inr (q, m1)" and q: "q \<noteq> 0" "\<not> mapped m q" "uheaders m q = None"
    and c: "c \<noteq> 0" "chars m c = None" and m1: "mapped m1 = (mapped m)(q := True)"
    "\<And>x. x \<noteq> q \<Longrightarrow> next_of m1 x = next_of m x \<and> prev_of m1 x = prev_of m x"
    "chars m1 = (chars m)(c \<mapsto> s)" "uheaders m1 = (uheaders m)(q \<mapsto> \<lparr>uhp_val = c\<rparr>)"
    "nheaders m1 = nheaders m" "msgs m1 = msgs m" by blast
  have B: "set (headers_lh p # map fst (l_us L)) \<subseteq> l_heads p L" by (auto simp: l_heads_def)
  from link_new [OF im(5,6,7) q(2,1) m1(1,2) B] obtain m2 where
    m2: "hms_list_add_tail q (headers_lh p) m1 = Inr m2" "ring m2 (headers_lh p) (map fst (l_us L) @ [q])"
    "ring m2 (named_headers_lh p) (map fst (l_ns L))" "same_outside (set (q # headers_lh p # map fst (l_us L))) m1 m2"
    "other_heads m2 (insert q (l_heads p L)) = other_heads m (l_heads p L)"
    "q \<notin> set (headers_lh p # map fst (l_us L))" "q \<notin> set (named_headers_lh p # map fst (l_ns L))" by blast
  note obj = same_outside_objects [OF m2(4)]
  let ?L = "L\<lparr>l_us := l_us L @ [(q, c, s)]\<rparr>"
  let ?m = "m2\<lparr>msgs := (msgs m)(p \<mapsto> struct_of ?L)\<rparr>"
  have cs: "mset (l_chars ?L) = mset ((c, s) # l_chars L)" by (simp add: l_chars_def)
  have us: "mset (u_objects (l_us ?L)) = mset ((q, \<lparr>uhp_val = c\<rparr>) # u_objects (l_us L))" by (simp add: u_objects_def)
  note hu = holds_put [OF im(3) q(3,1), of "\<lparr>uhp_val = c\<rparr>"] holds_mset [OF us, of "uheaders m1"]
  have r: "ring ?m h xs = ring m2 h xs" for h xs by (rule ring_cong) (simp add: is_head_def)
  have o: "other_heads ?m B = other_heads m2 B" for B by (rule ext) (simp add: other_heads_def)
  have lh: "l_heads p ?L = insert q (l_heads p L)" by (auto simp: l_heads_def)
  have o2: "object (msgs m2) p = Inr (struct_of L)" using im(8,10) obj m1(6) by (simp add: object_def)
  have st: "mm_num_headers (struct_of L) = int (length (l_us L))" by (simp add: struct_of_def)
  have "(struct_of L)\<lparr>mm_num_headers := int (length (l_us L)) + 1\<rparr> = struct_of ?L" by (simp add: struct_of_def)
  then have "set_msg p (\<lambda>mm. mm\<lparr>mm_num_headers := int (length (l_us L)) + 1\<rparr>) m2 = Inr ?m"
    using im(8,10) obj m1(6) by (simp add: set_msg_def object_def)
  then have run: "mem_msg_add_header A p a m =
      bind_res (int_add (int (length (l_us L))) 1) (\<lambda>num. Inr (0, ?m))"
    using cr m2(1) a im(8) o2 st by (simp add: mem_msg_add_header_def assert_ptr_def int_add_def)
  have spec: "hms_msg_add_header (Some (msg_of L)) (Some s) =
      bind_res (int_add (int (length (l_us L))) 1) (\<lambda>num. Inr (msg_of ?L, 0))"
    by (simp add: hms_msg_add_header_res int_add_def uheader_of_def)
  have "in_memory ?m p ?L"
    using holds_msg_set [OF im(1)] new_layout [OF assms(1) cs c] hu im(4,7) m2(2,3,6,7) obj m1(3-6) r
    by (simp add: in_memory_def)
  moreover have "rest ?m p ?L = rest m p L"
    using holds_msg_set [OF im(1)] new_layout [OF assms(1) cs c] hu obj m1(3-6) o lh m2(5)
    by (simp add: rest_def)
  ultimately show ?thesis unfolding run spec
    by (cases "int_add (int (length (l_us L))) 1") (auto simp: performs_def intro!: exI [of _ ?m] exI [of _ ?L])
qed

lemma performs_add_named:
  assumes "in_memory m p L" "finite_memory m" "arg_is (rest m p L) a ks" "arg_is (rest m p L) b vs"
  shows "performs m p L (hms_msg_add_named_header (Some (msg_of L)) (Some ks) (Some vs))
    (mem_msg_add_named_header A p a b m)"
proof -
  obtain ns m0 where del: "mem_msg_del_named_header p a m = returns (0, m0)"
    "map nheader_of ns = del_named ks (map nheader_of (l_ns L))"
    "in_memory m0 p (L\<lparr>l_ns := ns\<rparr>)" "rest m0 p (L\<lparr>l_ns := ns\<rparr>) = rest m p L"
    using mem_del_named [OF assms(1)] arg_is_deref [OF assms(3)] by blast
  define L0 where "L0 = L\<lparr>l_ns := ns\<rparr>"
  have im0: "in_memory m0 p L0" "rest m0 p L0 = rest m p L" using del(3,4) by (simp_all add: L0_def)
  note im = in_memoryD [OF im0(1)]
  have fm: "finite_memory m0" using assms(2) finite_memory_rest [of m0 p L0] finite_memory_rest [of m p L] im0(2) by simp
  have a: "deref_arg m0 a = Inr ks" "assert_arg a = Inr ()" "deref_arg m0 b = Inr vs" "assert_arg b = Inr ()"
    using arg_is_deref [of m0 p L0] assms(3,4) im0(2) by simp_all
  from create_named_header [OF fm a(2,1,4,3)] obtain q k v m1 where
    cr: "mem_create_named_header A a b m0 = Inr (q, m1)" and q: "q \<noteq> 0" "\<not> mapped m0 q" "nheaders m0 q = None"
    and k: "k \<noteq> 0" "chars m0 k = None" and v: "v \<noteq> 0" "v \<noteq> k" "chars m0 v = None"
    and m1: "mapped m1 = (mapped m0)(q := True)"
    "\<And>x. x \<noteq> q \<Longrightarrow> next_of m1 x = next_of m0 x \<and> prev_of m1 x = prev_of m0 x"
    "chars m1 = (chars m0)(k \<mapsto> ks, v \<mapsto> vs)" "nheaders m1 = (nheaders m0)(q \<mapsto> \<lparr>nhp_key = k, nhp_val = v\<rparr>)"
    "uheaders m1 = uheaders m0" "msgs m1 = msgs m0" by blast
  have B: "set (named_headers_lh p # map fst (l_ns L0)) \<subseteq> l_heads p L0" by (auto simp: l_heads_def)
  have dis: "set (named_headers_lh p # map fst (l_ns L0)) \<inter> set (headers_lh p # map fst (l_us L0)) = {}"
    using im(7) by (metis Int_commute)
  from link_new [OF im(6,5) dis q(2,1) m1(1,2) B] obtain m2 where
    m2: "hms_list_add_tail q (named_headers_lh p) m1 = Inr m2" "ring m2 (named_headers_lh p) (map fst (l_ns L0) @ [q])"
    "ring m2 (headers_lh p) (map fst (l_us L0))" "same_outside (set (q # named_headers_lh p # map fst (l_ns L0))) m1 m2"
    "other_heads m2 (insert q (l_heads p L0)) = other_heads m0 (l_heads p L0)"
    "q \<notin> set (named_headers_lh p # map fst (l_ns L0))" "q \<notin> set (headers_lh p # map fst (l_us L0))" by blast
  note obj = same_outside_objects [OF m2(4)]
  let ?L = "L0\<lparr>l_ns := l_ns L0 @ [(q, (k, ks), (v, vs))]\<rparr>"
  let ?m = "m2\<lparr>msgs := (msgs m0)(p \<mapsto> struct_of ?L)\<rparr>"
  have cs: "mset (l_chars ?L) = mset ((v, vs) # (k, ks) # l_chars L0)" by (simp add: l_chars_def)
  have ns: "mset (n_objects (l_ns ?L)) = mset ((q, \<lparr>nhp_key = k, nhp_val = v\<rparr>) # n_objects (l_ns L0))" by (simp add: n_objects_def)
  note hn = holds_put [OF im(4) q(3,1), of "\<lparr>nhp_key = k, nhp_val = v\<rparr>"] holds_mset [OF ns, of "nheaders m1"]
  have hk: "holds ((chars m0)(k \<mapsto> ks)) ((k, ks) # l_chars L0)"
    "outside ((chars m0)(k \<mapsto> ks)) ((k, ks) # l_chars L0) = outside (chars m0) (l_chars L0)"
    using holds_put [OF im(2) k(2,1), of ks] by simp_all
  have "((chars m0)(k \<mapsto> ks)) v = None" using v by simp
  note hp = holds_put [OF hk(1) this v(1), of vs]
  have hv: "holds (chars m1) (l_chars ?L)" "outside (chars m1) (l_chars ?L) = outside (chars m0) (l_chars L0)"
    unfolding holds_mset [OF cs] unfolding m1(3) using hp hk(2) by (simp_all only:)
  have r: "ring ?m h xs = ring m2 h xs" for h xs by (rule ring_cong) (simp add: is_head_def)
  have o: "other_heads ?m B = other_heads m2 B" for B by (rule ext) (simp add: other_heads_def)
  have lh: "l_heads p ?L = insert q (l_heads p L0)" by (auto simp: l_heads_def)
  have o2: "object (msgs m2) p = Inr (struct_of L0)" using im(8,10) obj m1(6) by (simp add: object_def)
  have st: "mm_num_named_headers (struct_of L0) = int (length ns)" by (simp add: struct_of_def L0_def)
  have "(struct_of L0)\<lparr>mm_num_named_headers := int (length ns) + 1\<rparr> = struct_of ?L" by (simp add: struct_of_def L0_def)
  then have "set_msg p (\<lambda>mm. mm\<lparr>mm_num_named_headers := int (length ns) + 1\<rparr>) m2 = Inr ?m"
    using im(8,10) obj m1(6) by (simp add: set_msg_def object_def)
  then have run: "mem_msg_add_named_header A p a b m =
      bind_run (Some (int_add (int (length ns)) 1)) (\<lambda>num. returns (0, ?m))"
    using cr m2(1) a q(1) im(8) del(1) o2 st by (simp add: mem_msg_add_named_header_def assert_ptr_def int_add_def)
  have spec: "hms_msg_add_named_header (Some (msg_of L)) (Some ks) (Some vs) =
      bind_res (int_add (int (length ns)) 1) (\<lambda>num. Inr (msg_of ?L, 0))"
    using length_named [OF del(2)] del(2)
    by (simp add: hms_msg_add_named_header_res put_named_def L0_def nheader_of_def int_add_def)
  have "in_memory ?m p ?L"
    using holds_msg_set [OF im(1)] hv hn im(3,7) m2(2,3,6,7) obj m1(4-6) r
    by (simp add: in_memory_def)
  moreover have "rest ?m p ?L = rest m p L"
    using holds_msg_set [OF im(1)] hv hn obj m1(4-6) o lh m2(5) im0(2)
    by (simp add: rest_def)
  moreover have "l_dead ?L = l_dead L" by (simp add: L0_def)
  ultimately show ?thesis unfolding run spec
    by (cases "int_add (int (length ns)) 1") (auto simp: performs_def intro!: exI [of _ ?m] exI [of _ ?L])
qed

end

end
