(* ===== verification/Msg_Content.thy ===== *)
theory Msg_Content
  imports Msg_New
begin

section \<open>Verb, content and lookups of a message in memory\<close>

lemma finite_same: "rest m' p L' = rest m p L \<Longrightarrow> finite_memory m' = finite_memory m"
  using finite_memory_rest [of m' p L'] finite_memory_rest [of m p L] by simp

lemma performs_trans:
  "performs m' p L' spec run \<Longrightarrow> rest m' p L' = rest m p L \<Longrightarrow> l_dead L' = l_dead L \<Longrightarrow> performs m p L spec run"
  by (simp add: performs_def cong: sum.case_cong)

text \<open>
  A call that looks something up answers what the operation of Hms_Msg answers, a string in a new array; nothing
  else changes.
\<close>

definition answers ::
    "msg_memory \<Rightarrow> (char list option \<times> int) res \<Rightarrow> (ptr \<times> int \<times> msg_memory) run \<Rightarrow> bool" where
  "answers m spec run \<longleftrightarrow>
     (case spec of
        Inl e \<Rightarrow> run = Some (Inl e)
      | Inr (None, r) \<Rightarrow> run = returns (0, r, m)
      | Inr (Some s, r) \<Rightarrow> \<exists>q. q \<noteq> 0 \<and> chars m q = None \<and> run = returns (q, r, m\<lparr>chars := (chars m)(q \<mapsto> s)\<rparr>))"

lemma deref_Lit: "deref_arg m (Lit s) = Inr s" "assert_arg (Lit s) = Inr ()"
  by (simp_all add: deref_arg_def assert_arg_def)

lemma assert_value [simp]:
  "e = c \<Longrightarrow> hms_assert_equals e c = Inr ()" "e \<noteq> c \<Longrightarrow> hms_assert_equals e c = Inl AssertExit"
  "e \<noteq> c \<Longrightarrow> hms_assert_not_equals e c = Inr ()" "e = c \<Longrightarrow> hms_assert_not_equals e c = Inl AssertExit"
  by (simp_all add: hms_assert_equals_def hms_assert_not_equals_def hms_assert_low_def)

lemma check_length_new:
  assumes "object (msgs m) p = Inr mm" "q \<noteq> 0" "chars m q = None"
  shows "check_length p q (m\<lparr>chars := (chars m)(q \<mapsto> v)\<rparr>) =
    bind_res (hms_assert_equals (mm_content_len mm) (atoi v)) (\<lambda>_. Inr m)"
proof -
  have "(chars m)(q := None) = chars m" using assms(3) by (rule fun_upd_idem)
  then show ?thesis using assms(1,2) by (simp add: check_length_def deref_arg_def free_chars_def object_def)
qed

lemma find_header_uheader:
  assumes "0 \<le> index" "nat index < length us" "us ! nat index = (q, v, s)"
  shows "find_header 0 index (map uheader_of us) = Inr s"
  using find_header_nth [of 0 index "map uheader_of us"] assms by (simp add: uheader_of_def)

context heap_allocator begin

lemma strdup_new:
  assumes "finite_memory m" "deref_arg m a = Inr s"
  shows "\<exists>q. strdup A a m = Inr (q, m\<lparr>chars := (chars m)(q \<mapsto> s)\<rparr>) \<and> q \<noteq> 0 \<and> chars m q = None"
  using new_chars [OF assms(1)] assms(2) by (simp add: strdup_def put_chars_def Let_def)

lemma answers_strdup:
  assumes "finite_memory m" "object (chars m) c = Inr s"
  shows "answers m (Inr (Some s, r)) (bind_run (Some (strdup A (At c) m)) (\<lambda>(q, m). returns (q, r, m)))"
  using strdup_new [OF assms(1), of "At c" s] assms(2) by (auto simp: answers_def deref_arg_def)

lemma answers_get_verb:
  assumes "in_memory m p L" "finite_memory m"
  shows "answers m (hms_msg_get_verb (Some (msg_of L))) (Some (mem_msg_get_verb A p m))"
proof (cases "l_verb L")
  case None
  with in_memoryD(8,9) [OF assms(1)] show ?thesis
    by (simp add: answers_def hms_msg_get_verb_def mem_msg_get_verb_def struct_of_def assert_ptr_def)
next
  case (Some v)
  then have "(fst v, snd v) \<in> set (l_chars L)" by (simp add: l_chars_def)
  then have v: "fst v \<noteq> 0" "object (chars m) (fst v) = Inr (snd v)"
    using in_memoryD(2) [OF assms(1)] by (auto simp: holds_def object_def)
  from strdup_new [OF assms(2), of "At (fst v)" "snd v"] v Some in_memoryD(8,9) [OF assms(1)] show ?thesis
    by (auto simp: answers_def hms_msg_get_verb_def mem_msg_get_verb_def struct_of_def assert_ptr_def deref_arg_def)
qed

lemma answers_get_header:
  assumes "in_memory m p L" "finite_memory m"
  shows "answers m (hms_msg_get_header (Some (msg_of L)) index) (mem_msg_get_header A p index m)"
proof (cases "0 \<le> index \<and> index < int (length (l_us L))")
  case True
  then have i: "nat index < length (l_us L)" and ne: "l_us L \<noteq> []" by auto
  let ?ys = "map fst (take (nat index) (l_us L))"
  obtain q v s where u: "l_us L ! nat index = (q, v, s)" by (metis surj_pair)
  have qm: "(q, v, s) \<in> set (l_us L)" using u i by (metis nth_mem)
  have "map fst (l_us L) = ?ys @ map fst ((q, v, s) # drop (Suc (nat index)) (l_us L))"
    using id_take_nth_drop [OF i] u by (metis map_append)
  then have us: "map fst (l_us L) = ?ys @ q # map fst (drop (Suc (nat index)) (l_us L))" by simp
  let ?body = "\<lambda>hdr i. Inr (i + 1, i = index)"
  have "?body (?ys ! j) (int j) = Inr (int (Suc j), False)" if "j < length ?ys" for j
    using that by auto
  from loop_list_skip [where body = ?body and st = int and ys = ?ys, OF this]
  have "loop_list ?body (map fst (l_us L)) 0 = Inr (index + 1, Some q)"
    unfolding us using True i by (simp add: min_def)
  with for_each_entry_ring [where body = ?body and s = 0, OF in_memoryD(5) [OF assms(1)]]
  have "hms_list_for_each_entry ?body m (headers_lh p) 0 = returns (index + 1, q)" by simp
  moreover have "hms_msg_get_header (Some (msg_of L)) index = Inr (Some s, 0)"
    using True ne find_header_uheader [OF _ i u] by (auto simp: hms_msg_get_header_def)
  ultimately show ?thesis
    using True ne in_memoryD(8,9) [OF assms(1)] uheader_objects [OF assms(1) qm]
      answers_strdup [OF assms(2) uheader_objects(2) [OF assms(1) qm], of 0]
    by (auto simp: mem_msg_get_header_def assert_ptr_def struct_of_def)
next
  case False
  with in_memoryD(8,9) [OF assms(1)] show ?thesis
    by (auto simp: mem_msg_get_header_def hms_msg_get_header_def assert_ptr_def struct_of_def answers_def)
qed

lemma answers_get_named:
  assumes "in_memory m p L" "finite_memory m" "arg_is (rest m p L) a ks"
  shows "answers m (hms_msg_get_named_header (Some (msg_of L)) (Some ks)) (mem_msg_get_named_header A p a m)"
proof -
  have d: "deref_arg m a = Inr ks" using arg_is_deref [OF assms(3)] by simp
  let ?body = "\<lambda>hdr found. bind_res (key_matches m a hdr) (\<lambda>matches. Inr (if matches then (True, True) else (found, False)))"
  have skip: "?body (map fst xs ! j) False = Inr (False, False)"
    if "j < length (map fst xs)" "set xs \<subseteq> set (l_ns L)" "\<And>q k v. (q, k, v) \<in> set xs \<Longrightarrow> strcasecmp (snd k) ks \<noteq> 0" for xs j
  proof -
    obtain q k s v vs where x: "xs ! j = (q, (k, s), (v, vs))" by (metis surj_pair)
    have "xs ! j \<in> set xs" using that(1) by (intro nth_mem) simp
    then have x': "(q, (k, s), (v, vs)) \<in> set xs" using x by simp
    with that(2) have "(q, (k, s), (v, vs)) \<in> set (l_ns L)" by blast
    from key_matches_memory [OF assms(1) d this] that(3) [OF x'] that(1) x show ?thesis by simp
  qed
  note loop = for_each_entry_ring [where body = ?body and s = False, OF in_memoryD(6) [OF assms(1)]]
  have call: "mem_msg_get_named_header A p a m =
      bind_run (hms_list_for_each_entry ?body m (named_headers_lh p) False) (\<lambda>(found, hdr).
        if found \<and> hdr \<noteq> 0 then
          bind_run (Some (object (nheaders m) hdr)) (\<lambda>n.
          bind_run (Some (strdup A (At (nhp_val n)) m)) (\<lambda>(q, m). returns (q, 0, m)))
        else returns (0, -1, m))"
    using in_memoryD(8) [OF assms(1)] arg_is_deref [OF assms(3)] by (simp add: mem_msg_get_named_header_def assert_ptr_def)
  show ?thesis
  proof (rule named_cases [where ks = ks and ns = "l_ns L"], goal_cases)
    case none: 1
    have sk: "?body (map fst (l_ns L) ! j) False = Inr (False, False)" if "j < length (map fst (l_ns L))" for j
      by (rule skip [OF that _ none(2)]) simp_all
    from loop_list_skip [where body = ?body and st = "\<lambda>_. False" and us = "[]", OF sk] loop
    have "hms_list_for_each_entry ?body m (named_headers_lh p) False = returns (False, named_headers_lh p)" by simp
    with call none(1) show ?thesis by (simp add: answers_def hms_msg_get_named_header_eq)
  next
    case found: (2 xs q k s v vs ys)
    have sk: "?body (map fst xs ! j) False = Inr (False, False)" if "j < length (map fst xs)" for j
      by (rule skip [OF that _ found(3)]) (use found(1) in auto)
    have n: "(q, (k, s), (v, vs)) \<in> set (l_ns L)" using found(1) by simp
    have "?body q False = Inr (True, True)" using key_matches_memory [OF assms(1) d n] found(2) by simp
    then have "loop_list ?body (map fst (l_ns L)) False = Inr (True, Some q)"
      using loop_list_skip [where body = ?body and st = "\<lambda>_. False" and us = "q # map fst ys", OF sk] found(1) by simp
    with loop have "hms_list_for_each_entry ?body m (named_headers_lh p) False = returns (True, q)" by simp
    with call nheader_objects [OF assms(1) n] have "mem_msg_get_named_header A p a m =
        bind_run (Some (strdup A (At v) m)) (\<lambda>(q, m). returns (q, 0, m))" by simp
    with answers_strdup [OF assms(2) nheader_objects(3) [OF assms(1) n], of 0] found(4) show ?thesis
      by (simp add: hms_msg_get_named_header_eq)
  qed
qed

text \<open>The value of the \<open>Content-Length\<close> header, compared with the length and freed again.\<close>

lemma get_length:
  assumes "in_memory m p L" "finite_memory m"
  shows "(case find_named HMS_CONTENT_LENGTH (map nheader_of (l_ns L)) of
      None \<Rightarrow> mem_msg_get_named_header A p (Lit HMS_CONTENT_LENGTH) m = returns (0, -1, m)
    | Some v \<Rightarrow> \<exists>q m'. mem_msg_get_named_header A p (Lit HMS_CONTENT_LENGTH) m = returns (q, 0, m') \<and>
        check_length p q m' = bind_res (hms_assert_equals (l_len L) (atoi v)) (\<lambda>_. Inr m))"
  using answers_get_named [OF assms, of "Lit HMS_CONTENT_LENGTH" HMS_CONTENT_LENGTH]
    check_length_new [OF in_memoryD(9) [OF assms(1)]]
  by (auto simp: answers_def hms_msg_get_named_header_eq struct_of_def split: option.splits)

lemma get_body_size_memory:
  assumes "in_memory m p L" "finite_memory m"
  shows "mem_msg_get_body_size A p m = Some (bind_res (hms_msg_get_body_size (Some (msg_of L))) (\<lambda>n. Inr (n, m)))"
proof (cases "find_named HMS_CONTENT_LENGTH (map nheader_of (l_ns L))")
  case None
  with get_length [OF assms] in_memoryD(8,9) [OF assms(1)] show ?thesis
    by (simp add: mem_msg_get_body_size_def hms_msg_get_body_size_def hms_msg_get_named_header_eq assert_ptr_def
      struct_of_def) (cases "l_len L = 0"; simp)
next
  case (Some v)
  with get_length [OF assms] obtain q m' where
    "mem_msg_get_named_header A p (Lit HMS_CONTENT_LENGTH) m = returns (q, 0, m')"
    "check_length p q m' = bind_res (hms_assert_equals (l_len L) (atoi v)) (\<lambda>_. Inr m)" by auto
  with Some in_memoryD(8,9) [OF assms(1)] show ?thesis
    by (simp add: mem_msg_get_body_size_def hms_msg_get_body_size_def hms_msg_get_named_header_eq assert_ptr_def
      struct_of_def deref_def) (cases "l_len L = atoi v"; simp)
qed

text \<open>The content pointer is NULL exactly when there is no content.\<close>

lemma content_pointer:
  assumes "in_memory m p L"
  shows "l_content L = Some (a, c) \<Longrightarrow> a \<noteq> 0 \<and> object (chars m) a = Inr c \<and> mm_content (struct_of L) = a"
    "l_content L = None \<Longrightarrow> mm_content (struct_of L) = l_dead L"
proof -
  assume c: "l_content L = Some (a, c)"
  then have "(a, c) \<in> set (l_chars L)" by (simp add: l_chars_def)
  then show "a \<noteq> 0 \<and> object (chars m) a = Inr c \<and> mm_content (struct_of L) = a"
    using in_memoryD(2) [OF assms] c by (auto simp: holds_def object_def struct_of_def)
qed (simp add: struct_of_def)

lemma get_body_memory:
  assumes "in_memory m p L" "finite_memory m" "l_dead L = 0"
  shows "case hms_msg_get_body (Some (msg_of L)) of
      Inl e \<Rightarrow> mem_msg_get_body A p m = Some (Inl e)
    | Inr (None, n, r) \<Rightarrow> mem_msg_get_body A p m = returns (0, n, r, m)
    | Inr (Some s, n, r) \<Rightarrow> \<exists>q. q \<noteq> 0 \<and> chars m q = None \<and>
        mem_msg_get_body A p m = returns (q, n, r, m\<lparr>chars := (chars m)(q \<mapsto> s)\<rparr>)"
proof (cases "l_content L")
  case None
  with in_memoryD(8,9) [OF assms(1)] content_pointer(2) [OF assms(1)] assms(3) show ?thesis
    by (simp add: mem_msg_get_body_def hms_msg_get_body_def assert_ptr_def)
next
  case (Some ac)
  then obtain a c where ac: "l_content L = Some (a, c)" by (cases ac) simp
  note cp = content_pointer(1) [OF assms(1) ac]
  have n: "mm_content_len (struct_of L) = l_len L" by (simp add: struct_of_def)
  note im = in_memoryD(8,9) [OF assms(1)]
  show ?thesis
  proof (cases "find_named HMS_CONTENT_LENGTH (map nheader_of (l_ns L))")
    case None
    with get_length [OF assms(1,2)] ac cp im show ?thesis
      by (simp add: mem_msg_get_body_def hms_msg_get_body_def hms_msg_get_named_header_eq assert_ptr_def)
  next
    case (Some v)
    with get_length [OF assms(1,2)] obtain q m' where
      g: "mem_msg_get_named_header A p (Lit HMS_CONTENT_LENGTH) m = returns (q, 0, m')"
      "check_length p q m' = bind_res (hms_assert_equals (l_len L) (atoi v)) (\<lambda>_. Inr m)" by auto
    have new: "new_chars A m \<noteq> 0" "chars m (new_chars A m) = None" using new_chars [OF assms(2)] by simp_all
    show ?thesis
    proof (cases "l_len L = atoi v")
      case True
      with g new Some ac cp im n show ?thesis
        by (cases "copy_out c (l_len L)")
          (auto simp: mem_msg_get_body_def hms_msg_get_body_def hms_msg_get_named_header_eq assert_ptr_def deref_def
            put_chars_def Let_def)
    next
      case False
      with g Some ac cp im n show ?thesis
        by (simp add: mem_msg_get_body_def hms_msg_get_body_def hms_msg_get_named_header_eq assert_ptr_def deref_def)
    qed
  qed
qed

text \<open>The end of \<open>hms_msg_del_body\<close>: the two headers of a body go, then the content pointer and the length.\<close>

lemma del_content_headers:
  assumes "in_memory m p L" "l_content L = None"
  obtains ns m' where
    "bind_run (mem_msg_del_named_header p (Lit HMS_CONTENT_LENGTH) m) (\<lambda>(ret, m).
     bind_run (Some (hms_assert_equals 0 ret)) (\<lambda>_.
     bind_run (mem_msg_del_named_header p (Lit HMS_CONTENT_CHECKSUM) m) (\<lambda>(ret, m).
     bind_run (Some (hms_assert_equals 0 ret)) (\<lambda>_.
     bind_run (Some (set_msg p (\<lambda>mm. mm\<lparr>mm_content := 0, mm_content_len := 0\<rparr>) m)) (\<lambda>m.
     returns (0 :: int, m)))))) = returns (0, m')"
    "map nheader_of ns = del_named HMS_CONTENT_CHECKSUM (del_named HMS_CONTENT_LENGTH (map nheader_of (l_ns L)))"
    "in_memory m' p (L\<lparr>l_ns := ns, l_dead := 0, l_len := 0\<rparr>)" "rest m' p (L\<lparr>l_ns := ns, l_dead := 0, l_len := 0\<rparr>) = rest m p L"
proof -
  from mem_del_named [OF assms(1) deref_Lit, of HMS_CONTENT_LENGTH] obtain ns2 m2 where
    m2: "mem_msg_del_named_header p (Lit HMS_CONTENT_LENGTH) m = returns (0, m2)"
    "map nheader_of ns2 = del_named HMS_CONTENT_LENGTH (map nheader_of (l_ns L))"
    "in_memory m2 p (L\<lparr>l_ns := ns2\<rparr>)" "rest m2 p (L\<lparr>l_ns := ns2\<rparr>) = rest m p L" by auto
  from mem_del_named [OF m2(3) deref_Lit, of HMS_CONTENT_CHECKSUM] obtain ns3 m3 where
    m3: "mem_msg_del_named_header p (Lit HMS_CONTENT_CHECKSUM) m2 = returns (0, m3)"
    "map nheader_of ns3 = del_named HMS_CONTENT_CHECKSUM (map nheader_of ns2)"
    "in_memory m3 p (L\<lparr>l_ns := ns3\<rparr>)" "rest m3 p (L\<lparr>l_ns := ns3\<rparr>) = rest m p L"
    using m2(4) by auto
  let ?L = "L\<lparr>l_ns := ns3, l_dead := 0, l_len := 0\<rparr>"
  have "\<exists>m4. set_msg p (\<lambda>mm. mm\<lparr>mm_content := 0, mm_content_len := 0\<rparr>) m3 = Inr m4 \<and>
      in_memory m4 p ?L \<and> rest m4 p ?L = rest m3 p (L\<lparr>l_ns := ns3\<rparr>)"
    by (rule set_msg_fields [OF m3(3)]) (use assms(2) in \<open>simp_all add: struct_of_def l_chars_def\<close>)
  then show thesis using that [of _ ns3] m2(1,2) m3(1,2,4) by auto
qed

text \<open>While \<open>hms_msg_del_body\<close> runs, the content pointer is that of the array it has freed.\<close>

lemma performs_del_body:
  assumes "in_memory m p L" "finite_memory m" "l_dead L = 0"
  shows "performs m p L (hms_msg_del_body (Some (msg_of L))) (mem_msg_del_body A p m)"
proof (cases "l_content L")
  case None
  with in_memoryD(8,9) [OF assms(1)] content_pointer(2) [OF assms(1)] assms(1,3) show ?thesis
    by (intro performsI [of _ 0 m p L]) (simp_all add: mem_msg_del_body_def hms_msg_del_body_def assert_ptr_def)
next
  case (Some ac)
  then obtain a c where ac: "l_content L = Some (a, c)" by (cases ac) simp
  note cp = content_pointer(1) [OF assms(1) ac] note im = in_memoryD(8,9) [OF assms(1)]
  let ?L1 = "L\<lparr>l_content := None, l_dead := a\<rparr>"
  let ?m1 = "m\<lparr>chars := (chars m)(a := None)\<rparr>"
  have "mset (l_chars L) = mset ((a, c) # l_chars ?L1)" using ac by (simp add: l_chars_def)
  note fr = free_layout [OF assms(1) this]
  have s1: "struct_of ?L1 = struct_of L" using ac by (simp add: struct_of_def)
  have m1: "in_memory ?m1 p ?L1" "rest ?m1 p ?L1 = rest m p L"
    using chars_layout [OF assms(1) fr(3,4) s1] by simp_all
  have fm: "finite_memory ?m1" using assms(2) finite_same [OF m1(2)] by simp
  have none: "l_content ?L1 = None" and ns1: "l_ns ?L1 = l_ns L" by simp_all
  obtain ns m' where m': "bind_run (mem_msg_del_named_header p (Lit HMS_CONTENT_LENGTH) ?m1) (\<lambda>(ret, m).
       bind_run (Some (hms_assert_equals 0 ret)) (\<lambda>_.
       bind_run (mem_msg_del_named_header p (Lit HMS_CONTENT_CHECKSUM) m) (\<lambda>(ret, m).
       bind_run (Some (hms_assert_equals 0 ret)) (\<lambda>_.
       bind_run (Some (set_msg p (\<lambda>mm. mm\<lparr>mm_content := 0, mm_content_len := 0\<rparr>) m)) (\<lambda>m.
       returns (0 :: int, m)))))) = returns (0, m')"
    and ns: "map nheader_of ns = del_named HMS_CONTENT_CHECKSUM (del_named HMS_CONTENT_LENGTH (map nheader_of (l_ns L)))"
    and im': "in_memory m' p (?L1\<lparr>l_ns := ns, l_dead := 0, l_len := 0\<rparr>)"
      "rest m' p (?L1\<lparr>l_ns := ns, l_dead := 0, l_len := 0\<rparr>) = rest m p L"
    using del_content_headers [OF m1(1) none, unfolded m1(2) ns1] .
  note spec = hms_msg_del_body_def hms_msg_get_named_header_eq
  note run = mem_msg_del_body_def assert_ptr_def
  show ?thesis
  proof (cases "find_named HMS_CONTENT_LENGTH (map nheader_of (l_ns L))")
    case None
    with get_length [OF m1(1) fm] im cp fr(1) have "mem_msg_del_body A p m = Some (Inl AssertExit)" by (simp add: run)
    with None ac show ?thesis by (simp add: performs_def spec)
  next
    case (Some v)
    with get_length [OF m1(1) fm] obtain q m2 where
      g: "mem_msg_get_named_header A p (Lit HMS_CONTENT_LENGTH) ?m1 = returns (q, 0, m2)"
      "check_length p q m2 = bind_res (hms_assert_equals (l_len L) (atoi v)) (\<lambda>_. Inr ?m1)" by auto
    show ?thesis
    proof (cases "l_len L = atoi v")
      case True
      have len: "int (length ns) = int (length (del_named HMS_CONTENT_CHECKSUM (del_named HMS_CONTENT_LENGTH (map nheader_of (l_ns L)))))"
        using ns by (metis length_map)
      have run1: "mem_msg_del_body A p m = returns (0, m')"
        using True g im cp fr(1) m' by (simp add: run)
      have "hms_msg_del_body (Some (msg_of L)) = Inr (msg_of (?L1\<lparr>l_ns := ns, l_dead := 0, l_len := 0\<rparr>), 0)"
        using True Some ac ns len
        by (simp add: spec hms_msg_del_named_header_eq deref_def length_del_named)
      from performsI [OF run1 im'(1) this _ im'(2)] assms(3) show ?thesis by simp
    next
      case False
      with g im cp fr(1) have "mem_msg_del_body A p m = Some (Inl AssertExit)" by (simp add: run)
      with False Some ac show ?thesis by (simp add: performs_def spec deref_def)
    qed
  qed
qed

end

end
