(* ===== verification/Msg_Memory_Correct.thy ===== *)
theory Msg_Memory_Correct
  imports Msg_Content
begin

section \<open>Correctness of the messages in memory\<close>

text \<open>
  Every operation of hms_msg.c on a message in memory does what the operation of Hms_Msg does to its value;
  sequences of operations, and the life of a message from \<open>hms_msg_create\<close> to \<open>hms_msg_destroy\<close>.
\<close>

subsection \<open>The remaining operations\<close>

lemma l_chars_verb: "mset (l_chars (L\<lparr>l_verb := Some (a, s)\<rparr>)) = mset ((a, s) # l_chars (L\<lparr>l_verb := None\<rparr>))"
  by (cases L) (simp add: l_chars_def)

lemma drop_verb:
  assumes "in_memory m p L"
  shows "\<exists>m'. (if mm_verb (struct_of L) \<noteq> 0 then
        bind_res (free_chars (mm_verb (struct_of L)) m) (set_msg p (\<lambda>mm. mm\<lparr>mm_verb := 0\<rparr>)) else Inr m) = Inr m' \<and>
      in_memory m' p (L\<lparr>l_verb := None\<rparr>) \<and> rest m' p (L\<lparr>l_verb := None\<rparr>) = rest m p L"
proof (cases "l_verb L")
  case None
  then have "L\<lparr>l_verb := None\<rparr> = L" "mm_verb (struct_of L) = 0" by (cases L, simp add: struct_of_def)+
  with assms show ?thesis by simp
next
  case (Some v)
  let ?L = "L\<lparr>l_verb := None\<rparr>"
  have "mset (l_chars L) = mset ((fst v, snd v) # l_chars ?L)" using Some by (simp add: l_chars_def)
  note fr = free_layout [OF assms this]
  have "\<exists>m'. set_msg p (\<lambda>mm. mm\<lparr>mm_verb := 0\<rparr>) (m\<lparr>chars := (chars m)(fst v := None)\<rparr>) = Inr m' \<and>
      in_memory m' p ?L \<and> rest m' p ?L = rest m p L"
    by (rule set_msg_layout [OF assms fr(3,4)]) (simp_all add: struct_of_def)
  moreover have "mm_verb (struct_of L) = fst v" using Some by (simp add: struct_of_def)
  ultimately show ?thesis using fr(1,2) by simp
qed

lemma drop_content:
  assumes "in_memory m p L" "l_dead L = 0"
  shows "\<exists>m' L'. (if mm_content (struct_of L) \<noteq> 0 then
        bind_res (free_chars (mm_content (struct_of L)) m) (set_msg p (\<lambda>mm. mm\<lparr>mm_content := 0, mm_content_len := 0\<rparr>))
      else Inr m) = Inr m' \<and> in_memory m' p L' \<and> rest m' p L' = rest m p L \<and>
      l_content L' = None \<and> l_us L' = l_us L \<and> l_ns L' = l_ns L \<and> l_verb L' = l_verb L \<and> l_dead L' = 0"
proof (cases "l_content L")
  case None
  then have "mm_content (struct_of L) = 0" using assms(2) by (simp add: struct_of_def)
  with assms None show ?thesis by auto
next
  case (Some c)
  let ?L = "L\<lparr>l_content := None, l_len := 0\<rparr>"
  have "mset (l_chars L) = mset ((fst c, snd c) # l_chars ?L)" using Some by (simp add: l_chars_def)
  note fr = free_layout [OF assms(1) this]
  have "\<exists>m'. set_msg p (\<lambda>mm. mm\<lparr>mm_content := 0, mm_content_len := 0\<rparr>) (m\<lparr>chars := (chars m)(fst c := None)\<rparr>) = Inr m' \<and>
      in_memory m' p ?L \<and> rest m' p ?L = rest m p L"
    by (rule set_msg_layout [OF assms(1) fr(3,4)]) (simp_all add: struct_of_def assms(2))
  moreover have "mm_content (struct_of L) = fst c" using Some by (simp add: struct_of_def)
  ultimately obtain m' where "(if mm_content (struct_of L) \<noteq> 0 then
        bind_res (free_chars (mm_content (struct_of L)) m) (set_msg p (\<lambda>mm. mm\<lparr>mm_content := 0, mm_content_len := 0\<rparr>))
      else Inr m) = Inr m'" "in_memory m' p ?L" "rest m' p ?L = rest m p L" using fr(1,2) by auto
  then show ?thesis using assms(2) by (intro exI [of _ m'] exI [of _ ?L]) simp
qed

text \<open>\<open>hms_msg_destroy\<close> needs no allocation: it ends, and leaves the memory without the message.\<close>

lemma destroy_memory:
  assumes "in_memory m p L" "l_dead L = 0"
  shows "\<exists>m'. mem_msg_destroy p m = returns (0, m') \<and> contents m' = rest m p L"
proof -
  obtain m1 L1 where
    m1: "(if mm_content (struct_of L) \<noteq> 0 then
        bind_res (free_chars (mm_content (struct_of L)) m) (set_msg p (\<lambda>mm. mm\<lparr>mm_content := 0, mm_content_len := 0\<rparr>))
      else Inr m) = Inr m1" "in_memory m1 p L1" "rest m1 p L1 = rest m p L"
      "l_content L1 = None" "l_us L1 = l_us L" "l_ns L1 = l_ns L" "l_verb L1 = l_verb L" "l_dead L1 = 0"
    using drop_content [OF assms] by blast
  have v: "mm_verb (struct_of L1) = mm_verb (struct_of L)" using m1(7) by (simp add: struct_of_def)
  let ?L2 = "L1\<lparr>l_verb := None\<rparr>"
  obtain m2 where m2: "(if mm_verb (struct_of L) \<noteq> 0 then
        bind_res (free_chars (mm_verb (struct_of L)) m1) (set_msg p (\<lambda>mm. mm\<lparr>mm_verb := 0\<rparr>)) else Inr m1) = Inr m2"
      "in_memory m2 p ?L2" "rest m2 p ?L2 = rest m p L"
    using drop_verb [OF m1(2)] unfolding v m1(3) by blast
  obtain n where n: "at_entry (headers_lh p) (map fst (l_us ?L2)) (hd (map fst (l_us ?L2) @ [headers_lh p])) n"
    "hms_list_for_each_entry_safe (destroy_header_body p) (headers_lh p) () m2 =
      for_each_safe (destroy_header_body p) (headers_lh p) (hd (map fst (l_us ?L2) @ [headers_lh p])) n () m2"
    using for_each_safe_start [where body = "destroy_header_body p" and s = "()", OF in_memoryD(5) [OF m2(2)]] by blast
  let ?L3 = "?L2\<lparr>l_us := []\<rparr>"
  obtain m3 where m3: "hms_list_for_each_entry_safe (destroy_header_body p) (headers_lh p) () m2 = returns ((), m3)"
      "in_memory m3 p ?L3" "rest m3 p ?L3 = rest m p L"
    using destroy_headers_loop [OF m2(2) n(1)] n(2) m2(3) by auto
  obtain n' where n': "at_entry (named_headers_lh p) (map fst (l_ns ?L3)) (hd (map fst (l_ns ?L3) @ [named_headers_lh p])) n'"
    "hms_list_for_each_entry_safe (destroy_named_body p) (named_headers_lh p) () m3 =
      for_each_safe (destroy_named_body p) (named_headers_lh p) (hd (map fst (l_ns ?L3) @ [named_headers_lh p])) n' () m3"
    using for_each_safe_start [where body = "destroy_named_body p" and s = "()", OF in_memoryD(6) [OF m3(2)]] by blast
  let ?L4 = "?L3\<lparr>l_ns := []\<rparr>"
  obtain m4 where m4: "hms_list_for_each_entry_safe (destroy_named_body p) (named_headers_lh p) () m3 = returns ((), m4)"
      "in_memory m4 p ?L4" "rest m4 p ?L4 = rest m p L"
    using destroy_named_loop [OF m3(2) n'(1)] n'(2) m3(3) by auto
  let ?m = "m4\<lparr>mapped := (mapped m4)(headers_lh p := False, named_headers_lh p := False), msgs := (msgs m4)(p := None)\<rparr>"
  have counts: "mm_num_headers (struct_of ?L3) = 0" "mm_num_named_headers (struct_of ?L4) = 0"
    by (simp_all add: struct_of_def)
  have "mem_msg_destroy p m = returns (0, ?m)"
    using in_memoryD(8,9) [OF assms(1)] m1(1) m2(1) m3(1) m4(1) in_memoryD(9) [OF m3(2)] in_memoryD(9) [OF m4(2)] counts
    by (simp add: mem_msg_destroy_def assert_ptr_def free_msg_def)
  moreover have "contents ?m = rest m4 p ?L4"
  proof -
    have lc: "l_chars ?L4 = []" using m1(4) by (simp add: l_chars_def)
    have "other_heads ?m {} = other_heads m4 (l_heads p ?L4)"
      by (rule ext) (simp add: other_heads_def l_heads_def)
    then show ?thesis using lc
      by (simp add: contents_def rest_def outside_def u_objects_def n_objects_def restrict_map_def fun_eq_iff)
  qed
  ultimately show ?thesis using m4(3) by simp
qed

text \<open>What \<open>hms_msg_set_body\<close> does after it has added the length, in both models.\<close>

definition add_checksum :: "bool \<Rightarrow> char list \<Rightarrow> int \<Rightarrow> hms_msg \<times> int \<Rightarrow> (hms_msg \<times> int) res" where
  "add_checksum ck c len = (\<lambda>(msg, ret).
     bind_res (hms_assert_equals 0 ret) (\<lambda>_.
     if ck then
       bind_res (checksum_string c len) (\<lambda>s.
       bind_res (hms_msg_add_named_header (Some msg) (Some HMS_CONTENT_CHECKSUM) (Some s)) (\<lambda>(msg, ret).
       bind_res (hms_assert_equals 0 ret) (\<lambda>_. Inr (msg, 0))))
     else Inr (msg, 0)))"

definition mem_add_checksum ::
    "allocator \<Rightarrow> ptr \<Rightarrow> bool \<Rightarrow> char list \<Rightarrow> int \<Rightarrow> int \<times> msg_memory \<Rightarrow> (int \<times> msg_memory) run" where
  "mem_add_checksum A p ck c len = (\<lambda>(ret, m).
     bind_run (Some (hms_assert_equals 0 ret)) (\<lambda>_.
     if ck then
       bind_run (Some (checksum_string c len)) (\<lambda>s.
       bind_run (mem_msg_add_named_header A p (Lit HMS_CONTENT_CHECKSUM) (Lit s) m) (\<lambda>(ret, m).
       bind_run (Some (hms_assert_equals 0 ret)) (\<lambda>_. returns (0, m))))
     else returns (0, m)))"

context heap_allocator begin

lemma performs_set_verb:
  assumes "in_memory m p L" "finite_memory m" "arg_is (rest m p L) a s"
  shows "performs m p L (hms_msg_set_verb (Some (msg_of L)) (Some s)) (Some (mem_msg_set_verb A p a m))"
proof -
  let ?K = "L\<lparr>l_verb := None\<rparr>"
  obtain m0 where m0: "(if mm_verb (struct_of L) \<noteq> 0 then
        bind_res (free_chars (mm_verb (struct_of L)) m) (set_msg p (\<lambda>mm. mm\<lparr>mm_verb := 0\<rparr>)) else Inr m) = Inr m0"
      "in_memory m0 p ?K" "rest m0 p ?K = rest m p L"
    using drop_verb [OF assms(1)] by blast
  have "finite_memory m0" using assms(2) finite_same [OF m0(3)] by simp
  moreover have "deref_arg m0 a = Inr s" using arg_is_deref [of m0 p ?K a s] assms(3) m0(3) by simp
  ultimately obtain q where q: "strdup A a m0 = Inr (q, m0\<lparr>chars := (chars m0)(q \<mapsto> s)\<rparr>)" "q \<noteq> 0" "chars m0 q = None"
    using strdup_new by blast
  let ?L = "L\<lparr>l_verb := Some (q, s)\<rparr>"
  note nl = new_layout [OF m0(2) l_chars_verb q(2,3)]
  have "\<exists>m'. set_msg p (\<lambda>mm. mm\<lparr>mm_verb := q\<rparr>) (m0\<lparr>chars := (chars m0)(q \<mapsto> s)\<rparr>) = Inr m' \<and>
      in_memory m' p ?L \<and> rest m' p ?L = rest m0 p ?K"
    by (rule set_msg_layout [OF m0(2) nl]) (simp_all add: struct_of_def)
  then obtain m' where m': "set_msg p (\<lambda>mm. mm\<lparr>mm_verb := q\<rparr>) (m0\<lparr>chars := (chars m0)(q \<mapsto> s)\<rparr>) = Inr m'"
    "in_memory m' p ?L" "rest m' p ?L = rest m p L" using m0(3) by auto
  have v0: "mm_verb (struct_of ?K) = 0" by (simp add: struct_of_def)
  have run: "Some (mem_msg_set_verb A p a m) = returns (0, m')"
    using in_memoryD(8,9) [OF assms(1)] m0(1) in_memoryD(9) [OF m0(2)] v0 arg_is_deref [OF assms(3)] q(1,2) m'(1)
    by (simp add: mem_msg_set_verb_def assert_ptr_def)
  have "hms_msg_set_verb (Some (msg_of L)) (Some s) = Inr (msg_of ?L, 0)"
    by (simp add: hms_msg_set_verb_eq)
  from performsI [OF run m'(2) this _ m'(3)] show ?thesis by simp
qed

text \<open>The parts of \<open>hms_msg_set_body\<close>: the checksum header, and the copy of the data.\<close>

lemma performs_return: "in_memory m p L \<Longrightarrow> performs m p L (Inr (msg_of L, r)) (returns (r, m))"
  by (rule performsI [OF refl _ refl refl refl])

lemma performs_checked_add:
  assumes "in_memory m p L" "finite_memory m"
  shows "performs m p L
    (bind_res (hms_msg_add_named_header (Some (msg_of L)) (Some k) (Some v)) (\<lambda>(msg, ret).
     bind_res (hms_assert_equals 0 ret) (\<lambda>_. Inr (msg, 0))))
    (bind_run (mem_msg_add_named_header A p (Lit k) (Lit v) m) (\<lambda>(ret, m).
     bind_run (Some (hms_assert_equals 0 ret)) (\<lambda>_. returns (0, m))))"
  by (rule performs_bind [OF performs_add_named [OF assms arg_is_Lit arg_is_Lit]], unfold split, rule performs_pure,
    rule performs_return)

lemma put_content:
  assumes "in_memory m p L" "finite_memory m" "l_content L = None"
  defines "q \<equiv> new_chars A m"
  shows "\<exists>m1 m2. put_chars A c m = (q, m\<lparr>chars := (chars m)(q \<mapsto> c)\<rparr>) \<and> q \<noteq> 0 \<and>
    set_msg p (\<lambda>mm. mm\<lparr>mm_content := q\<rparr>) (m\<lparr>chars := (chars m)(q \<mapsto> c)\<rparr>) = Inr m1 \<and>
    set_msg p (\<lambda>mm. mm\<lparr>mm_content_len := len\<rparr>) m1 = Inr m2 \<and>
    in_memory m2 p (L\<lparr>l_content := Some (q, c), l_len := len\<rparr>) \<and>
    rest m2 p (L\<lparr>l_content := Some (q, c), l_len := len\<rparr>) = rest m p L"
proof -
  have q: "q \<noteq> 0" "chars m q = None" using new_chars [OF assms(2)] by (simp_all add: q_def)
  let ?L1 = "L\<lparr>l_content := Some (q, c)\<rparr>"
  let ?L2 = "?L1\<lparr>l_len := len\<rparr>"
  have "mset (l_chars ?L1) = mset ((q, c) # l_chars L)" using assms(3) by (simp add: l_chars_def)
  note nl = new_layout [OF assms(1) this q]
  have "\<exists>m1. set_msg p (\<lambda>mm. mm\<lparr>mm_content := q\<rparr>) (m\<lparr>chars := (chars m)(q \<mapsto> c)\<rparr>) = Inr m1 \<and>
      in_memory m1 p ?L1 \<and> rest m1 p ?L1 = rest m p L"
    by (rule set_msg_layout [OF assms(1) nl]) (simp_all add: struct_of_def)
  then obtain m1 where m1: "set_msg p (\<lambda>mm. mm\<lparr>mm_content := q\<rparr>) (m\<lparr>chars := (chars m)(q \<mapsto> c)\<rparr>) = Inr m1"
    "in_memory m1 p ?L1" "rest m1 p ?L1 = rest m p L" by blast
  have "\<exists>m2. set_msg p (\<lambda>mm. mm\<lparr>mm_content_len := len\<rparr>) m1 = Inr m2 \<and> in_memory m2 p ?L2 \<and> rest m2 p ?L2 = rest m1 p ?L1"
    by (rule set_msg_fields [OF m1(2)]) (simp_all add: struct_of_def l_chars_def)
  with m1 q(1) show ?thesis by (auto simp: put_chars_def q_def Let_def)
qed

lemma performs_checksum:
  assumes "in_memory m p L" "finite_memory m"
  shows "performs m p L (add_checksum ck c len (msg_of L, r)) (mem_add_checksum A p ck c len (r, m))"
proof -
  have "performs m p L
      (if ck then bind_res (checksum_string c len) (\<lambda>s.
         bind_res (hms_msg_add_named_header (Some (msg_of L)) (Some HMS_CONTENT_CHECKSUM) (Some s)) (\<lambda>(msg, ret).
         bind_res (hms_assert_equals 0 ret) (\<lambda>_. Inr (msg, 0)))) else Inr (msg_of L, 0))
      (if ck then bind_run (Some (checksum_string c len)) (\<lambda>s.
         bind_run (mem_msg_add_named_header A p (Lit HMS_CONTENT_CHECKSUM) (Lit s) m) (\<lambda>(ret, m).
         bind_run (Some (hms_assert_equals 0 ret)) (\<lambda>_. returns (0, m)))) else returns (0, m))"
  proof (cases ck)
    case True
    show ?thesis unfolding if_P [OF True] by (rule performs_pure) (rule performs_checked_add [OF assms])
  next
    case False
    show ?thesis unfolding if_not_P [OF False] by (rule performs_return [OF assms(1)])
  qed
  from performs_pure [OF this] show ?thesis unfolding add_checksum_def mem_add_checksum_def split .
qed

text \<open>What follows the removal of the old body.\<close>

lemma performs_store_body:
  assumes "in_memory m p L" "finite_memory m" "l_content L = None"
  shows "performs m p L
    (bind_res (hms_msg_add_named_header (Some ((msg_of L)\<lparr>content := Some c, content_len := len\<rparr>)) (Some HMS_CONTENT_LENGTH)
       (Some (sprintf_d len))) (add_checksum ck c len))
    (let (q, m) = put_chars A c m in
     bind_run (Some (set_msg p (\<lambda>mm. mm\<lparr>mm_content := q\<rparr>) m)) (\<lambda>m.
     bind_run (Some (assert_ptr q)) (\<lambda>_.
     bind_run (Some (set_msg p (\<lambda>mm. mm\<lparr>mm_content_len := len\<rparr>) m)) (\<lambda>m.
     bind_run (mem_msg_add_named_header A p (Lit HMS_CONTENT_LENGTH) (Lit (sprintf_d len)) m)
       (mem_add_checksum A p ck c len)))))" (is "performs m p L ?spec ?run")
proof -
  let ?L = "L\<lparr>l_content := Some (new_chars A m, c), l_len := len\<rparr>"
  obtain m1 m2 where s: "put_chars A c m = (new_chars A m, m\<lparr>chars := (chars m)(new_chars A m \<mapsto> c)\<rparr>)" "new_chars A m \<noteq> 0"
    "set_msg p (\<lambda>mm. mm\<lparr>mm_content := new_chars A m\<rparr>) (m\<lparr>chars := (chars m)(new_chars A m \<mapsto> c)\<rparr>) = Inr m1"
    "set_msg p (\<lambda>mm. mm\<lparr>mm_content_len := len\<rparr>) m1 = Inr m2" "in_memory m2 p ?L" "rest m2 p ?L = rest m p L"
    using put_content [OF assms] by blast
  have fm: "finite_memory m2" using assms(2) finite_same [OF s(6)] by simp
  have "performs m2 p ?L
      (bind_res (hms_msg_add_named_header (Some (msg_of ?L)) (Some HMS_CONTENT_LENGTH) (Some (sprintf_d len))) (add_checksum ck c len))
      (bind_run (mem_msg_add_named_header A p (Lit HMS_CONTENT_LENGTH) (Lit (sprintf_d len)) m2) (mem_add_checksum A p ck c len))"
  proof (rule performs_bind [OF performs_add_named [OF s(5) fm arg_is_Lit arg_is_Lit]])
    fix m3 L3 r
    assume m3: "in_memory m3 p L3" "rest m3 p L3 = rest m2 p ?L"
    have "finite_memory m3" using fm finite_same [OF m3(2)] by simp
    then show "performs m3 p L3 (add_checksum ck c len (msg_of L3, r)) (mem_add_checksum A p ck c len (r, m3))"
      by (rule performs_checksum [OF m3(1)])
  qed
  then have "performs m2 p ?L ?spec ?run"
    unfolding s(1) Let_def split bind_run_simps s(3) assert_ptr_def if_not_P [OF s(2)] s(4) by simp
  from performs_trans [OF this s(6)] show ?thesis by simp
qed

lemma performs_set_body:
  assumes "in_memory m p L" "finite_memory m" "l_dead L = 0" "arg_is (rest m p L) a d"
  shows "performs m p L (hms_msg_set_body ck (Some (msg_of L)) (Some d) len) (mem_msg_set_body ck A p a len m)"
proof (cases "len = 0")
  case True
  with in_memoryD(8) [OF assms(1)] arg_is_deref [OF assms(4)] show ?thesis
    by (simp add: performs_def hms_msg_set_body_def mem_msg_set_body_def assert_ptr_def)
next
  case False
  have spec: "hms_msg_set_body ck (Some (msg_of L)) (Some d) len =
      bind_res (hms_msg_del_body (Some (msg_of L))) (\<lambda>(msg, r).
      bind_res (assert_null (content msg)) (\<lambda>_.
      bind_res (hms_assert_equals 0 (content_len msg)) (\<lambda>_.
      bind_res (copy_out d len) (\<lambda>c.
      bind_res (hms_msg_add_named_header (Some (msg\<lparr>content := Some c, content_len := len\<rparr>)) (Some HMS_CONTENT_LENGTH)
        (Some (sprintf_d len))) (add_checksum ck c len)))))"
    using False by (simp add: hms_msg_set_body_def add_checksum_def Let_def)
  have run: "mem_msg_set_body ck A p a len m =
      bind_run (mem_msg_del_body A p m) (\<lambda>(r, m).
      bind_run (Some (object (msgs m) p)) (\<lambda>mm.
      bind_run (Some (if mm_content mm = 0 then Inr () else Inl AssertExit)) (\<lambda>_.
      bind_run (Some (hms_assert_equals 0 (mm_content_len mm))) (\<lambda>_.
      bind_run (Some (if len < 0 then Inl AssertExit else deref_arg m a)) (\<lambda>d.
      bind_run (Some (copy_out d len)) (\<lambda>c.
      let (q, m) = put_chars A c m in
      bind_run (Some (set_msg p (\<lambda>mm. mm\<lparr>mm_content := q\<rparr>) m)) (\<lambda>m.
      bind_run (Some (assert_ptr q)) (\<lambda>_.
      bind_run (Some (set_msg p (\<lambda>mm. mm\<lparr>mm_content_len := len\<rparr>) m)) (\<lambda>m.
      bind_run (mem_msg_add_named_header A p (Lit HMS_CONTENT_LENGTH) (Lit (sprintf_d len)) m)
        (mem_add_checksum A p ck c len))))))))))"
    using False in_memoryD(8) [OF assms(1)] arg_is_deref [OF assms(4)]
    by (simp add: mem_msg_set_body_def assert_ptr_def mem_add_checksum_def)
  show ?thesis unfolding spec run
  proof (rule performs_bind [OF performs_del_body [OF assms(1-3)]], unfold split)
    fix m1 L1
    assume m1: "in_memory m1 p L1" "rest m1 p L1 = rest m p L" "l_dead L1 = l_dead L"
    have fm1: "finite_memory m1" using assms(2) finite_same [OF m1(2)] by simp
    have d: "deref_arg m1 a = Inr d" using arg_is_deref [of m1 p L1 a d] assms(4) m1(2) by simp
    have st: "object (msgs m1) p = Inr (struct_of L1)" "mm_content_len (struct_of L1) = l_len L1"
      using in_memoryD(9) [OF m1(1)] by (simp_all add: struct_of_def)
    show "performs m1 p L1
      (bind_res (assert_null (content (msg_of L1))) (\<lambda>_.
       bind_res (hms_assert_equals 0 (content_len (msg_of L1))) (\<lambda>_.
       bind_res (copy_out d len) (\<lambda>c.
       bind_res (hms_msg_add_named_header (Some ((msg_of L1)\<lparr>content := Some c, content_len := len\<rparr>)) (Some HMS_CONTENT_LENGTH)
         (Some (sprintf_d len))) (add_checksum ck c len)))))
      (bind_run (Some (object (msgs m1) p)) (\<lambda>mm.
       bind_run (Some (if mm_content mm = 0 then Inr () else Inl AssertExit)) (\<lambda>_.
       bind_run (Some (hms_assert_equals 0 (mm_content_len mm))) (\<lambda>_.
       bind_run (Some (if len < 0 then Inl AssertExit else deref_arg m1 a)) (\<lambda>d.
       bind_run (Some (copy_out d len)) (\<lambda>c.
       let (q, m) = put_chars A c m1 in
       bind_run (Some (set_msg p (\<lambda>mm. mm\<lparr>mm_content := q\<rparr>) m)) (\<lambda>m.
       bind_run (Some (assert_ptr q)) (\<lambda>_.
       bind_run (Some (set_msg p (\<lambda>mm. mm\<lparr>mm_content_len := len\<rparr>) m)) (\<lambda>m.
       bind_run (mem_msg_add_named_header A p (Lit HMS_CONTENT_LENGTH) (Lit (sprintf_d len)) m)
         (mem_add_checksum A p ck c len))))))))))"
    proof (cases "l_content L1")
      case (Some ac)
      obtain b c where "l_content L1 = Some (b, c)" using Some by (cases ac) simp
      with content_pointer(1) [OF m1(1)] st show ?thesis by (simp add: performs_def)
    next
      case None
      have cp: "mm_content (struct_of L1) = 0" using content_pointer(2) [OF m1(1) None] m1(3) assms(3) by simp
      show ?thesis
      proof (cases "l_len L1 = 0 \<and> 0 \<le> len")
        case True
        then have data: "(if len < 0 then Inl AssertExit else deref_arg m1 a) = Inr d" using d by simp
        have "assert_null (content (msg_of L1)) = Inr ()" "hms_assert_equals 0 (content_len (msg_of L1)) = Inr ()"
          "hms_assert_equals 0 (l_len L1) = Inr ()" using None True by simp_all
        note eqs = this
        show ?thesis unfolding eqs(1,2) st(1) bind_run_simps bind_res_simps cp if_P [OF refl] st(2) eqs(3) data
          by (rule performs_pure) (rule performs_store_body [OF m1(1) fm1 None])
      next
        case False
        with None cp st show ?thesis by (cases "l_len L1 = 0") (simp_all add: performs_def copy_out_def)
      qed
    qed
  qed
qed

lemma create_memory:
  assumes "finite_memory m"
  shows "\<exists>p m' L. mem_msg_create A m = Inr (p, m') \<and> in_memory m' p L \<and> l_dead L = 0 \<and>
    msg_of L = hms_msg_create \<and> rest m' p L = contents m"
proof -
  define p where "p = new_msg A m"
  have p: "p \<noteq> 0" "msgs m p = None" "\<not> mapped m (headers_lh p)" "\<not> mapped m (named_headers_lh p)"
    using new_msg [OF assms] by (simp_all add: p_def)
  let ?L = "\<lparr>l_verb = None, l_us = [], l_ns = [], l_len = 0, l_content = None, l_dead = 0\<rparr>"
  let ?m = "m\<lparr>mapped := (mapped m)(headers_lh p := True, named_headers_lh p := True),
    next_of := (next_of m)(headers_lh p := headers_lh p, named_headers_lh p := named_headers_lh p),
    prev_of := (prev_of m)(headers_lh p := headers_lh p, named_headers_lh p := named_headers_lh p),
    msgs := (msgs m)(p \<mapsto> struct_of ?L)\<rparr>"
  have "mem_msg_create A m = Inr (p, ?m)"
    using p(1) by (simp add: mem_msg_create_def assert_ptr_def HMS_INIT_LIST_HEAD_def link_simps is_head_def set_msg_def
      object_def struct_of_def p_def Let_def fun_upd_twist)
  moreover have "in_memory ?m p ?L"
    using p by (simp add: in_memory_def holds_def l_chars_def u_objects_def n_objects_def ring_def is_head_def)
  moreover have "rest ?m p ?L = contents m"
  proof -
    have "other_heads ?m (l_heads p ?L) = other_heads m {}"
      using p(3,4) by (intro ext) (auto simp: other_heads_def l_heads_def)
    moreover have "outside ((msgs m)(p \<mapsto> struct_of ?L)) [(p, struct_of ?L)] = msgs m"
      using p(2) by (intro ext) (simp add: outside_def restrict_map_def)
    ultimately show ?thesis
      by (simp add: rest_def contents_def l_chars_def u_objects_def n_objects_def)
  qed
  moreover have "msg_of ?L = hms_msg_create" by (simp add: msg_of_def hms_msg_create_def)
  ultimately show ?thesis by (intro exI [of _ p] exI [of _ ?m] exI [of _ ?L]) simp
qed

end

lemma contents_finite: "finite_rest (contents m) = finite_memory m"
proof -
  have "dom (other_heads m {}) = {q. mapped m q}" by (auto simp: other_heads_def split: if_splits)
  then show ?thesis by (simp add: finite_rest_def finite_memory_def contents_def)
qed

lemma num_headers_memory:
  assumes "in_memory m p L"
  shows "mem_msg_num_headers p m = hms_msg_num_headers (Some (msg_of L)) \<and>
    mem_msg_num_named_headers p m = hms_msg_num_named_headers (Some (msg_of L))"
  using in_memoryD(8,9) [OF assms]
  by (simp add: mem_msg_num_headers_def mem_msg_num_named_headers_def hms_msg_num_headers_def
    hms_msg_num_named_headers_def assert_ptr_def struct_of_def)

text \<open>An array that is no longer part of the message is no longer there.\<close>

lemma freed_chars:
  assumes "in_memory m p L" "in_memory m' p L'" "rest m' p L' = rest m p L" "mset (l_chars L) = mset ((a, s) # cs @ l_chars L')"
  shows "chars m' a = None"
proof -
  have "holds (chars m) ((a, s) # cs @ l_chars L')" using in_memoryD(2) [OF assms(1)] holds_mset(1) [OF assms(4)] by simp
  then have a: "a \<notin> fst ` set (l_chars L')" by (simp add: holds_def)
  have "(a, s) \<in> set (l_chars L)" using assms(4) by (metis list.set_intros(1) set_mset_mset)
  then have "outside (chars m) (l_chars L) a = None" by (force simp: outside_def restrict_map_def)
  moreover have "outside (chars m') (l_chars L') = outside (chars m) (l_chars L)" using assms(3) by (simp add: rest_def)
  ultimately have "outside (chars m') (l_chars L') a = None" by simp
  with a show ?thesis by (simp add: outside_def restrict_map_def)
qed

subsection \<open>Sequences of operations\<close>

text \<open>\<open>arg s\<close> is where the caller keeps the string \<open>s\<close>.\<close>

fun run_mem_op ::
    "bool \<Rightarrow> allocator \<Rightarrow> (string \<Rightarrow> char_arg) \<Rightarrow> ptr \<Rightarrow> msg_op \<Rightarrow> msg_memory \<Rightarrow> (int \<times> msg_memory) run" where
  "run_mem_op ck A arg p (Set_Verb v) m = Some (mem_msg_set_verb A p (arg v) m)"
| "run_mem_op ck A arg p (Add_Header v) m = Some (mem_msg_add_header A p (arg v) m)"
| "run_mem_op ck A arg p (Del_Header i) m = mem_msg_del_header p i m"
| "run_mem_op ck A arg p (Add_Named k v) m = mem_msg_add_named_header A p (arg k) (arg v) m"
| "run_mem_op ck A arg p (Del_Named k) m = mem_msg_del_named_header p (arg k) m"
| "run_mem_op ck A arg p (Set_Body d n) m = mem_msg_set_body ck A p (arg d) n m"
| "run_mem_op ck A arg p Del_Body m = mem_msg_del_body A p m"

fun run_mem_ops ::
    "bool \<Rightarrow> allocator \<Rightarrow> (string \<Rightarrow> char_arg) \<Rightarrow> ptr \<Rightarrow> msg_op list \<Rightarrow> msg_memory \<Rightarrow> msg_memory run" where
  "run_mem_ops ck A arg p [] m = returns m"
| "run_mem_ops ck A arg p (op # ops) m =
     bind_run (run_mem_op ck A arg p op m) (\<lambda>(r, m). run_mem_ops ck A arg p ops m)"

context heap_allocator begin

lemma performs_op:
  assumes "in_memory m p L" "finite_memory m" "l_dead L = 0" "\<forall>s. arg_is (rest m p L) (arg s) s"
  shows "performs m p L (run_msg_op ck op (msg_of L)) (run_mem_op ck A arg p op m)"
proof -
  note a = assms(4) [rule_format]
  show ?thesis
  proof (cases op)
    case (Set_Verb v) then show ?thesis using performs_set_verb [OF assms(1,2) a] by simp
  next
    case (Add_Header v) then show ?thesis using performs_add_header [OF assms(1,2) a] by simp
  next
    case (Del_Header i) then show ?thesis using performs_del_header [OF assms(1)] by simp
  next
    case (Add_Named k v) then show ?thesis using performs_add_named [OF assms(1,2) a a] by simp
  next
    case (Del_Named k) then show ?thesis using performs_del_named [OF assms(1) a] by simp
  next
    case (Set_Body d n) then show ?thesis using performs_set_body [OF assms(1-3) a] by simp
  next
    case Del_Body then show ?thesis using performs_del_body [OF assms(1-3)] by simp
  qed
qed

lemma run_mem_ops_refines:
  "in_memory m p L \<Longrightarrow> finite_memory m \<Longrightarrow> l_dead L = 0 \<Longrightarrow> \<forall>s. arg_is (rest m p L) (arg s) s \<Longrightarrow>
   case run_msg_ops ck (msg_of L) ops of
     Inl e \<Rightarrow> run_mem_ops ck A arg p ops m = Some (Inl e)
   | Inr M \<Rightarrow> \<exists>m' L'. run_mem_ops ck A arg p ops m = returns m' \<and> in_memory m' p L' \<and> l_dead L' = 0 \<and>
       msg_of L' = M \<and> rest m' p L' = rest m p L"
proof (induction ops arbitrary: m L)
  case Nil
  then show ?case by auto
next
  case (Cons op ops)
  note op = performs_op [OF Cons.prems, of ck op]
  show ?case
  proof (cases "run_msg_op ck op (msg_of L)")
    case (Inl e)
    with op show ?thesis by (simp add: performs_def)
  next
    case (Inr Mr)
    with op obtain r m1 L1 where m1: "run_mem_op ck A arg p op m = returns (r, m1)" "in_memory m1 p L1"
      "Mr = (msg_of L1, r)" "l_dead L1 = 0" "rest m1 p L1 = rest m p L"
      using Cons.prems(3) by (cases Mr) (auto simp: performs_def)
    have "finite_memory m1" using Cons.prems(2) finite_same [OF m1(5)] by simp
    note ih = Cons.IH [OF m1(2) this m1(4), unfolded m1(5), OF Cons.prems(4)]
    have "run_msg_ops ck (msg_of L) (op # ops) = run_msg_ops ck (msg_of L1) ops"
      "run_mem_ops ck A arg p (op # ops) m = run_mem_ops ck A arg p ops m1" using Inr m1(1,3) by simp_all
    with ih show ?thesis by (simp only:)
  qed
qed

end

subsection \<open>An allocator\<close>

text \<open>One that takes the address behind all addresses in use.\<close>

definition beyond :: "nat set \<Rightarrow> nat" where
  "beyond P = Suc (Max (insert 0 P))"

definition fresh_addresses :: allocator where
  "fresh_addresses = \<lparr>new_chars = (\<lambda>m. beyond (dom (chars m))),
     new_uheader = (\<lambda>m. beyond (dom (uheaders m) \<union> {q. mapped m q})),
     new_nheader = (\<lambda>m. beyond (dom (nheaders m) \<union> {q. mapped m q})),
     new_msg = (\<lambda>m. beyond (dom (msgs m) \<union> {q. mapped m q}))\<rparr>"

lemma beyond_less: "finite P \<Longrightarrow> q \<in> P \<Longrightarrow> q < beyond P"
  by (simp add: beyond_def less_Suc_eq_le)

interpretation fresh: heap_allocator fresh_addresses
proof unfold_locales
  have nz: "beyond P \<noteq> 0" for P by (simp add: beyond_def)
  fix m
  assume "finite_memory m"
  note f = this [unfolded finite_memory_def]
  have c: "beyond (dom (chars m)) \<notin> dom (chars m)" using f beyond_less by blast
  have u: "beyond (dom (uheaders m) \<union> {q. mapped m q}) \<notin> dom (uheaders m) \<union> {q. mapped m q}"
    using f beyond_less by (metis finite_Un less_irrefl)
  have n: "beyond (dom (nheaders m) \<union> {q. mapped m q}) \<notin> dom (nheaders m) \<union> {q. mapped m q}"
    using f beyond_less by (metis finite_Un less_irrefl)
  have g: "beyond (dom (msgs m) \<union> {q. mapped m q}) + i \<notin> dom (msgs m) \<union> {q. mapped m q}" for i
    using f beyond_less by (metis finite_Un le_add1 not_le)
  show "new_chars fresh_addresses m \<noteq> 0 \<and> chars m (new_chars fresh_addresses m) = None"
    using nz c by (auto simp: fresh_addresses_def)
  show "new_uheader fresh_addresses m \<noteq> 0 \<and> \<not> mapped m (new_uheader fresh_addresses m) \<and>
      uheaders m (new_uheader fresh_addresses m) = None"
    using nz u by (auto simp: fresh_addresses_def)
  show "new_nheader fresh_addresses m \<noteq> 0 \<and> \<not> mapped m (new_nheader fresh_addresses m) \<and>
      nheaders m (new_nheader fresh_addresses m) = None"
    using nz n by (auto simp: fresh_addresses_def)
  show "new_msg fresh_addresses m \<noteq> 0 \<and> msgs m (new_msg fresh_addresses m) = None \<and>
      \<not> mapped m (headers_lh (new_msg fresh_addresses m)) \<and> \<not> mapped m (named_headers_lh (new_msg fresh_addresses m))"
    using nz g [of 0] g [of 1] g [of 2] by (auto simp: fresh_addresses_def)
qed

subsection \<open>Properties\<close>

definition empty_memory :: msg_memory where
  "empty_memory = \<lparr>mapped = (\<lambda>p. False), next_of = (\<lambda>p. 0), prev_of = (\<lambda>p. 0), chars = Map.empty,
     uheaders = Map.empty, nheaders = Map.empty, msgs = Map.empty\<rparr>"

lemma finite_empty_memory: "finite_memory empty_memory"
  by (simp add: finite_memory_def empty_memory_def)

text \<open>
  C14: The message operations as they work on memory refine those on values: on any message, any sequence of them
  ends, and either fails as the value model fails (an increment of an \<open>int\<close> header counter past \<open>INT_MAX\<close> is
  undefined in both), or leaves the same message in a memory whose every other
  object and list head is as before. In a sequence that does not fail no access is to a freed or unallocated object, nothing is freed twice,
  and every array and header that is allocated is part of the message. The strings the caller passes may be
  anywhere but in the message itself.
\<close>
theorem msg_memory_refines:
  assumes "heap_allocator A" "finite_memory m" "in_memory m p L" "l_dead L = 0"
    "\<forall>s. arg_is (rest m p L) (arg s) s"
  shows "case run_msg_ops ck (msg_of L) ops of
     Inl e \<Rightarrow> run_mem_ops ck A arg p ops m = Some (Inl e)
   | Inr M \<Rightarrow> \<exists>m' L'. run_mem_ops ck A arg p ops m = returns m' \<and> in_memory m' p L' \<and> l_dead L' = 0 \<and>
       msg_of L' = M \<and> rest m' p L' = rest m p L"
  by (rule heap_allocator.run_mem_ops_refines [OF assms(1) assms(3,2,4,5)])

text \<open>
  C15: The life of a message leaves no trace: \<open>hms_msg_create\<close>, any sequence of operations that respects what
  \<open>msg_op_ok\<close> asks of the caller and that cannot count more than \<open>INT_MAX\<close> headers (an addition counts one, a
  body two at most), and \<open>hms_msg_destroy\<close> all end without a failure, the message before its end
  is the one of the value model, and the memory has after it exactly the objects it had before: everything
  the message allocated is freed, once.
\<close>
theorem msg_lifetime:
  assumes "heap_allocator A" "finite_memory m" "\<forall>op \<in> set ops. msg_op_ok op" "\<forall>s. arg_is (contents m) (arg s) s"
    "int (sum_list (map op_adds ops)) \<le> int_max"
  shows "\<exists>p m1 m2 L m3. mem_msg_create A m = Inr (p, m1) \<and> run_mem_ops ck A arg p ops m1 = returns m2 \<and>
    in_memory m2 p L \<and> run_msg_ops ck hms_msg_create ops = Inr (msg_of L) \<and>
    mem_msg_destroy p m2 = returns (0, m3) \<and> contents m3 = contents m"
proof -
  obtain p m1 L1 where m1: "mem_msg_create A m = Inr (p, m1)" "in_memory m1 p L1" "l_dead L1 = 0"
    "msg_of L1 = hms_msg_create" "rest m1 p L1 = contents m"
    using heap_allocator.create_memory [OF assms(1,2)] by blast
  obtain M where M: "run_msg_ops ck hms_msg_create ops = Inr M" 
    using run_msg_ops_wf [OF msg_wf_create assms(3)] assms(5) room_create by blast
  have "finite_memory m1" using assms(2) finite_memory_rest [of m1 p L1] contents_finite [of m] m1(5) by simp
  from heap_allocator.run_mem_ops_refines [OF assms(1) m1(2) this m1(3), of arg ck ops] M m1(4,5) assms(4) obtain m2 L where
    m2: "run_mem_ops ck A arg p ops m1 = returns m2" "in_memory m2 p L" "l_dead L = 0" "msg_of L = M"
      "rest m2 p L = contents m" by auto
  from destroy_memory [OF m2(2,3)] m2(5) obtain m3 where "mem_msg_destroy p m2 = returns (0, m3)" "contents m3 = contents m"
    by auto
  with m1(1) m2(1,2,4) M show ?thesis by blast
qed

text \<open>A new message in an otherwise empty memory.\<close>

lemma lit_args: "\<forall>s. arg_is r (Lit s) s" by simp

lemma new_message:
  obtains p m L where "mem_msg_create fresh_addresses empty_memory = Inr (p, m)" "in_memory m p L" "l_dead L = 0"
    "msg_of L = hms_msg_create" "finite_memory m"
proof -
  obtain p m L where m: "mem_msg_create fresh_addresses empty_memory = Inr (p, m)" "in_memory m p L" "l_dead L = 0"
    "msg_of L = hms_msg_create" "rest m p L = contents empty_memory"
    using fresh.create_memory [OF finite_empty_memory] by blast
  have "finite_memory m" using finite_memory_rest [of m p L] contents_finite [of empty_memory] m(5) finite_empty_memory by simp
  with m that show ?thesis by blast
qed

theorem msg_memory_refines_witness:
  "\<exists>p m m' L'. mem_msg_create fresh_addresses empty_memory = Inr (p, m) \<and>
    run_mem_ops False fresh_addresses Lit p [Set_Verb ''GET'', Add_Named ''k'' ''v'', Set_Body ''abc'' 3, Set_Verb ''PUT'',
      Del_Named ''K'', Del_Body, Del_Header 0] m = returns m' \<and> in_memory m' p L' \<and> l_verb L' \<noteq> None \<and> l_content L' = None"
proof -
  obtain p m L where m: "mem_msg_create fresh_addresses empty_memory = Inr (p, m)" "in_memory m p L" "l_dead L = 0"
    "msg_of L = hms_msg_create" "finite_memory m" by (rule new_message)
  let ?ops = "[Set_Verb ''GET'', Add_Named ''k'' ''v'', Set_Body ''abc'' 3, Set_Verb ''PUT'',
      Del_Named ''K'', Del_Body, Del_Header 0]"
  have "case run_msg_ops False hms_msg_create ?ops of Inl e \<Rightarrow> False | Inr M \<Rightarrow> verb M \<noteq> None \<and> content M = None" by code_simp
  with msg_memory_refines [OF fresh.heap_allocator_axioms m(5,2,3) lit_args, of False ?ops] m(1,4)
  obtain m' L' where "run_mem_ops False fresh_addresses Lit p ?ops m = returns m'" "in_memory m' p L'"
    "verb (msg_of L') \<noteq> None" "content (msg_of L') = None"
    by (auto simp del: run_mem_ops.simps run_msg_ops.simps msg_of_sel split: sum.splits)
  moreover from this(3,4) have "l_verb L' \<noteq> None" "l_content L' = None" by simp_all
  ultimately show ?thesis using m(1) by blast
qed

theorem msg_lifetime_witness:
  "\<exists>p m1 m2 m3. mem_msg_create fresh_addresses empty_memory = Inr (p, m1) \<and>
    run_mem_ops True fresh_addresses Lit p [Set_Verb ''GET'', Add_Header ''/x'', Set_Body ''abc'' 2, Set_Body ''d'' 1] m1 = returns m2 \<and>
    mem_msg_destroy p m2 = returns (0, m3) \<and> contents m3 = contents empty_memory"
proof -
  have "\<forall>op \<in> set [Set_Verb ''GET'', Add_Header ''/x'', Set_Body ''abc'' 2, Set_Body ''d'' 1]. msg_op_ok op"
    by (simp add: int_max_def)
  moreover have "int (sum_list (map op_adds [Set_Verb ''GET'', Add_Header ''/x'', Set_Body ''abc'' 2, Set_Body ''d'' 1])) \<le> int_max"
    by (simp add: int_max_def)
  ultimately show ?thesis
    using msg_lifetime [OF fresh.heap_allocator_axioms finite_empty_memory _ lit_args, of _ True] by blast
qed

text \<open>
  The lookups of the message API on memory answer what they answer on values, the string in a new array the caller
  owns, and change nothing else: the copies of the \<open>Content-Length\<close> value that \<open>hms_msg_get_body_size\<close> and
  \<open>hms_msg_get_body\<close> make on their way are freed again.
\<close>
theorem msg_lookups_in_memory:
  assumes "heap_allocator A" "finite_memory m" "in_memory m p L" "l_dead L = 0" "arg_is (rest m p L) a k"
  shows "answers m (hms_msg_get_verb (Some (msg_of L))) (Some (mem_msg_get_verb A p m)) \<and>
    answers m (hms_msg_get_header (Some (msg_of L)) i) (mem_msg_get_header A p i m) \<and>
    answers m (hms_msg_get_named_header (Some (msg_of L)) (Some k)) (mem_msg_get_named_header A p a m) \<and>
    mem_msg_num_headers p m = hms_msg_num_headers (Some (msg_of L)) \<and>
    mem_msg_num_named_headers p m = hms_msg_num_named_headers (Some (msg_of L)) \<and>
    mem_msg_get_body_size A p m = Some (bind_res (hms_msg_get_body_size (Some (msg_of L))) (\<lambda>n. Inr (n, m))) \<and>
    (case hms_msg_get_body (Some (msg_of L)) of
       Inl e \<Rightarrow> mem_msg_get_body A p m = Some (Inl e)
     | Inr (None, n, r) \<Rightarrow> mem_msg_get_body A p m = returns (0, n, r, m)
     | Inr (Some s, n, r) \<Rightarrow> \<exists>q. q \<noteq> 0 \<and> chars m q = None \<and>
         mem_msg_get_body A p m = returns (q, n, r, m\<lparr>chars := (chars m)(q \<mapsto> s)\<rparr>))"
  using heap_allocator.answers_get_verb [OF assms(1,3,2)] heap_allocator.answers_get_header [OF assms(1,3,2)]
    heap_allocator.answers_get_named [OF assms(1,3,2,5)] heap_allocator.get_body_size_memory [OF assms(1,3,2)]
    heap_allocator.get_body_memory [OF assms(1,3,2,4)] num_headers_memory [OF assms(3)] by blast

theorem msg_lookups_in_memory_witness:
  "\<exists>p m. mem_msg_create fresh_addresses empty_memory = Inr (p, m) \<and>
    mem_msg_get_body_size fresh_addresses p m = returns (0, m) \<and>
    mem_msg_get_named_header fresh_addresses p (Lit ''k'') m = returns (0, -1, m)"
proof -
  obtain p m L where m: "mem_msg_create fresh_addresses empty_memory = Inr (p, m)" "in_memory m p L" "l_dead L = 0"
    "msg_of L = hms_msg_create" "finite_memory m" by (rule new_message)
  have "hms_msg_get_body_size (Some hms_msg_create) = Inr 0" "hms_msg_get_named_header (Some hms_msg_create) (Some ''k'') = Inr (None, -1)"
    by code_simp+
  with msg_lookups_in_memory [OF fresh.heap_allocator_axioms m(5,2,3) arg_is_Lit, of 0 "''k''"] m(1,4) show ?thesis
    by (auto simp: answers_def)
qed

text \<open>
  C16: A string of the message itself is no argument of its setters: \<open>hms_msg_set_verb\<close> with the message's
  own verb, and \<open>hms_msg_add_named_header\<close> with the key of the header that it replaces, read the string
  after they have freed it; \<open>hms_msg_del_named_header\<close> with that key is safe.
\<close>
theorem own_strings_freed_first:
  assumes "heap_allocator A" "finite_memory m" "in_memory m p L"
    "l_verb L = Some (u, w)" "l_ns L = xs @ (q, (k, ks), (v, vs)) # ys" "find_named ks (map nheader_of xs) = None"
  shows "mem_msg_set_verb A p (At u) m = Inl Undefined \<and>
    mem_msg_add_named_header A p (At k) (Lit s) m = Some (Inl Undefined) \<and>
    (\<exists>m'. mem_msg_del_named_header p (At k) m = returns (0, m') \<and> in_memory m' p (L\<lparr>l_ns := xs @ ys\<rparr>))"
proof -
  have "(u, w) \<in> set (l_chars L)" using assms(4) by (simp add: l_chars_def)
  then have u: "u \<noteq> 0" "chars m u = Some w" using in_memoryD(2) [OF assms(3)] by (auto simp: holds_def)
  have "mem_msg_set_verb A p (At u) m = Inl Undefined"
    using u in_memoryD(8,10) [OF assms(3)] assms(4)
    by (simp add: mem_msg_set_verb_def assert_ptr_def assert_arg_def struct_of_def free_chars_def object_def
      set_msg_def strdup_def deref_arg_def)
  moreover have n: "(q, (k, ks), (v, vs)) \<in> set (l_ns L)" using assms(5) by simp
  note nh = nheader_objects [OF assms(3) n]
  have d: "deref_arg m (At k) = Inr ks" "assert_arg (At k) = Inr ()"
    using nh by (simp_all add: deref_arg_def assert_arg_def assert_ptr_def)
  have none: "strcasecmp (snd k') ks \<noteq> 0" if "(q', k', v') \<in> set xs" for q' k' v'
    using assms(6) that by (force simp: find_named_None)
  have "\<exists>m'. mem_msg_del_named_header p (At k) m = returns (0, m') \<and> in_memory m' p (L\<lparr>l_ns := xs @ ys\<rparr>) \<and>
      rest m' p (L\<lparr>l_ns := xs @ ys\<rparr>) = rest m p L"
    by (rule mem_del_named_at [OF assms(3) d assms(5)]) (simp, rule none)
  then obtain m' where m': "mem_msg_del_named_header p (At k) m = returns (0, m')" "in_memory m' p (L\<lparr>l_ns := xs @ ys\<rparr>)"
    "rest m' p (L\<lparr>l_ns := xs @ ys\<rparr>) = rest m p L" by blast
  moreover have "mem_msg_add_named_header A p (At k) (Lit s) m = Some (Inl Undefined)"
  proof -
    have "mset (l_chars L) = mset ((k, ks) # [(v, vs)] @ l_chars (L\<lparr>l_ns := xs @ ys\<rparr>))"
      using assms(5) by (simp add: l_chars_def)
    then have "chars m' k = None" by (rule freed_chars [OF assms(3) m'(2,3)])
    moreover have "finite_memory m'" using assms(2) finite_same [OF m'(3)] by simp
    ultimately have "mem_create_named_header A (At k) (Lit s) m' = Inl Undefined"
      using heap_allocator.new_nheader [OF assms(1), of m'] nh(5)
      by (simp add: mem_create_named_header_def assert_arg_def assert_ptr_def calloc_nheader_def Let_def
        mem_init_named_header_def strdup_def deref_arg_def object_def)
    with m'(1) d in_memoryD(8) [OF assms(3)] show ?thesis
      by (simp add: mem_msg_add_named_header_def assert_ptr_def deref_Lit)
  qed
  ultimately show ?thesis by blast
qed

theorem own_strings_freed_first_witness:
  "\<exists>p m m' L' q k ks v vs. mem_msg_create fresh_addresses empty_memory = Inr (p, m) \<and>
    run_mem_ops False fresh_addresses Lit p [Set_Verb ''GET'', Add_Named ''k'' ''v''] m = returns m' \<and>
    in_memory m' p L' \<and> l_ns L' = [(q, (k, ks), (v, vs))] \<and> mem_msg_add_named_header fresh_addresses p (At k) (Lit ''w'') m' = Some (Inl Undefined)"
proof -
  obtain p m L where m: "mem_msg_create fresh_addresses empty_memory = Inr (p, m)" "in_memory m p L" "l_dead L = 0"
    "msg_of L = hms_msg_create" "finite_memory m" by (rule new_message)
  let ?ops = "[Set_Verb ''GET'', Add_Named ''k'' ''v'']"
  have "case run_msg_ops False hms_msg_create ?ops of Inl e \<Rightarrow> False | Inr M \<Rightarrow> verb M \<noteq> None \<and> length (named_headers M) = 1"
    by code_simp
  with fresh.run_mem_ops_refines [OF m(2,5,3) lit_args, of False ?ops] m(4)
  obtain m' L' where m': "run_mem_ops False fresh_addresses Lit p ?ops m = returns m'" "in_memory m' p L'"
    "verb (msg_of L') \<noteq> None" "length (named_headers (msg_of L')) = 1" "rest m' p L' = rest m p L"
    by (auto simp del: run_mem_ops.simps run_msg_ops.simps msg_of_sel split: sum.splits)
  then obtain u w n where "l_verb L' = Some (u, w)" "l_ns L' = [n]" by (auto simp: length_Suc_conv)
  moreover obtain q k ks v vs where n: "n = (q, (k, ks), (v, vs))" by (metis surj_pair)
  ultimately have L': "l_verb L' = Some (u, w)" "l_ns L' = [] @ (q, (k, ks), (v, vs)) # []" by simp_all
  have "finite_memory m'" using m(5) finite_same [OF m'(5)] by simp
  from own_strings_freed_first [OF fresh.heap_allocator_axioms this m'(2) L', of "''w''"]
  have "mem_msg_add_named_header fresh_addresses p (At k) (Lit ''w'') m' = Some (Inl Undefined)" by simp
  moreover have "l_ns L' = [(q, (k, ks), (v, vs))]" using L'(2) by simp
  ultimately show ?thesis using m(1) m'(1,2) by blast
qed

text \<open>
  A failed \<open>strdup\<close> in \<open>__hms_init_header\<close> goes unnoticed: \<open>hms_msg_add_header\<close> answers success and
  the header counts, but its value is NULL, and \<open>hms_msg_get_header\<close> of it copies from NULL.
\<close>
theorem failed_strdup_unnoticed:
  assumes "in_memory m p L" "new_uheader A m = q" "q \<noteq> 0" "\<not> mapped m q" "\<forall>m. new_chars A m = 0"
    "int (length (l_us L)) < int_max"
  shows "\<exists>m'. mem_msg_add_header A p (Lit s) m = Inr (0, m') \<and>
    mem_msg_num_headers p m' = Inr (int (length (l_us L)) + 1) \<and>
    mem_msg_get_header A p (int (length (l_us L))) m' = Some (Inl Undefined)"
proof -
  note im = in_memoryD [OF assms(1)]
  let ?m1 = "m\<lparr>mapped := (mapped m)(q := True), next_of := (next_of m)(q := q), prev_of := (prev_of m)(q := q),
    uheaders := (uheaders m)(q \<mapsto> \<lparr>uhp_val = 0\<rparr>)\<rparr>"
  have cr: "mem_create_header A (Lit s) m = Inr (q, ?m1)"
    using assms(2,3,5) by (simp add: mem_create_header_def calloc_uheader_def Let_def mem_init_header_def assert_ptr_def
      strdup_def put_chars_def deref_Lit object_def HMS_INIT_LIST_HEAD_def link_simps is_head_def)
  have B: "set (headers_lh p # map fst (l_us L)) \<subseteq> l_heads p L" by (auto simp: l_heads_def)
  have "\<exists>m2. hms_list_add_tail q (headers_lh p) ?m1 = Inr m2 \<and> ring m2 (headers_lh p) (map fst (l_us L) @ [q]) \<and>
      ring m2 (named_headers_lh p) (map fst (l_ns L)) \<and> same_outside (set (q # headers_lh p # map fst (l_us L))) ?m1 m2 \<and>
      other_heads m2 (insert q (l_heads p L)) = other_heads m (l_heads p L) \<and>
      q \<notin> set (headers_lh p # map fst (l_us L)) \<and> q \<notin> set (named_headers_lh p # map fst (l_ns L))"
    by (rule link_new [OF im(5,6,7) assms(4,3) _ _ B]) simp_all
  then obtain m2 where m2: "hms_list_add_tail q (headers_lh p) ?m1 = Inr m2"
    "ring m2 (headers_lh p) (map fst (l_us L) @ [q])" "same_outside (set (q # headers_lh p # map fst (l_us L))) ?m1 m2" by blast
  note obj = same_outside_objects [OF m2(3)]
  let ?mm = "(struct_of L)\<lparr>mm_num_headers := int (length (l_us L)) + 1\<rparr>"
  let ?m3 = "m2\<lparr>msgs := (msgs m)(p \<mapsto> ?mm)\<rparr>"
  have n: "mm_num_headers ?mm = int (length (l_us L)) + 1" by (simp add: struct_of_def)
  have o2: "object (msgs m2) p = Inr (struct_of L)" using im(8,10) obj(4) by (simp add: object_def)
  have "mm_num_headers (struct_of L) = int (length (l_us L))" by (simp add: struct_of_def)
  then have inc: "int_add (mm_num_headers (struct_of L)) 1 = Inr (int (length (l_us L)) + 1)"
    using assms(6) by (simp add: int_min_def)
  have add: "mem_msg_add_header A p (Lit s) m = Inr (0, ?m3)"
    using cr m2(1) im(8,10) obj(4) o2 inc
    by (simp add: mem_msg_add_header_def assert_ptr_def deref_Lit set_msg_def object_def)
  have o: "object (msgs ?m3) p = Inr ?mm" using im(8) by (simp add: object_def)
  have r: "ring ?m3 (headers_lh p) (map fst (l_us L) @ [q])"
    using m2(2) ring_cong [of "headers_lh p" "map fst (l_us L) @ [q]" ?m3 m2] by (simp add: is_head_def)
  let ?body = "\<lambda>hdr i. Inr (i + 1, i = int (length (l_us L)))"
  have "?body (map fst (l_us L) ! j) (int j) = Inr (int (Suc j), False)" if "j < length (map fst (l_us L))" for j
    using that by simp
  from loop_list_skip [where body = ?body and st = int and ys = "map fst (l_us L)" and us = "[q]", OF this]
    for_each_entry_ring [where body = ?body and s = 0, OF r]
  have loop: "hms_list_for_each_entry ?body ?m3 (headers_lh p) 0 = returns (int (length (l_us L)) + 1, q)" by simp
  have u: "object (uheaders ?m3) q = Inr \<lparr>uhp_val = 0\<rparr>" using obj(2) assms(3) by (simp add: object_def)
  have "mem_msg_get_header A p (int (length (l_us L))) ?m3 = Some (Inl Undefined)"
    using o n loop u im(8) by (simp add: mem_msg_get_header_def assert_ptr_def strdup_def deref_arg_def object_def)
  moreover have "mem_msg_num_headers p ?m3 = Inr (int (length (l_us L)) + 1)"
    using o n im(8) by (simp add: mem_msg_num_headers_def assert_ptr_def)
  ultimately show ?thesis using add by blast
qed

theorem failed_strdup_unnoticed_witness:
  "\<exists>p m m'. mem_msg_create fresh_addresses empty_memory = Inr (p, m) \<and>
    mem_msg_add_header (fresh_addresses\<lparr>new_chars := \<lambda>m. 0\<rparr>) p (Lit ''/x'') m = Inr (0, m') \<and>
    mem_msg_get_header (fresh_addresses\<lparr>new_chars := \<lambda>m. 0\<rparr>) p 0 m' = Some (Inl Undefined)"
proof -
  obtain p m L where m: "mem_msg_create fresh_addresses empty_memory = Inr (p, m)" "in_memory m p L" "l_dead L = 0"
    "msg_of L = hms_msg_create" "finite_memory m" by (rule new_message)
  have "headers (msg_of L) = []" using m(4) by (simp add: hms_msg_create_def)
  then have "l_us L = []" by simp
  with failed_strdup_unnoticed [OF m(2), of "fresh_addresses\<lparr>new_chars := \<lambda>m. 0\<rparr>" "new_uheader fresh_addresses m" "''/x''"]
    fresh.new_uheader [OF m(5)] m(1) show ?thesis by (auto simp: int_max_def)
qed

end
