(* ===== verification/Parser_Buffer.thy ===== *)
theory Parser_Buffer
  imports Hms_Parser
begin

section \<open>Cutting strings in place (src/src/hms/hms_parser.c)\<close>

text \<open>
  The string functions of the parser as they work on its buffer, with indices for pointers: the calls of
  \<open>strtok_r\<close>, \<open>strchr\<close> and \<open>__hms_str_strip\<close> write NUL bytes into the array and answer with pointers into it. A
  read or write outside the array is undefined. The lemmas say that they find the pieces the functions of
  Hms_Parser return, and which part of the array they change.
\<close>

text \<open>
  \<open>strtok_r\<close> from the index \<open>i\<close>: the index of the token, if any, the save pointer, and the array.
\<close>

definition strtok_at :: "string \<Rightarrow> nat \<Rightarrow> char list \<Rightarrow> ((nat option \<times> nat) \<times> char list) res" where
  "strtok_at seps i b =
     bind_res (cstr_at b i) (\<lambda>s.
     let t = i + length (takeWhile (\<lambda>c. c \<in> set seps) s);
         w = dropWhile (\<lambda>c. c \<in> set seps) s;
         e = t + length (takeWhile (\<lambda>c. c \<notin> set seps) w)
     in if w = [] then Inr ((None, t), b)
        else if e = i + length s then Inr ((Some t, e), b)
        else Inr ((Some t, e + 1), b[e := NUL]))"

text \<open>The two loops of \<open>__hms_str_strip\<close>, with their pointers.\<close>

function skip_space :: "char list \<Rightarrow> nat \<Rightarrow> nat res" where
  "skip_space b i =
     (if i < length b then if isspace (b ! i) then skip_space b (i + 1) else Inr i else Inl Undefined)"
  by pat_completeness auto
termination by (relation "measure (\<lambda>(b, i). length b - i)") auto

function strip_back :: "int \<Rightarrow> char list \<Rightarrow> char list res" where
  "strip_back q b =
     (if 0 \<le> q \<and> nat q < length b then
        if isspace (b ! nat q) then strip_back (q - 1) (b[nat q := NUL]) else Inr b
      else Inl Undefined)"
  by pat_completeness auto
termination by (relation "measure (\<lambda>(q, b). nat (q + 1))") auto

declare skip_space.simps [simp del] strip_back.simps [simp del]

definition strip_at :: "nat \<Rightarrow> char list \<Rightarrow> (nat \<times> char list) res" where
  "strip_at i b =
     bind_res (skip_space b i) (\<lambda>i.
     bind_res (cstr_at b i) (\<lambda>s.
     bind_res (strip_back (int i + int (length s) - 1) b) (\<lambda>b. Inr (i, b))))"

definition strchr_at :: "nat \<Rightarrow> char \<Rightarrow> char list \<Rightarrow> nat option res" where
  "strchr_at i c b = bind_res (cstr_at b i) (\<lambda>s. Inr (map_option (\<lambda>n. i + n) (strchr s c)))"

text \<open>
  The part of \<open>__hms_parse_named_header\<close> that works on the line: the pointers \<open>key\<close> and \<open>val\<close>, if there is a
  colon.
\<close>

definition named_at :: "nat \<Rightarrow> char list \<Rightarrow> ((nat \<times> nat) option \<times> char list) res" where
  "named_at line b =
     bind_res (strchr_at line (CHR '':'') b) (\<lambda>colon.
     case colon of
       None \<Rightarrow> Inr (None, b)
     | Some c \<Rightarrow>
         bind_res (strip_at line (b[c := NUL])) (\<lambda>(key, b).
         bind_res (strip_at (c + 1) b) (\<lambda>(val, b). Inr (Some (key, val), b))))"

subsection \<open>Tokens\<close>

lemma strtok_at_None:
  assumes "strtok_r seps s = None" "NUL \<notin> set s"
  shows "strtok_at seps (length pre) (pre @ s @ NUL # post) = Inr ((None, length pre + length s), pre @ s @ NUL # post)"
proof -
  have w: "dropWhile (\<lambda>c. c \<in> set seps) s = []" using assms(1) by (simp add: strtok_r_def Let_def split: if_splits)
  then have "takeWhile (\<lambda>c. c \<in> set seps) s = s" by (metis append_Nil2 takeWhile_dropWhile_id)
  with w assms(2) show ?thesis by (simp add: strtok_at_def cstr_at_append del: dropWhile_eq_Nil_conv takeWhile_eq_all_conv)
qed

text \<open>
  A token behind separators \<open>ws\<close>: it ends with the string, or the separator behind it becomes a NUL.
\<close>

lemma strtok_at_Some:
  assumes "strtok_r seps s = Some (tok, rest)" "NUL \<notin> set s"
  shows "\<exists>ws y. strtok_at seps (length pre) (pre @ s @ NUL # post) =
      Inr ((Some (length pre + length ws), length (pre @ ws @ y)), (pre @ ws @ y) @ rest @ NUL # post) \<and>
    length ws + length y + length rest = length s \<and> set ws \<subseteq> set seps \<and>
    (y = tok \<and> rest = [] \<or> y = tok @ [NUL])"
proof -
  define ws where "ws = takeWhile (\<lambda>c. c \<in> set seps) s"
  define w where "w = dropWhile (\<lambda>c. c \<in> set seps) s"
  define r where "r = dropWhile (\<lambda>c. c \<notin> set seps) w"
  from assms(1) have w: "w \<noteq> []" and tok: "takeWhile (\<lambda>c. c \<notin> set seps) w = tok" and rest: "rest = drop 1 r"
    by (auto simp: strtok_r_def Let_def w_def r_def split: if_splits)
  have "s = ws @ w" "w = tok @ r" unfolding ws_def w_def r_def tok [symmetric] by simp_all
  then have s: "s = ws @ tok @ r" by simp
  have at: "strtok_at seps (length pre) (pre @ s @ NUL # post) =
      (let e = length pre + length ws + length tok in
       if e = length pre + length s then Inr ((Some (length pre + length ws), e), pre @ s @ NUL # post)
       else Inr ((Some (length pre + length ws), e + 1), (pre @ s @ NUL # post)[e := NUL]))"
    unfolding strtok_at_def cstr_at_append [OF assms(2) refl] bind_res_simps ws_def [symmetric] w_def [symmetric] tok
    using w tok by (simp add: Let_def)
  have ws: "set ws \<subseteq> set seps" unfolding ws_def using set_takeWhileD by fastforce
  show ?thesis
  proof (cases r)
    case Nil
    with s rest at ws show ?thesis by (intro exI [of _ ws] exI [of _ tok]) simp
  next
    case (Cons c rs)
    have "(pre @ s @ NUL # post)[length pre + length ws + length tok := NUL] = (pre @ ws @ tok) @ NUL # rs @ NUL # post"
      using list_update_length [of "pre @ ws @ tok" c "rs @ NUL # post" NUL] s Cons by (simp add: add.assoc)
    with s rest at ws Cons show ?thesis by (intro exI [of _ ws] exI [of _ "tok @ [NUL]"]) simp
  qed
qed

subsection \<open>Stripping\<close>

lemma isspace_NUL [simp]: "\<not> isspace NUL"
  by (simp add: isspace_def)

lemma skip_space_over:
  "\<forall>c \<in> set ws. isspace c \<Longrightarrow> \<not> isspace c \<Longrightarrow>
   skip_space (pre @ ws @ c # post) (length pre) = Inr (length pre + length ws)"
proof (induction ws arbitrary: pre)
  case Nil
  then show ?case by (subst skip_space.simps) simp
next
  case (Cons w ws)
  from Cons.IH [of "pre @ [w]"] Cons.prems show ?case by (subst skip_space.simps) simp
qed

lemma strip_back_over:
  "\<forall>c \<in> set ws. isspace c \<Longrightarrow> \<not> isspace c \<Longrightarrow>
   strip_back (int (length pre + length ws)) (pre @ c # ws @ post) = Inr (pre @ c # replicate (length ws) NUL @ post)"
proof (induction ws arbitrary: post rule: rev_induct)
  case Nil
  then show ?case by (subst strip_back.simps) simp
next
  case (snoc w ws)
  have n: "nat (1 + (int (length pre) + int (length ws))) = Suc (length pre + length ws)" by simp
  have "(pre @ c # ws @ w # post) ! (length pre + Suc (length ws)) = w"
    "(pre @ c # ws @ w # post)[length pre + Suc (length ws) := NUL] = pre @ c # ws @ NUL # post"
    using nth_append_length [of "pre @ c # ws" w post] list_update_length [of "pre @ c # ws" w post NUL] by simp_all
  then show ?case using snoc.IH [of "NUL # post"] snoc.prems
    by (subst strip_back.simps) (auto simp: n replicate_app_Cons_same)
qed

lemma cstr_at_NULs: "i = length pre \<Longrightarrow> NUL \<notin> set s \<Longrightarrow> cstr_at (pre @ s @ replicate n NUL @ NUL # post) i = Inr s"
  using cstr_at_append [of s i pre "replicate n NUL @ post"] by (simp flip: replicate_app_Cons_same)

lemma strip_parts:
  assumes "\<not> (\<forall>c \<in> set s. isspace c)"
  obtains sp sp' where "s = sp @ hms_str_strip s @ sp'" "hms_str_strip s \<noteq> []" "\<not> isspace (hd (hms_str_strip s))"
    "\<not> isspace (last (hms_str_strip s))" "\<forall>c \<in> set sp. isspace c" "\<forall>c \<in> set sp'. isspace c"
proof
  let ?d = "dropWhile isspace s" and ?core = "hms_str_strip s"
  let ?sp' = "rev (takeWhile isspace (rev ?d))"
  have d: "?d \<noteq> []" using assms by (simp add: dropWhile_eq_Nil_conv)
  then have hd: "\<not> isspace (hd ?d)" by (rule hd_dropWhile)
  have dc: "?d = ?core @ ?sp'" unfolding hms_str_strip_def by (metis rev_append rev_rev_ident takeWhile_dropWhile_id)
  have "hd ?d \<in> set ?d" using d by (rule list.set_sel(1))
  then show ne: "?core \<noteq> []" unfolding hms_str_strip_def rev_is_Nil_conv dropWhile_eq_Nil_conv set_rev using hd by blast
  then show "\<not> isspace (last ?core)" using hd_dropWhile [of isspace "rev ?d"]
    by (simp add: hms_str_strip_def hd_rev last_rev)
  show "\<not> isspace (hd ?core)" using hd dc ne by (metis hd_append2)
  show "s = takeWhile isspace s @ ?core @ ?sp'" using dc by (metis takeWhile_dropWhile_id)
qed (auto dest: set_takeWhileD)

text \<open>
  The blanks \<open>ws\<close> before the string, back to a NUL, are overwritten when the string is blank.
\<close>

lemma strip_at_string:
  assumes "\<forall>c \<in> set ws. isspace c" "NUL \<notin> set s" "i = Suc (length pre + length ws)"
  shows "\<exists>k x. strip_at i (pre @ NUL # ws @ s @ NUL # post) = Inr (k, pre @ NUL # x @ NUL # post) \<and>
    length x = length ws + length s \<and> (\<forall>post. cstr_at (pre @ NUL # x @ NUL # post) k = Inr (hms_str_strip s))"
proof (cases "\<forall>c \<in> set s. isspace c")
  case True
  then have strip: "hms_str_strip s = []" by (auto simp: hms_str_strip_def dropWhile_eq_Nil_conv dest: set_dropWhileD)
  have skip: "skip_space (pre @ NUL # ws @ s @ NUL # post) i = Inr (i + length s)"
    using skip_space_over [of s NUL "pre @ NUL # ws" post] True assms(3) by simp
  have bk: "strip_back (int (i + length s) - 1) (pre @ NUL # ws @ s @ NUL # post) =
      Inr (pre @ NUL # replicate (length ws + length s) NUL @ NUL # post)"
    using strip_back_over [of "ws @ s" NUL pre "NUL # post"] True assms(1,3) by (simp add: ball_Un add.assoc)
  have "cstr_at (pre @ NUL # ws @ s @ NUL # post) (i + length s) = Inr []"
    using cstr_at_append [of "[]" "i + length s" "pre @ NUL # ws @ s" post] assms(3) by simp
  moreover have "cstr_at (pre @ NUL # replicate (length ws + length s) NUL @ NUL # post) (i + length s) = Inr []" for post
    using cstr_at_append [of "[]" "i + length s" "pre @ NUL # replicate (length ws + length s) NUL" post] assms(3) by simp
  ultimately show ?thesis using skip bk strip
    by (intro exI [of _ "i + length s"] exI [of _ "replicate (length ws + length s) NUL"]) (simp add: strip_at_def)
next
  case False
  then obtain sp sp' where parts: "s = sp @ hms_str_strip s @ sp'" "hms_str_strip s \<noteq> []" "\<not> isspace (hd (hms_str_strip s))"
    "\<not> isspace (last (hms_str_strip s))" "\<forall>c \<in> set sp. isspace c" "\<forall>c \<in> set sp'. isspace c" by (rule strip_parts)
  define core where "core = hms_str_strip s"
  have s: "s = sp @ core @ sp'" using parts(1) by (simp add: core_def)
  obtain c cs where c: "core = c # cs" "\<not> isspace c" using parts(2,3) unfolding core_def [symmetric] by (cases core) auto
  obtain d ds where d: "core = ds @ [d]" "\<not> isspace d"
    using parts(2,4) unfolding core_def [symmetric] by (cases core rule: rev_cases) auto
  define k where "k = i + length sp"
  have skip: "skip_space (pre @ NUL # ws @ s @ NUL # post) i = Inr k"
    using skip_space_over [OF parts(5) c(2), of "pre @ NUL # ws" "cs @ sp' @ NUL # post"] assms(3) s c(1)
    by (simp add: k_def)
  have str: "cstr_at (pre @ NUL # ws @ s @ NUL # post) k = Inr (core @ sp')"
    using cstr_at_append [of "core @ sp'" k "pre @ NUL # ws @ sp" post] assms(2,3) s by (simp add: k_def)
  let ?x = "ws @ sp @ core @ replicate (length sp') NUL"
  have "int k + int (length (core @ sp')) - 1 = int (length (pre @ NUL # ws @ sp @ ds) + length sp')"
    using assms(3) d(1) by (simp add: k_def)
  then have bk: "strip_back (int k + int (length (core @ sp')) - 1) (pre @ NUL # ws @ s @ NUL # post) = Inr (pre @ NUL # ?x @ NUL # post)"
    using strip_back_over [OF parts(6) d(2), of "pre @ NUL # ws @ sp @ ds" "NUL # post"] s d(1) by (simp add: add.assoc)
  have "cstr_at (pre @ NUL # ?x @ NUL # post) k = Inr core" for post
    using cstr_at_NULs [of k "pre @ NUL # ws @ sp" core "length sp'" post] assms(2,3) s by (simp add: k_def)
  moreover have "length ?x = length ws + length s" using s by simp
  ultimately show ?thesis using skip str bk unfolding core_def
    by (intro exI [of _ k] exI [of _ ?x]) (simp add: strip_at_def core_def)
qed

text \<open>A named header: the line lies behind a NUL and newlines.\<close>

lemma strchr_Some: "strchr s c = Some i \<Longrightarrow> i < length s \<and> s = take i s @ c # drop (i + 1) s"
proof -
  assume a: "strchr s c = Some i"
  then have i: "i = length (takeWhile (\<lambda>x. x \<noteq> c) s)" "i < length s"
    by (auto simp: strchr_def Let_def split: if_splits)
  then have "s ! i = c" using nth_length_takeWhile [of "\<lambda>x. x \<noteq> c" s] by simp
  with i(2) show ?thesis using id_take_nth_drop [of i s] by simp
qed

lemma named_at_None:
  assumes "strchr line (CHR '':'') = None" "NUL \<notin> set line" "i = length pre"
  shows "named_at i (pre @ line @ NUL # post) = Inr (None, pre @ line @ NUL # post)"
  using assms by (simp add: named_at_def strchr_at_def cstr_at_append)

lemma named_at_Some:
  assumes "strchr line (CHR '':'') = Some c" "NUL \<notin> set line" "\<forall>c \<in> set ws. isspace c"
    "i = Suc (length pre + length ws)"
  shows "\<exists>key val x. named_at i (pre @ NUL # ws @ line @ NUL # post) = Inr (Some (key, val), pre @ NUL # x @ NUL # post) \<and>
    length x = length ws + length line \<and>
    cstr_at (pre @ NUL # x @ NUL # post) key = Inr (hms_str_strip (take c line)) \<and>
    cstr_at (pre @ NUL # x @ NUL # post) val = Inr (hms_str_strip (drop (c + 1) line))"
proof -
  let ?k = "take c line" and ?v = "drop (c + 1) line"
  have line: "c < length line" "line = ?k @ CHR '':'' # ?v" using strchr_Some [OF assms(1)] by simp_all
  have nn: "NUL \<notin> set ?k" "NUL \<notin> set ?v" using assms(2) by (auto dest: in_set_takeD in_set_dropD)
  have b: "pre @ NUL # ws @ line @ NUL # post = (pre @ NUL # ws @ ?k) @ CHR '':'' # ?v @ NUL # post"
    using line(2) by (metis append.assoc append_Cons)
  have "strchr_at i (CHR '':'') (pre @ NUL # ws @ line @ NUL # post) = Inr (Some (i + c))"
    using assms(1,4) cstr_at_append [OF assms(2), of i "pre @ NUL # ws" post] by (simp add: strchr_at_def)
  moreover have "i + c = length (pre @ NUL # ws @ ?k)" using assms(4) line(1) by simp
  then have "(pre @ NUL # ws @ line @ NUL # post)[i + c := NUL] = pre @ NUL # ws @ ?k @ NUL # ?v @ NUL # post"
    unfolding b by (metis append.assoc append_Cons list_update_length)
  moreover obtain key x where k: "strip_at i (pre @ NUL # ws @ ?k @ NUL # ?v @ NUL # post) =
      Inr (key, pre @ NUL # x @ NUL # ?v @ NUL # post)" "length x = length ws + length ?k"
      "\<And>post. cstr_at (pre @ NUL # x @ NUL # post) key = Inr (hms_str_strip ?k)"
    using strip_at_string [OF assms(3) nn(1) assms(4), of "?v @ NUL # post"] by blast
  have "i + c + 1 = Suc (length (pre @ NUL # x) + length ([] :: char list))" using assms(4) k(2) line(1) by simp
  from strip_at_string [OF _ nn(2) this, of post] obtain val y where
    v: "strip_at (i + c + 1) (pre @ NUL # x @ NUL # ?v @ NUL # post) = Inr (val, pre @ NUL # x @ NUL # y @ NUL # post)"
      "length y = length ?v" "cstr_at (pre @ NUL # x @ NUL # y @ NUL # post) val = Inr (hms_str_strip ?v)"
    by auto
  moreover have "length (x @ NUL # y) = length ws + length line" using k(2) v(2) line(1) by simp
  ultimately show ?thesis using k
    by (intro exI [of _ key] exI [of _ val] exI [of _ "x @ NUL # y"]) (simp add: named_at_def)
qed

end
