(* ===== verification/Parser_Memory.thy ===== *)
theory Parser_Memory
  imports Parser_Buffer Msg_Memory
begin

section \<open>The parser in memory (src/src/hms/hms_parser.c)\<close>

text \<open>
  \<open>hms_msg_parse\<close> and its helpers once more, on the memory of Msg_Memory: the header and the body are read
  into arrays that are allocated and freed, the header is cut in place (Parser_Buffer), and the operations on
  the message get pointers into it.
\<close>

subsection \<open>Arrays\<close>

definition set_chars :: "ptr \<Rightarrow> char list \<Rightarrow> msg_memory \<Rightarrow> msg_memory" where
  "set_chars q b m = m\<lparr>chars := (chars m)(q \<mapsto> b)\<rparr>"

text \<open>A call that works on one array.\<close>

definition in_buffer :: "ptr \<Rightarrow> (char list \<Rightarrow> ('x \<times> char list) res) \<Rightarrow> msg_memory \<Rightarrow> ('x \<times> msg_memory) res" where
  "in_buffer q f m =
     bind_res (object (chars m) q) (\<lambda>b. bind_res (f b) (\<lambda>(x, b). Inr (x, set_chars q b m)))"

definition store :: "ptr \<Rightarrow> nat \<Rightarrow> char list \<Rightarrow> msg_memory \<Rightarrow> msg_memory res" where
  "store q off s m =
     bind_res (in_buffer q (\<lambda>b. bind_res (buf_write b off s) (\<lambda>b. Inr ((), b))) m) (\<lambda>(_, m). Inr m)"

definition malloc :: "allocator \<Rightarrow> int \<Rightarrow> msg_memory \<Rightarrow> ptr \<times> msg_memory" where
  "malloc A n m = (if n < 0 then (0, m) else put_chars A (malloc_area (nat n)) m)"

subsection \<open>The header\<close>

definition mem_parse_read_header :: "'s reader \<Rightarrow> ptr \<Rightarrow> int \<Rightarrow> msg_memory \<Rightarrow> 's \<Rightarrow> (int \<times> msg_memory \<times> 's) res" where
  "mem_parse_read_header rd buffer buf_len m s =
     bind_res (assert_ptr buffer) (\<lambda>_.
     bind_res (in_buffer buffer (\<lambda>b.
       bind_res (hms_parse_read_header rd (Some b) buf_len s) (\<lambda>((b, hdr_len), s). Inr ((hdr_len, s), b))) m)
       (\<lambda>((hdr_len, s), m). Inr (hdr_len, m, s)))"

text \<open>
  \<open>p\<close> is the message, \<open>q\<close> the buffer; \<open>i\<close> is the save pointer of \<open>strtok_r\<close>. The results hold the value the
  function returns and what it sets.
\<close>

partial_function (option) mem_verb_line_loop ::
    "allocator \<Rightarrow> ptr \<Rightarrow> ptr \<Rightarrow> nat \<Rightarrow> bool \<Rightarrow> nat \<Rightarrow> msg_memory \<Rightarrow> (bool \<times> msg_memory) run" where
  [code]: "mem_verb_line_loop A p q count found_verb i m =
     bind_run (Some (in_buffer q (strtok_at [CHR '' '', CHR 0x09] i) m)) (\<lambda>((word, i), m).
     case word of
       None \<Rightarrow> returns (found_verb, m)
     | Some w \<Rightarrow>
         if count = 0 then
           bind_run (Some (mem_msg_set_verb A p (Inside q w) m)) (\<lambda>(_, m).
           mem_verb_line_loop A p q (count + 1) True i m)
         else
           bind_run (Some (mem_msg_add_header A p (Inside q w) m)) (\<lambda>(_, m).
           mem_verb_line_loop A p q (count + 1) found_verb i m))"

definition mem_parse_verb_line :: "allocator \<Rightarrow> ptr \<Rightarrow> ptr \<Rightarrow> nat \<Rightarrow> msg_memory \<Rightarrow> (int \<times> msg_memory) run" where
  "mem_parse_verb_line A p q line m =
     bind_run (mem_verb_line_loop A p q 0 False line m) (\<lambda>(found_verb, m).
     returns (if found_verb then 0 else -1, m))"

definition mem_parse_named_header ::
    "allocator \<Rightarrow> ptr \<Rightarrow> ptr \<Rightarrow> nat \<Rightarrow> int \<Rightarrow> msg_memory \<Rightarrow> (int \<times> int \<times> msg_memory) run" where
  "mem_parse_named_header A p q line body_len m =
     bind_run (Some (in_buffer q (named_at line) m)) (\<lambda>(key_val, m).
     case key_val of
       None \<Rightarrow> returns (-1, body_len, m)
     | Some (key, val) \<Rightarrow>
         bind_run (Some (deref_arg m (Inside q key))) (\<lambda>k.
         bind_run (Some (deref_arg m (Inside q val))) (\<lambda>v.
         let is_len = (strcasecmp k HMS_CONTENT_LENGTH = 0);
             body_len = (if is_len then to_int32 (strtol10 v) else body_len)
         in if is_len \<and> body_len = 0 then returns (-1, body_len, m)
            else bind_run (mem_msg_add_named_header A p (Inside q key) (Inside q val) m) (\<lambda>(_, m).
                 returns (0, body_len, m)))))"

partial_function (option) mem_parse_header_loop ::
    "allocator \<Rightarrow> ptr \<Rightarrow> ptr \<Rightarrow> nat \<Rightarrow> int \<Rightarrow> nat \<Rightarrow> msg_memory \<Rightarrow> (int \<times> int \<times> msg_memory) run" where
  [code]: "mem_parse_header_loop A p q count body_len i m =
     bind_run (Some (in_buffer q (strtok_at [NL] i) m)) (\<lambda>((line, i), m).
     case line of
       None \<Rightarrow> returns (0, body_len, m)
     | Some l \<Rightarrow>
         if count = 0 then
           bind_run (mem_parse_verb_line A p q l m) (\<lambda>(ret, m).
           if ret \<noteq> 0 then returns (-1, body_len, m)
           else mem_parse_header_loop A p q (count + 1) body_len i m)
         else
           bind_run (mem_parse_named_header A p q l body_len m) (\<lambda>(ret, body_len, m).
           if ret \<noteq> 0 then returns (-1, body_len, m)
           else mem_parse_header_loop A p q (count + 1) body_len i m))"

definition mem_parse_header ::
    "allocator \<Rightarrow> ptr \<Rightarrow> ptr \<Rightarrow> int \<Rightarrow> int \<Rightarrow> msg_memory \<Rightarrow> (int \<times> int \<times> msg_memory) run" where
  "mem_parse_header A p q len body_len m = mem_parse_header_loop A p q 0 body_len 0 m"

subsection \<open>The body\<close>

text \<open>A \<open>read\<close> into NULL, which a failed \<open>malloc\<close> leads to, fails (\<open>EFAULT\<close>).\<close>

function mem_read_body_loop ::
    "'s reader \<Rightarrow> ptr \<Rightarrow> int \<Rightarrow> int \<Rightarrow> msg_memory \<Rightarrow> 's \<Rightarrow> ((int \<times> bool) \<times> msg_memory \<times> 's) res" where
  "mem_read_body_loop rd q body_len read_in m s =
     (if read_in < body_len then
        (case if q = 0 then (-1, [], s) else rd s (nat (body_len - read_in)) of (sz, bytes, s) \<Rightarrow>
           if sz \<le> 0 then Inr ((read_in, True), m, s)
           else bind_res (store q (nat read_in) bytes m) (\<lambda>m. mem_read_body_loop rd q body_len (read_in + sz) m s))
      else Inr ((read_in, False), m, s))"
  by pat_completeness auto
termination
  by (relation "measure (\<lambda>(rd, q, body_len, read_in, m, s). nat (body_len - read_in))") auto

declare mem_read_body_loop.simps [simp del]

text \<open>The comparison of the checksums: whether it fails, and \<open>given_checksum\<close>.\<close>

definition mem_checksum_error ::
    "bool \<Rightarrow> allocator \<Rightarrow> ptr \<Rightarrow> ptr \<Rightarrow> int \<Rightarrow> msg_memory \<Rightarrow> (bool \<times> ptr \<times> msg_memory) run" where
  "mem_checksum_error ck A p q body_len m =
     (if ck then
        bind_run (Some (object (chars m) q)) (\<lambda>buffer.
        bind_run (Some (checksum_string buffer body_len)) (\<lambda>computed.
        bind_run (mem_msg_get_named_header A p (Lit HMS_CONTENT_CHECKSUM) m) (\<lambda>(given, ret_chk, m).
        if ret_chk = 0 \<and> given \<noteq> 0 then
          bind_run (Some (deref_arg m (At given))) (\<lambda>g. returns (strncasecmp g computed 33 \<noteq> 0, given, m))
        else returns (False, given, m))))
      else returns (False, 0, m))"

definition mem_parse_read_body ::
    "bool \<Rightarrow> allocator \<Rightarrow> 's reader \<Rightarrow> ptr \<Rightarrow> int \<Rightarrow> msg_memory \<Rightarrow> 's \<Rightarrow> (int \<times> msg_memory \<times> 's) run" where
  "mem_parse_read_body ck A rd p body_len m s =
     bind_run (Some (int_add body_len 1)) (\<lambda>size.
     let (buffer, m) = malloc A size m in
     bind_run (Some (mem_read_body_loop rd buffer body_len 0 m s)) (\<lambda>((read_in, failed), m, s).
     bind_run
       (if buffer = 0 \<or> failed then returns (True, 0, m)
        else
          bind_run (mem_checksum_error ck A p buffer body_len m) (\<lambda>(bad, given, m).
          if read_in \<noteq> body_len then Some (Inl AssertAbort)
          else bind_run (mem_msg_set_body ck A p (At buffer) body_len m) (\<lambda>(_, m). returns (bad, given, m))))
       (\<lambda>(erred, given, m).
     bind_run (Some (free_chars buffer m)) (\<lambda>m.
     bind_run (Some (free_chars given m)) (\<lambda>m.
     returns (if erred then -1 else 0, m, s))))))"

subsection \<open>The parser\<close>

text \<open>What \<open>hms_msg_parse\<close> does with a header that has been read.\<close>

definition mem_parse_msg ::
    "bool \<Rightarrow> allocator \<Rightarrow> 's reader \<Rightarrow> ptr \<Rightarrow> int \<Rightarrow> msg_memory \<Rightarrow> 's \<Rightarrow> (ptr \<times> msg_memory \<times> 's) run" where
  "mem_parse_msg ck A rd buffer hdr_len m s =
     bind_run (Some (mem_msg_create A m)) (\<lambda>(msg, m).
     bind_run (mem_parse_header A msg buffer hdr_len 0 m) (\<lambda>(ret, body_len, m).
     bind_run
       (if ret = 0 then
          (if body_len \<noteq> 0 then
             bind_run (mem_parse_read_body ck A rd msg body_len m s) (\<lambda>(ret, m, s). returns (ret \<noteq> 0, m, s))
           else returns (False, m, s))
        else returns (True, m, s)) (\<lambda>(erred, m, s).
     if erred \<and> msg \<noteq> 0 then bind_run (mem_msg_destroy msg m) (\<lambda>(_, m). returns (0, m, s))
     else returns (msg, m, s))))"

definition mem_msg_parse ::
    "bool \<Rightarrow> allocator \<Rightarrow> 's reader \<Rightarrow> int \<Rightarrow> msg_memory \<Rightarrow> 's \<Rightarrow> (ptr \<times> msg_memory \<times> 's) run" where
  "mem_msg_parse ck A rd max_hdr_len m s =
     bind_run (Some (int_add max_hdr_len 1)) (\<lambda>size.
     let (buffer, m) = malloc A size m in
     bind_run (Some (if max_hdr_len < 0 then Inl Undefined else store buffer (nat max_hdr_len) [NUL] m)) (\<lambda>m.
     bind_run (Some (mem_parse_read_header rd buffer max_hdr_len m s)) (\<lambda>(hdr_len, m, s).
     bind_run
       (if hdr_len > 2 then mem_parse_msg ck A rd buffer hdr_len m s else returns (0, m, s)) (\<lambda>(msg, m, s).
     bind_run (Some (free_chars buffer m)) (\<lambda>m. returns (msg, m, s))))))"

end
