(* ===== verification/Msg_Arrays.thy ===== *)
theory Msg_Arrays
  imports Parser_Memory Msg_Memory_Correct
begin

section \<open>A message and arrays beside it\<close>

text \<open>
  \<open>message m p L R\<close>: the memory \<open>m\<close> is the message \<open>L\<close> at \<open>p\<close> and the rest \<open>R\<close>. The code that calls the message
  API has arrays of its own in the rest: \<open>with_chars R q b\<close> is \<open>R\<close> with the array \<open>b\<close> at \<open>q\<close>.
\<close>

definition message :: "msg_memory \<Rightarrow> ptr \<Rightarrow> layout \<Rightarrow> rest_memory \<Rightarrow> bool" where
  "message m p L R \<longleftrightarrow> in_memory m p L \<and> l_dead L = 0 \<and> rest m p L = R"

definition with_chars :: "rest_memory \<Rightarrow> ptr \<Rightarrow> char list \<Rightarrow> rest_memory" where
  "with_chars R q b = R\<lparr>r_chars := (r_chars R)(q \<mapsto> b)\<rparr>"

lemma with_chars_simps [simp]:
  "r_chars (with_chars R q b) = (r_chars R)(q \<mapsto> b)" "with_chars (with_chars R q b) q b' = with_chars R q b'"
  "finite_rest (with_chars R q b) = finite_rest R"
  by (simp_all add: with_chars_def finite_rest_def)

lemma messageD:
  assumes "message m p L R"
  shows "in_memory m p L" "l_dead L = 0" "rest m p L = R" "p \<noteq> 0" "finite_memory m = finite_rest R"
  using assms in_memoryD(8) [of m p L] finite_memory_rest [of m p L] by (simp_all add: message_def)

lemma message_unique: "message m p L R \<Longrightarrow> message m p L R' \<Longrightarrow> R' = R"
  by (simp add: message_def)

subsection \<open>Arrays\<close>

lemma outside_Some: "outside f xs q = Some b \<longleftrightarrow> q \<notin> fst ` set xs \<and> f q = Some b"
  by (simp add: outside_def restrict_map_def)

lemma message_chars:
  assumes "message m p L R" "q \<notin> fst ` set (l_chars L)"
  shows "message (m\<lparr>chars := (chars m)(q := x)\<rparr>) p L (R\<lparr>r_chars := (r_chars R)(q := x)\<rparr>)"
proof -
  let ?m = "m\<lparr>chars := (chars m)(q := x)\<rparr>"
  have r: "ring ?m h xs = ring m h xs" for h xs by (rule ring_cong) (simp add: is_head_def)
  have "other_heads ?m B = other_heads m B" for B by (rule ext) (simp add: other_heads_def)
  moreover have "holds ((chars m)(q := x)) (l_chars L)"
    using in_memoryD(2) [OF messageD(1) [OF assms(1)]] assms(2) by (force simp: holds_def)
  moreover have "outside ((chars m)(q := x)) (l_chars L) = (outside (chars m) (l_chars L))(q := x)"
    using assms(2) by (simp add: outside_def restrict_map_def fun_eq_iff)
  moreover have "R = rest m p L" using messageD(3) [OF assms(1)] by simp
  ultimately show ?thesis
    using assms(1) in_memoryD [OF messageD(1) [OF assms(1)]] r by (simp add: message_def in_memory_def rest_def)
qed

lemma message_at:
  assumes "message m p L R" "r_chars R q = Some b"
  shows "chars m q = Some b" "q \<notin> fst ` set (l_chars L)"
proof -
  have "r_chars (rest m p L) q = Some b" using messageD(3) [OF assms(1)] assms(2) by simp
  then show "chars m q = Some b" "q \<notin> fst ` set (l_chars L)" by (simp_all add: rest_def outside_Some)
qed

lemma message_set_chars:
  assumes "message m p L (with_chars R q b)"
  shows "message (set_chars q b' m) p L (with_chars R q b')"
proof -
  have "q \<notin> fst ` set (l_chars L)" using message_at(2) [OF assms] by simp
  from message_chars [OF assms this, of "Some b'"] show ?thesis by (simp add: set_chars_def with_chars_def)
qed

lemma message_new_chars:
  assumes "message m p L R" "chars m q = None"
  shows "message (m\<lparr>chars := (chars m)(q \<mapsto> b)\<rparr>) p L (with_chars R q b) \<and> r_chars R q = None"
proof -
  have "q \<notin> fst ` set (l_chars L)"
    using in_memoryD(2) [OF messageD(1) [OF assms(1)]] assms(2) by (auto simp: holds_def)
  moreover have "r_chars R q = None"
    using messageD(3) [OF assms(1)] assms(2) by (auto simp: rest_def outside_def restrict_map_def)
  ultimately show ?thesis using message_chars [OF assms(1), of q "Some b"] by (simp add: with_chars_def)
qed

lemma message_free:
  assumes "message m p L (with_chars R q b)" "q \<noteq> 0" "r_chars R q = None"
  shows "\<exists>m'. free_chars q m = Inr m' \<and> message m' p L R"
proof -
  note at = message_at [OF assms(1), of q b]
  have "(with_chars R q b)\<lparr>r_chars := (r_chars (with_chars R q b))(q := None)\<rparr> = R"
    using assms(3) by (cases R) (simp add: with_chars_def fun_upd_idem)
  then show ?thesis using at message_chars [OF assms(1), of q None] assms(2)
    by (simp add: free_chars_def object_def)
qed

text \<open>The same for a memory without the message.\<close>

lemma contents_chars: "contents (m\<lparr>chars := (chars m)(q := x)\<rparr>) = (contents m)\<lparr>r_chars := (r_chars (contents m))(q := x)\<rparr>"
proof -
  have "other_heads (m\<lparr>chars := (chars m)(q := x)\<rparr>) {} = other_heads m {}" by (rule ext) (simp add: other_heads_def)
  then show ?thesis by (simp add: contents_def)
qed

lemma contents_set_chars: "contents (set_chars q b m) = with_chars (contents m) q b"
  by (simp add: set_chars_def contents_chars with_chars_def)

lemma contents_at: "contents m = with_chars R q b \<Longrightarrow> chars m q = Some b"
  by (metis contents_def fun_upd_same rest_memory.select_convs(2) with_chars_simps(1))

lemma contents_free:
  assumes "contents m = with_chars R q b" "q \<noteq> 0" "r_chars R q = None"
  shows "\<exists>m'. free_chars q m = Inr m' \<and> contents m' = R"
proof -
  have "(with_chars R q b)\<lparr>r_chars := (r_chars (with_chars R q b))(q := None)\<rparr> = R"
    using assms(3) by (cases R) (simp add: with_chars_def fun_upd_idem)
  then show ?thesis using contents_at [OF assms(1)] assms(1,2)
    by (simp add: free_chars_def object_def contents_chars)
qed

subsection \<open>Calls\<close>

lemma in_buffer_message:
  assumes "message m p L (with_chars R q b)" "q \<noteq> 0" "f b = Inr (x, b')"
  shows "in_buffer q f m = Inr (x, set_chars q b' m)" "message (set_chars q b' m) p L (with_chars R q b')"
  using message_at(1) [OF assms(1)] assms(2,3) message_set_chars [OF assms(1)]
  by (simp_all add: in_buffer_def object_def)

lemma in_buffer_contents:
  assumes "contents m = with_chars R q b" "q \<noteq> 0" "f b = Inr (x, b')"
  shows "in_buffer q f m = Inr (x, set_chars q b' m)" "contents (set_chars q b' m) = with_chars R q b'"
  using contents_at [OF assms(1)] assms(1-3) by (simp_all add: in_buffer_def object_def contents_set_chars)

text \<open>A pointer to an array of the caller, or into it.\<close>

lemma arg_inside:
  assumes "message m p L (with_chars R q b)" "q \<noteq> 0" "cstr_at b i = Inr s"
  shows "arg_is (rest m p L) (Inside q i) s" "deref_arg m (Inside q i) = Inr s"
  using assms messageD(3) [OF assms(1)] message_at(1) [OF assms(1)]
  by (simp_all add: arg_is_def deref_arg_def object_def)

lemma arg_at:
  assumes "message m p L R" "r_chars R q = Some b" "q \<noteq> 0"
  shows "arg_is (rest m p L) (At q) b" "deref_arg m (At q) = Inr b"
  using assms messageD(3) [OF assms(1)] message_at(1) [OF assms(1,2)]
  by (simp_all add: arg_is_def deref_arg_def object_def)

lemma performs_message:
  assumes "performs m p L spec run" "message m p L R"
  shows "case spec of
      Inl e \<Rightarrow> run = Some (Inl e)
    | Inr (M, r) \<Rightarrow> \<exists>m' L'. run = returns (r, m') \<and> message m' p L' R \<and> msg_of L' = M"
  using assms by (fastforce simp: performs_def message_def split: sum.splits)

lemma destroy_message: "message m p L R \<Longrightarrow> \<exists>m'. mem_msg_destroy p m = returns (0, m') \<and> contents m' = R"
  using destroy_memory by (fastforce simp: message_def)

context heap_allocator begin

lemma create_message:
  assumes "contents m = R" "finite_rest R"
  shows "\<exists>p m' L. mem_msg_create A m = Inr (p, m') \<and> message m' p L R \<and> msg_of L = hms_msg_create"
  using create_memory [of m] assms contents_finite [of m] by (auto simp: message_def)

lemma malloc_message:
  assumes "message m p L R" "finite_rest R" "0 \<le> n"
  shows "\<exists>q m'. malloc A n m = (q, m') \<and> q \<noteq> 0 \<and> r_chars R q = None \<and>
    message m' p L (with_chars R q (malloc_area (nat n)))"
  using new_chars [of m] messageD(5) [OF assms(1)] message_new_chars [OF assms(1)] assms(2,3)
  by (auto simp: malloc_def put_chars_def Let_def)

lemma malloc_contents:
  assumes "contents m = R" "finite_rest R" "0 \<le> n"
  shows "\<exists>q m'. malloc A n m = (q, m') \<and> q \<noteq> 0 \<and> r_chars R q = None \<and>
    contents m' = with_chars R q (malloc_area (nat n))"
proof -
  have "finite_memory m" using assms(1,2) contents_finite [of m] by simp
  with new_chars [of m] assms show ?thesis
    by (auto simp: malloc_def put_chars_def Let_def contents_chars with_chars_def) (auto simp: contents_def)
qed

text \<open>What a lookup answers is a new array of the caller.\<close>

lemma answers_message:
  assumes "answers m spec run" "message m p L R"
  shows "case spec of
      Inl e \<Rightarrow> run = Some (Inl e)
    | Inr (None, r) \<Rightarrow> run = returns (0, r, m)
    | Inr (Some s, r) \<Rightarrow> \<exists>q m'. q \<noteq> 0 \<and> r_chars R q = None \<and> run = returns (q, r, m') \<and> message m' p L (with_chars R q s)"
  using assms message_new_chars [OF assms(2)] by (fastforce simp: answers_def split: sum.splits option.splits)

text \<open>The same as rules for what comes next: a step of the values, with the same step in memory beside it.\<close>

lemma performs_then:
  assumes "performs m p L spec run" "message m p L R"
    "\<And>m' L' r. message m' p L' R \<Longrightarrow> run_rel Q (f (msg_of L', r)) (g (r, m'))"
  shows "run_rel Q (bind_run (Some spec) f) (bind_run run g)"
proof (cases spec)
  case (Inl e)
  with performs_message [OF assms(1,2)] show ?thesis by simp
next
  case (Inr x)
  with performs_message [OF assms(1,2)] assms(3) show ?thesis by (cases x) auto
qed

lemma answers_then:
  assumes "answers m spec run" "message m p L R"
    "\<And>r. spec = Inr (None, r) \<Longrightarrow> run_rel Q (f (None, r)) (g (0, r, m))"
    "\<And>s r q m'. spec = Inr (Some s, r) \<Longrightarrow> q \<noteq> 0 \<Longrightarrow> r_chars R q = None \<Longrightarrow> message m' p L (with_chars R q s) \<Longrightarrow>
      run_rel Q (f (Some s, r)) (g (q, r, m'))"
  shows "run_rel Q (bind_run (Some spec) f) (bind_run run g)"
proof (cases spec)
  case (Inl e)
  with answers_message [OF assms(1,2)] show ?thesis by simp
next
  case (Inr x)
  obtain w r where x: "x = (w, r)" by (cases x)
  show ?thesis
  proof (cases w)
    case None
    with answers_message [OF assms(1,2)] assms(3) Inr x show ?thesis by simp
  next
    case (Some s)
    with answers_message [OF assms(1,2)] assms(4) Inr x show ?thesis by auto
  qed
qed

lemma set_verb_then:
  assumes "message m p L R" "finite_rest R" "\<And>m' L' r. message m' p L' R \<Longrightarrow> run_rel Q (f (msg_of L', r)) (g (r, m'))"
  shows "run_rel Q (bind_run (Some (hms_msg_set_verb (Some (msg_of L)) (Some v))) f) (bind_run (Some (mem_msg_set_verb A p (Lit v) m)) g)"
  by (rule performs_then [OF performs_set_verb [OF messageD(1) [OF assms(1)] _ arg_is_Lit] assms(1)])
    (use messageD(5) [OF assms(1)] assms(2,3) in simp_all)

lemma add_named_then:
  assumes "message m p L R" "finite_rest R" "\<And>m' L' r. message m' p L' R \<Longrightarrow> run_rel Q (f (msg_of L', r)) (g (r, m'))"
  shows "run_rel Q (bind_run (Some (hms_msg_add_named_header (Some (msg_of L)) (Some k) (Some v))) f)
    (bind_run (mem_msg_add_named_header A p (Lit k) (Lit v) m) g)"
  by (rule performs_then [OF performs_add_named [OF messageD(1) [OF assms(1)] _ arg_is_Lit arg_is_Lit] assms(1)])
    (use messageD(5) [OF assms(1)] assms(2,3) in simp_all)

lemma set_body_then:
  assumes "message m p L R" "finite_rest R" "arg_is R a d"
    "\<And>m' L' r. message m' p L' R \<Longrightarrow> run_rel Q (f (msg_of L', r)) (g (r, m'))"
  shows "run_rel Q (bind_run (Some (hms_msg_set_body ck (Some (msg_of L)) (Some d) len)) f) (bind_run (mem_msg_set_body ck A p a len m) g)"
  by (rule performs_then [OF performs_set_body [OF messageD(1) [OF assms(1)]] assms(1)])
    (use messageD(2,3,5) [OF assms(1)] assms(2-4) in simp_all)

lemma get_verb_then:
  assumes "message m p L R" "finite_rest R"
    "\<And>r. hms_msg_get_verb (Some (msg_of L)) = Inr (None, r) \<Longrightarrow> run_rel Q (f (None, r)) (g (0, r, m))"
    "\<And>s r q m'. hms_msg_get_verb (Some (msg_of L)) = Inr (Some s, r) \<Longrightarrow> q \<noteq> 0 \<Longrightarrow> r_chars R q = None \<Longrightarrow>
      message m' p L (with_chars R q s) \<Longrightarrow> run_rel Q (f (Some s, r)) (g (q, r, m'))"
  shows "run_rel Q (bind_run (Some (hms_msg_get_verb (Some (msg_of L)))) f) (bind_run (Some (mem_msg_get_verb A p m)) g)"
  by (rule answers_then [OF answers_get_verb [OF messageD(1) [OF assms(1)]] assms(1,3,4)])
    (use messageD(5) [OF assms(1)] assms(2) in simp_all)

lemma get_named_then:
  assumes "message m p L R" "finite_rest R"
    "\<And>r. run_rel Q (f (None, r)) (g (0, r, m))"
    "\<And>s r q m'. q \<noteq> 0 \<Longrightarrow> r_chars R q = None \<Longrightarrow> message m' p L (with_chars R q s) \<Longrightarrow> run_rel Q (f (Some s, r)) (g (q, r, m'))"
  shows "run_rel Q (bind_run (Some (hms_msg_get_named_header (Some (msg_of L)) (Some k))) f)
    (bind_run (mem_msg_get_named_header A p (Lit k) m) g)"
  by (rule answers_then [OF answers_get_named [OF messageD(1) [OF assms(1)]] assms(1,3,4)])
    (use messageD(5) [OF assms(1)] assms(2) in \<open>simp_all add: deref_Lit\<close>)

lemma get_body_result: "hms_msg_get_body (Some M) = Inr (Some s, n, r) \<Longrightarrow> r = 0"
  by (auto simp: hms_msg_get_body_def Let_def res_iff split: option.splits if_splits)

lemma get_body_then:
  assumes "message m p L R" "finite_rest R"
    "\<And>n r. run_rel Q (f (None, n, r)) (g (0, n, r, m))"
    "\<And>s n q m'. q \<noteq> 0 \<Longrightarrow> r_chars R q = None \<Longrightarrow> message m' p L (with_chars R q s) \<Longrightarrow>
      run_rel Q (f (Some s, n, 0)) (g (q, n, 0, m'))"
  shows "run_rel Q (bind_run (Some (hms_msg_get_body (Some (msg_of L)))) f) (bind_run (mem_msg_get_body A p m) g)"
proof -
  have "finite_memory m" using assms(1,2) messageD(5) by simp
  note gb = get_body_memory [OF messageD(1) [OF assms(1)] this messageD(2) [OF assms(1)]]
  show ?thesis
  proof (cases "hms_msg_get_body (Some (msg_of L))")
    case (Inl e)
    with gb show ?thesis by simp
  next
    case (Inr x)
    obtain d n r where x: "x = (d, n, r)" by (cases x)
    show ?thesis
    proof (cases d)
      case None
      with gb Inr x assms(3) show ?thesis by simp
    next
      case (Some b)
      with gb Inr x obtain q where q: "q \<noteq> 0" "chars m q = None"
        "mem_msg_get_body A p m = returns (q, n, r, m\<lparr>chars := (chars m)(q \<mapsto> b)\<rparr>)" by auto
      have "r = 0" using get_body_result Inr x Some by simp
      with message_new_chars [OF assms(1) q(2), of b] assms(4) q Inr x Some show ?thesis by simp
    qed
  qed
qed

lemma get_body_size_then:
  assumes "message m p L R" "finite_rest R" "\<And>n. run_rel Q (f n) (g (n, m))"
  shows "run_rel Q (bind_run (Some (hms_msg_get_body_size (Some (msg_of L)))) f) (bind_run (mem_msg_get_body_size A p m) g)"
proof -
  have "finite_memory m" using assms(1,2) messageD(5) by simp
  with assms(3) show ?thesis
    by (cases "hms_msg_get_body_size (Some (msg_of L))") (simp_all add: get_body_size_memory [OF messageD(1) [OF assms(1)]])
qed

end

subsection \<open>Freeing arrays in any order\<close>

definition without :: "rest_memory \<Rightarrow> ptr \<Rightarrow> rest_memory" where
  "without R q = R\<lparr>r_chars := (r_chars R)(q := None)\<rparr>"

lemma without_with [simp]:
  "r_chars R q = None \<Longrightarrow> without (with_chars R q b) q = R"
  "q \<noteq> g \<Longrightarrow> without (with_chars R g b) q = with_chars (without R q) g b"
  by (cases R, simp add: without_def with_chars_def fun_upd_idem fun_upd_twist)+

lemma free_then:
  assumes "message m p L R" "q \<noteq> 0" "r_chars R q = Some b" "\<And>m'. message m' p L (without R q) \<Longrightarrow> run_rel Q v (g m')"
  shows "run_rel Q v (bind_run (Some (free_chars q m)) g)"
proof -
  note at = message_at [OF assms(1,3)]
  have "message (m\<lparr>chars := (chars m)(q := None)\<rparr>) p L (without R q)"
    using message_chars [OF assms(1) at(2), of None] by (simp add: without_def)
  with at(1) assms(2,4) show ?thesis by (simp add: free_chars_def object_def)
qed

lemma free_null: "free_chars 0 m = Inr m"
  by (simp add: free_chars_def)

subsection \<open>Callers\<close>

text \<open>A call that may change the message at \<open>p\<close> and the connection.\<close>

definition handles :: "ptr \<Rightarrow> rest_memory \<Rightarrow> 'e \<times> hms_msg \<times> 's \<Rightarrow> 'e \<times> msg_memory \<times> 's \<Rightarrow> bool" where
  "handles p R x y \<longleftrightarrow>
     (case (x, y) of ((e, M, s), (e', m', s')) \<Rightarrow> e' = e \<and> s' = s \<and> (\<exists>L. message m' p L R \<and> msg_of L = M))"

lemma handles_iff [simp]:
  "handles p R (e, M, s) y \<longleftrightarrow> (\<exists>m' L. y = (e, m', s) \<and> message m' p L R \<and> msg_of L = M)"
  by (cases y) (auto simp: handles_def)

lemma handles_bind:
  assumes "run_rel (handles p R) v w"
    "\<And>e m L s. message m p L R \<Longrightarrow> run_rel Q (f (e, msg_of L, s)) (g (e, m, s))"
  shows "run_rel Q (bind_run v f) (bind_run w g)"
proof (rule run_rel_bind [OF assms(1)])
  fix x :: "'a \<times> hms_msg \<times> 'b" and y
  assume "handles p R x y"
  then show "run_rel Q (f x) (g y)" using assms(2) by (cases x) auto
qed

end
