(* ===== verification/Parser_Memory_Header.thy ===== *)
theory Parser_Memory_Header
  imports Msg_Arrays Hms_Parser_Correct
begin

section \<open>Parsing the header in memory\<close>

text \<open>
  The loops of Parser_Memory that cut the header in its buffer build the message the loops of Hms_Parser build
  from the header as a string; nothing but that message and the buffer changes.
\<close>

subsection \<open>The header\<close>

text \<open>The string of a token that \<open>strtok_at\<close> has cut.\<close>

lemma cstr_at_token:
  assumes "y = tok \<and> s' = [] \<or> y = tok @ [NUL]" "NUL \<notin> set tok"
  shows "cstr_at ((pre @ ws @ y) @ s' @ NUL # post) (length pre + length ws) = Inr tok"
  using assms cstr_at_append [of tok "length pre + length ws" "pre @ ws" post]
    cstr_at_append [of tok "length pre + length ws" "pre @ ws" "s' @ NUL # post"] by auto

text \<open>The call for one line of the header: the verb line first, then the named headers.\<close>

definition header_line :: "hms_msg \<Rightarrow> nat \<Rightarrow> int \<Rightarrow> string \<Rightarrow> (hms_msg \<times> int \<times> int) res" where
  "header_line msg cnt body_len line =
     (if cnt = 0 then bind_res (hms_parse_verb_line msg line) (\<lambda>(msg, ret). Inr (msg, body_len, ret))
      else hms_parse_named_header msg line body_len)"

definition mem_header_line ::
    "allocator \<Rightarrow> ptr \<Rightarrow> ptr \<Rightarrow> nat \<Rightarrow> int \<Rightarrow> nat \<Rightarrow> msg_memory \<Rightarrow> (int \<times> int \<times> msg_memory) run" where
  "mem_header_line A p q cnt body_len l m =
     (if cnt = 0 then bind_run (mem_parse_verb_line A p q l m) (\<lambda>(ret, m). returns (ret, body_len, m))
      else mem_parse_named_header A p q l body_len m)"

lemma parse_header_loop_line:
  "strtok_r [NL] s = Some (line, s') \<Longrightarrow>
   parse_header_loop msg cnt body_len s = bind_res (header_line msg cnt body_len line) (\<lambda>(msg, body_len, ret).
     if ret \<noteq> 0 then Inr (msg, body_len, -1) else parse_header_loop msg (cnt + 1) body_len s')"
  by (subst parse_header_loop.simps, cases "hms_parse_verb_line msg line") (auto simp: header_line_def)

lemma mem_parse_header_loop_line:
  assumes "in_buffer q (strtok_at [NL] i) m = Inr ((Some l, j), m')"
    "mem_header_line A p q cnt body_len l m' = returns (ret, len, m1)"
  shows "mem_parse_header_loop A p q cnt body_len i m =
    (if ret \<noteq> 0 then returns (-1, len, m1) else mem_parse_header_loop A p q (cnt + 1) len j m1)"
proof (cases "cnt = 0")
  case True
  with assms(2) have "mem_parse_verb_line A p q l m' = returns (ret, m1)" "len = body_len"
    by (auto simp: mem_header_line_def res_iff)
  with True assms(1) show ?thesis by (subst mem_parse_header_loop.simps) simp
next
  case False
  with assms show ?thesis by (subst mem_parse_header_loop.simps) (simp add: mem_header_line_def)
qed

context heap_allocator begin

lemma verb_line_loop_memory:
  "message m p L (with_chars R q (pre @ s @ NUL # post)) \<Longrightarrow> NUL \<notin> set s \<Longrightarrow> q \<noteq> 0 \<Longrightarrow> finite_rest R \<Longrightarrow>
   verb_line_loop (msg_of L) cnt found s = Inr (M, fv) \<Longrightarrow>
   \<exists>m' L' x. mem_verb_line_loop A p q cnt found (length pre) m = returns (fv, m') \<and>
     message m' p L' (with_chars R q (pre @ x @ NUL # post)) \<and> length x = length s \<and> msg_of L' = M"
proof (induction "length s" arbitrary: s pre m L cnt found rule: less_induct)
  case less
  let ?seps = "[CHR '' '', CHR 0x09]"
  note im = less.prems(1)
  show ?case
  proof (cases "strtok_r ?seps s")
    case None
    have "M = msg_of L" "fv = found" using less.prems(5) None by (simp_all add: verb_line_loop.simps [of _ _ _ s])
    moreover note in_buffer_message [where f = "strtok_at ?seps (length pre)", OF im less.prems(3) strtok_at_None [OF None less.prems(2)]]
    ultimately show ?thesis by (subst mem_verb_line_loop.simps) auto
  next
    case (Some tr)
    then obtain word s' where tok: "strtok_r ?seps s = Some (word, s')" by (cases tr) simp
    obtain ws y where cut: "strtok_at ?seps (length pre) (pre @ s @ NUL # post) =
        Inr ((Some (length pre + length ws), length (pre @ ws @ y)), (pre @ ws @ y) @ s' @ NUL # post)"
      "length ws + length y + length s' = length s" "y = word \<and> s' = [] \<or> y = word @ [NUL]"
      using strtok_at_Some [OF tok less.prems(2), of pre post] by blast
    let ?b = "(pre @ ws @ y) @ s' @ NUL # post"
    note buf = in_buffer_message [where f = "strtok_at ?seps (length pre)", OF im less.prems(3) cut(1)]
    have nn: "NUL \<notin> set word" "NUL \<notin> set s'" using strtok_r_token(3,4) [OF tok] less.prems(2) by auto
    have "cstr_at ?b (length pre + length ws) = Inr word" by (rule cstr_at_token [OF cut(3) nn(1)])
    note arg = arg_inside(1) [OF buf(2) less.prems(3) this]
    have fm: "finite_memory (set_chars q ?b m)" using messageD(5) [OF buf(2)] less.prems(4) by simp
    have lt: "length s' < length s" using strtok_r_shorter [OF tok] .
    define op where "op = (if cnt = 0 then hms_msg_set_verb (Some (msg_of L)) (Some word)
      else hms_msg_add_header (Some (msg_of L)) (Some word))"
    define mop where "mop = (if cnt = 0 then mem_msg_set_verb A p (Inside q (length pre + length ws)) (set_chars q ?b m)
      else mem_msg_add_header A p (Inside q (length pre + length ws)) (set_chars q ?b m))"
    have "performs (set_chars q ?b m) p L op (Some mop)"
      using performs_set_verb [OF messageD(1) [OF buf(2)] fm arg] performs_add_header [OF messageD(1) [OF buf(2)] fm arg]
      by (simp add: op_def mop_def)
    note pm = performs_message [OF this buf(2)]
    have "verb_line_loop (msg_of L) cnt found s =
        bind_res op (\<lambda>(msg, _). verb_line_loop msg (cnt + 1) (cnt = 0 \<or> found) s')"
      by (subst verb_line_loop.simps) (auto simp: tok op_def)
    with less.prems(5) obtain M1 r where op: "op = Inr (M1, r)"
      "verb_line_loop M1 (cnt + 1) (cnt = 0 \<or> found) s' = Inr (M, fv)" by (auto simp: res_iff)
    from pm op(1) obtain m2 L2 where m2: "mop = Inr (r, m2)" "message m2 p L2 (with_chars R q ?b)" "msg_of L2 = M1" by auto
    from less.hyps [OF lt m2(2) nn(2) less.prems(3,4)] op(2) m2(3) obtain m' L' x where
      ih: "mem_verb_line_loop A p q (cnt + 1) (cnt = 0 \<or> found) (length (pre @ ws @ y)) m2 = returns (fv, m')"
      "message m' p L' (with_chars R q ((pre @ ws @ y) @ x @ NUL # post))" "length x = length s'" "msg_of L' = M" by blast
    have "mem_verb_line_loop A p q cnt found (length pre) m = returns (fv, m')"
      using buf(1) m2(1) ih(1) by (subst mem_verb_line_loop.simps) (auto simp: mop_def split: if_splits)
    then show ?thesis using ih(2-4) cut(2) by (intro exI [of _ m'] exI [of _ L'] exI [of _ "ws @ y @ x"]) simp
  qed
qed

lemma parse_verb_line_memory:
  assumes "message m p L (with_chars R q (pre @ line @ NUL # post))" "NUL \<notin> set line" "q \<noteq> 0" "finite_rest R"
    "hms_parse_verb_line (msg_of L) line = Inr (M, ret)"
  shows "\<exists>m' L' x. mem_parse_verb_line A p q (length pre) m = returns (ret, m') \<and>
     message m' p L' (with_chars R q (pre @ x @ NUL # post)) \<and> length x = length line \<and> msg_of L' = M"
proof -
  from assms(5) obtain f where f: "verb_line_loop (msg_of L) 0 False line = Inr (M, f)" "ret = (if f then 0 else -1)"
    by (auto simp: hms_parse_verb_line_def res_iff)
  from verb_line_loop_memory [OF assms(1-4) f(1)] obtain m' L' x where
    "mem_verb_line_loop A p q 0 False (length pre) m = returns (f, m')"
    "message m' p L' (with_chars R q (pre @ x @ NUL # post))" "length x = length line" "msg_of L' = M" by blast
  with f(2) show ?thesis
    by (intro exI [of _ m'] exI [of _ L'] exI [of _ x]) (simp add: mem_parse_verb_line_def)
qed

lemma parse_named_header_memory:
  assumes "message m p L (with_chars R q (pre @ NUL # ws @ line @ NUL # post))" "NUL \<notin> set line"
    "\<forall>c \<in> set ws. isspace c" "q \<noteq> 0" "finite_rest R"
    "hms_parse_named_header (msg_of L) line body_len = Inr (M, body_len', ret)"
  shows "\<exists>m' L' x. mem_parse_named_header A p q (Suc (length pre + length ws)) body_len m = returns (ret, body_len', m') \<and>
     message m' p L' (with_chars R q (pre @ NUL # x @ NUL # post)) \<and> length x = length ws + length line \<and> msg_of L' = M"
proof (cases "strchr line (CHR '':'')")
  case None
  have "named_at (Suc (length pre + length ws)) (pre @ NUL # ws @ line @ NUL # post) = Inr (None, pre @ NUL # ws @ line @ NUL # post)"
    using named_at_None [OF None assms(2), of _ "pre @ NUL # ws" post] by simp
  note buf = in_buffer_message [where f = "named_at (Suc (length pre + length ws))", OF assms(1,4) this]
  have "M = msg_of L" "body_len' = body_len" "ret = -1" using assms(6) None by (simp_all add: hms_parse_named_header_def)
  with buf show ?thesis
    by (intro exI [of _ "set_chars q (pre @ NUL # ws @ line @ NUL # post) m"] exI [of _ L] exI [of _ "ws @ line"])
      (simp add: mem_parse_named_header_def)
next
  case (Some c)
  define k where "k = hms_str_strip (take c line)"
  define v where "v = hms_str_strip (drop (c + 1) line)"
  define len where "len = (if strcasecmp k HMS_CONTENT_LENGTH = 0 then to_int32 (strtol10 v) else body_len)"
  define bad where "bad \<longleftrightarrow> strcasecmp k HMS_CONTENT_LENGTH = 0 \<and> len = 0"
  obtain key val x where cut: "named_at (Suc (length pre + length ws)) (pre @ NUL # ws @ line @ NUL # post) =
      Inr (Some (key, val), pre @ NUL # x @ NUL # post)" "length x = length ws + length line"
    "cstr_at (pre @ NUL # x @ NUL # post) key = Inr k" "cstr_at (pre @ NUL # x @ NUL # post) val = Inr v"
    using named_at_Some [OF Some assms(2,3) refl] unfolding k_def v_def by blast
  let ?m = "set_chars q (pre @ NUL # x @ NUL # post) m"
  note buf = in_buffer_message [where f = "named_at (Suc (length pre + length ws))", OF assms(1,4) cut(1)]
  note key = arg_inside [OF buf(2) assms(4) cut(3)] and val = arg_inside [OF buf(2) assms(4) cut(4)]
  have fm: "finite_memory ?m" using messageD(5) [OF buf(2)] assms(5) by simp
  have run: "mem_parse_named_header A p q (Suc (length pre + length ws)) body_len m =
      (if bad then returns (-1, len, ?m)
       else bind_run (mem_msg_add_named_header A p (Inside q key) (Inside q val) ?m) (\<lambda>(_, m). returns (0, len, m)))"
    using buf(1) key(2) val(2) by (simp add: mem_parse_named_header_def Let_def bad_def len_def)
  have spec: "hms_parse_named_header (msg_of L) line body_len =
      (if bad then Inr (msg_of L, len, -1)
       else bind_res (hms_msg_add_named_header (Some (msg_of L)) (Some k) (Some v)) (\<lambda>(msg, _). Inr (msg, len, 0)))"
    using Some by (simp add: hms_parse_named_header_def Let_def bad_def len_def k_def v_def)
  show ?thesis
  proof (cases bad)
    case True
    with assms(6) buf(2) cut(2) show ?thesis unfolding run spec by auto
  next
    case False
    with assms(6) spec obtain r where add: "hms_msg_add_named_header (Some (msg_of L)) (Some k) (Some v) = Inr (M, r)"
      "body_len' = len" "ret = 0" by (auto simp: res_iff)
    from performs_message [OF performs_add_named [OF messageD(1) [OF buf(2)] fm key(1) val(1)] buf(2)] add(1)
    obtain m' L' where "mem_msg_add_named_header A p (Inside q key) (Inside q val) ?m = returns (r, m')"
      "message m' p L' (with_chars R q (pre @ NUL # x @ NUL # post))" "msg_of L' = M" by auto
    with False add(2,3) cut(2) show ?thesis unfolding run by auto
  qed
qed

text \<open>
  The loop over the lines. From the second line on, a NUL lies before the save pointer, where \<open>strtok_r\<close> has
  cut the line before; that is what stops \<open>__hms_str_strip\<close> on a blank key.
\<close>

lemma header_line_memory:
  assumes "message m p L (with_chars R q (pre @ ws @ line @ NUL # post))" "NUL \<notin> set line" "set ws \<subseteq> {NL}"
    "q \<noteq> 0" "finite_rest R" "cnt = 0 \<or> (\<exists>pre'. pre = pre' @ [NUL])"
    "header_line (msg_of L) cnt body_len line = Inr (M, len, ret)"
  shows "\<exists>m' L' x. mem_header_line A p q cnt body_len (length pre + length ws) m = returns (ret, len, m') \<and>
    message m' p L' (with_chars R q (x @ NUL # post)) \<and> length x = length (pre @ ws @ line) \<and> msg_of L' = M"
proof (cases "cnt = 0")
  case True
  with assms(7) have v: "hms_parse_verb_line (msg_of L) line = Inr (M, ret)" "len = body_len"
    by (auto simp: header_line_def res_iff)
  have "message m p L (with_chars R q ((pre @ ws) @ line @ NUL # post))" using assms(1) by simp
  from parse_verb_line_memory [OF this assms(2,4,5) v(1)] obtain m1 L1 x where
    "mem_parse_verb_line A p q (length (pre @ ws)) m = returns (ret, m1)"
    "message m1 p L1 (with_chars R q ((pre @ ws) @ x @ NUL # post))" "length x = length line" "msg_of L1 = M" by blast
  with True v(2) show ?thesis by (intro exI [of _ m1] exI [of _ L1] exI [of _ "pre @ ws @ x"]) (simp add: mem_header_line_def)
next
  case False
  then obtain pre' where pre: "pre = pre' @ [NUL]" using assms(6) by blast
  have sp: "\<forall>c \<in> set ws. isspace c" using assms(3) by (auto simp: isspace_def)
  have n: "hms_parse_named_header (msg_of L) line body_len = Inr (M, len, ret)" using False assms(7) by (simp add: header_line_def)
  have "message m p L (with_chars R q (pre' @ NUL # ws @ line @ NUL # post))" using assms(1) pre by simp
  from parse_named_header_memory [OF this assms(2) sp assms(4,5) n] obtain m1 L1 x where
    "mem_parse_named_header A p q (Suc (length pre' + length ws)) body_len m = returns (ret, len, m1)"
    "message m1 p L1 (with_chars R q (pre' @ NUL # x @ NUL # post))" "length x = length ws + length line" "msg_of L1 = M"
    by blast
  with False pre show ?thesis by (intro exI [of _ m1] exI [of _ L1] exI [of _ "pre' @ NUL # x"]) (simp add: mem_header_line_def)
qed

lemma parse_header_loop_memory:
  "message m p L (with_chars R q (pre @ s @ NUL # post)) \<Longrightarrow> NUL \<notin> set s \<Longrightarrow> q \<noteq> 0 \<Longrightarrow> finite_rest R \<Longrightarrow>
   cnt = 0 \<or> s = [] \<or> (\<exists>pre'. pre = pre' @ [NUL]) \<Longrightarrow>
   parse_header_loop (msg_of L) cnt body_len s = Inr (M, body_len', ret) \<Longrightarrow>
   \<exists>m' L' b. mem_parse_header_loop A p q cnt body_len (length pre) m = returns (ret, body_len', m') \<and>
     message m' p L' (with_chars R q b) \<and> msg_of L' = M"
proof (induction "length s" arbitrary: s pre m L cnt body_len rule: less_induct)
  case less
  note im = less.prems(1)
  show ?case
  proof (cases "strtok_r [NL] s")
    case None
    have "M = msg_of L" "body_len' = body_len" "ret = 0"
      using less.prems(6) None by (simp_all add: parse_header_loop.simps [of _ _ _ s])
    moreover note in_buffer_message [where f = "strtok_at [NL] (length pre)", OF im less.prems(3) strtok_at_None [OF None less.prems(2)]]
    ultimately show ?thesis by (subst mem_parse_header_loop.simps) auto
  next
    case (Some tr)
    then obtain line s' where tok: "strtok_r [NL] s = Some (line, s')" by (cases tr) simp
    obtain ws y where cut: "strtok_at [NL] (length pre) (pre @ s @ NUL # post) =
        Inr ((Some (length pre + length ws), length (pre @ ws @ y)), (pre @ ws @ y) @ s' @ NUL # post)"
      "set ws \<subseteq> {NL}" "y = line \<and> s' = [] \<or> y = line @ [NUL]"
      using strtok_at_Some [OF tok less.prems(2), of pre post] by auto
    note buf = in_buffer_message [where f = "strtok_at [NL] (length pre)", OF im less.prems(3) cut(1)]
    have nn: "NUL \<notin> set line" "NUL \<notin> set s'" using strtok_r_token(3,4) [OF tok] less.prems(2) by auto
    have lt: "length s' < length s" using strtok_r_shorter [OF tok] .
    then have pre: "cnt = 0 \<or> (\<exists>pre'. pre = pre' @ [NUL])" using less.prems(5) by auto
    define tail where "tail = (if y = line then post else s' @ NUL # post)"
    have b: "(pre @ ws @ y) @ s' @ NUL # post = pre @ ws @ line @ NUL # tail" using cut(3) by (auto simp: tail_def)
    from less.prems(6) obtain M1 len1 ret1 where step: "header_line (msg_of L) cnt body_len line = Inr (M1, len1, ret1)"
      "(if ret1 \<noteq> 0 then Inr (M1, len1, -1) else parse_header_loop M1 (cnt + 1) len1 s') = Inr (M, body_len', ret)"
      by (auto simp: parse_header_loop_line [OF tok] res_iff)
    from header_line_memory [OF buf(2) [unfolded b] nn(1) cut(2) less.prems(3,4) pre step(1)] obtain m1 L1 x where
      m1: "mem_header_line A p q cnt body_len (length pre + length ws) (set_chars q ((pre @ ws @ y) @ s' @ NUL # post) m) =
        returns (ret1, len1, m1)" "message m1 p L1 (with_chars R q (x @ NUL # tail))"
      "length x = length (pre @ ws @ line)" "msg_of L1 = M1" unfolding b by blast
    note run = mem_parse_header_loop_line [OF buf(1) m1(1)]
    show ?thesis
    proof (cases "ret1 = 0")
      case False
      with step(2) m1 show ?thesis unfolding run by auto
    next
      case True
      let ?pre = "if y = line then x else x @ [NUL]"
      have "x @ NUL # tail = ?pre @ s' @ NUL # post" "length ?pre = length (pre @ ws @ y)"
        "cnt + 1 = 0 \<or> s' = [] \<or> (\<exists>pre'. ?pre = pre' @ [NUL])"
        using cut(3) m1(3) by (auto simp: tail_def)
      note pre = this
      from step(2) True m1(4) have "parse_header_loop (msg_of L1) (cnt + 1) len1 s' = Inr (M, body_len', ret)" by simp
      from less.hyps [OF lt m1(2) [unfolded pre(1)] nn(2) less.prems(3,4) pre(3) this] show ?thesis
        using True unfolding run pre(2) by simp
    qed
  qed
qed

end

end
