(* ===== verification/Parser_Memory_Correct.thy ===== *)
theory Parser_Memory_Correct
  imports Parser_Memory_Header
begin

section \<open>Correctness of the parser in memory\<close>

text \<open>
  The parser of Parser_Memory returns the message the parser of Hms_Parser returns, in the memory at the
  pointer it answers with, and frees everything else it has allocated.
\<close>

subsection \<open>Arrays to be freed\<close>

text \<open>\<open>new_array R g R'\<close>: \<open>R'\<close> is \<open>R\<close> with a new array at \<open>g\<close>, or \<open>g\<close> is NULL.\<close>

definition new_array :: "rest_memory \<Rightarrow> ptr \<Rightarrow> rest_memory \<Rightarrow> bool" where
  "new_array R g R' \<longleftrightarrow> g = 0 \<and> R' = R \<or> g \<noteq> 0 \<and> r_chars R g = None \<and> (\<exists>s. R' = with_chars R g s)"

lemma new_array_free:
  assumes "message m p L R'" "new_array R g R'"
  shows "\<exists>m'. free_chars g m = Inr m' \<and> message m' p L R"
  using assms message_free [of m p L R g] by (auto simp: new_array_def free_chars_def)

lemma new_array_finite: "new_array R g R' \<Longrightarrow> finite_rest R' = finite_rest R"
  by (auto simp: new_array_def)

lemma new_array_chars: "new_array R g R' \<Longrightarrow> r_chars R q = Some b \<Longrightarrow> r_chars R' q = Some b"
  by (auto simp: new_array_def)

text \<open>The array below the newest one is freed first.\<close>

lemma free_below:
  assumes "message m p L R'" "new_array (with_chars R q b) g R'" "q \<noteq> 0" "r_chars R q = None"
  shows "\<exists>m' R''. free_chars q m = Inr m' \<and> message m' p L R'' \<and> new_array R g R''"
proof (cases "g = 0")
  case True
  with assms message_free [OF _ assms(3,4)] show ?thesis by (auto simp: new_array_def)
next
  case False
  with assms(2) obtain s where s: "R' = with_chars (with_chars R q b) g s" "g \<noteq> q" "r_chars R g = None"
    by (auto simp: new_array_def split: if_splits)
  then have "R' = with_chars (with_chars R g s) q b" by (cases R) (simp add: with_chars_def fun_upd_twist)
  moreover have "r_chars (with_chars R g s) q = None" using s(2) assms(4) by simp
  ultimately obtain m' where "free_chars q m = Inr m'" "message m' p L (with_chars R g s)"
    using message_free [of m p L "with_chars R g s" q b] assms(1,3) by blast
  with False s(3) show ?thesis by (auto simp: new_array_def)
qed

subsection \<open>The body\<close>

lemma buf_write_got:
  assumes "length got + length bs \<le> length (got @ t)"
  shows "buf_write (got @ t) (length got) bs = Inr ((got @ bs) @ drop (length bs) t)"
  using assms by (simp add: buf_write_def)

lemma store_message:
  assumes "message m p L (with_chars R q b)" "q \<noteq> 0" "buf_write b off s = Inr b'"
  shows "store q off s m = Inr (set_chars q b' m)" "message (set_chars q b' m) p L (with_chars R q b')"
proof -
  have f: "(\<lambda>b. bind_res (buf_write b off s) (\<lambda>b. Inr ((), b))) b = Inr ((), b')" using assms(3) by simp
  note in_buffer_message [where f = "\<lambda>b. bind_res (buf_write b off s) (\<lambda>b. Inr ((), b))", OF assms(1,2) f]
  then show "store q off s m = Inr (set_chars q b' m)" "message (set_chars q b' m) p L (with_chars R q b')"
    by (simp_all add: store_def)
qed

context socket begin

lemma read_body_loop_memory:
  "read_body_loop rd n (int (length got)) got s = ((buf, ri, f), s') \<Longrightarrow> message m p L (with_chars R q (got @ t)) \<Longrightarrow>
   q \<noteq> 0 \<Longrightarrow> n \<le> int (length (got @ t)) \<Longrightarrow> int (length got) \<le> max 0 n \<Longrightarrow>
   \<exists>m' t'. mem_read_body_loop rd q n (int (length got)) m s = Inr ((ri, f), m', s') \<and>
     message m' p L (with_chars R q (buf @ t')) \<and> length (buf @ t') = length (got @ t) \<and> ri = int (length buf) \<and>
     (\<not> f \<longrightarrow> ri = max 0 n)"
proof (induction "nat (n - int (length got))" arbitrary: got s t m rule: less_induct)
  case less
  note loop = read_body_loop.simps [of rd n "int (length got)" got s]
    mem_read_body_loop.simps [of rd q n "int (length got)" m s]
  show ?case
  proof (cases "int (length got) < n")
    case False
    then have "mem_read_body_loop rd q n (int (length got)) m s = Inr ((int (length got), False), m, s)"
      by (simp add: loop(2))
    moreover have "((buf, ri, f), s') = ((got, int (length got), False), s)"
      using less.prems(1) [symmetric] False by (simp add: loop(1))
    ultimately show ?thesis using less.prems(2,5) False by auto
  next
    case True
    obtain sz bs s1 where rd: "rd s (nat (n - int (length got))) = (sz, bs, s1)" by (metis prod_cases3)
    show ?thesis
    proof (cases "sz \<le> 0")
      case le: True
      then have "mem_read_body_loop rd q n (int (length got)) m s = Inr ((int (length got), True), m, s1)"
        using rd True less.prems(3) by (simp add: loop(2))
      moreover have "((buf, ri, f), s') = ((got, int (length got), True), s1)"
        using less.prems(1) [symmetric] rd True le by (simp add: loop(1))
      ultimately show ?thesis using less.prems(2) by auto
    next
      case False
      then have sz: "sz = int (length bs)" "int (length bs) \<le> n - int (length got)" "bs \<noteq> []"
        using rd_data [OF rd] True by (auto simp: le_nat_iff)
      have "length got + length bs \<le> length (got @ t)" using sz(2) less.prems(4) by simp
      note st = store_message [OF less.prems(2,3) buf_write_got [OF this]]
      have next1: "read_body_loop rd n (int (length (got @ bs))) (got @ bs) s1 = ((buf, ri, f), s')"
        using less.prems(1) rd True False sz(1) by (simp add: loop)
      have "nat (n - int (length (got @ bs))) < nat (n - int (length got))"
        using sz True by (simp add: nat_mono_iff)
      moreover have "n \<le> int (length ((got @ bs) @ drop (length bs) t))" using less.prems(4) by simp
      moreover have "int (length (got @ bs)) \<le> max 0 n" using sz(2) by simp
      ultimately obtain m' t' where "mem_read_body_loop rd q n (int (length (got @ bs)))
          (set_chars q ((got @ bs) @ drop (length bs) t) m) s1 = Inr ((ri, f), m', s')"
        "message m' p L (with_chars R q (buf @ t'))" "length (buf @ t') = length ((got @ bs) @ drop (length bs) t)" "ri = int (length buf)" "\<not> f \<longrightarrow> ri = max 0 n"
        using less.hyps [OF _ next1 st(2) less.prems(3)] by blast
      then show ?thesis using rd True False sz(1) st(1) less.prems(3,4)
        by (intro exI [of _ m'] exI [of _ t']) (use sz(2) in \<open>simp add: loop(2) True\<close>)
    qed
  qed
qed

end

text \<open>A call that also answers with an array to be freed.\<close>

definition gives_array :: "ptr \<Rightarrow> rest_memory \<Rightarrow> hms_msg \<times> bool \<Rightarrow> bool \<times> ptr \<times> msg_memory \<Rightarrow> bool" where
  "gives_array p R x y \<longleftrightarrow>
     (case (x, y) of ((M, bad), (bad', g, m')) \<Rightarrow>
        bad' = bad \<and> (\<exists>L R'. message m' p L R' \<and> msg_of L = M \<and> new_array R g R'))"

lemma gives_arrayI:
  "message m' p L R' \<Longrightarrow> new_array R g R' \<Longrightarrow> gives_array p R (msg_of L, bad) (bad, g, m')"
  by (auto simp: gives_array_def)

lemma gives_array_bind:
  assumes "run_rel (gives_array p R) v w"
    "\<And>bad g m L R'. message m p L R' \<Longrightarrow> new_array R g R' \<Longrightarrow> run_rel Q (f (msg_of L, bad)) (h (bad, g, m))"
  shows "run_rel Q (bind_run v f) (bind_run w h)"
proof (rule run_rel_bind [OF assms(1)])
  fix x y
  assume "gives_array p R x y"
  then show "run_rel Q (f x) (h y)" using assms(2) by (cases x; cases y) (auto simp: gives_array_def)
qed

context heap_allocator begin

text \<open>The checksum of the bytes read: the array is one byte longer.\<close>

lemma checksum_error_memory:
  assumes "message m p L R" "finite_rest R" "q \<noteq> 0" "r_chars R q = Some b" "checksum_string b n = checksum_string c n"
  shows "run_rel (gives_array p R) (Some (bind_res (checksum_error ck (msg_of L) c n) (\<lambda>bad. Inr (msg_of L, bad))))
    (mem_checksum_error ck A p q n m)"
proof -
  have o: "object (chars m) q = Inr b" using message_at(1) [OF assms(1,4)] assms(3) by (simp add: object_def)
  have null: "new_array R 0 R" by (simp add: new_array_def)
  note none = gives_arrayI [OF assms(1) null]
  show ?thesis
  proof (cases ck)
    case False
    with none show ?thesis by (simp add: checksum_error_def mem_checksum_error_def)
  next
    case True
    show ?thesis
      unfolding checksum_error_def mem_checksum_error_def if_P [OF True] o assms(5) bind_res_assoc Some_bind_res bind_run_simps
    proof (rule run_rel_same, rule get_named_then [OF assms(1,2)], simp add: none, unfold split)
      fix computed s r g m'
      assume g: "g \<noteq> 0" "r_chars R g = None" "message m' p L (with_chars R g s)"
      have "new_array R g (with_chars R g s)" using g(1,2) by (auto simp: new_array_def)
      note some = gives_arrayI [OF g(3) this]
      have "deref_arg m' (At g) = Inr s" using arg_at(2) [OF g(3) _ g(1)] by simp
      with g(1) show "run_rel (gives_array p R)
        (bind_run (returns (case Some s of None \<Rightarrow> False | Some v \<Rightarrow> r = 0 \<and> strncasecmp v computed 33 \<noteq> 0)) (\<lambda>bad. returns (msg_of L, bad)))
        (if r = 0 \<and> g \<noteq> 0 then
           bind_run (Some (deref_arg m' (At g))) (\<lambda>v. returns (strncasecmp v computed 33 \<noteq> 0, g, m'))
         else returns (False, g, m'))" by (cases "r = 0") (simp_all add: some)
    qed
  qed
qed

text \<open>What follows the loop: the array \<open>b\<close> at \<open>q\<close> begins with the bytes read.\<close>

lemma store_body_memory:
  assumes "message m p L (with_chars R q b)" "finite_rest R" "q \<noteq> 0"
    "checksum_string b n = checksum_string buf n" "ri = n \<Longrightarrow> copy_out b n = copy_out buf n"
  shows "run_rel (gives_array p (with_chars R q b))
    (bind_run (Some (checksum_error ck (msg_of L) buf n)) (\<lambda>bad.
     if ri \<noteq> n then Some (Inl AssertAbort)
     else bind_run (Some (hms_msg_set_body ck (Some (msg_of L)) (Some buf) n)) (\<lambda>(msg, _). returns (msg, bad))))
    (bind_run (mem_checksum_error ck A p q n m) (\<lambda>(bad, given, m).
     if ri \<noteq> n then Some (Inl AssertAbort)
     else bind_run (mem_msg_set_body ck A p (At q) n m) (\<lambda>(_, m). returns (bad, given, m))))"
proof -
  have fin: "finite_rest (with_chars R q b)" and at: "r_chars (with_chars R q b) q = Some b" using assms(2) by simp_all
  have set: "run_rel (gives_array p (with_chars R q b))
     (if ri \<noteq> n then Some (Inl AssertAbort)
      else bind_run (Some (hms_msg_set_body ck (Some (msg_of L)) (Some buf) n)) (\<lambda>(msg, _). returns (msg, bad)))
     (if ri \<noteq> n then Some (Inl AssertAbort)
      else bind_run (mem_msg_set_body ck A p (At q) n m) (\<lambda>(_, m). returns (bad, g, m)))"
    if m: "message m p L R'" "new_array (with_chars R q b) g R'" for m L R' g bad
  proof (rule run_rel_if)
    assume "\<not> ri \<noteq> n"
    then have eq: "hms_msg_set_body ck (Some (msg_of L)) (Some buf) n = hms_msg_set_body ck (Some (msg_of L)) (Some b) n"
      using set_body_cong [OF assms(5)] by simp
    have a: "arg_is R' (At q) b" using arg_at(1) [OF m(1) new_array_chars [OF m(2) at] assms(3)] messageD(3) [OF m(1)] by simp
    have "finite_rest R'" using fin new_array_finite [OF m(2)] by simp
    with fin show "run_rel (gives_array p (with_chars R q b))
       (bind_run (Some (hms_msg_set_body ck (Some (msg_of L)) (Some buf) n)) (\<lambda>(msg, _). returns (msg, bad)))
       (bind_run (mem_msg_set_body ck A p (At q) n m) (\<lambda>(_, m). returns (bad, g, m)))"
      unfolding eq by (intro set_body_then [OF m(1) _ a]) (simp_all add: gives_arrayI [OF _ m(2)])
  qed simp
  have "run_rel (gives_array p (with_chars R q b))
     (bind_run (Some (bind_res (checksum_error ck (msg_of L) buf n) (\<lambda>bad. Inr (msg_of L, bad)))) (\<lambda>(msg, bad).
      if ri \<noteq> n then Some (Inl AssertAbort)
      else bind_run (Some (hms_msg_set_body ck (Some msg) (Some buf) n)) (\<lambda>(msg, _). returns (msg, bad))))
     (bind_run (mem_checksum_error ck A p q n m) (\<lambda>(bad, given, m).
      if ri \<noteq> n then Some (Inl AssertAbort)
      else bind_run (mem_msg_set_body ck A p (At q) n m) (\<lambda>(_, m). returns (bad, given, m))))"
    by (rule gives_array_bind [OF checksum_error_memory [OF assms(1) fin assms(3) at assms(4)]], unfold split) (rule set)
  then show ?thesis by (simp add: Some_bind_res bind_run_assoc)
qed

text \<open>The buffer after the loop: what is in it, and that it stands for the bytes read.\<close>

lemma read_in_memory:
  assumes "message m p L R" "finite_rest R" "socket rd pending" "read_body_loop rd n 0 [] s = ((buf, ri, f), s')"
    "0 \<le> n + 1" "n < int_max"
  obtains q m1 m2 b where "malloc A (n + 1) m = (q, m1)" "mem_read_body_loop rd q n 0 m1 s = Inr ((ri, f), m2, s')"
    "q \<noteq> 0" "r_chars R q = None" "message m2 p L (with_chars R q b)"
    "\<not> f \<Longrightarrow> checksum_string b n = checksum_string buf n" "\<not> f \<Longrightarrow> ri = n \<Longrightarrow> copy_out b n = copy_out buf n"
proof -
  obtain q m1 where m1: "malloc A (n + 1) m = (q, m1)" "q \<noteq> 0" "r_chars R q = None"
    "message m1 p L (with_chars R q (malloc_area (nat (n + 1))))" using malloc_message [OF assms(1,2,5)] by blast
  obtain m2 t where m2: "mem_read_body_loop rd q n 0 m1 s = Inr ((ri, f), m2, s')"
    "message m2 p L (with_chars R q (buf @ t))" "length (buf @ t) = nat (n + 1)" "ri = int (length buf)" "\<not> f \<longrightarrow> ri = max 0 n"
    using socket.read_body_loop_memory [OF assms(3), of n "[]" s buf ri f s' m1 p L R q "malloc_area (nat (n + 1))"] assms(4,5) m1(2,4)
    by (auto simp: malloc_area_def)
  have "checksum_string (buf @ t) n = checksum_string buf n" if "\<not> f"
  proof (cases "0 \<le> n")
    case True
    with that m2(4,5) assms(6) show ?thesis by (intro checksum_string_append) simp_all
  next
    case False
    with assms(5) m2(3) show ?thesis by simp
  qed
  moreover have "copy_out (buf @ t) n = copy_out buf n" if "ri = n" using that m2(4) by (simp add: copy_out_def)
  ultimately show ?thesis using that m1(1-3) m2(1,2) by blast
qed

lemma parse_read_body_memory:
  assumes "message m p L R" "finite_rest R" "socket rd pending"
  shows "run_rel (handles p R)
    (Some (bind_res (hms_parse_read_body ck rd (msg_of L) n s) (\<lambda>((M, ret), s). Inr (ret, M, s))))
    (mem_parse_read_body ck A rd p n m s)"
proof (cases "0 \<le> n + 1 \<and> n < int_max")
  case False
  moreover have "read_body_loop rd n 0 [] s = (([], 0, False), s)" "mem_read_body_loop rd 0 n 0 m s = Inr ((0, False), m, s)"
    if "n < -1" using that by (simp_all add: read_body_loop.simps mem_read_body_loop.simps)
  ultimately show ?thesis using assms(1)
    by (auto simp: hms_parse_read_body_def mem_parse_read_body_def malloc_def free_null int_add_def)
next
  case True
  then have sz: "int_add n 1 = Inr (n + 1)" by (simp add: int_add_def int_min_def)
  obtain buf ri f s' where loop: "read_body_loop rd n 0 [] s = ((buf, ri, f), s')" by (metis prod.exhaust)
  obtain q m1 m2 b where q: "malloc A (n + 1) m = (q, m1)" "mem_read_body_loop rd q n 0 m1 s = Inr ((ri, f), m2, s')"
    "q \<noteq> 0" "r_chars R q = None" "message m2 p L (with_chars R q b)"
    "\<not> f \<Longrightarrow> checksum_string b n = checksum_string buf n" "\<not> f \<Longrightarrow> ri = n \<Longrightarrow> copy_out b n = copy_out buf n"
    using read_in_memory [OF assms loop] True by metis
  let ?stored = "bind_run (Some (checksum_error ck (msg_of L) buf n)) (\<lambda>bad.
      if ri \<noteq> n then Some (Inl AssertAbort)
      else bind_run (Some (hms_msg_set_body ck (Some (msg_of L)) (Some buf) n)) (\<lambda>(msg, _). returns (msg, bad)))"
  let ?mstored = "bind_run (mem_checksum_error ck A p q n m2) (\<lambda>(bad, given, m).
      if ri \<noteq> n then Some (Inl AssertAbort)
      else bind_run (mem_msg_set_body ck A p (At q) n m) (\<lambda>(_, m). returns (bad, given, m)))"
  have spec: "Some (bind_res (hms_parse_read_body ck rd (msg_of L) n s) (\<lambda>((M, ret), s). Inr (ret, M, s))) =
      bind_run (if f then returns (msg_of L, True) else ?stored) (\<lambda>(M, bad). returns (if bad then -1 else 0, M, s'))"
    using True sz loop
    by (cases "checksum_error ck (msg_of L) buf n"; cases "hms_msg_set_body ck (Some (msg_of L)) (Some buf) n")
      (auto simp: hms_parse_read_body_def)
  have run: "mem_parse_read_body ck A rd p n m s =
      bind_run (if f then returns (True, 0, m2) else ?mstored) (\<lambda>(bad, given, m).
      bind_run (Some (free_chars q m)) (\<lambda>m.
      bind_run (Some (free_chars given m)) (\<lambda>m. returns (if bad then -1 else 0, m, s'))))"
    using sz q(1-3) by (simp add: mem_parse_read_body_def)
  have "run_rel (gives_array p (with_chars R q b)) (if f then returns (msg_of L, True) else ?stored)
      (if f then returns (True, 0, m2) else ?mstored)"
    using q(5) by (intro run_rel_if store_body_memory [OF q(5) assms(2) q(3)] q(6,7))
      (auto intro: gives_arrayI simp: new_array_def)
  then show ?thesis unfolding spec run
  proof (rule gives_array_bind, unfold split)
    fix bad g m3 L3 R3
    assume m3: "message m3 p L3 R3" "new_array (with_chars R q b) g R3"
    obtain m4 R4 where m4: "free_chars q m3 = Inr m4" "message m4 p L3 R4" "new_array R g R4"
      using free_below [OF m3 q(3,4)] by blast
    obtain m5 where "free_chars g m4 = Inr m5" "message m5 p L3 R" using new_array_free [OF m4(2,3)] by blast
    with m4(1) show "run_rel (handles p R) (returns (if bad then -1 else 0, msg_of L3, s'))
      (bind_run (Some (free_chars q m3)) (\<lambda>m. bind_run (Some (free_chars g m)) (\<lambda>m. returns (if bad then -1 else 0, m, s'))))"
      by auto
  qed
qed

end

subsection \<open>The message\<close>

lemma destroy_msg_of: "hms_msg_destroy (Some (msg_of L)) = Inr 0"
  by (simp add: hms_msg_destroy_def destroy_headers_eq)

text \<open>What \<open>hms_msg_parse\<close> does with the header in \<open>b\<close>.\<close>

definition parse_msg :: "bool \<Rightarrow> 's reader \<Rightarrow> char list \<Rightarrow> int \<Rightarrow> 's \<Rightarrow> (hms_msg option \<times> 's) res" where
  "parse_msg ck rd b hdr_len s =
     bind_res (hms_parse_header hms_msg_create b hdr_len 0) (\<lambda>(msg, body_len, ret).
     bind_res
       (if ret = 0 then
          (if body_len \<noteq> 0 then
             bind_res (hms_parse_read_body ck rd msg body_len s) (\<lambda>((msg, ret), s). Inr (msg, ret \<noteq> 0, s))
           else Inr (msg, False, s))
        else Inr (msg, True, s)) (\<lambda>(msg, erred, s).
     if erred then bind_res (hms_msg_destroy (Some msg)) (\<lambda>_. Inr (None, s)) else Inr (Some msg, s)))"

text \<open>What the parser answers with: NULL or a message.\<close>

definition parsed_in :: "rest_memory \<Rightarrow> hms_msg option \<times> 's \<Rightarrow> ptr \<times> msg_memory \<times> 's \<Rightarrow> bool" where
  "parsed_in R x y \<longleftrightarrow>
     (case (x, y) of ((M, s), (p, m', s')) \<Rightarrow>
        s' = s \<and> (case M of None \<Rightarrow> p = 0 \<and> contents m' = R | Some M \<Rightarrow> \<exists>L. message m' p L R \<and> msg_of L = M))"

lemma parsed_inI:
  "contents m' = R \<Longrightarrow> parsed_in R (None, s) (0, m', s)" "message m' p L R \<Longrightarrow> parsed_in R (Some (msg_of L), s) (p, m', s)"
  by (auto simp: parsed_in_def)

context heap_allocator begin

lemma parse_header_memory:
  assumes "message m p L (with_chars R q b)" "msg_of L = hms_msg_create" "q \<noteq> 0" "finite_rest R" "NUL \<in> set b" "int (length b) \<le> int_max"
  shows "\<exists>m' L' b' n ret. hms_parse_header hms_msg_create b hdr_len 0 = Inr (msg_of L', n, ret) \<and>
    mem_parse_header A p q hdr_len 0 m = returns (ret, n, m') \<and> message m' p L' (with_chars R q b')"
proof -
  have "parsed hms_msg_create 0" by (simp add: parsed_def hms_msg_create_def hdr_wf_def named_wf_def)
  moreover have "room (length (cstr b) + 0) hms_msg_create"
    using assms(6) length_takeWhile_le [of "\<lambda>c. c \<noteq> NUL" b] by (simp add: room_create cstr_def)
  ultimately obtain M n ret where h: "parse_header_loop hms_msg_create 0 0 (cstr b) = Inr (M, n, ret)"
    using parse_header_total by blast
  from split_list_first [OF assms(5)] obtain ys zs where b: "b = ys @ NUL # zs" "NUL \<notin> set ys" by blast
  have m: "message m p L (with_chars R q ([] @ cstr b @ NUL # zs))" using assms(1) b by simp
  have l: "parse_header_loop (msg_of L) 0 0 (cstr b) = Inr (M, n, ret)" using h assms(2) by simp
  from parse_header_loop_memory [OF m cstr_no_NUL assms(3,4) _ l] h show ?thesis
    by (auto simp: hms_parse_header_def mem_parse_header_def)
qed

lemma parse_msg_memory:
  assumes "contents m = with_chars R q b" "q \<noteq> 0" "finite_rest R" "NUL \<in> set b" "socket rd pending"
    "int (length b) \<le> int_max"
  shows "run_rel (\<lambda>x y. \<exists>b'. parsed_in (with_chars R q b') x y) (Some (parse_msg ck rd b hdr_len s))
    (mem_parse_msg ck A rd q hdr_len m s)"
proof -
  have fin: "finite_rest (with_chars R q b)" for b using assms(3) by simp
  obtain p m1 L1 where m1: "mem_msg_create A m = Inr (p, m1)" "message m1 p L1 (with_chars R q b)" "msg_of L1 = hms_msg_create"
    using create_message [OF assms(1) fin] by blast
  obtain m2 L2 b2 n ret where m2: "hms_parse_header hms_msg_create b hdr_len 0 = Inr (msg_of L2, n, ret)"
    "mem_parse_header A p q hdr_len 0 m1 = returns (ret, n, m2)" "message m2 p L2 (with_chars R q b2)"
    using parse_header_memory [OF m1(2,3) assms(2-4,6)] by blast
  let ?body = "if ret = 0 then
      if n \<noteq> 0 then bind_run (Some (bind_res (hms_parse_read_body ck rd (msg_of L2) n s) (\<lambda>((M, ret), s). Inr (ret, M, s))))
          (\<lambda>(ret, M, s). returns (ret \<noteq> 0, M, s))
      else returns (False, msg_of L2, s) else returns (True, msg_of L2, s)"
  let ?mbody = "if ret = 0 then
      if n \<noteq> 0 then bind_run (mem_parse_read_body ck A rd p n m2 s) (\<lambda>(ret, m, s). returns (ret \<noteq> 0, m, s))
      else returns (False, m2, s) else returns (True, m2, s)"
  have run: "mem_parse_msg ck A rd q hdr_len m s = bind_run ?mbody (\<lambda>(erred, m, s).
      if erred \<and> p \<noteq> 0 then bind_run (mem_msg_destroy p m) (\<lambda>(_, m). returns (0, m, s)) else returns (p, m, s))"
    using m1(1) m2(2) by (simp add: mem_parse_msg_def)
  have spec: "Some (parse_msg ck rd b hdr_len s) = bind_run ?body (\<lambda>(erred, msg, s).
      if erred then bind_run (Some (hms_msg_destroy (Some msg))) (\<lambda>_. returns (None, s)) else returns (Some msg, s))"
    using m2(1) by (cases "hms_parse_read_body ck rd (msg_of L2) n s") (auto simp: parse_msg_def Some_bind_res)
  have "run_rel (handles p (with_chars R q b2)) ?body ?mbody"
    using m2(3) by (intro run_rel_if handles_bind [OF parse_read_body_memory [OF m2(3) fin assms(5)]]) auto
  then show ?thesis unfolding spec run
  proof (rule handles_bind, unfold split)
    fix erred m3 L3 s
    assume m3: "message m3 p L3 (with_chars R q b2)"
    from m3 destroy_message [OF m3] messageD(4) [OF m3]
    show "run_rel (\<lambda>x y. \<exists>b'. parsed_in (with_chars R q b') x y)
      (if erred then bind_run (Some (hms_msg_destroy (Some (msg_of L3)))) (\<lambda>_. returns (None, s)) else returns (Some (msg_of L3), s))
      (if erred \<and> p \<noteq> 0 then bind_run (mem_msg_destroy p m3) (\<lambda>(_, m). returns (0, m, s)) else returns (p, m3, s))"
      by (cases erred) (auto simp: destroy_msg_of intro!: exI [of _ b2] parsed_inI)
  qed
qed

end

subsection \<open>The parser\<close>

text \<open>The header read ends at a NUL: the one behind the buffer is never overwritten.\<close>

lemma read_header_loop_frame:
  "read_header_loop rd n buf h seen d s = Inr ((buf', h', d', fin), s') \<Longrightarrow>
   length buf' = length buf \<and> (\<forall>i \<ge> n. buf' ! i = buf ! i)"
proof (induction "n - h" arbitrary: buf h seen d s rule: less_induct)
  case less
  obtain k bs s1 where rd: "rd s (Suc 0) = (k, bs, s1)" by (metis prod_cases3)
  show ?case
  proof (cases "h < n \<and> k = 1")
    case False
    with less.prems rd show ?thesis by (auto simp: read_header_loop.simps [of rd n buf h] split: if_splits)
  next
    case True
    then have "n - Suc h < n - h" by (intro diff_less_mono2) simp_all
    note IH = less.hyps [OF this, of "buf[h := c]" for c]
    have "\<exists>c. length buf' = length (buf[h := c]) \<and> (\<forall>i \<ge> n. buf' ! i = buf[h := c] ! i)"
      using less.prems True rd IH by (auto simp: read_header_loop.simps [of rd n buf h] poke_def Let_def split: if_splits)
    with True show ?thesis by auto
  qed
qed

lemma read_header_NUL:
  assumes "hms_parse_read_header rd (Some b) n s = Inr ((b', h), s')" "length b = Suc (nat n)" "b ! nat n = NUL" "0 < n" "n \<le> int_max"
  shows "NUL \<in> set b' \<and> length b' = Suc (nat n)"
proof -
  have n: "to_unsigned n = nat n" using assms(4,5) by (simp add: to_unsigned_def int_max_def)
  from assms(1,4) obtain b1 h1 d fin b2 where l: "read_header_loop rd (nat n) b 0 False None s = Inr ((b1, h1, d, fin), s')"
    "(case d of None \<Rightarrow> Inr b1 | Some i \<Rightarrow> poke b1 i NUL) = Inr b2" "(if h1 < nat n then poke b2 h1 NUL else Inr b2) = Inr b'"
    by (auto simp: hms_parse_read_header_def n res_iff)
  have "length b1 = Suc (nat n)" "b1 ! nat n = NUL" using read_header_loop_frame [OF l(1)] assms(2,3) by auto
  then have "length b2 = Suc (nat n)" "b2 ! nat n = NUL" using l(2)
    by (auto simp: poke_def nth_list_update split: option.splits if_splits)
  then have "length b' = Suc (nat n)" "b' ! nat n = NUL" using l(3)
    by (auto simp: poke_def nth_list_update split: if_splits)
  then show ?thesis by (metis lessI nth_mem)
qed

lemma hms_msg_parse_eq:
  "hms_msg_parse ck rd n s =
     bind_res (int_add n 1) (\<lambda>size.
     if n < 0 then Inl Undefined
     else
       bind_res (poke (malloc_area (nat size)) (nat n) NUL) (\<lambda>buffer.
       bind_res (hms_parse_read_header rd (Some buffer) n s) (\<lambda>((buffer, hdr_len), s).
       if hdr_len > 2 then parse_msg ck rd buffer hdr_len s else Inr (None, s))))"
  unfolding hms_msg_parse_def parse_msg_def ..

lemma bind_run_returns: "bind_run v returns = v"
  by (cases v) (auto simp: bind_run_def split: sum.splits)

context heap_allocator begin

text \<open>With the header buffer \<open>b\<close> at \<open>q\<close>, up to its \<open>free\<close>.\<close>

lemma parse_buffer_memory:
  assumes "contents m = with_chars R q b" "q \<noteq> 0" "r_chars R q = None" "finite_rest R" "socket rd pending"
    "length b = Suc (nat n)" "b ! nat n = NUL" "0 \<le> n" "n < int_max"
  shows "run_rel (parsed_in R)
    (Some (bind_res (hms_parse_read_header rd (Some b) n s) (\<lambda>((buffer, hdr_len), s).
       if hdr_len > 2 then parse_msg ck rd buffer hdr_len s else Inr (None, s))))
    (bind_run (Some (mem_parse_read_header rd q n m s)) (\<lambda>(hdr_len, m, s).
     bind_run (if hdr_len > 2 then mem_parse_msg ck A rd q hdr_len m s else returns (0, m, s)) (\<lambda>(msg, m, s).
     bind_run (Some (free_chars q m)) (\<lambda>m. returns (msg, m, s)))))"
proof (cases "hms_parse_read_header rd (Some b) n s")
  case (Inl e)
  then have "mem_parse_read_header rd q n m s = Inl e"
    using contents_at [OF assms(1)] assms(2) by (simp add: mem_parse_read_header_def assert_ptr_def in_buffer_def object_def)
  with Inl show ?thesis by simp
next
  case (Inr x)
  obtain b' h s' where x: "x = ((b', h), s')" by (metis prod.exhaust)
  let ?g = "\<lambda>b. bind_res (hms_parse_read_header rd (Some b) n s) (\<lambda>((b, hdr_len), s). Inr ((hdr_len, s), b))"
  have g: "?g b = Inr ((h, s'), b')" using Inr x by simp
  note rd = in_buffer_contents [where f = ?g, OF assms(1,2) g]
  let ?m = "set_chars q b' m"
  have read: "mem_parse_read_header rd q n m s = Inr (h, ?m, s')"
    using rd(1) assms(2) by (simp add: mem_parse_read_header_def assert_ptr_def)
  have "0 < n" using Inr assms(8) by (cases "n = 0") (auto simp: hms_parse_read_header_def)
  with Inr x assms(6,7,9) have nul: "NUL \<in> set b' \<and> length b' = Suc (nat n)" by (intro read_header_NUL) auto
  have "int (length b') \<le> int_max" using nul assms(8,9) by simp
  note pm = parse_msg_memory [OF rd(2) assms(2,4) conjunct1 [OF nul] assms(5) this, of ck h s']
  have "run_rel (\<lambda>x y. \<exists>b'. parsed_in (with_chars R q b') x y) (if h > 2 then Some (parse_msg ck rd b' h s') else returns (None, s'))
      (if h > 2 then mem_parse_msg ck A rd q h ?m s' else returns (0, ?m, s'))"
    using pm rd(2) by (auto intro!: exI [of _ b'] parsed_inI)
  then have "run_rel (parsed_in R) (bind_run (if h > 2 then Some (parse_msg ck rd b' h s') else returns (None, s')) returns)
      (bind_run (if h > 2 then mem_parse_msg ck A rd q h ?m s' else returns (0, ?m, s')) (\<lambda>(msg, m, s).
       bind_run (Some (free_chars q m)) (\<lambda>m. returns (msg, m, s))))"
  proof (rule run_rel_bind)
    fix x y
    assume "\<exists>b'. parsed_in (with_chars R q b') x y"
    then show "run_rel (parsed_in R) (returns x) (case y of (msg, m, s) \<Rightarrow> bind_run (Some (free_chars q m)) (\<lambda>m. returns (msg, m, s)))"
      using contents_free [OF _ assms(2,3)] message_free [OF _ assms(2,3)]
      by (cases x; cases y) (fastforce simp: parsed_in_def split: option.splits)
  qed
  then show ?thesis using Inr x read by (cases "h > 2") (simp_all add: bind_run_returns)
qed

lemma parse_memory:
  assumes "socket rd pending" "finite_memory m"
  shows "run_rel (parsed_in (contents m)) (Some (hms_msg_parse ck rd n s)) (mem_msg_parse ck A rd n m s)"
proof (cases "int_add n 1 = Inr (n + 1) \<and> 0 \<le> n")
  case False
  then show ?thesis
    by (cases "int_add n 1") (auto simp: hms_msg_parse_def mem_msg_parse_def int_add_def split: prod.split if_splits)
next
  case True
  then have sz: "int_add n 1 = Inr (n + 1)" "0 \<le> n + 1" "n < int_max" by (auto simp: int_add_def split: if_splits)
  let ?R = "contents m"
  have fin: "finite_rest ?R" using assms(2) contents_finite by simp
  obtain q m1 where m1: "malloc A (n + 1) m = (q, m1)" "q \<noteq> 0" "r_chars ?R q = None"
    "contents m1 = with_chars ?R q (malloc_area (nat (n + 1)))" using malloc_contents [OF refl fin sz(2)] by blast
  define b where "b = (malloc_area (nat (n + 1)))[nat n := NUL]"
  have n: "nat (n + 1) = Suc (nat n)" using True by linarith
  have l: "nat n < length (malloc_area (nat (n + 1)))" "length b = Suc (nat n)" "b ! nat n = NUL"
    using n by (simp_all add: b_def malloc_area_def del: replicate_Suc)
  have w: "buf_write (malloc_area (nat (n + 1))) (nat n) [NUL] = Inr b" "poke (malloc_area (nat (n + 1))) (nat n) NUL = Inr b"
    using l(1) by (simp_all add: buf_write_def poke_def b_def upd_conv_take_nth_drop)
  have f: "(\<lambda>b. bind_res (buf_write b (nat n) [NUL]) (\<lambda>b. Inr ((), b))) (malloc_area (nat (n + 1))) = Inr ((), b)" using w(1) by simp
  note st = in_buffer_contents [where f = "\<lambda>b. bind_res (buf_write b (nat n) [NUL]) (\<lambda>b. Inr ((), b))", OF m1(4,2) f]
  have "store q (nat n) [NUL] m1 = Inr (set_chars q b m1)" using st(1) by (simp add: store_def)
  then have "mem_msg_parse ck A rd n m s =
      bind_run (Some (mem_parse_read_header rd q n (set_chars q b m1) s)) (\<lambda>(hdr_len, m, s).
      bind_run (if hdr_len > 2 then mem_parse_msg ck A rd q hdr_len m s else returns (0, m, s)) (\<lambda>(msg, m, s).
      bind_run (Some (free_chars q m)) (\<lambda>m. returns (msg, m, s))))"
    using True sz(1) m1(1) by (simp add: mem_msg_parse_def)
  moreover have "hms_msg_parse ck rd n s = bind_res (hms_parse_read_header rd (Some b) n s) (\<lambda>((buffer, hdr_len), s).
      if hdr_len > 2 then parse_msg ck rd buffer hdr_len s else Inr (None, s))"
    using True sz(1) w(2) by (simp add: hms_msg_parse_eq)
  ultimately show ?thesis
    using parse_buffer_memory [OF st(2) m1(2,3) fin assms(1) l(2,3) _ sz(3)] True by simp
qed

end

subsection \<open>Properties\<close>

text \<open>
  C3: The parser as it works on memory: on every socket with the POSIX contract, whatever arrives, and for every
  allocator that does not fail, it stops the process exactly as the parser on values does, or returns NULL with
  the memory as it was before (every array and every half built message is freed, once), or returns a pointer to
  the message of the parser on values, beside which nothing has changed and nothing is left allocated. No
  access is to a freed or unallocated object or outside of an array, although the header is cut in place.
\<close>
theorem parse_in_memory:
  assumes "heap_allocator A" "socket rd pending" "finite_memory m"
  shows "case hms_msg_parse ck rd n s of
      Inl e \<Rightarrow> mem_msg_parse ck A rd n m s = Some (Inl e)
    | Inr (None, s') \<Rightarrow> \<exists>m'. mem_msg_parse ck A rd n m s = returns (0, m', s') \<and> contents m' = contents m
    | Inr (Some M, s') \<Rightarrow> \<exists>p m' L. mem_msg_parse ck A rd n m s = returns (p, m', s') \<and>
        in_memory m' p L \<and> msg_of L = M \<and> l_dead L = 0 \<and> rest m' p L = contents m"
proof -
  note parse = heap_allocator.parse_memory [OF assms, of ck n s]
  show ?thesis
  proof (cases "hms_msg_parse ck rd n s")
    case (Inr x)
    then show ?thesis using parse by (cases x; cases "fst x") (auto simp: message_def parsed_in_def)
  qed (use parse in simp)
qed

theorem parse_in_memory_witness:
  "\<exists>p m' L evs'. mem_msg_parse False fresh_addresses sock_read 32 empty_memory
      [RData (header_text sample_msg @ ''ab''), RData ''cGET'', RErr] = returns (p, m', evs') \<and>
    in_memory m' p L \<and> msg_of L = sample_msg \<and> rest m' p L = contents empty_memory"
proof -
  let ?evs = "[RData (header_text sample_msg @ ''ab''), RData ''cGET'', RErr]"
  have pending: "sock_pending ?evs = msg_bytes sample_msg @ ''GET''"
    using sample_ok sample_text by (simp add: msg_bytes_def) (simp add: sample_msg_def)
  have parse: "hms_msg_parse False list_read (int 32) (sock_pending ?evs) = Inr (Some (received False sample_msg), ''GET'')"
    unfolding pending using sample_ok sample_text by (intro parse_msg_bytes) (simp_all add: int_max_def)
  have "\<exists>evs'. hms_msg_parse False sock_read 32 ?evs = Inr (Some sample_msg, evs')"
    using sock_parse_Some [OF parse] unfolding sample_ok(5) by auto
  then show ?thesis
    using parse_in_memory [OF fresh.heap_allocator_axioms script.socket_axioms finite_empty_memory, of False 32 ?evs]
    by fastforce
qed

end
