(* ===== verification/Hermes.thy ===== *)
theory Hermes
  imports Hms_Parser Run
begin

section \<open>Connectors, endpoints and the default server (src/src/hms/hermes.c)\<close>

text \<open>
  A client talks over a connector, a server over an endpoint. Both hold the descriptor of a connected
  socket; \<open>s\<close> is the state of the connection behind it, and \<open>E\<close> the calls of the operating system the code
  makes on it, as Socket describes them: \<open>read\<close>, \<open>send\<close>, and the time of day as the text \<open>asctime_r\<close>
  makes of it. \<open>send\<close> may also end the process by SIGPIPE (\<open>env_sender\<close>).
  Loops that end only if the peer or the socket lets them are partial functions (Run).
\<close>

lemma bind_run_assert [simp]:
  "e = c \<Longrightarrow> bind_run (Some (hms_assert_not_equals e c)) f = Some (Inl AssertExit)"
  "e \<noteq> c \<Longrightarrow> bind_run (Some (hms_assert_not_equals e c)) f = f ()"
  by (simp_all add: hms_assert_not_equals_def hms_assert_low_def)

subsection \<open>Sending\<close>

text \<open>
  The loop of \<open>__send_all\<close>: \<open>p\<close> is the offset of the pointer into \<open>buf\<close>. Handing \<open>send\<close> more bytes than
  \<open>buf\<close> has left is undefined.
\<close>

partial_function (option) send_all_loop ::
    "'s sender \<Rightarrow> char list \<Rightarrow> int \<Rightarrow> int \<Rightarrow> 's \<Rightarrow> (int \<times> 's) run" where
  [code]: "send_all_loop send buf p len s =
     (if len < 0 \<or> int (length buf) < p + len then Some (Inl Undefined)
      else
        bind_run (Some (send s (take (nat len) (drop (nat p) buf)))) (\<lambda>(n, s).
        if n = -1 then returns (n, s)
        else if len - n > 0 then send_all_loop send buf (p + n) (len - n) s
        else returns (p + n, s)))"

definition send_all :: "'s sender \<Rightarrow> char list option \<Rightarrow> int \<Rightarrow> 's \<Rightarrow> (int \<times> 's) run" where
  "send_all send p len s =
     bind_run (Some (nonnull p)) (\<lambda>buf.
     bind_run (Some (hms_assert_not_equals 0 len)) (\<lambda>_.
     send_all_loop send buf 0 len s))"

text \<open>
  \<open>__recv_all\<close>, which nothing calls: \<open>cap\<close> is the size of the buffer (\<open>None\<close> for NULL), \<open>got\<close> what was stored
  in it before \<open>p\<close>. To ask for more bytes than the buffer has left is undefined.
\<close>

partial_function (option) recv_all_loop ::
    "'s reader \<Rightarrow> nat \<Rightarrow> int \<Rightarrow> char list \<Rightarrow> 's \<Rightarrow> ((int \<times> char list) \<times> 's) run" where
  [code]: "recv_all_loop rd cap len got s =
     (if len < 0 \<or> int cap < int (length got) + len then Some (Inl Undefined)
      else (case rd s (nat len) of (n, bs, s) \<Rightarrow>
        if n = -1 \<or> n = 0 then returns ((n, got), s)
        else if len - n > 0 then recv_all_loop rd cap (len - n) (got @ bs) s
        else returns ((int (length got) + n, got @ bs), s)))"

definition recv_all ::
    "'s reader \<Rightarrow> nat option \<Rightarrow> int \<Rightarrow> 's \<Rightarrow> ((int \<times> char list) \<times> 's) run" where
  "recv_all rd cap len s =
     bind_run (Some (nonnull cap)) (\<lambda>cap.
     bind_run (Some (hms_assert_not_equals 0 len)) (\<lambda>_.
     recv_all_loop rd cap len [] s))"

text \<open>
  What \<open>hms_connector_send_msg\<close> and \<open>hms_endpoint_send_msg\<close> have in common: the part that sends the
  header, whose result is \<open>erred\<close>, and the part that sends the body. They differ in the last \<open>else\<close>, which
  sets \<open>erred\<close> in the connector and is missing in the endpoint: \<open>no_body\<close>.
\<close>

definition send_msg_header :: "'s env \<Rightarrow> hms_msg \<Rightarrow> 's \<Rightarrow> (bool \<times> 's) run" where
  "send_msg_header E msg s =
     bind_run (Some (hms_msg_get_header_size (Some msg))) (\<lambda>hdr_len.
     bind_run (Some (hms_assert_not_equals 0 hdr_len)) (\<lambda>_.
     bind_run (Some (int_add hdr_len 1)) (\<lambda>size.
     bind_run (Some (nonnull (if size < 0 then None else Some (malloc_area (nat size))))) (\<lambda>hdr_buf.
     bind_run (Some (hms_msg_print_header (Some msg) (Some hdr_buf) hdr_len)) (\<lambda>(hdr_buf, ret).
     if ret = 0 then
       bind_run (send_all (env_sender E) (Some hdr_buf) hdr_len s) (\<lambda>(n, s). returns (n = -1, s))
     else returns (True, s))))))"

definition send_msg_body :: "'s env \<Rightarrow> hms_msg \<Rightarrow> bool \<Rightarrow> bool \<Rightarrow> 's \<Rightarrow> (bool \<times> 's) run" where
  "send_msg_body E msg no_body erred s =
     bind_run (Some (hms_msg_get_body_size (Some msg))) (\<lambda>body_size.
     if body_size > 0 then
       bind_run (Some (hms_msg_get_body (Some msg))) (\<lambda>(body, body_len, ret).
       if ret = 0 \<and> body \<noteq> None then
         bind_run (send_all (env_sender E) body body_len s) (\<lambda>(n, s). returns (erred \<or> n = -1, s))
       else returns (True, s))
     else returns (no_body \<or> erred, s))"

subsection \<open>Connector\<close>

text \<open>
  The pointer a caller of \<open>hms_connector_init\<close> gets: NULL, an object, or the -1 the function returns when
  \<open>connect\<close> fails, which is not NULL and points to nothing.
\<close>

datatype 'a ptr = PNull | PMinusOne | PObj 'a

fun access_ptr :: "'a ptr \<Rightarrow> 'a res" where
  "access_ptr PNull = Inl AssertExit"
| "access_ptr PMinusOne = Inl Undefined"
| "access_ptr (PObj x) = Inr x"

definition HMS_ENDPOINT_FREE :: int where "HMS_ENDPOINT_FREE = 0"

record hms_connector =
  conn_socket :: int
  conn_start :: "int \<times> int"
  conn_status :: int

text \<open>
  The calls that open a connection, with their results: \<open>gethostbyname\<close> (the address, if any), \<open>socket\<close>,
  \<open>connect\<close> to an address and a port, \<open>setsockopt\<close> and \<open>gettimeofday\<close>. \<open>htons\<close> converts to 16 bits.
  \<open>calloc\<close> clears the status.
\<close>

record 'a net =
  net_host :: "string \<Rightarrow> 'a option"
  net_socket :: int
  net_connect :: "int \<Rightarrow> 'a \<Rightarrow> nat \<Rightarrow> int"
  net_setsockopt :: "int \<Rightarrow> int"
  net_now :: "int \<times> int"

definition hms_connector_init :: "'a net \<Rightarrow> string option \<Rightarrow> int \<Rightarrow> hms_connector ptr res" where
  "hms_connector_init N hostname port =
     bind_res (nonnull hostname) (\<lambda>hostname.
     bind_res (hms_assert_not_equals 0 port) (\<lambda>_.
     case net_host N hostname of
       None \<Rightarrow> Inr PNull
     | Some addr \<Rightarrow>
         let sockfd = net_socket N in
         if sockfd = -1 then Inr PNull
         else if net_connect N sockfd addr (nat (port mod 2 ^ 16)) = -1 then Inr PMinusOne
         else
           bind_res (hms_assert_not_equals (-1) (net_setsockopt N sockfd)) (\<lambda>_.
           Inr (PObj \<lparr>conn_socket = sockfd, conn_start = net_now N, conn_status = 0\<rparr>))))"

definition HERMES_MAX_HDR_SIZE :: int where "HERMES_MAX_HDR_SIZE = 1024"

definition hms_connector_recv_msg ::
    "bool \<Rightarrow> 's env \<Rightarrow> hms_connector ptr \<Rightarrow> 's \<Rightarrow> ((hms_msg option \<times> int) \<times> 's) res" where
  "hms_connector_recv_msg ck E p s =
     bind_res (access_ptr p) (\<lambda>connector.
     bind_res (hms_msg_parse ck (env_read E) HERMES_MAX_HDR_SIZE s) (\<lambda>(tmp_msg, s).
     if tmp_msg = None then Inr ((None, -1), s)
     else Inr ((tmp_msg, 0), s)))"

definition hms_connector_send_msg ::
    "'s env \<Rightarrow> hms_connector ptr \<Rightarrow> hms_msg option \<Rightarrow> 's \<Rightarrow> (int \<times> 's) run" where
  "hms_connector_send_msg E p msg s =
     bind_run (Some (access_ptr p)) (\<lambda>connector.
     bind_run (Some (nonnull msg)) (\<lambda>msg.
     bind_run (send_msg_header E msg s) (\<lambda>(erred, s).
     bind_run (send_msg_body E msg True erred s) (\<lambda>(erred, s).
     returns (if \<not> erred then 0 else -1, s)))))"

text \<open>The descriptor given to \<open>close\<close>, and the \<open>int\<close> returned. The object is freed.\<close>

definition hms_connector_destroy :: "hms_connector ptr \<Rightarrow> (int \<times> int) res" where
  "hms_connector_destroy p = bind_res (access_ptr p) (\<lambda>connector. Inr (conn_socket connector, 0))"

subsection \<open>Endpoint\<close>

text \<open>
  \<open>hms_ops\<close> are the application's functions, \<open>None\<close> for a NULL pointer. They get the endpoint and the
  message, which they may change, and act on the connection. (What they can see of an endpoint is its
  record without the functions themselves.)
\<close>

record endpoint_base =
  ep_socket :: int
  ep_start :: "int \<times> int"
  ep_status :: int
  ep_locked :: bool

type_synonym 's hms_op = "endpoint_base \<Rightarrow> hms_msg \<Rightarrow> 's \<Rightarrow> (int \<times> hms_msg \<times> 's) run"

record 's hms_ops =
  hms_validate :: "'s hms_op option"
  hms_accepts :: "'s hms_op option"
  hms_handle :: "'s hms_op option"

record 's hms_endpoint = endpoint_base +
  ep_ops :: "'s hms_ops"

definition hms_endpoint_recv_msg ::
    "bool \<Rightarrow> 's env \<Rightarrow> endpoint_base option \<Rightarrow> 's \<Rightarrow> ((hms_msg option \<times> int) \<times> 's) res" where
  "hms_endpoint_recv_msg ck E p s =
     bind_res (nonnull p) (\<lambda>endpoint.
     bind_res (hms_msg_parse ck (env_read E) HERMES_MAX_HDR_SIZE s) (\<lambda>(tmp_msg, s).
     if tmp_msg = None then Inr ((None, -1), s)
     else Inr ((tmp_msg, 0), s)))"

definition hms_endpoint_send_msg ::
    "'s env \<Rightarrow> endpoint_base option \<Rightarrow> hms_msg option \<Rightarrow> 's \<Rightarrow> (int \<times> 's) run" where
  "hms_endpoint_send_msg E p msg s =
     bind_run (Some (nonnull p)) (\<lambda>endpoint.
     bind_run (Some (nonnull msg)) (\<lambda>msg.
     bind_run (send_msg_header E msg s) (\<lambda>(erred, s).
     bind_run (send_msg_body E msg False erred s) (\<lambda>(erred, s).
     returns (if \<not> erred then 0 else -1, s)))))"

subsection \<open>The default functions\<close>

definition hms_default_validate :: "'s hms_op" where
  "hms_default_validate endpoint msg s = returns (0, msg, s)"

definition hms_default_accepts :: "'s hms_op" where
  "hms_default_accepts endpoint msg s = returns (-1, msg, s)"

definition hms_default_handle :: "'s env \<Rightarrow> 's hms_op" where
  "hms_default_handle E endpoint msg s =
     (let reply = hms_msg_create in
      bind_run (Some (hms_msg_get_verb (Some msg))) (\<lambda>(verb, _).
      bind_run
        (case verb of
           None \<Rightarrow>
             bind_run (Some (hms_msg_set_verb (Some reply) (Some ''ERROR''))) (\<lambda>(reply, _).
             bind_run (hms_endpoint_send_msg E (Some endpoint) (Some reply) s) (\<lambda>(_, s).
             returns (True, reply, s)))
         | Some v \<Rightarrow>
             if strcasecmp v ''PING'' = 0 then
               bind_run (Some (hms_msg_set_verb (Some reply) (Some ''PONG''))) (\<lambda>(reply, _).
               bind_run (hms_endpoint_send_msg E (Some endpoint) (Some reply) s) (\<lambda>(_, s).
               returns (False, reply, s)))
             else if strcasecmp v ''INFO'' = 0 then
               bind_run (Some (hms_msg_set_verb (Some reply) (Some ''INFO''))) (\<lambda>(reply, _).
               let (time_buf, s) = env_time E s in
               bind_run (Some (hms_msg_add_named_header (Some reply) (Some ''Localtime'') (Some time_buf)))
                 (\<lambda>(reply, _).
               bind_run (hms_endpoint_send_msg E (Some endpoint) (Some reply) s) (\<lambda>(_, s).
               returns (False, reply, s))))
             else if strcasecmp v ''BYE'' = 0 then returns (True, reply, s)
             else returns (True, reply, s)) (\<lambda>(erred, reply, s).
      bind_run (Some (hms_msg_destroy (Some reply))) (\<lambda>_.
      returns (if \<not> erred then 0 else -1, msg, s)))))"

definition hms_endpoint_init :: "'s env \<Rightarrow> int \<times> int \<Rightarrow> int \<Rightarrow> 's hms_ops \<Rightarrow> 's hms_endpoint" where
  "hms_endpoint_init E now fd ops =
     \<lparr>ep_socket = fd, ep_start = now, ep_status = HMS_ENDPOINT_FREE, ep_locked = False,
      ep_ops =
       \<lparr>hms_validate = (if hms_validate ops = None then Some hms_default_validate else hms_validate ops),
        hms_accepts = (if hms_accepts ops = None then Some hms_default_accepts else hms_accepts ops),
        hms_handle = (if hms_handle ops = None then Some (hms_default_handle E) else hms_handle ops)\<rparr>\<rparr>"

text \<open>The descriptor closed, the \<open>int\<close> returned, and the object after \<open>free\<close>: none.\<close>

definition hms_endpoint_destroy :: "'s hms_endpoint option \<Rightarrow> (int \<times> int \<times> 's hms_endpoint option) res" where
  "hms_endpoint_destroy p = bind_res (nonnull p) (\<lambda>endpoint. Inr (ep_socket endpoint, 0, None))"

subsection \<open>The server's side of a connection\<close>

text \<open>
  One message in \<open>_hms_handle_endpoint\<close>: validate it, then hand it to the application if that accepts it
  and to the default otherwise. A message that is not valid leaves \<open>handler_status\<close> as it was.
\<close>

definition call_op :: "'s hms_op option \<Rightarrow> 's hms_op" where
  "call_op f endpoint msg s =
     (case f of None \<Rightarrow> Some (Inl Undefined) | Some f \<Rightarrow> f endpoint msg s)"

definition handle_msg :: "'s env \<Rightarrow> 's hms_endpoint \<Rightarrow> int \<Rightarrow> hms_msg \<Rightarrow> 's \<Rightarrow> (int \<times> hms_msg \<times> 's) run" where
  "handle_msg E endpoint handler_status msg s =
     (let base = endpoint_base.truncate endpoint; ops = ep_ops endpoint in
      bind_run
        (if hms_validate ops = None then returns (0, msg, s)
         else call_op (hms_validate ops) base msg s) (\<lambda>(valid, msg, s).
      if valid = 0 then
        bind_run (call_op (hms_accepts ops) base msg s) (\<lambda>(accepted, msg, s).
        if accepted = 0 then call_op (hms_handle ops) base msg s
        else hms_default_handle E base msg s)
      else returns (handler_status, msg, s)))"

partial_function (option) handle_endpoint_loop ::
    "bool \<Rightarrow> 's env \<Rightarrow> 's hms_endpoint \<Rightarrow> int \<Rightarrow> 's \<Rightarrow> (int \<times> 's) run" where
  [code]: "handle_endpoint_loop ck E endpoint handler_status s =
     bind_run (Some (hms_endpoint_recv_msg ck E (Some (endpoint_base.truncate endpoint)) s))
       (\<lambda>((msg, parse_status), s).
     if parse_status \<noteq> 0 then returns (handler_status, s)
     else case msg of
       None \<Rightarrow> Some (Inl Undefined)
     | Some msg \<Rightarrow>
         bind_run (handle_msg E endpoint handler_status msg s) (\<lambda>(handler_status, msg, s).
         bind_run (Some (hms_msg_destroy (Some msg))) (\<lambda>_.
         if handler_status \<noteq> 0 then returns (handler_status, s)
         else handle_endpoint_loop ck E endpoint handler_status s)))"

text \<open>The mutex of the endpoint; an access after \<open>free\<close> is undefined.\<close>

definition lock_meta :: "bool \<Rightarrow> 's hms_endpoint option \<Rightarrow> 's hms_endpoint res" where
  "lock_meta l p =
     (case p of None \<Rightarrow> Inl Undefined | Some endpoint \<Rightarrow> Inr (endpoint\<lparr>ep_locked := l\<rparr>))"

definition hms_handle_endpoint :: "bool \<Rightarrow> 's env \<Rightarrow> 's hms_endpoint option \<Rightarrow> 's \<Rightarrow> 's run" where
  "hms_handle_endpoint ck E p s =
     bind_run (Some (lock_meta True p)) (\<lambda>endpoint.
     bind_run (handle_endpoint_loop ck E endpoint 0 s) (\<lambda>(handler_status, s).
     bind_run (Some (hms_endpoint_destroy (Some endpoint))) (\<lambda>(fd, _, p).
     bind_run (Some (lock_meta False p)) (\<lambda>_.
     returns s))))"

end
