(* ===== verification/Hermes_Send.thy ===== *)
theory Hermes_Send
  imports Hermes Hms_Parser_Correct "HOL-Library.Sublist"
begin

section \<open>Sending and receiving messages\<close>

text \<open>
  \<open>__send_all\<close> against the contract of \<open>send\<close>, the two functions that send a message, what the parser
  leaves of the connection it reads, and a message from one side to the other.
\<close>

subsection \<open>Sending\<close>

context sink
begin

lemma send_all_loop_out:
  assumes "0 < n" "p + n \<le> length buf"
  shows "sigpipe = SigDefault \<and> \<not> up s \<and>
      send_all_loop (sends sigpipe broken wr) buf (int p) (int n) s = Some (Inl Killed) \<or>
    (\<exists>k s'. send_all_loop (sends sigpipe broken wr) buf (int p) (int n) s = returns (k, s') \<and>
      (k = int (p + n) \<and> sent s' = sent s @ take n (drop p buf) \<and> (up s \<longrightarrow> up s') \<or>
       k = -1 \<and> \<not> up s \<and> (\<exists>j < n. sent s' = sent s @ take j (drop p buf))))"
  using assms
proof (induction n arbitrary: p s rule: less_induct)
  case (less n)
  let ?bs = "take n (drop p buf)" and ?snd = "sends sigpipe broken wr"
  obtain k s1 where w: "wr s ?bs = (k, s1)" by (cases "wr s ?bs")
  have ne: "?bs \<noteq> []" and len: "length ?bs = n" using less.prems by auto
  show ?case
  proof (cases "sigpipe = SigDefault \<and> broken s")
    case True
    then have "send_all_loop ?snd buf (int p) (int n) s = Some (Inl Killed)"
      using less.prems by (subst send_all_loop.simps) simp
    moreover have "\<not> up s" using True wr_broken [OF w] wr_up [OF w] by blast
    ultimately show ?thesis using True by blast
  next
    case False
    then have snd: "?snd s ?bs = Inr (k, s1)" using w by (auto simp: sends_def)
    from wr_blocks [OF w ne] show ?thesis
    proof
      assume "k = -1"
      with snd less.prems wr_none [OF w] wr_up [OF w] show ?thesis
        by (subst (1 2) send_all_loop.simps) auto
    next
      assume k: "0 < k"
      from wr_some [OF w this] len obtain i where i: "k = int i" "0 < i" "i \<le> n"
        "sent s1 = sent s @ take i ?bs"
        using k by (metis nat_0_le nonneg_int_cases of_nat_0_less_iff of_nat_le_iff order_less_imp_le nat_int)
      have up: "up s \<Longrightarrow> up s1" using wr_up [OF w] by blast
      have step: "send_all_loop ?snd buf (int p) (int n) s =
          (if i < n then send_all_loop ?snd buf (int (p + i)) (int (n - i)) s1 else returns (int (p + i), s1))"
        using less.prems snd i by (subst send_all_loop.simps) (auto simp: of_nat_diff)
      show ?thesis
      proof (cases "i < n")
        case False
        with i step up show ?thesis by auto
      next
        case True
        have join: "take i ?bs @ take j (drop (p + i) buf) = take (i + j) (drop p buf)" for j
          using i(3) by (simp add: take_add add.commute)
        have "n - i < n" "0 < n - i" "p + i + (n - i) \<le> length buf" using less.prems True i by auto
        from less.IH [OF this, of s1] show ?thesis
        proof (elim disjE exE conjE, goal_cases)
          case 1
          with step True up show ?case by auto
        next
          case (2 k' s2)
          then show ?case using step True i(3,4) join [of "n - i"] up by auto
        next
          case (3 k' s2 j)
          then show ?case using step True i(4) join [of j] up
            by (intro disjI2 exI [of _ k'] exI [of _ s2]) (auto intro!: exI [of _ "i + j"])
        qed
      qed
    qed
  qed
qed

lemma send_all_out:
  assumes "0 < n" "n \<le> length buf"
  shows "sigpipe = SigDefault \<and> \<not> up s \<and>
      send_all (sends sigpipe broken wr) (Some buf) (int n) s = Some (Inl Killed) \<or>
    (\<exists>k s'. send_all (sends sigpipe broken wr) (Some buf) (int n) s = returns (k, s') \<and>
      (k = int n \<and> sent s' = sent s @ take n buf \<and> (up s \<longrightarrow> up s') \<or>
       k = -1 \<and> \<not> up s \<and> (\<exists>j < n. sent s' = sent s @ take j buf)))"
  using send_all_loop_out [of n 0 buf sigpipe s] assms by (simp add: send_all_def)

lemma send_all_killed:
  assumes "0 < n" "n \<le> length buf" "broken s"
  shows "send_all (sends SigDefault broken wr) (Some buf) (int n) s = Some (Inl Killed)"
  using assms by (simp add: send_all_def) (subst send_all_loop.simps, simp)

end

text \<open>What no call of \<open>send\<close> changes, sending a buffer does not change.\<close>

lemma send_all_loop_keeps:
  assumes keeps: "\<And>s bs k s'. send s bs = Inr (k, s') \<Longrightarrow> f s' = f s"
    and ret: "send_all_loop send buf p n s = returns (k, s')"
  shows "f s' = f s"
proof -
  have "send_all_loop w buf p n s = Some r \<Longrightarrow>
      w = send \<longrightarrow> (\<forall>k s'. r = Inr (k, s') \<longrightarrow> f s' = f s)" for w r
  proof (erule send_all_loop.raw_induct [rotated], intro impI allI, goal_cases)
    case (1 loop w buf p n s r k s')
    show ?case
    proof (cases "send s (take (nat n) (drop (nat p) buf))")
      case (Inl e)
      with 1 show ?thesis by (auto split: if_splits)
    next
      case (Inr x)
      then obtain i s1 where w: "send s (take (nat n) (drop (nat p) buf)) = Inr (i, s1)" by (cases x) auto
      have "f s' = f s1" if "loop send buf (p + i) (n - i) s1 = returns (k, s')"
        using 1(1) [OF that] by simp
      with 1 w keeps [OF w] show ?thesis by (auto split: if_splits)
    qed
  qed
  with ret show ?thesis by blast
qed

lemma send_all_keeps:
  assumes "\<And>s bs k s'. send s bs = Inr (k, s') \<Longrightarrow> f s' = f s"
    and "send_all send buf n s = returns (k, s')"
  shows "f s' = f s"
  using assms(2) send_all_loop_keeps [of send f, OF assms(1)]
  by (cases buf; cases "n = 0") (auto simp: send_all_def)

subsection \<open>Messages out\<close>

text \<open>
  Bytes went out whole, or, which happens only on a connection that is not up, a proper beginning of them.
  For a message: a beginning of its header and one of its body.
\<close>

definition went ::
    "('s \<Rightarrow> char list) \<Rightarrow> ('s \<Rightarrow> bool) \<Rightarrow> 's \<Rightarrow> 's \<Rightarrow> char list \<Rightarrow> bool \<Rightarrow> bool" where
  "went sent up s s' bs erred \<longleftrightarrow> (up s \<longrightarrow> up s' \<and> \<not> erred) \<and>
     (if erred then \<exists>j < length bs. sent s' = sent s @ take j bs else sent s' = sent s @ bs)"

definition body_of :: "hms_msg \<Rightarrow> char list" where
  "body_of m = (case content m of None \<Rightarrow> [] | Some c \<Rightarrow> c)"

definition went_msg ::
    "('s \<Rightarrow> char list) \<Rightarrow> ('s \<Rightarrow> bool) \<Rightarrow> 's \<Rightarrow> 's \<Rightarrow> hms_msg \<Rightarrow> bool \<Rightarrow> bool" where
  "went_msg sent up s s' m erred \<longleftrightarrow> (up s \<longrightarrow> up s' \<and> \<not> erred) \<and>
     (if erred then \<exists>h b. sent s' = sent s @ take h (header_text m) @ take b (body_of m)
      else sent s' = sent s @ header_text m @ body_of m)"

lemma went_went_msg:
  assumes "went sent up s s1 (header_text m) e1" "went sent up s1 s2 (body_of m) e2"
  shows "went_msg sent up s s2 m (e1 \<or> e2)"
proof -
  have part: "\<exists>i. sent s' = sent s @ take i bs" if "went sent up s s' bs e" for s s' bs e
    using that by (cases e) (fastforce simp: went_def intro: exI [of _ "length bs"])+
  from part [OF assms(1)] part [OF assms(2)] obtain i j where
    "sent s1 = sent s @ take i (header_text m)" "sent s2 = sent s1 @ take j (body_of m)" by blast
  then have "\<exists>h b. sent s2 = sent s @ take h (header_text m) @ take b (body_of m)" by auto
  then show ?thesis using assms by (auto simp: went_msg_def went_def)
qed

context sink
begin

lemma send_header_all:
  assumes "verb m = Some v" "int (length (header_text m)) < int_max"
  shows "\<exists>b. length (header_text m) \<le> length b \<and> take (length (header_text m)) b = header_text m \<and>
    send_msg_header E m s = bind_run (send_all (env_sender E) (Some b) (int (length (header_text m))) s)
      (\<lambda>(n, s). returns (n = -1, s))"
proof -
  let ?t = "header_text m" and ?b = "malloc_area (Suc (length (header_text m)))"
  have pos: "0 < length ?t" by (simp add: header_text_def)
  have b: "length ?b = Suc (length ?t)" by (simp add: malloc_area_def)
  have sz: "int (length ?t) \<le> int_max" "int_add (int (length ?t)) 1 = Inr (int (length ?t) + 1)"
    "nat (int (length ?t) + 1) = Suc (length ?t)"
    using assms(2) by (simp_all add: int_min_def)
  have p: "hms_msg_print_header (Some m) (Some ?b) (int (length ?t)) =
      Inr (?t @ drop (length ?t) ?b, 0)"
    using hms_msg_print_header_verb [OF assms(1) sz(1)] b by simp
  have "send_msg_header E m s = bind_run (send_all (env_sender E) (Some (?t @ drop (length ?t) ?b)) (int (length ?t)) s)
      (\<lambda>(n, s). returns (n = -1, s))"
    using header_size_text [OF assms(1) sz(1)] sz p pos by (simp add: send_msg_header_def)
  then show ?thesis by (intro exI [of _ "?t @ drop (length ?t) ?b"]) simp
qed

text \<open>The sender of an environment whose \<open>send\<close> is this one.\<close>

lemma env_sender_sends:
  "env_send E = wr \<Longrightarrow> env_broken E = broken \<Longrightarrow> env_sender E = sends (env_sigpipe E) broken wr"
  by (simp add: env_sender_def)

lemma send_header_out:
  assumes "env_send E = wr" "env_broken E = broken" "verb m = Some v" "int (length (header_text m)) < int_max"
  shows "env_sigpipe E = SigDefault \<and> \<not> up s \<and> send_msg_header E m s = Some (Inl Killed) \<or>
    (\<exists>erred s'. send_msg_header E m s = returns (erred, s') \<and> went sent up s s' (header_text m) erred)"
proof -
  let ?t = "header_text m"
  have pos: "0 < length ?t" by (simp add: header_text_def)
  obtain b where b: "length ?t \<le> length b" "take (length ?t) b = ?t"
    "send_msg_header E m s = bind_run (send_all (env_sender E) (Some b) (int (length ?t)) s)
      (\<lambda>(n, s). returns (n = -1, s))" using send_header_all [OF assms(3,4), of E s] by blast
  note e = b(3) [unfolded env_sender_sends [OF assms(1,2)]]
  from send_all_out [OF pos b(1), of "env_sigpipe E" s] show ?thesis
  proof (elim disjE exE conjE, goal_cases)
    case 1
    then show ?case using e by simp
  next
    case (2 k s')
    then have "went sent up s s' ?t False" using b(2) by (simp add: went_def)
    then show ?case using 2 e by auto
  next
    case (3 k s' j)
    have "take j b = take j ?t" using 3(4) b(2) by (metis min.strict_order_iff take_take)
    then have "went sent up s s' ?t True" using 3 by (auto simp: went_def)
    then show ?case using 3 e by auto
  qed
qed

lemma send_body_out:
  assumes "env_send E = wr" "env_broken E = broken" "msg_wf m"
  shows "env_sigpipe E = SigDefault \<and> \<not> up s \<and> (\<forall>nb. send_msg_body E m nb erred s = Some (Inl Killed)) \<or>
    (\<exists>e s'. (\<forall>nb. send_msg_body E m nb erred s =
      returns (if content m = None then nb \<or> erred else erred \<or> e, s')) \<and>
    went sent up s s' (body_of m) e)"
proof (cases "content m")
  case None
  then have "content_len m = 0" using assms(3) by (simp add: msg_wf_def body_wf_def)
  with None assms show ?thesis
    by (auto simp: send_msg_body_def hms_msg_get_body_size_eq went_def body_of_def intro!: exI [of _ False])
next
  case (Some c)
  then have c: "content_len m = int (length c)" "0 < length c"
    using assms(3) by (auto simp: msg_wf_def body_wf_def)
  have e: "send_msg_body E m nb erred s =
      bind_run (send_all (sends (env_sigpipe E) broken wr) (Some c) (int (length c)) s)
        (\<lambda>(n, s). returns (erred \<or> n = -1, s))" for nb
    using Some c assms env_sender_sends [OF assms(1,2)]
    by (simp add: send_msg_body_def hms_msg_get_body_size_eq hms_msg_get_body_eq)
  from send_all_out [OF c(2) order_refl, of "env_sigpipe E" s] show ?thesis
  proof (elim disjE exE conjE, goal_cases)
    case 1
    then show ?case using e by simp
  next
    case (2 k s')
    then show ?case using e Some by (intro disjI2 exI [of _ False] exI [of _ s']) (simp add: went_def body_of_def)
  next
    case (3 k s' j)
    then have "went sent up s s' (body_of m) True" using Some by (auto simp: went_def body_of_def)
    then show ?case using 3 e Some by (intro disjI2 exI [of _ True] exI [of _ s']) simp
  qed
qed

lemma send_msg_out:
  assumes "env_send E = wr" "env_broken E = broken" "verb m = Some v" "int (length (header_text m)) < int_max"
    "msg_wf m"
  shows "env_sigpipe E = SigDefault \<and> \<not> up s \<and>
      hms_endpoint_send_msg E (Some ep) (Some m) s = Some (Inl Killed) \<and>
      hms_connector_send_msg E (PObj con) (Some m) s = Some (Inl Killed) \<or>
    (\<exists>e s'. went_msg sent up s s' m e \<and>
      hms_endpoint_send_msg E (Some ep) (Some m) s = returns (if e then -1 else 0, s') \<and>
      hms_connector_send_msg E (PObj con) (Some m) s =
        returns (if e \<or> content m = None then -1 else 0, s'))"
proof -
  note unf = hms_endpoint_send_msg_def hms_connector_send_msg_def
  from send_header_out [OF assms(1-4), of s] show ?thesis
  proof (elim disjE exE conjE, goal_cases)
    case 1
    then show ?case by (simp add: unf)
  next
    case (2 e1 s1)
    from send_body_out [OF assms(1,2,5), of s1 e1] show ?case
    proof (elim disjE exE conjE, goal_cases)
      case 1
      moreover from 1 2 have "\<not> up s" by (auto simp: went_def)
      ultimately show ?case using 2 by (simp add: unf)
    next
      case b: (2 e2 s2)
      have "\<not> e2" if "content m = None"
        using b(2) that by (auto simp: went_def body_of_def)
      with 2 b went_went_msg [OF 2(2) b(2)] show ?case
        by (intro disjI2 exI [of _ "e1 \<or> e2"] exI [of _ s2]) (auto simp: unf)
    qed
  qed
qed

text \<open>Where the signal cannot end the process.\<close>

lemma send_msg_safe:
  assumes "env_send E = wr" "env_broken E = broken" "verb m = Some v" "int (length (header_text m)) < int_max"
    "msg_wf m" "env_sigpipe E = SigIgnored \<or> up s"
  shows "\<exists>e s'. went_msg sent up s s' m e \<and>
    hms_endpoint_send_msg E (Some ep) (Some m) s = returns (if e then -1 else 0, s') \<and>
    hms_connector_send_msg E (PObj con) (Some m) s =
      returns (if e \<or> content m = None then -1 else 0, s')"
  using send_msg_out [OF assms(1-5), of s ep con]
  by (rule disjE) (use assms(6) in simp, assumption)

text \<open>A broken connection ends a process that does not ignore the signal with its first send.\<close>

lemma send_msg_killed:
  assumes "env_send E = wr" "env_broken E = broken" "verb m = Some v" "int (length (header_text m)) < int_max"
    "env_sigpipe E = SigDefault" "broken s"
  shows "hms_connector_send_msg E (PObj con) (Some m) s = Some (Inl Killed)"
proof -
  have pos: "0 < length (header_text m)" by (simp add: header_text_def)
  obtain b where "length (header_text m) \<le> length b"
    "send_msg_header E m s = bind_run (send_all (env_sender E) (Some b) (int (length (header_text m))) s)
      (\<lambda>(n, s). returns (n = -1, s))" using send_header_all [OF assms(3,4), of E s] by blast
  then have "send_msg_header E m s = Some (Inl Killed)"
    using send_all_killed [OF pos _ assms(6)] env_sender_sends [OF assms(1,2)] assms(5) by simp
  then show ?thesis by (simp add: hms_connector_send_msg_def)
qed

end

subsection \<open>What the parser leaves of the connection\<close>

text \<open>What no call of \<open>read\<close> changes, the parser does not change.\<close>

definition keeps :: "('s \<Rightarrow> 'f) \<Rightarrow> 's \<Rightarrow> ('x \<times> 's) res \<Rightarrow> bool" where
  "keeps f s r \<longleftrightarrow> (\<forall>x s'. r = Inr (x, s') \<longrightarrow> f s' = f s)"

lemma keeps_simps [simp]: "keeps f s (Inl e)" "keeps f s (Inr (x, s')) \<longleftrightarrow> f s' = f s"
  by (auto simp: keeps_def)

lemma keeps_pure: "(\<And>x. keeps f s (g x)) \<Longrightarrow> keeps f s (bind_res r g)"
  by (cases r) simp_all

lemma keeps_bind:
  "keeps f s r \<Longrightarrow> (\<And>x s'. f s' = f s \<Longrightarrow> keeps f s (g (x, s'))) \<Longrightarrow> keeps f s (bind_res r g)"
proof (cases r)
  case (Inr z)
  assume "keeps f s r" "\<And>x s'. f s' = f s \<Longrightarrow> keeps f s (g (x, s'))"
  with Inr show ?thesis by (cases z) (simp only: bind_res_simps keeps_simps)
qed simp

lemma keeps_eq: "keeps f s' r \<Longrightarrow> f s' = f s \<Longrightarrow> keeps f s r"
  by (simp add: keeps_def)

lemma read_header_loop_keeps:
  assumes rd: "\<And>s n k bs s'. rd s n = (k, bs, s') \<Longrightarrow> f s' = f s"
  shows "keeps f s (read_header_loop rd n buf h seen d s)"
proof (induction "n - h" arbitrary: buf h seen d s rule: less_induct)
  case less
  obtain k bs s' where r: "rd s 1 = (k, bs, s')" by (cases "rd s 1")
  have IH: "keeps f s (read_header_loop rd n b (Suc h) x y s')"
    if "h < n" for b :: "char list" and x y
    using that by (intro keeps_eq [OF less.hyps rd [OF r]]) simp
  show ?case
    using r rd [OF r]
    by (subst read_header_loop.simps) (auto simp: Let_def intro!: keeps_pure IH)
qed

lemma read_body_loop_keeps:
  assumes rd: "\<And>s n k bs s'. rd s n = (k, bs, s') \<Longrightarrow> f s' = f s"
  shows "f (snd (read_body_loop rd n i buf s)) = f s"
proof (induction "nat (n - i)" arbitrary: i buf s rule: less_induct)
  case less
  obtain k bs s' where r: "rd s (nat (n - i)) = (k, bs, s')" by (cases "rd s (nat (n - i))")
  show ?case
    using r rd [OF r] less [of "i + k" "buf @ bs" s']
    by (subst read_body_loop.simps) auto
qed

lemma parse_keeps:
  assumes rd: "\<And>s n k bs s'. rd s n = (k, bs, s') \<Longrightarrow> f s' = f s"
  shows "keeps f s (hms_msg_parse ck rd n s)"
proof -
  have hdr: "keeps f s (hms_parse_read_header rd p m s)" for p m s
    unfolding hms_parse_read_header_def
    by (intro keeps_pure keeps_bind [OF read_header_loop_keeps [of rd f, OF rd]])
      (auto intro!: keeps_pure)
  have body: "keeps f s (hms_parse_read_body ck rd m len s)" for m len s
    using read_body_loop_keeps [of rd f len 0 "[]" s, OF rd]
    unfolding hms_parse_read_body_def
    by (auto simp: Let_def split: prod.splits intro!: keeps_pure)
  have hdr': "f s' = f s" if "hms_parse_read_header rd p m s = Inr (x, s')" for p m s x s'
    using hdr [of s p m] that by simp
  have body': "f s' = f s" if "hms_parse_read_body ck rd m len s = Inr (x, s')" for m len s x s'
    using body [of s m len] that by simp
  show ?thesis
    unfolding keeps_def hms_msg_parse_def
    by (auto simp: res_iff split: if_splits dest!: hdr' body')
qed

text \<open>A message is a beginning of what is pending, and not empty.\<close>

lemma read_header_loop_eats:
  "read_header_loop list_read n buf h seen d s = Inr ((b, h', d', fin), t) \<Longrightarrow>
   \<exists>u. s = u @ t \<and> h' = h + length u"
proof (induction "n - h" arbitrary: buf h seen d s rule: less_induct)
  case less
  show ?case
  proof (cases "h < n \<and> s \<noteq> []")
    case True
    then obtain c s' where s: "s = c # s'" by (cases s) auto
    have IH: "\<exists>u. s = u @ t \<and> h' = h + length u"
      if "read_header_loop list_read n x (Suc h) y z s' = Inr ((b, h', d', fin), t)" for x y z
    proof -
      have "n - Suc h < n - h" using True by (intro diff_less_mono2) simp_all
      from less.hyps [OF this] that obtain u where "s' = u @ t" "h' = Suc h + length u"
        by blast
      then show ?thesis by (intro exI [of _ "c # u"]) (simp add: s)
    qed
    from less.prems True s show ?thesis
      by (subst (asm) read_header_loop.simps)
        (auto simp: list_read_def Let_def res_iff dest: IH split: if_splits)
  next
    case False
    with less.prems show ?thesis
      by (subst (asm) read_header_loop.simps) (auto simp: list_read_def split: if_splits)
  qed
qed

lemma read_body_eats:
  "hms_parse_read_body ck list_read m n s = Inr (r, t) \<Longrightarrow> \<exists>u. s = u @ t"
proof -
  have loop: "\<exists>u. s = u @ snd (read_body_loop list_read n i buf s)" for i buf s
  proof (induction "nat (n - i)" arbitrary: i buf s rule: less_induct)
    case less
    let ?k = "min (nat (n - i)) (length s)" and ?t = "drop (nat (n - i)) s"
    have "\<exists>u. ?t = u @ snd (read_body_loop list_read n (i + int ?k) (buf @ take (nat (n - i)) s) ?t)"
      if "i < n" "s \<noteq> []" using less that by auto
    then have "\<exists>u. s = u @ snd (read_body_loop list_read n (i + int ?k) (buf @ take (nat (n - i)) s) ?t)"
      if "i < n" "s \<noteq> []" using that by (metis append.assoc append_take_drop_id)
    then show ?case
      by (subst read_body_loop.simps) (auto simp: list_read_def)
  qed
  assume "hms_parse_read_body ck list_read m n s = Inr (r, t)"
  moreover obtain b k fl t' where "read_body_loop list_read n 0 [] s = ((b, k, fl), t')"
    by (metis prod.collapse)
  ultimately show ?thesis
    using loop [of s 0 "[]"] by (auto simp: hms_parse_read_body_def Let_def res_iff split: if_splits)
qed

lemma parse_eats:
  assumes "hms_msg_parse ck list_read n s = Inr (Some m, t)"
  shows "strict_suffix t s"
proof -
  have hdr: "suffix t s \<and> (2 < k \<longrightarrow> strict_suffix t s)"
    if "hms_parse_read_header list_read p n s = Inr ((b, k), t)" for p b k t
    using that
    by (auto simp: hms_parse_read_header_def res_iff strict_suffix_def suffix_def split: if_splits
        dest!: read_header_loop_eats)
  have body: "suffix t s"
    if "hms_parse_read_body ck list_read m n s = Inr (r, t)" for m n s r t
    using read_body_eats [OF that] by (auto simp: suffix_def)
  from assms show ?thesis
    by (auto simp: hms_msg_parse_def res_iff split: if_splits dest!: hdr body
        intro: suffix_order.le_less_trans)
qed

text \<open>What no call of \<open>send\<close> changes, sending a message does not change.\<close>

lemma send_msg_keeps:
  assumes wr: "\<And>s bs k s'. env_send E s bs = (k, s') \<Longrightarrow> f s' = f s"
    and "hms_endpoint_send_msg E p m s = returns (r, s')"
  shows "f s' = f s"
proof -
  have "env_sender E s bs = Inr (k, s') \<Longrightarrow> f s' = f s" for s bs k s'
    by (auto simp: env_sender_def sends_def split: if_splits intro: wr)
  then have k: "send_all (env_sender E) b n s = returns (r, s') \<Longrightarrow> f s' = f s" for b n s r s'
    by (rule send_all_keeps [where f = f])
  have h: "send_msg_header E m s = returns (e, s') \<Longrightarrow> f s' = f s" for m s e s'
    by (auto simp: send_msg_header_def res_iff split: if_splits dest!: k)
  have b: "send_msg_body E m nb e s = returns (e', s') \<Longrightarrow> f s' = f s" for m s nb e e' s'
    by (auto simp: send_msg_body_def res_iff split: if_splits dest!: k)
  from assms(2) show ?thesis
    by (auto simp: hms_endpoint_send_msg_def res_iff dest!: h b)
qed

subsection \<open>Receiving a fixed number of bytes\<close>

context socket
begin

text \<open>\<open>__recv_all\<close> reads exactly the bytes asked for, if they arrive.\<close>

lemma recv_loop:
  assumes "0 < n" "length got + n \<le> cap" "n \<le> length (pending s)"
  shows "\<exists>s'. recv_all_loop rd cap (int n) got s =
      returns ((int (length got + n), got @ take n (pending s)), s') \<and> pending s' = drop n (pending s)"
  using assms
proof (induction n arbitrary: got s rule: less_induct)
  case (less n)
  obtain k bs s1 where rd: "rd s n = (k, bs, s1)" by (cases "rd s n")
  have k: "0 < k" using rd_end [OF rd] less.prems by (cases "0 < k") auto
  from rd_data [OF rd k] have d: "k = int (length bs)" "length bs \<le> n" "pending s = bs @ pending s1" by auto
  show ?case
  proof (cases "length bs = n")
    case True
    then show ?thesis using rd k d less.prems by (subst recv_all_loop.simps) (auto simp: numeral_2_eq_2)
  next
    case False
    then have "n - length bs < n" "0 < n - length bs" "length (got @ bs) + (n - length bs) \<le> cap"
      "n - length bs \<le> length (pending s1)"
      using k d less.prems by auto
    from less.IH [OF this] obtain s' where
      s': "recv_all_loop rd cap (int (n - length bs)) (got @ bs) s1 =
        returns ((int (length got + n), got @ bs @ take (n - length bs) (pending s1)), s')"
      "pending s' = drop (n - length bs) (pending s1)"
      using d(2) by auto
    have "recv_all_loop rd cap (int n) got s = recv_all_loop rd cap (int n - k) (got @ bs) s1"
      using rd k d False less.prems by (subst recv_all_loop.simps) auto
    also have "int n - k = int (n - length bs)" using d by simp
    finally show ?thesis using s' d by (simp add: take_append drop_append)
  qed
qed

lemma recv_all_exact:
  assumes "0 < n" "n \<le> cap" "n \<le> length (pending s)"
  shows "\<exists>s'. recv_all rd (Some cap) (int n) s = returns ((int n, take n (pending s)), s') \<and>
    pending s' = drop n (pending s)"
  using recv_loop [of n "[]" cap s] assms by (simp add: recv_all_def)

end

subsection \<open>Properties\<close>

text \<open>A scripted socket on which nothing breaks kills nobody.\<close>

lemma send_all_not_killed:
  assumes "WPipe \<notin> set (fst s)"
  shows "send_all (sends sigpipe sock_broken sock_write) (Some buf) n s \<noteq> Some (Inl Killed)"
proof -
  have "send_all_loop w buf p n s = Some r \<Longrightarrow>
      w = sends sigpipe sock_broken sock_write \<longrightarrow> WPipe \<notin> set (fst s) \<longrightarrow> r \<noteq> Inl Killed" for w p r
  proof (erule send_all_loop.raw_induct [rotated], intro impI, goal_cases)
    case (1 loop w buf p n s r)
    obtain k s1 where w: "sock_write s (take (nat n) (drop (nat p) buf)) = (k, s1)"
      by (cases "sock_write s (take (nat n) (drop (nat p) buf))")
    then have s1: "WPipe \<notin> set (fst s1)"
      using 1(4) by (cases "(s, take (nat n) (drop (nat p) buf))" rule: sock_write.cases) auto
    have snd: "sends sigpipe sock_broken sock_write s (take (nat n) (drop (nat p) buf)) = Inr (k, s1)"
      using 1(4) w by (auto simp: sends_def sock_broken_def split: list.splits wr_event.splits)
    show ?case
    proof (cases "n < 0 \<or> int (length buf) < p + n")
      case True
      with 1(2) show ?thesis by auto
    next
      case False
      with 1(2,3) snd 1(1) [of w buf "p + k" "n - k" s1] s1 show ?thesis by (auto split: if_splits)
    qed
  qed
  then show ?thesis using assms by (cases "n = 0") (auto simp: send_all_def)
qed

text \<open>
  C17: \<open>__send_all\<close> hides short sends: on a buffer of at least \<open>n > 0\<close> bytes, however few bytes each call
  of \<open>send\<close> takes, the loop ends; it returns \<open>n\<close> after handing over exactly the first \<open>n\<close> bytes in order, or
  -1 after a call of \<open>send\<close> failed, with a proper beginning of them handed over. Only in a process that does not
  ignore SIGPIPE can a broken connection end the process instead.
\<close>
theorem send_all_exact:
  assumes "0 < n" "n \<le> length buf"
  shows "sigpipe = SigDefault \<and> WPipe \<in> set (fst s) \<and>
      send_all (sends sigpipe sock_broken sock_write) (Some buf) (int n) s = Some (Inl Killed) \<or>
    (\<exists>k s'. send_all (sends sigpipe sock_broken sock_write) (Some buf) (int n) s = returns (k, s') \<and>
      (k = int n \<and> sock_sent s' = sock_sent s @ take n buf \<or>
       k = -1 \<and> (WErr \<in> set (fst s) \<or> WPipe \<in> set (fst s)) \<and>
         (\<exists>j < n. sock_sent s' = sock_sent s @ take j buf)))"
proof -
  have "send_all (sends sigpipe sock_broken sock_write) (Some buf) (int n) s \<noteq> Some (Inl Killed)"
    if "WPipe \<notin> set (fst s)"
    using send_all_not_killed [OF that] .
  with out.send_all_out [OF assms, of sigpipe s] show ?thesis by (auto simp: sock_up_def)
qed

theorem send_all_exact_witness:
  "\<exists>k s'. send_all (sends SigDefault sock_broken sock_write) (Some ''PING..'') 4
      ([WTake 1, WTake 0, WTake 9], ''x'') = returns (k, s') \<and>
    k = 4 \<and> sock_sent s' = ''xPING''"
  using send_all_exact [of 4 "''PING..''" SigDefault "([WTake 1, WTake 0, WTake 9], ''x'')"]
  by (auto simp: sock_sent_def)

text \<open>
  C18: Sending a well-formed message with a verb returns on every connection whose \<open>send\<close> takes bytes or fails,
  and changes nothing of what arrives, except that a process that leaves SIGPIPE at its default is ended on a
  connection that is not up. On a connection that is up, header and body go out whole and in
  order; otherwise a beginning of the header may be followed by a beginning of the body.
  \<open>hms_endpoint_send_msg\<close> returns 0 exactly if all went out. \<open>hms_connector_send_msg\<close> does the same sends,
  but returns -1 also for every message without a body, all of which went out.
\<close>
theorem send_msg_exact:
  assumes "msg_wf m" "verb m = Some v" "int (length (header_text m)) < int_max" "E = conn_env \<or> E = bare_env"
  shows "E = bare_env \<and> \<not> conn_up c \<and>
      hms_endpoint_send_msg E (Some ep) (Some m) c = Some (Inl Killed) \<and>
      hms_connector_send_msg E (PObj con) (Some m) c = Some (Inl Killed) \<or>
    (\<exists>e c'. went_msg conn_sent conn_up c c' m e \<and> arrives c' = arrives c \<and>
      hms_endpoint_send_msg E (Some ep) (Some m) c = returns (if e then -1 else 0, c') \<and>
      hms_connector_send_msg E (PObj con) (Some m) c =
        returns (if e \<or> content m = None then -1 else 0, c'))"
proof -
  have k: "arrives c' = arrives c" if "hms_endpoint_send_msg E (Some ep) (Some m) c = returns (r, c')" for r c'
    by (rule send_msg_keeps [OF _ that]) (use assms(4) in \<open>auto simp: bare_env_def conn_env_def split: prod.splits\<close>)
  have "E = bare_env \<and> \<not> conn_up c \<and>
      hms_endpoint_send_msg E (Some ep) (Some m) c = Some (Inl Killed) \<and>
      hms_connector_send_msg E (PObj con) (Some m) c = Some (Inl Killed) \<or>
    (\<exists>e c'. went_msg conn_sent conn_up c c' m e \<and>
      hms_endpoint_send_msg E (Some ep) (Some m) c = returns (if e then -1 else 0, c') \<and>
      hms_connector_send_msg E (PObj con) (Some m) c =
        returns (if e \<or> content m = None then -1 else 0, c'))"
    using assms(4)
  proof
    assume E: "E = conn_env"
    show ?thesis unfolding E by (rule disjI2, rule net.send_msg_safe [OF refl refl assms(2,3,1)]) simp
  next
    assume E: "E = bare_env"
    from bare.send_msg_out [OF refl refl assms(2,3,1), of c ep con] show ?thesis unfolding E conn_sigpipe
      by (rule disjE) (simp, rule disjI2)
  qed
  then show ?thesis
  proof (elim disjE exE conjE, goal_cases)
    case 1
    then show ?case by simp
  next
    case (2 e c')
    with k [OF 2(2)] show ?case by (intro disjI2 exI [of _ e] exI [of _ c'] conjI)
  qed
qed

theorem send_msg_exact_witness:
  "\<exists>c'. hms_connector_send_msg conn_env (PObj \<lparr>conn_socket = 3, conn_start = (0, 0), conn_status = 0\<rparr>)
      (Some (hms_msg_create\<lparr>verb := Some ''PING''\<rparr>))
      \<lparr>arrives = [], leaves = ([WTake 3], []), clock = []\<rparr> = returns (-1, c') \<and>
    conn_sent c' = ''PING'' @ [NL, CHR ''.'', NL]"
proof -
  let ?m = "hms_msg_create\<lparr>verb := Some ''PING''\<rparr>"
  have wf: "msg_wf ?m" by (simp add: msg_wf_def hdr_wf_def body_wf_def named_wf_def hms_msg_create_def)
  have v: "verb ?m = Some ''PING''" by simp
  have t: "header_text ?m = ''PING'' @ [NL, CHR ''.'', NL]" "body_of ?m = []" "content ?m = None"
    by (simp_all add: header_text_def body_of_def hms_msg_create_def)
  have l: "int (length (header_text ?m)) < int_max" by (simp add: t int_max_def)
  show ?thesis
    using send_msg_exact [OF wf v l, of conn_env "\<lparr>arrives = [], leaves = ([WTake 3], []), clock = []\<rparr>" undefined
        "\<lparr>conn_socket = 3, conn_start = (0, 0), conn_status = 0\<rparr>"] t
    by (auto simp: went_msg_def sock_up_def sock_sent_def dest: arg_cong [where f = env_sigpipe])
qed

text \<open>
  When \<open>connect\<close> fails, \<open>hms_connector_init\<close> returns -1 cast to a pointer: the caller's test for NULL does
  not see it, and every operation on the result passes its own NULL assertion and is undefined.
\<close>
theorem connect_failure_pointer:
  assumes "port \<noteq> 0" "net_host N host = Some addr" "net_socket N \<noteq> -1"
    "net_connect N (net_socket N) addr (nat (port mod 2 ^ 16)) = -1"
  shows "\<exists>p. hms_connector_init N (Some host) port = Inr p \<and> p \<noteq> PNull \<and>
    hms_connector_send_msg E p msg s = Some (Inl Undefined) \<and>
    hms_connector_recv_msg ck E p s = Inl Undefined \<and>
    hms_connector_destroy p = Inl Undefined"
  using assms
  by (simp add: hms_connector_init_def hms_connector_send_msg_def hms_connector_recv_msg_def
      hms_connector_destroy_def Let_def)

theorem connect_failure_pointer_witness:
  "\<exists>p. hms_connector_init \<lparr>net_host = (\<lambda>h. Some h), net_socket = 3, net_connect = (\<lambda>fd a p. -1),
      net_setsockopt = (\<lambda>fd. 0), net_now = (0, 0)\<rparr> (Some ''localhost'') 8080 = Inr p \<and> p \<noteq> PNull \<and>
    hms_connector_send_msg conn_env p None \<lparr>arrives = [], leaves = ([], []), clock = []\<rparr> =
      Some (Inl Undefined)"
  using connect_failure_pointer [of 8080 "\<lparr>net_host = (\<lambda>h. Some h), net_socket = 3,
      net_connect = (\<lambda>fd a p. -1), net_setsockopt = (\<lambda>fd. 0), net_now = (0, 0)\<rparr>" "''localhost''"
      "''localhost''" conn_env None "\<lparr>arrives = [], leaves = ([], []), clock = []\<rparr>" False]
  by auto

end
