(* ===== verification/Hermes_Correct.thy ===== *)
theory Hermes_Correct
  imports Hermes_Send
begin

section \<open>Correctness of the default server\<close>

subsection \<open>Replies\<close>

text \<open>The message the default handler answers with, if any, and whether it wants to go on.\<close>

definition reply_to :: "string option \<Rightarrow> string \<Rightarrow> hms_msg option" where
  "reply_to v time =
     (case v of
        None \<Rightarrow> Some (hms_msg_create\<lparr>verb := Some ''ERROR''\<rparr>)
      | Some v \<Rightarrow>
          if lower v = ''ping'' then Some (hms_msg_create\<lparr>verb := Some ''PONG''\<rparr>)
          else if lower v = ''info'' then
            Some (hms_msg_create\<lparr>verb := Some ''INFO'', num_named_headers := 1,
              named_headers := [\<lparr>nh_key = ''Localtime'', nh_val = time\<rparr>]\<rparr>)
          else None)"

definition goes_on :: "string option \<Rightarrow> bool" where
  "goes_on v \<longleftrightarrow> (case v of None \<Rightarrow> False | Some v \<Rightarrow> lower v = ''ping'' \<or> lower v = ''info'')"

lemma lower_verbs:
  "lower ''PING'' = ''ping''" "lower ''INFO'' = ''info''" "lower ''BYE'' = ''bye''"
  by code_simp+

definition next_time :: "'s env \<Rightarrow> string option \<Rightarrow> 's \<Rightarrow> string \<times> 's" where
  "next_time E v s = (if map_option lower v = Some ''info'' then env_time E s else ([], s))"

lemma reply_destroyed: "reply_to v t = Some m \<Longrightarrow> hdr_wf m"
  by (auto simp: reply_to_def hdr_wf_def named_wf_def hms_msg_create_def split: option.splits if_splits)

lemma reply_wf: "reply_to v t = Some m \<Longrightarrow> msg_wf m"
proof -
  assume r: "reply_to v t = Some m"
  have "find_named HMS_CONTENT_LENGTH [\<lparr>nh_key = ''Localtime'', nh_val = t\<rparr>] = None" for t
    by (simp add: HMS_CONTENT_LENGTH_def lower_def)
  with r have "content m = None" "content_len m = 0" "find_named HMS_CONTENT_LENGTH (named_headers m) = None"
    by (auto simp: reply_to_def hms_msg_create_def split: option.splits if_splits)
  with reply_destroyed [OF r] show ?thesis by (simp add: msg_wf_def body_wf_def)
qed

lemma reply_text:
  assumes "reply_to v t = Some m"
  shows "\<exists>w. verb m = Some w" "length (header_text m) \<le> 20 + length t" "body_of m = []"
  using assms
  by (auto simp: reply_to_def hms_msg_create_def header_text_def body_of_def split: option.splits if_splits)

lemma default_handle_eq:
  "hms_default_handle E ep m s =
     (let (t, s1) = next_time E (verb m) s in
      case reply_to (verb m) t of
        None \<Rightarrow> returns (-1, m, s1)
      | Some reply \<Rightarrow>
          bind_run (hms_endpoint_send_msg E (Some ep) (Some reply) s1) (\<lambda>(_, s2).
          returns (if goes_on (verb m) then 0 else -1, m, s2)))"
proof -
  have d: "hms_msg_destroy (Some hms_msg_create) = Inr 0"
    "hms_msg_destroy (Some (hms_msg_create\<lparr>verb := v\<rparr>)) = Inr 0" for v
    by (rule hms_msg_destroy_wf, simp add: hdr_wf_def named_wf_def hms_msg_create_def)+
  have add: "hms_msg_add_named_header (Some (hms_msg_create\<lparr>verb := v\<rparr>)) (Some ''Localtime'') (Some t) =
      Inr (hms_msg_create\<lparr>verb := v, num_named_headers := 1,
        named_headers := [\<lparr>nh_key = ''Localtime'', nh_val = t\<rparr>]\<rparr>, 0)" for v t
    by (simp add: hms_msg_add_named_header_res put_named_def hms_msg_create_def int_min_def int_max_def)
  have d': "hms_msg_destroy (Some (hms_msg_create\<lparr>verb := v, num_named_headers := 1,
        named_headers := [\<lparr>nh_key = k, nh_val = t\<rparr>]\<rparr>)) = Inr 0" for v k t
    by (rule hms_msg_destroy_wf) (simp add: hdr_wf_def named_wf_def hms_msg_create_def)
  show ?thesis
    by (auto simp: hms_default_handle_def hms_msg_get_verb_def reply_to_def goes_on_def next_time_def
        hms_msg_set_verb_eq add d d' lower_verbs bind_run_def
        split: option.splits Option.bind_splits sum.splits prod.splits)
qed


definition reply_bytes :: "string option \<Rightarrow> string \<Rightarrow> char list" where
  "reply_bytes v time = (case reply_to v time of None \<Rightarrow> [] | Some m \<Rightarrow> header_text m)"

context connection
begin

lemma default_handle_out:
  assumes keeps: "\<And>s bs. f (snd (env_send E s bs)) = f s" and ignored: "env_sigpipe E = SigIgnored"
  shows "\<exists>s'. hms_default_handle E ep m s = returns (if goes_on (verb m) then 0 else -1, m, s') \<and>
     pending s' = pending s \<and> f s' = f (snd (next_time E (verb m) s)) \<and>
     (up s \<longrightarrow> up s' \<and> sent s' = sent s @ reply_bytes (verb m) (fst (next_time E (verb m) s)))"
proof -
  obtain t s1 where t: "next_time E (verb m) s = (t, s1)" by force
  have n: "pending s1 = pending s" "sent s1 = sent s" "up s1 = up s" "length t \<le> 29"
    using t time_keeps [of s] time_line [of s] by (auto simp: next_time_def split: if_splits)
  show ?thesis
  proof (cases "reply_to (verb m) t")
    case None
    then have "\<not> goes_on (verb m)" by (auto simp: reply_to_def goes_on_def split: option.splits if_splits)
    with None t n show ?thesis by (simp add: default_handle_eq reply_bytes_def)
  next
    case (Some reply)
    note r = reply_text [OF Some] reply_wf [OF Some]
    obtain v where v: "verb reply = Some v" using r(1) by blast
    have "int (length (header_text reply)) < int_max" using r(2) n(4) by (simp add: int_max_def)
    from send_msg_safe [OF refl refl v this r(4), of s1 ep] ignored obtain e s2 where
      w: "went_msg sent up s1 s2 reply e" and
      s: "hms_endpoint_send_msg E (Some ep) (Some reply) s1 = returns (if e then -1 else 0, s2)" by blast
    have "pending s2 = pending s1" by (rule send_msg_keeps [OF send_keeps s])
    moreover have "f s2 = f s1" by (rule send_msg_keeps [OF _ s]) (metis keeps snd_conv)
    ultimately show ?thesis using Some t n w s r(3)
      by (auto simp: default_handle_eq reply_bytes_def went_msg_def)
  qed
qed

lemma default_handle_returns:
  assumes "env_sigpipe E = SigIgnored"
  shows "\<exists>s'. hms_default_handle E ep m s = returns (if goes_on (verb m) then 0 else -1, m, s') \<and>
     pending s' = pending s"
proof -
  have "pending (snd (env_send E s bs)) = pending s" for s bs
    by (metis prod.collapse send_keeps)
  from default_handle_out [of pending, OF this assms] show ?thesis by blast
qed

lemma recv_msg_cases:
  "(\<exists>e. hms_endpoint_recv_msg ck E (Some ep) s = Inl e \<and> fatal_length 1024 (pending s)) \<or>
   (\<exists>s'. hms_endpoint_recv_msg ck E (Some ep) s = Inr ((None, -1), s') \<and> sent s' = sent s) \<or>
   (\<exists>m s'. hms_endpoint_recv_msg ck E (Some ep) s = Inr ((Some m, 0), s') \<and> hdr_wf m \<and>
      strict_suffix (pending s') (pending s) \<and> sent s' = sent s \<and> up s' = up s)"
proof -
  have n: "HERMES_MAX_HDR_SIZE = int 1024" "(0::nat) < 1024" "int 1024 < int_max"
    by (simp_all add: HERMES_MAX_HDR_SIZE_def int_max_def)
  note same = parse_same [where ck = ck and max_hdr_len = "int 1024" and s = s]
  note cases = parse_cases [OF n(2,3), where ck = ck and s = "pending s"]
  have keeps: "keeps (\<lambda>s. (sent s, up s)) s (hms_msg_parse ck (env_read E) (int 1024) s)"
    by (rule parse_keeps) (simp add: read_keeps)
  show ?thesis
  proof (cases "hms_msg_parse ck (env_read E) (int 1024) s")
    case (Inl e)
    with same cases show ?thesis
      by (simp add: hms_endpoint_recv_msg_def n(1) fatal_length_def same_run_def)
  next
    case (Inr z)
    then obtain m s' where p: "hms_msg_parse ck (env_read E) (int 1024) s = Inr (m, s')" by (cases z) simp
    with keeps have k: "sent s' = sent s" "up s' = up s" by simp_all
    from same p obtain t where q: "hms_msg_parse ck list_read (int 1024) (pending s) = Inr (m, t)"
      "m \<noteq> None \<Longrightarrow> t = pending s'" by (auto simp: same_run_def)
    show ?thesis
    proof (cases m)
      case None
      with p k show ?thesis by (simp add: hms_endpoint_recv_msg_def n(1))
    next
      case (Some x)
      with q cases have "hdr_wf x" "strict_suffix (pending s') (pending s)"
        using parse_eats [of ck "int 1024" "pending s" x t] by (auto simp: msg_wf_def)
      with Some p k show ?thesis by (simp add: hms_endpoint_recv_msg_def n(1))
    qed
  qed
qed

end

subsection \<open>Receiving\<close>

text \<open>The messages the wire can carry to a server.\<close>

definition wire_ok :: "bool \<Rightarrow> hms_msg \<Rightarrow> bool" where
  "wire_ok ck m \<longleftrightarrow> header_ok m \<and> body_wf m \<and> checksum_ok ck m \<and> content_len m < int_max \<and>
     length (header_text m) \<le> 1024"

lemma max_hdr: "HERMES_MAX_HDR_SIZE = int 1024" "int 1024 < int_max"
  by (simp_all add: HERMES_MAX_HDR_SIZE_def int_max_def)

text \<open>
  Receiving a message that was sent, or at the end of what arrives, for any part \<open>f\<close> of the state that \<open>read\<close>
  does not change.
\<close>

context connection
begin

lemma recv_parsed:
  assumes keeps: "\<And>s n k bs s'. env_read E s n = (k, bs, s') \<Longrightarrow> f s' = f s"
    and "hms_msg_parse ck list_read (int 1024) (pending s) = Inr (m, t)"
  shows "\<exists>s'. hms_endpoint_recv_msg ck E (Some ep) s = Inr ((m, if m = None then -1 else 0), s') \<and>
    (m \<noteq> None \<longrightarrow> pending s' = t) \<and> f s' = f s"
proof -
  have "keeps f s (hms_msg_parse ck (env_read E) (int 1024) s)"
    by (rule parse_keeps) (rule keeps)
  with parse_same [of ck "int 1024" s] assms(2) show ?thesis
    by (auto simp: same_run_def hms_endpoint_recv_msg_def max_hdr(1) split: sum.splits)
qed

lemma recv_end:
  assumes keeps: "\<And>s n k bs s'. env_read E s n = (k, bs, s') \<Longrightarrow> f s' = f s" and "pending s = []"
  shows "\<exists>s'. hms_endpoint_recv_msg ck E (Some ep) s = Inr ((None, -1), s') \<and> f s' = f s"
proof -
  obtain t where "hms_msg_parse ck list_read (int 1024) [] = Inr (None, t)"
    using parse_unfinished [of "[]" "[]" 1024 "[]" ck] max_hdr(2) by (auto simp: plain_def)
  with recv_parsed [of f ck s None t ep] keeps assms(2) show ?thesis by auto
qed

lemma recv_wire:
  assumes keeps: "\<And>s n k bs s'. env_read E s n = (k, bs, s') \<Longrightarrow> f s' = f s"
    and "wire_ok ck m" "pending s = msg_bytes m @ rest"
  shows "\<exists>s'. hms_endpoint_recv_msg ck E (Some ep) s = Inr ((Some (received ck m), 0), s') \<and>
    pending s' = rest \<and> f s' = f s"
proof -
  have "hms_msg_parse ck list_read (int 1024) (pending s) = Inr (Some (received ck m), rest)"
    using assms(2,3) parse_msg_bytes [of m ck 1024 rest] max_hdr(2) by (simp add: wire_ok_def)
  with recv_parsed [of f ck s "Some (received ck m)" rest ep] keeps show ?thesis by auto
qed

end

subsection \<open>Applications\<close>

text \<open>
  What the loop needs of the functions of an application: they return, they leave a message that can be
  destroyed, and they take bytes only from the front of what is pending. The process ignores SIGPIPE.
\<close>

definition op_ok :: "('s \<Rightarrow> char list) \<Rightarrow> 's hms_op option \<Rightarrow> bool" where
  "op_ok pending f \<longleftrightarrow> (\<forall>ep m s. hdr_wf m \<longrightarrow>
     (\<exists>r m' s'. call_op f ep m s = returns (r, m', s') \<and> hdr_wf m' \<and> suffix (pending s') (pending s)))"

locale server = connection E pending sent up
  for E :: "'s env" and pending :: "'s \<Rightarrow> char list" and sent :: "'s \<Rightarrow> char list"
    and up :: "'s \<Rightarrow> bool" +
  fixes ops :: "'s hms_ops"
  assumes validate_ok: "hms_validate ops = None \<or> op_ok pending (hms_validate ops)"
    and accepts_ok: "op_ok pending (hms_accepts ops)"
    and handle_ok: "op_ok pending (hms_handle ops)"
    and ignored: "env_sigpipe E = SigIgnored"
begin

lemma handle_msg_returns:
  assumes "ep_ops ep = ops" "hdr_wf m"
  shows "\<exists>r m' s'. handle_msg E ep st m s = returns (r, m', s') \<and> hdr_wf m' \<and>
    suffix (pending s') (pending s)"
proof -
  let ?b = "endpoint_base.truncate ep"
  have call: "\<exists>r m' s'. call_op f ?b m s = returns (r, m', s') \<and> hdr_wf m' \<and>
      suffix (pending s') (pending s)" if "op_ok pending f" "hdr_wf m" for f m s
    using that by (simp add: op_ok_def)
  obtain r1 m1 s1 where v: "(if hms_validate ops = None then returns (0, m, s)
      else call_op (hms_validate ops) ?b m s) = returns (r1, m1, s1)" "hdr_wf m1"
      "suffix (pending s1) (pending s)"
    using validate_ok call [OF _ assms(2), of "hms_validate ops" s] assms(2)
    by (cases "hms_validate ops = None") auto
  obtain r2 m2 s2 where a: "call_op (hms_accepts ops) ?b m1 s1 = returns (r2, m2, s2)" "hdr_wf m2"
      "suffix (pending s2) (pending s1)"
    using call [OF accepts_ok v(2)] by blast
  obtain r3 m3 s3 where h: "call_op (hms_handle ops) ?b m2 s2 = returns (r3, m3, s3)" "hdr_wf m3"
      "suffix (pending s3) (pending s2)"
    using call [OF handle_ok a(2)] by blast
  obtain r4 s4 where d: "hms_default_handle E ?b m2 s2 = returns (r4, m2, s4)" "pending s4 = pending s2"
    using default_handle_returns [OF ignored, of ?b m2 s2] by blast
  show ?thesis
    using v a h d by (auto simp: handle_msg_def assms(1) Let_def intro: suffix_order.trans)
qed

lemma loop_returns:
  assumes "ep_ops ep = ops"
  shows "\<exists>r. handle_endpoint_loop ck E ep st s = Some r \<and>
    (\<forall>e. r = Inl e \<longrightarrow> (\<exists>t. suffix t (pending s) \<and> fatal_length 1024 t))"
proof (induction "length (pending s)" arbitrary: st s rule: less_induct)
  case less
  let ?b = "endpoint_base.truncate ep"
  consider (stop) e where "hms_endpoint_recv_msg ck E (Some ?b) s = Inl e" "fatal_length 1024 (pending s)"
    | (none) s' where "hms_endpoint_recv_msg ck E (Some ?b) s = Inr ((None, -1), s')"
    | (msg) m s' where "hms_endpoint_recv_msg ck E (Some ?b) s = Inr ((Some m, 0), s')" "hdr_wf m"
        "strict_suffix (pending s') (pending s)"
    using recv_msg_cases [of ck ?b s] by blast
  then show ?case
  proof cases
    case stop
    then show ?thesis by (subst handle_endpoint_loop.simps) auto
  next
    case none
    then show ?thesis by (subst handle_endpoint_loop.simps) simp
  next
    case msg
    obtain r m' s2 where h: "handle_msg E ep st m s' = returns (r, m', s2)" "hdr_wf m'"
      "suffix (pending s2) (pending s')"
      using handle_msg_returns [OF assms msg(2)] by blast
    have suf: "strict_suffix (pending s2) (pending s)"
      using h(3) msg(3) by (rule suffix_order.le_less_trans)
    then have "length (pending s2) < length (pending s)"
      by (auto simp: strict_suffix_def suffix_def)
    from less [OF this, of r] suf obtain x where
      "handle_endpoint_loop ck E ep r s2 = Some x"
      "\<forall>e. x = Inl e \<longrightarrow> (\<exists>t. suffix t (pending s) \<and> fatal_length 1024 t)"
      by (meson suffix_order.less_imp_le suffix_order.trans)
    then show ?thesis
      using msg(1) h(1) hms_msg_destroy_wf [OF h(2)]
      by (cases "r = 0"; subst handle_endpoint_loop.simps) simp_all
  qed
qed

end


subsection \<open>The default server on a scripted connection\<close>

definition no_ops :: "'s hms_ops" where
  "no_ops = \<lparr>hms_validate = None, hms_accepts = None, hms_handle = None\<rparr>"

lemma default_ops:
  "ep_ops (hms_endpoint_init E now fd no_ops) =
     \<lparr>hms_validate = Some hms_default_validate, hms_accepts = Some hms_default_accepts,
      hms_handle = Some (hms_default_handle E)\<rparr>"
  by (simp add: hms_endpoint_init_def no_ops_def)

lemma conn_send_keeps: "(\<lambda>s. (arrives s, clock s)) (snd (env_send conn_env s bs)) = (arrives s, clock s)"
  by (auto simp: conn_env_def split: prod.splits)

lemma conn_read_keeps: "env_read conn_env s n = (k, bs, s') \<Longrightarrow>
    (leaves s', clock s') = (leaves s, clock s)"
  by (auto simp: conn_env_def split: prod.splits)

lemma conn_recv_end:
  assumes "conn_pending c = []"
  shows "\<exists>c'. hms_endpoint_recv_msg ck conn_env (Some ep) c = Inr ((None, -1), c') \<and>
    (leaves c', clock c') = (leaves c, clock c)"
  by (rule net.recv_end [where f = "\<lambda>s. (leaves s, clock s)", OF conn_read_keeps assms]) simp

lemma conn_recv_wire:
  assumes "wire_ok ck m" "conn_pending c = msg_bytes m @ rest"
  shows "\<exists>c'. hms_endpoint_recv_msg ck conn_env (Some ep) c = Inr ((Some (received ck m), 0), c') \<and>
    conn_pending c' = rest \<and> (leaves c', clock c') = (leaves c, clock c)"
  by (rule net.recv_wire [where f = "\<lambda>s. (leaves s, clock s)", OF conn_read_keeps assms]) simp

interpretation dflt: server conn_env conn_pending conn_sent conn_up
  "ep_ops (hms_endpoint_init conn_env now fd no_ops)"
proof (unfold_locales, goal_cases)
  case 3
  have "\<exists>r s'. hms_default_handle conn_env ep m s = returns (r, m, s') \<and> conn_pending s' = conn_pending s"
    for ep m s
    using net.default_handle_returns [OF conn_sigpipe(1), of ep m s] by blast
  then show ?case by (fastforce simp: default_ops op_ok_def call_op_def)
qed (simp_all add: default_ops op_ok_def call_op_def hms_default_validate_def hms_default_accepts_def)

text \<open>What the default server answers to the verbs of messages.\<close>

fun serve :: "string list \<Rightarrow> string list \<Rightarrow> char list" where
  "serve ts [] = []"
| "serve ts (v # vs) =
     (if lower v = ''ping'' then ''PONG'' @ [NL, CHR ''.'', NL] @ serve ts vs
      else if lower v = ''info'' then
        ''INFO'' @ [NL] @ ''Localtime:'' @ clock_line (if ts = [] then [] else hd ts) @
          [NL, CHR ''.'', NL] @ serve (tl ts) vs
      else [])"

lemma reply_bytes_verbs:
  "reply_bytes (Some v) t =
     (if lower v = ''ping'' then ''PONG'' @ [NL, CHR ''.'', NL]
      else if lower v = ''info'' then ''INFO'' @ [NL] @ ''Localtime:'' @ t @ [NL, CHR ''.'', NL]
      else [])"
  by (simp add: reply_bytes_def reply_to_def header_text_def hms_msg_create_def)

lemma conn_next_time:
  "fst (next_time conn_env v c) =
     (if map_option lower v = Some ''info'' then clock_line (if clock c = [] then [] else hd (clock c)) else [])"
  "arrives (snd (next_time conn_env v c)) = arrives c" "leaves (snd (next_time conn_env v c)) = leaves c"
  "clock (snd (next_time conn_env v c)) =
     (if map_option lower v = Some ''info'' then tl (clock c) else clock c)"
  by (cases v; simp add: next_time_def conn_env_def split: list.splits)+

lemma not_fatal_Nil: "\<not> fatal_length 1024 []"
proof
  let ?b = "(malloc_area (Suc 1024))[1024 := NUL]"
  assume "fatal_length 1024 []"
  then obtain buf k s m len where
    r: "hms_parse_read_header list_read (Some ?b) (int 1024) [] = Inr ((buf, k), s)"
    and h: "hms_parse_header hms_msg_create buf k 0 = Inr (m, len, 0)" and l: "len = -1 \<or> len = int_max"
    unfolding fatal_length_def by blast
  have len: "length ?b = Suc 1024" by (rule malloc_buffer(2))
  then obtain x xs where b: "?b = x # xs" by (cases ?b) auto
  have "read_header_loop list_read 1024 (x # xs) 0 False None [] = Inr ((x # xs, 0, None, False), [])"
    by (subst read_header_loop.simps) (simp add: list_read_def)
  with r [unfolded b] have "buf = NUL # xs"
    by (simp add: hms_parse_read_header_def to_unsigned_def poke_def)
  with h have "parse_header_loop hms_msg_create 0 0 [] = Inr (m, len, 0)"
    by (simp add: hms_parse_header_def cstr_def)
  with l show False by (subst (asm) parse_header_loop.simps) (simp add: int_max_def)
qed

lemma handle_msg_default:
  "handle_msg E (hms_endpoint_init E now fd no_ops) st m s =
     hms_default_handle E (endpoint_base.truncate (hms_endpoint_init E now fd no_ops)) m s"
  by (simp add: handle_msg_def default_ops call_op_def hms_default_validate_def hms_default_accepts_def)

lemma received_verb: "verb (received ck m) = verb m"
  by (simp add: received_def Let_def split: option.splits)

lemma received_wf: "hdr_wf m \<Longrightarrow> hdr_wf (received ck m)"
  by (auto simp: received_def Let_def hdr_wf_def named_wf_put split: option.splits)

lemma default_session_loop:
  assumes "\<forall>m \<in> set ms. wire_ok ck m" "conn_up c" "conn_pending c = concat (map msg_bytes ms)"
  shows "\<exists>st' c'. handle_endpoint_loop ck conn_env (hms_endpoint_init conn_env now fd no_ops) st c =
      returns (st', c') \<and>
    conn_sent c' = conn_sent c @ serve (clock c) (map (\<lambda>m. the (verb m)) ms) \<and>
    (st = 0 \<longrightarrow> st' = (if \<forall>m \<in> set ms. goes_on (verb m) then 0 else -1))"
  using assms
proof (induction ms arbitrary: c st)
  let ?ep = "hms_endpoint_init conn_env now fd no_ops"
  let ?b = "endpoint_base.truncate ?ep"
  case Nil
  then obtain c' where "hms_endpoint_recv_msg ck conn_env (Some ?b) c = Inr ((None, -1), c')"
    "leaves c' = leaves c" using conn_recv_end [of c] by auto
  then show ?case by (subst handle_endpoint_loop.simps) simp
next
  let ?ep = "hms_endpoint_init conn_env now fd no_ops"
  let ?b = "endpoint_base.truncate ?ep"
  case (Cons m ms)
  let ?m = "received ck m" and ?v = "verb m"
  have ok: "wire_ok ck m" "hdr_wf m" "?v \<noteq> None"
    using Cons.prems(1) by (auto simp: wire_ok_def header_ok_def split: option.splits)
  then obtain v where v: "verb m = Some v" by auto
  obtain c1 where c1: "hms_endpoint_recv_msg ck conn_env (Some ?b) c = Inr ((Some ?m, 0), c1)"
    "conn_pending c1 = concat (map msg_bytes ms)" "leaves c1 = leaves c" "clock c1 = clock c"
    using conn_recv_wire [OF ok(1), of c "concat (map msg_bytes ms)" ?b] Cons.prems(3) by auto
  have up1: "conn_up c1" using c1(3) Cons.prems(2) by simp
  from net.default_handle_out [of "\<lambda>s. (arrives s, clock s)" ?b ?m c1, OF conn_send_keeps conn_sigpipe(1)]
  obtain c2 where c2: "hms_default_handle conn_env ?b ?m c1 = returns (if goes_on ?v then 0 else -1, ?m, c2)"
    "conn_pending c2 = conn_pending c1"
    "(arrives c2, clock c2) = (arrives (snd (next_time conn_env ?v c1)), clock (snd (next_time conn_env ?v c1)))"
    "conn_up c2" "conn_sent c2 = conn_sent c1 @ reply_bytes ?v (fst (next_time conn_env ?v c1))"
    using up1 by (auto simp: received_verb)
  have step: "handle_endpoint_loop ck conn_env ?ep st c =
      (if goes_on ?v then handle_endpoint_loop ck conn_env ?ep 0 c2 else returns (-1, c2))"
    using c1(1) c2(1) hms_msg_destroy_wf [OF received_wf [OF ok(2)], of ck]
    by (subst handle_endpoint_loop.simps) (simp add: handle_msg_default)
  show ?case
  proof (cases "goes_on ?v")
    case False
    with step c1 c2 v show ?thesis
      by (auto simp: reply_bytes_verbs goes_on_def)
  next
    case True
    have "\<forall>m \<in> set ms. wire_ok ck m" "conn_pending c2 = concat (map msg_bytes ms)"
      using Cons.prems(1) c1(2) c2(2) by simp_all
    from Cons.IH [OF this(1) c2(4) this(2), of 0] True step c1 c2 v show ?thesis
      by (auto simp: reply_bytes_verbs goes_on_def conn_next_time)
  qed
qed

subsection \<open>Properties\<close>

text \<open>
  C6: End to end: a message that fits the wire, sent by a connector over a connection that is up (in a process
  that ignores SIGPIPE or does not) and arriving at the server cut into segments in any way, before anything else, is the message \<open>hms_endpoint_recv_msg\<close>
  returns, with status 0 and the bytes behind it unread; so is each of its parts, with and without
  checksums.
\<close>
theorem connector_to_endpoint:
  assumes "wire_ok ck m" "conn_up c" "E = conn_env \<or> E = bare_env"
    "hms_connector_send_msg E (PObj con) (Some m) c = returns (r, c')"
    "conn_pending d = drop (length (conn_sent c)) (conn_sent c') @ rest"
  shows "\<exists>d'. hms_endpoint_recv_msg ck conn_env (Some ep) d = Inr ((Some (received ck m), 0), d') \<and>
    conn_pending d' = rest"
proof -
  obtain v where v: "verb m = Some v" using assms(1) by (auto simp: wire_ok_def header_ok_def split: option.splits)
  have "int (length (header_text m)) < int_max" "msg_wf m"
    using assms(1) by (simp_all add: wire_ok_def int_max_def header_ok_def msg_wf_def)
  from net.send_msg_safe [OF refl refl v this, of c ep con] bare.send_msg_safe [OF refl refl v this, of c ep con]
    assms(2-4)
  have "conn_sent c' = conn_sent c @ msg_bytes m"
    by (auto simp: went_msg_def msg_bytes_def body_of_def)
  with conn_recv_wire [OF assms(1), of d rest ep] assms(5) show ?thesis by auto
qed

theorem connector_to_endpoint_witness:
  "\<exists>d'. hms_endpoint_recv_msg False conn_env
      (Some \<lparr>ep_socket = 4, ep_start = (0, 0), ep_status = 0, ep_locked = True\<rparr>)
      \<lparr>arrives = [RData (msg_bytes sample_msg), RData ''BYE''], leaves = ([], []), clock = []\<rparr> =
    Inr ((Some sample_msg, 0), d') \<and> conn_pending d' = ''BYE''"
proof -
  let ?c = "\<lparr>arrives = [], leaves = ([], []), clock = []\<rparr>"
  have ok: "wire_ok False sample_msg"
    using sample_ok sample_text(1) by (simp add: wire_ok_def int_max_def)
  have v: "verb sample_msg = Some ''PUT''" "msg_wf sample_msg"
    "int (length (header_text sample_msg)) < int_max"
    using sample_ok sample_text(1) by (simp_all add: sample_msg_def msg_wf_def header_ok_def int_max_def)
  have up: "conn_up ?c" by (simp add: sock_up_def)
  from bare.send_msg_safe [OF refl refl v(1,3,2), of ?c undefined undefined] up obtain e c' where
    s: "went_msg conn_sent conn_up ?c c' sample_msg e"
      "hms_connector_send_msg bare_env (PObj undefined) (Some sample_msg) ?c =
        returns (if e \<or> content sample_msg = None then -1 else 0, c')" by blast
  then have "conn_sent c' = msg_bytes sample_msg" "conn_up ?c"
    by (auto simp: went_msg_def msg_bytes_def body_of_def sock_up_def sock_sent_def)
  moreover have "msg_bytes sample_msg \<noteq> []" using sample_text(2) by (simp add: msg_bytes_def)
  ultimately show ?thesis
    using connector_to_endpoint [OF ok _ disjI2 [OF refl] s(2), where rest = "''BYE''" and
      d = "\<lparr>arrives = [RData (msg_bytes sample_msg), RData ''BYE''], leaves = ([], []), clock = []\<rparr>"]
      sample_ok(5) by (simp add: sock_sent_def)
qed

text \<open>
  C4: No client can hang a server or stop it beyond the two lengths the parser dies on: for every application
  whose functions return, and on every connection, whatever arrives in whatever segments and however sends
  fail, the loop of \<open>_hms_handle_endpoint\<close> ends; if it stops the process, then a header whose
  \<open>Content-Length\<close> converts to -1 or \<open>INT_MAX\<close> was next among the bytes that arrived.
\<close>
theorem server_returns:
  assumes "hms_validate (ep_ops ep) = None \<or> op_ok conn_pending (hms_validate (ep_ops ep))"
    "op_ok conn_pending (hms_accepts (ep_ops ep))" "op_ok conn_pending (hms_handle (ep_ops ep))"
  shows "case handle_endpoint_loop ck conn_env ep 0 c of
      None \<Rightarrow> False
    | Some (Inl e) \<Rightarrow> \<exists>t. suffix t (conn_pending c) \<and> fatal_length 1024 t
    | Some (Inr (status, c')) \<Rightarrow> True"
proof -
  have "server conn_env conn_pending conn_sent conn_up (ep_ops ep)"
    using assms by unfold_locales simp_all
  from server.loop_returns [OF this refl, of ck 0 c] show ?thesis
    by (auto split: sum.splits)
qed

theorem server_returns_witness:
  "\<exists>x. handle_endpoint_loop False conn_env (hms_endpoint_init conn_env (0, 0) 4 no_ops) 0
      \<lparr>arrives = [RErr], leaves = ([WErr], []), clock = []\<rparr> = returns x"
  using server_returns [OF dflt.validate_ok [of "(0, 0)" 4] dflt.accepts_ok dflt.handle_ok,
      where ck = False and c = "\<lparr>arrives = [RErr], leaves = ([WErr], []), clock = []\<rparr>"] not_fatal_Nil
  by (auto split: option.splits sum.splits)

text \<open>
  C5: What the default server does with a client that pipelines messages: on a connection that is up, for
  every sequence of messages that fit the wire, the loop answers each PING with PONG and each INFO with the
  time (in any case of the letters), in order, reads on after those and stops at the first message with
  another verb without an answer; the status is 0 exactly if there was none.
\<close>
theorem default_session:
  assumes "\<forall>m \<in> set ms. wire_ok ck m" "conn_up c" "conn_pending c = concat (map msg_bytes ms)"
  shows "\<exists>c'. handle_endpoint_loop ck conn_env (hms_endpoint_init conn_env now fd no_ops) 0 c =
      returns (if \<forall>m \<in> set ms. lower (the (verb m)) \<in> {''ping'', ''info''} then 0 else -1, c') \<and>
    conn_sent c' = conn_sent c @ serve (clock c) (map (\<lambda>m. the (verb m)) ms)"
proof -
  have "goes_on (verb m) \<longleftrightarrow> lower (the (verb m)) \<in> {''ping'', ''info''}" if "m \<in> set ms" for m
    using assms(1) that by (auto simp: wire_ok_def header_ok_def goes_on_def split: option.splits)
  then show ?thesis using default_session_loop [OF assms, of now fd 0] by simp
qed

theorem default_session_witness:
  "\<exists>c'. handle_endpoint_loop False conn_env (hms_endpoint_init conn_env (0, 0) 4 no_ops) 0
      \<lparr>arrives = [RData ''Pi'', RData (''ng'' @ [NL, CHR ''.'']), RData (NL # ''BYE'' @ [NL, CHR ''.'', NL])],
       leaves = ([WTake 2], []), clock = []\<rparr> = returns (-1, c') \<and>
    conn_sent c' = ''PONG'' @ [NL, CHR ''.'', NL]"
proof -
  let ?a = "hms_msg_create\<lparr>verb := Some ''Ping''\<rparr>" and ?b = "hms_msg_create\<lparr>verb := Some ''BYE''\<rparr>"
  have "wire_ok False ?a" "wire_ok False ?b"
    unfolding wire_ok_def int_max_def by (simp_all add: header_ok_def hdr_wf_def named_wf_def hms_msg_create_def
        word_ok_def plain_def dot_line_def body_wf_def checksum_ok_def header_text_def)
  moreover have "lower ''Ping'' = ''ping''" "lower ''BYE'' = ''bye''" by code_simp+
  ultimately show ?thesis
    using default_session [of "[?a, ?b]" False "\<lparr>arrives = [RData ''Pi'', RData (''ng'' @ [NL, CHR ''.'']),
        RData (NL # ''BYE'' @ [NL, CHR ''.'', NL])], leaves = ([WTake 2], []), clock = []\<rparr>" "(0, 0)" 4]
    by (simp add: sock_up_def sock_sent_def msg_bytes_def header_text_def hms_msg_create_def)
qed

text \<open>
  C35: \<open>_hms_handle_endpoint\<close> never returns in a defined way: \<open>hms_endpoint_destroy\<close> frees the endpoint, and
  the unlocking of its \<open>meta_lock\<close> that follows is an access to freed memory, on every connection and for
  every application whose functions return.
\<close>
theorem handle_endpoint_use_after_free:
  assumes "hms_validate (ep_ops ep) = None \<or> op_ok conn_pending (hms_validate (ep_ops ep))"
    "op_ok conn_pending (hms_accepts (ep_ops ep))" "op_ok conn_pending (hms_handle (ep_ops ep))"
    "\<forall>t. suffix t (conn_pending c) \<longrightarrow> \<not> fatal_length 1024 t"
  shows "hms_handle_endpoint ck conn_env (Some ep) c = Some (Inl Undefined)"
proof -
  let ?ep = "ep\<lparr>ep_locked := True\<rparr>"
  have "server conn_env conn_pending conn_sent conn_up (ep_ops ?ep)"
    using assms(1-3) by unfold_locales simp_all
  from server.loop_returns [OF this refl, of ck 0 c] assms(4) obtain x where
    "handle_endpoint_loop ck conn_env ?ep 0 c = Some (Inr x)"
    by (metis sum.exhaust)
  then show ?thesis
    by (cases x) (simp add: hms_handle_endpoint_def lock_meta_def hms_endpoint_destroy_def)
qed

theorem handle_endpoint_use_after_free_witness:
  "hms_handle_endpoint False conn_env (Some (hms_endpoint_init conn_env (0, 0) 4 no_ops))
    \<lparr>arrives = [RErr], leaves = ([], []), clock = []\<rparr> = Some (Inl Undefined)"
proof (rule handle_endpoint_use_after_free [OF dflt.validate_ok dflt.accepts_ok dflt.handle_ok], intro allI impI notI)
  fix t
  assume "suffix t (conn_pending \<lparr>arrives = [RErr], leaves = ([], []), clock = []\<rparr>)" "fatal_length 1024 t"
  with not_fatal_Nil show False by simp
qed

end
