(* ===== verification/Msg_Print_Memory.thy ===== *)
theory Msg_Print_Memory
  imports Msg_Arrays
begin

section \<open>Printing a message in memory (src/src/hms/hms_msg.c)\<close>

text \<open>
  \<open>hms_msg_get_header_size\<close> and \<open>hms_msg_print_header\<close> on the memory of Msg_Memory. The printing writes into an
  array, which changes no links: its loops read them in the memory as it was before.
\<close>

definition string_at :: "ptr \<Rightarrow> msg_memory \<Rightarrow> string res" where
  "string_at q m = deref_arg m (At q)"

definition uheader_string :: "ptr \<Rightarrow> msg_memory \<Rightarrow> string res" where
  "uheader_string hdr m = bind_res (object (uheaders m) hdr) (\<lambda>u. string_at (uhp_val u) m)"

definition nheader_strings :: "ptr \<Rightarrow> msg_memory \<Rightarrow> (string \<times> string) res" where
  "nheader_strings hdr m =
     bind_res (object (nheaders m) hdr) (\<lambda>n.
     bind_res (string_at (nhp_key n) m) (\<lambda>k.
     bind_res (string_at (nhp_val n) m) (\<lambda>v. Inr (k, v))))"

definition mem_msg_get_header_size :: "ptr \<Rightarrow> msg_memory \<Rightarrow> int run" where
  "mem_msg_get_header_size p m =
     bind_run (Some (assert_ptr p)) (\<lambda>_.
     bind_run (Some (object (msgs m) p)) (\<lambda>mm.
     if mm_verb mm = 0 then returns 0
     else
       bind_run (Some (string_at (mm_verb mm) m)) (\<lambda>v.
       bind_run (hms_list_for_each_entry
         (\<lambda>hdr sz. bind_res (uheader_string hdr m) (\<lambda>s. Inr (add_size sz (1 + length s), False)))
         m (headers_lh p) (add_size 0 (length v))) (\<lambda>(sz, _).
       bind_run (Some (int_add sz 1)) (\<lambda>sz.
       bind_run (hms_list_for_each_entry
         (\<lambda>hdr sz. bind_res (nheader_strings hdr m) (\<lambda>(k, v). Inr (add_size sz (length k + 1 + length v + 1), False)))
         m (named_headers_lh p) sz) (\<lambda>(sz, _).
       Some (int_add sz 2)))))))"

text \<open>The bodies of the two loops of \<open>hms_msg_print_header\<close>, with the pointer \<open>offset\<close>.\<close>

definition print_uheader_body :: "ptr \<Rightarrow> ptr \<Rightarrow> msg_memory \<times> nat \<Rightarrow> ((msg_memory \<times> nat) \<times> bool) res" where
  "print_uheader_body q hdr = (\<lambda>(m, off).
     bind_res (uheader_string hdr m) (\<lambda>s.
     bind_res (store q off '' '' m) (\<lambda>m.
     bind_res (store q (off + 1) s m) (\<lambda>m. Inr ((m, off + 1 + length s), False)))))"

definition print_nheader_body :: "ptr \<Rightarrow> ptr \<Rightarrow> msg_memory \<times> nat \<Rightarrow> ((msg_memory \<times> nat) \<times> bool) res" where
  "print_nheader_body q hdr = (\<lambda>(m, off).
     bind_res (nheader_strings hdr m) (\<lambda>(k, v).
     let key_len = length k; val_len = length v in
     bind_res (store q off k m) (\<lambda>m.
     let off = off + key_len in
     bind_res (store q off '':'' m) (\<lambda>m.
     let off = off + 1 in
     bind_res (store q off v m) (\<lambda>m.
     let off = off + val_len in
     bind_res (store q off [NL] m) (\<lambda>m. Inr ((m, off + 1), False)))))))"

definition mem_msg_print_header :: "ptr \<Rightarrow> ptr \<Rightarrow> int \<Rightarrow> msg_memory \<Rightarrow> (int \<times> msg_memory) run" where
  "mem_msg_print_header p q len m =
     bind_run (Some (assert_ptr p)) (\<lambda>_.
     bind_run (Some (assert_ptr q)) (\<lambda>_.
     bind_run (mem_msg_get_header_size p m) (\<lambda>hdr_len.
     bind_run (Some (object (msgs m) p)) (\<lambda>mm.
     bind_run (Some (if mm_verb mm = 0 then Inr (m, 0)
       else bind_res (string_at (mm_verb mm) m) (\<lambda>v.
         bind_res (store q 0 v m) (\<lambda>m. Inr (m, length v))))) (\<lambda>(m, off).
     bind_run (hms_list_for_each_entry (print_uheader_body q) m (headers_lh p) (m, off)) (\<lambda>((m, off), _).
     bind_run (Some (store q off [NL] m)) (\<lambda>m.
     bind_run (hms_list_for_each_entry (print_nheader_body q) m (named_headers_lh p) (m, off + 1)) (\<lambda>((m, off), _).
     bind_run (Some (store q off [CHR ''.'', NL] m)) (\<lambda>m.
     bind_run (Some (hms_assert_equals hdr_len (to_int32 (int (off + 2))))) (\<lambda>_.
     returns (0, m)))))))))))"

subsection \<open>Correctness\<close>

lemma uheader_string_memory: "in_memory m p L \<Longrightarrow> u \<in> set (l_us L) \<Longrightarrow> uheader_string (fst u) m = Inr (uh_val (uheader_of u))"
  using uheader_objects [of m p L "fst u" "fst (snd u)" "snd (snd u)"]
  by (simp add: uheader_string_def string_at_def deref_arg_def uheader_of_def)

lemma nheader_strings_memory:
  "in_memory m p L \<Longrightarrow> n \<in> set (l_ns L) \<Longrightarrow> nheader_strings (fst n) m = Inr (nh_key (nheader_of n), nh_val (nheader_of n))"
  using nheader_objects [of m p L "fst n" "fst (fst (snd n))" "snd (fst (snd n))" "fst (snd (snd n))" "snd (snd (snd n))"]
  by (simp add: nheader_strings_def string_at_def deref_arg_def nheader_of_def)

lemma verb_string_memory:
  assumes "in_memory m p L"
  shows "l_verb L = None \<Longrightarrow> mm_verb (struct_of L) = 0"
    "l_verb L = Some v \<Longrightarrow> mm_verb (struct_of L) \<noteq> 0 \<and> string_at (mm_verb (struct_of L)) m = Inr (snd v)"
proof -
  assume v: "l_verb L = Some v"
  then have "(fst v, snd v) \<in> set (l_chars L)" by (simp add: l_chars_def)
  then show "mm_verb (struct_of L) \<noteq> 0 \<and> string_at (mm_verb (struct_of L)) m = Inr (snd v)"
    using in_memoryD(2) [OF assms] v by (auto simp: holds_def struct_of_def string_at_def deref_arg_def object_def)
qed (simp add: struct_of_def)

lemma size_loops:
  assumes "in_memory m p L"
  shows "set us \<subseteq> set (l_us L) \<Longrightarrow>
      loop_list (\<lambda>hdr sz. bind_res (uheader_string hdr m) (\<lambda>s. Inr (add_size sz (1 + length s), False))) (map fst us) sz =
        Inr (uheaders_size sz (map uheader_of us), None)"
    "set ns \<subseteq> set (l_ns L) \<Longrightarrow>
      loop_list (\<lambda>hdr sz. bind_res (nheader_strings hdr m) (\<lambda>(k, v). Inr (add_size sz (length k + 1 + length v + 1), False)))
        (map fst ns) sz = Inr (nheaders_size sz (map nheader_of ns), None)"
proof -
  show "set us \<subseteq> set (l_us L) \<Longrightarrow>
      loop_list (\<lambda>hdr sz. bind_res (uheader_string hdr m) (\<lambda>s. Inr (add_size sz (1 + length s), False))) (map fst us) sz =
        Inr (uheaders_size sz (map uheader_of us), None)"
    by (induction us arbitrary: sz) (simp_all add: uheader_string_memory [OF assms])
  show "set ns \<subseteq> set (l_ns L) \<Longrightarrow>
      loop_list (\<lambda>hdr sz. bind_res (nheader_strings hdr m) (\<lambda>(k, v). Inr (add_size sz (length k + 1 + length v + 1), False)))
        (map fst ns) sz = Inr (nheaders_size sz (map nheader_of ns), None)"
    by (induction ns arbitrary: sz) (simp_all add: nheader_strings_memory [OF assms])
qed

lemma header_size_memory:
  assumes "in_memory m p L"
  shows "mem_msg_get_header_size p m = Some (hms_msg_get_header_size (Some (msg_of L)))"
proof (cases "l_verb L")
  case None
  with in_memoryD(8,9) [OF assms] verb_string_memory(1) [OF assms] show ?thesis
    by (simp add: mem_msg_get_header_size_def hms_msg_get_header_size_def assert_ptr_def)
next
  case (Some v)
  let ?u = "\<lambda>hdr sz. bind_res (uheader_string hdr m) (\<lambda>s. Inr (add_size sz (1 + length s), False))"
  let ?n = "\<lambda>hdr sz. bind_res (nheader_strings hdr m) (\<lambda>(k, v). Inr (add_size sz (length k + 1 + length v + 1), False))"
  have "hms_list_for_each_entry ?u m (headers_lh p) sz = returns (uheaders_size sz (map uheader_of (l_us L)), headers_lh p)" for sz
    unfolding for_each_entry_ring [OF in_memoryD(5) [OF assms]] size_loops(1) [OF assms subset_refl] by simp
  moreover have "hms_list_for_each_entry ?n m (named_headers_lh p) sz =
      returns (nheaders_size sz (map nheader_of (l_ns L)), named_headers_lh p)" for sz
    unfolding for_each_entry_ring [OF in_memoryD(6) [OF assms]] size_loops(2) [OF assms subset_refl] by simp
  ultimately show ?thesis
    using Some in_memoryD(8,9) [OF assms] verb_string_memory(2) [OF assms Some]
    by (cases "int_add (uheaders_size (add_size 0 (length (snd v))) (map uheader_of (l_us L))) 1")
      (simp_all add: mem_msg_get_header_size_def hms_msg_get_header_size_def assert_ptr_def Let_def)
qed

text \<open>Writing to an array beside the message.\<close>

lemma set_chars_simps [simp]:
  "set_chars q b' (set_chars q b m) = set_chars q b' m" "chars m q = Some b \<Longrightarrow> set_chars q b m = m"
  by (simp_all add: set_chars_def map_upd_triv)

lemma store_beside:
  assumes "message m p L (with_chars R q b)" "q \<noteq> 0"
  shows "store q off s m = bind_res (buf_write b off s) (\<lambda>b. Inr (set_chars q b m))"
  using message_at(1) [OF assms(1)] assms(2)
  by (cases "buf_write b off s") (simp_all add: store_def in_buffer_def object_def)

lemma print_uheaders_loop:
  "message m p L (with_chars R q b) \<Longrightarrow> q \<noteq> 0 \<Longrightarrow> set us \<subseteq> set (l_us L) \<Longrightarrow>
   loop_list (print_uheader_body q) (map fst us) (m, off) =
     bind_res (print_uheaders b off (map uheader_of us)) (\<lambda>(b, off). Inr ((set_chars q b m, off), None))"
proof (induction us arbitrary: m b off)
  case Nil
  then show ?case using message_at(1) [OF Nil.prems(1)] by simp
next
  case (Cons u us)
  have u: "uheader_string (fst u) m = Inr (uh_val (uheader_of u))"
    by (rule uheader_string_memory [OF messageD(1) [OF Cons.prems(1)]]) (use Cons.prems(3) in simp)
  show ?case
  proof (cases "buf_write b off '' ''")
    case (Inl e)
    with u store_beside [OF Cons.prems(1,2)] show ?thesis by (simp add: print_uheader_body_def)
  next
    case b1: (Inr b1)
    note m1 = message_set_chars [OF Cons.prems(1), of b1]
    show ?thesis
    proof (cases "buf_write b1 (off + 1) (uh_val (uheader_of u))")
      case (Inl e)
      with u b1 store_beside [OF Cons.prems(1,2)] store_beside [OF m1 Cons.prems(2)] show ?thesis
        by (simp add: print_uheader_body_def)
    next
      case b2: (Inr b2)
      note m2 = message_set_chars [OF Cons.prems(1), of b2]
      from Cons.IH [OF m2 Cons.prems(2)] Cons.prems(3)
        u b1 b2 store_beside [OF Cons.prems(1,2)] store_beside [OF m1 Cons.prems(2)] show ?thesis
        by (simp add: print_uheader_body_def)
    qed
  qed
qed

lemma print_nheader_memory:
  assumes "message m p L (with_chars R q b)" "q \<noteq> 0" "n \<in> set (l_ns L)"
  shows "print_nheader_body q (fst n) (m, off) =
    (let k = nh_key (nheader_of n); v = nh_val (nheader_of n) in
     bind_res (buf_write b off k) (\<lambda>b.
     bind_res (buf_write b (off + length k) '':'') (\<lambda>b.
     bind_res (buf_write b (off + length k + 1) v) (\<lambda>b.
     bind_res (buf_write b (off + length k + 1 + length v) [NL]) (\<lambda>b.
     Inr ((set_chars q b m, off + length k + 1 + length v + 1), False))))))"
proof -
  have n: "nheader_strings (fst n) m = Inr (nh_key (nheader_of n), nh_val (nheader_of n))"
    by (rule nheader_strings_memory [OF messageD(1) [OF assms(1)] assms(3)])
  have st: "store q off s (set_chars q b m) = bind_res (buf_write b off s) (\<lambda>b. Inr (set_chars q b m))" for b off s
    using store_beside [OF message_set_chars [OF assms(1)] assms(2)] by simp
  show ?thesis unfolding print_nheader_body_def split n bind_res_simps Let_def store_beside [OF assms(1,2)] bind_res_assoc st ..
qed

lemma print_nheaders_loop:
  "message m p L (with_chars R q b) \<Longrightarrow> q \<noteq> 0 \<Longrightarrow> set ns \<subseteq> set (l_ns L) \<Longrightarrow>
   loop_list (print_nheader_body q) (map fst ns) (m, off) =
     bind_res (print_nheaders b off (map nheader_of ns)) (\<lambda>(b, off). Inr ((set_chars q b m, off), None))"
proof (induction ns arbitrary: m b off)
  case Nil
  then show ?case using message_at(1) [OF Nil.prems(1)] by simp
next
  case (Cons n ns)
  have IH: "loop_list (print_nheader_body q) (map fst ns) (set_chars q b m, off) =
      bind_res (print_nheaders b off (map nheader_of ns)) (\<lambda>(b, off). Inr ((set_chars q b m, off), None))" for b off
    using Cons.IH [OF message_set_chars [OF Cons.prems(1)] Cons.prems(2)] Cons.prems(3) by simp
  have "n \<in> set (l_ns L)" using Cons.prems(3) by simp
  from print_nheader_memory [OF Cons.prems(1,2) this] show ?case
    by (simp add: bind_res_assoc IH Let_def)
qed

text \<open>The calls behave as on values, and leave the printed header in the array.\<close>

lemma print_header_memory:
  assumes "message m p L (with_chars R q b)" "q \<noteq> 0"
  shows "mem_msg_print_header p q len m =
    Some (bind_res (hms_msg_print_header (Some (msg_of L)) (Some b) len) (\<lambda>(b, r). Inr (r, set_chars q b m)))"
proof -
  note im = messageD(1) [OF assms(1)]
  have st: "store q off s (set_chars q b m) = bind_res (buf_write b off s) (\<lambda>b. Inr (set_chars q b m))" for b off s
    using store_beside [OF message_set_chars [OF assms(1)] assms(2)] by simp
  have u: "hms_list_for_each_entry (print_uheader_body q) (set_chars q b m) (headers_lh p) (set_chars q b m, off) =
      Some (bind_res (print_uheaders b off (headers (msg_of L))) (\<lambda>(b, off). Inr ((set_chars q b m, off), headers_lh p)))" for b off
    unfolding for_each_entry_ring [OF in_memoryD(5) [OF messageD(1) [OF message_set_chars [OF assms(1)]]]]
      print_uheaders_loop [OF message_set_chars [OF assms(1)] assms(2) subset_refl]
    by (simp add: bind_res_assoc case_prod_unfold)
  have n: "hms_list_for_each_entry (print_nheader_body q) (set_chars q b m) (named_headers_lh p) (set_chars q b m, off) =
      Some (bind_res (print_nheaders b off (named_headers (msg_of L))) (\<lambda>(b, off). Inr ((set_chars q b m, off), named_headers_lh p)))" for b off
    unfolding for_each_entry_ring [OF in_memoryD(6) [OF messageD(1) [OF message_set_chars [OF assms(1)]]]]
      print_nheaders_loop [OF message_set_chars [OF assms(1)] assms(2) subset_refl]
    by (simp add: bind_res_assoc case_prod_unfold)
  have m: "set_chars q b m = m" using message_at(1) [OF assms(1)] by simp
  have verb: "(if mm_verb (struct_of L) = 0 then Inr (m, 0)
      else bind_res (string_at (mm_verb (struct_of L)) m) (\<lambda>v. bind_res (store q 0 v m) (\<lambda>m. Inr (m, length v)))) =
      bind_res (case verb (msg_of L) of None \<Rightarrow> Inr (b, 0) | Some v \<Rightarrow> bind_res (buf_write b 0 v) (\<lambda>b. Inr (b, length v)))
        (\<lambda>(b, off). Inr (set_chars q b m, off))"
    using verb_string_memory [OF im] m store_beside [OF assms]
    by (cases "l_verb L") (auto simp: bind_res_assoc)
  show ?thesis
    using in_memoryD(8,9) [OF im] assms(2)
    unfolding mem_msg_print_header_def hms_msg_print_header_def header_size_memory [OF im]
    by (simp add: assert_ptr_def verb Some_bind_res bind_run_assoc u [simplified] n [simplified] st case_prod_unfold)
qed

end
