(* ===== verification/Hermes_Memory.thy ===== *)
theory Hermes_Memory
  imports Hermes Parser_Memory Msg_Print_Memory
begin

section \<open>Connectors, endpoints and the default server in memory (src/src/hms/hermes.c)\<close>

text \<open>
  The functions of Hermes that send, receive and handle messages once more, on the memory of Msg_Memory: the
  buffers they allocate and free, the message that is received and destroyed for every turn of the loop, and
  the reply. The application's functions get the message by its pointer. The connectors and endpoints
  themselves are left as they are in Hermes.
\<close>

subsection \<open>Sending\<close>

definition mem_send_msg_header ::
    "'s env \<Rightarrow> allocator \<Rightarrow> ptr \<Rightarrow> msg_memory \<Rightarrow> 's \<Rightarrow> (bool \<times> msg_memory \<times> 's) run" where
  "mem_send_msg_header E A p m s =
     bind_run (mem_msg_get_header_size p m) (\<lambda>hdr_len.
     bind_run (Some (hms_assert_not_equals 0 hdr_len)) (\<lambda>_.
     bind_run (Some (int_add hdr_len 1)) (\<lambda>size.
     let (hdr_buf, m) = malloc A size m in
     bind_run (Some (assert_ptr hdr_buf)) (\<lambda>_.
     bind_run (mem_msg_print_header p hdr_buf hdr_len m) (\<lambda>(ret, m).
     bind_run
       (if ret = 0 then
          bind_run (Some (object (chars m) hdr_buf)) (\<lambda>b.
          bind_run (send_all (env_sender E) (Some b) hdr_len s) (\<lambda>(n, s). returns (n = -1, s)))
        else returns (True, s)) (\<lambda>(erred, s).
     bind_run (Some (free_chars hdr_buf m)) (\<lambda>m. returns (erred, m, s))))))))"

definition mem_send_msg_body ::
    "'s env \<Rightarrow> allocator \<Rightarrow> ptr \<Rightarrow> bool \<Rightarrow> bool \<Rightarrow> msg_memory \<Rightarrow> 's \<Rightarrow> (bool \<times> msg_memory \<times> 's) run" where
  "mem_send_msg_body E A p needs_body erred m s =
     bind_run (mem_msg_get_body_size A p m) (\<lambda>(body_size, m).
     if body_size > 0 then
       bind_run (mem_msg_get_body A p m) (\<lambda>(body, body_len, ret, m).
       if ret = 0 \<and> body \<noteq> 0 then
         bind_run (Some (object (chars m) body)) (\<lambda>b.
         bind_run (send_all (env_sender E) (Some b) body_len s) (\<lambda>(n, s).
         bind_run (Some (free_chars body m)) (\<lambda>m. returns (erred \<or> n = -1, m, s))))
       else returns (True, m, s))
     else returns (needs_body \<or> erred, m, s))"

definition mem_send_msg ::
    "bool \<Rightarrow> 's env \<Rightarrow> allocator \<Rightarrow> ptr \<Rightarrow> msg_memory \<Rightarrow> 's \<Rightarrow> (int \<times> msg_memory \<times> 's) run" where
  "mem_send_msg needs_body E A p m s =
     bind_run (Some (assert_ptr p)) (\<lambda>_.
     bind_run (mem_send_msg_header E A p m s) (\<lambda>(erred, m, s).
     bind_run (mem_send_msg_body E A p needs_body erred m s) (\<lambda>(erred, m, s).
     returns (if \<not> erred then 0 else -1, m, s))))"

definition mem_connector_send_msg ::
    "'s env \<Rightarrow> allocator \<Rightarrow> hms_connector Hermes.ptr \<Rightarrow> ptr \<Rightarrow> msg_memory \<Rightarrow> 's \<Rightarrow> (int \<times> msg_memory \<times> 's) run" where
  "mem_connector_send_msg E A c p m s =
     bind_run (Some (access_ptr c)) (\<lambda>connector. mem_send_msg True E A p m s)"

definition mem_endpoint_send_msg ::
    "'s env \<Rightarrow> allocator \<Rightarrow> endpoint_base option \<Rightarrow> ptr \<Rightarrow> msg_memory \<Rightarrow> 's \<Rightarrow> (int \<times> msg_memory \<times> 's) run" where
  "mem_endpoint_send_msg E A e p m s =
     bind_run (Some (nonnull e)) (\<lambda>endpoint. mem_send_msg False E A p m s)"

subsection \<open>Receiving\<close>

definition mem_recv_msg ::
    "bool \<Rightarrow> 's env \<Rightarrow> allocator \<Rightarrow> msg_memory \<Rightarrow> 's \<Rightarrow> (ptr \<times> int \<times> msg_memory \<times> 's) run" where
  "mem_recv_msg ck E A m s =
     bind_run (mem_msg_parse ck A (env_read E) HERMES_MAX_HDR_SIZE m s) (\<lambda>(tmp_msg, m, s).
     if tmp_msg = 0 then returns (0, -1, m, s) else returns (tmp_msg, 0, m, s))"

definition mem_connector_recv_msg ::
    "bool \<Rightarrow> 's env \<Rightarrow> allocator \<Rightarrow> hms_connector Hermes.ptr \<Rightarrow> msg_memory \<Rightarrow> 's \<Rightarrow>
     (ptr \<times> int \<times> msg_memory \<times> 's) run" where
  "mem_connector_recv_msg ck E A c m s =
     bind_run (Some (access_ptr c)) (\<lambda>connector. mem_recv_msg ck E A m s)"

definition mem_endpoint_recv_msg ::
    "bool \<Rightarrow> 's env \<Rightarrow> allocator \<Rightarrow> endpoint_base option \<Rightarrow> msg_memory \<Rightarrow> 's \<Rightarrow>
     (ptr \<times> int \<times> msg_memory \<times> 's) run" where
  "mem_endpoint_recv_msg ck E A e m s =
     bind_run (Some (nonnull e)) (\<lambda>endpoint. mem_recv_msg ck E A m s)"

subsection \<open>The default functions\<close>

type_synonym 's mem_op = "endpoint_base \<Rightarrow> ptr \<Rightarrow> msg_memory \<Rightarrow> 's \<Rightarrow> (int \<times> msg_memory \<times> 's) run"

record 's mem_ops =
  mem_validate :: "'s mem_op option"
  mem_accepts :: "'s mem_op option"
  mem_handle :: "'s mem_op option"

definition mem_default_validate :: "'s mem_op" where
  "mem_default_validate endpoint p m s = returns (0, m, s)"

definition mem_default_accepts :: "'s mem_op" where
  "mem_default_accepts endpoint p m s = returns (-1, m, s)"

text \<open>The branches of \<open>_hms_default_handle\<close> on the verb: \<open>erred\<close>.\<close>

definition mem_default_reply ::
    "'s env \<Rightarrow> allocator \<Rightarrow> endpoint_base \<Rightarrow> ptr \<Rightarrow> ptr \<Rightarrow> msg_memory \<Rightarrow> 's \<Rightarrow> (bool \<times> msg_memory \<times> 's) run" where
  "mem_default_reply E A endpoint v reply m s =
     (if v = 0 then
        bind_run (Some (mem_msg_set_verb A reply (Lit ''ERROR'') m)) (\<lambda>(_, m).
        bind_run (mem_endpoint_send_msg E A (Some endpoint) reply m s) (\<lambda>(_, m, s).
        returns (True, m, s)))
      else
        bind_run (Some (deref_arg m (At v))) (\<lambda>verb.
        if strcasecmp verb ''PING'' = 0 then
          bind_run (Some (mem_msg_set_verb A reply (Lit ''PONG'') m)) (\<lambda>(_, m).
          bind_run (mem_endpoint_send_msg E A (Some endpoint) reply m s) (\<lambda>(_, m, s).
          returns (False, m, s)))
        else if strcasecmp verb ''INFO'' = 0 then
          bind_run (Some (mem_msg_set_verb A reply (Lit ''INFO'') m)) (\<lambda>(_, m).
          let (time_buf, s) = env_time E s in
          bind_run (mem_msg_add_named_header A reply (Lit ''Localtime'') (Lit time_buf) m) (\<lambda>(_, m).
          bind_run (mem_endpoint_send_msg E A (Some endpoint) reply m s) (\<lambda>(_, m, s).
          returns (False, m, s))))
        else if strcasecmp verb ''BYE'' = 0 then returns (True, m, s)
        else returns (True, m, s)))"

definition mem_default_handle :: "'s env \<Rightarrow> allocator \<Rightarrow> 's mem_op" where
  "mem_default_handle E A endpoint p m s =
     bind_run (Some (mem_msg_create A m)) (\<lambda>(reply, m).
     bind_run (Some (mem_msg_get_verb A p m)) (\<lambda>(verb, _, m).
     bind_run (mem_default_reply E A endpoint verb reply m s) (\<lambda>(erred, m, s).
     bind_run (Some (free_chars verb m)) (\<lambda>m.
     bind_run (mem_msg_destroy reply m) (\<lambda>(_, m).
     returns (if \<not> erred then 0 else -1, m, s))))))"

text \<open>The functions \<open>hms_endpoint_init\<close> puts in for those the application does not give.\<close>

definition mem_endpoint_ops :: "'s env \<Rightarrow> allocator \<Rightarrow> 's mem_ops \<Rightarrow> 's mem_ops" where
  "mem_endpoint_ops E A ops =
     \<lparr>mem_validate = (if mem_validate ops = None then Some mem_default_validate else mem_validate ops),
      mem_accepts = (if mem_accepts ops = None then Some mem_default_accepts else mem_accepts ops),
      mem_handle = (if mem_handle ops = None then Some (mem_default_handle E A) else mem_handle ops)\<rparr>"

subsection \<open>The server's side of a connection\<close>

definition mem_call_op :: "'s mem_op option \<Rightarrow> 's mem_op" where
  "mem_call_op f endpoint p m s =
     (case f of None \<Rightarrow> Some (Inl Undefined) | Some f \<Rightarrow> f endpoint p m s)"

definition mem_handle_msg ::
    "'s env \<Rightarrow> allocator \<Rightarrow> endpoint_base \<Rightarrow> 's mem_ops \<Rightarrow> int \<Rightarrow> ptr \<Rightarrow> msg_memory \<Rightarrow> 's \<Rightarrow>
     (int \<times> msg_memory \<times> 's) run" where
  "mem_handle_msg E A endpoint ops handler_status p m s =
     bind_run
       (if mem_validate ops = None then returns (0, m, s)
        else mem_call_op (mem_validate ops) endpoint p m s) (\<lambda>(valid, m, s).
     if valid = 0 then
       bind_run (mem_call_op (mem_accepts ops) endpoint p m s) (\<lambda>(accepted, m, s).
       if accepted = 0 then mem_call_op (mem_handle ops) endpoint p m s
       else mem_default_handle E A endpoint p m s)
     else returns (handler_status, m, s))"

partial_function (option) mem_handle_endpoint_loop ::
    "bool \<Rightarrow> 's env \<Rightarrow> allocator \<Rightarrow> endpoint_base \<Rightarrow> 's mem_ops \<Rightarrow> int \<Rightarrow> msg_memory \<Rightarrow> 's \<Rightarrow>
     (int \<times> msg_memory \<times> 's) run" where
  [code]: "mem_handle_endpoint_loop ck E A endpoint ops handler_status m s =
     bind_run (mem_endpoint_recv_msg ck E A (Some endpoint) m s) (\<lambda>(msg, parse_status, m, s).
     if parse_status \<noteq> 0 then returns (handler_status, m, s)
     else
       bind_run (mem_handle_msg E A endpoint ops handler_status msg m s) (\<lambda>(handler_status, m, s).
       bind_run (mem_msg_destroy msg m) (\<lambda>(_, m).
       if handler_status \<noteq> 0 then returns (handler_status, m, s)
       else mem_handle_endpoint_loop ck E A endpoint ops handler_status m s)))"

end
