(* ===== verification/Hermes_Memory_Correct.thy ===== *)
theory Hermes_Memory_Correct
  imports Hermes_Memory Parser_Memory_Correct Hermes_Correct
begin

section \<open>Correctness of the server in memory\<close>

text \<open>
  The functions of Hermes_Memory do what those of Hermes do, and free everything they allocate but the message
  they answer with.
\<close>

subsection \<open>Sending\<close>

text \<open>A call that gives a result \<open>e\<close> and changes the connection, beside the message \<open>L\<close> at \<open>p\<close>.\<close>

definition beside :: "ptr \<Rightarrow> layout \<Rightarrow> rest_memory \<Rightarrow> 'e \<times> 's \<Rightarrow> 'e \<times> msg_memory \<times> 's \<Rightarrow> bool" where
  "beside p L R x y \<longleftrightarrow> (case (x, y) of ((e, s), (e', m', s')) \<Rightarrow> e' = e \<and> s' = s \<and> message m' p L R)"

lemma beside_iff [simp]:
  "beside p L R (e, s) y \<longleftrightarrow> (\<exists>m'. y = (e, m', s) \<and> message m' p L R)"
  by (cases y) (auto simp: beside_def)

context heap_allocator begin

lemma send_header_memory:
  assumes "message m p L R" "finite_rest R"
  shows "run_rel (beside p L R) (send_msg_header E (msg_of L) s) (mem_send_msg_header E A p m s)"
  unfolding send_msg_header_def mem_send_msg_header_def header_size_memory [OF messageD(1) [OF assms(1)]]
proof ((rule run_rel_same)+)
  fix n u size
  assume "Some (int_add n 1) = returns size"
  show "run_rel (beside p L R)
     (bind_run (Some (nonnull (if size < 0 then None else Some (malloc_area (nat size))))) (\<lambda>b.
      bind_run (Some (hms_msg_print_header (Some (msg_of L)) (Some b) n)) (\<lambda>(b, ret).
      if ret = 0 then bind_run (send_all (env_sender E) (Some b) n s) (\<lambda>(k, s). returns (k = -1, s))
      else returns (True, s))))
     (let (q, m) = malloc A size m in
      bind_run (Some (assert_ptr q)) (\<lambda>_.
      bind_run (mem_msg_print_header p q n m) (\<lambda>(ret, m).
      bind_run
       (if ret = 0 then
          bind_run (Some (object (chars m) q)) (\<lambda>b.
          bind_run (send_all (env_sender E) (Some b) n s) (\<lambda>(k, s). returns (k = -1, s)))
        else returns (True, s)) (\<lambda>(erred, s).
      bind_run (Some (free_chars q m)) (\<lambda>m. returns (erred, m, s))))))"
  proof (cases "size < 0")
    case True
    then show ?thesis by (simp add: malloc_def assert_ptr_def)
  next
    case False
    then obtain q m1 where m1: "malloc A size m = (q, m1)" "q \<noteq> 0" "r_chars R q = None"
      "message m1 p L (with_chars R q (malloc_area (nat size)))" using malloc_message [OF assms, of size] by auto
    have "\<forall>b. \<exists>m'. free_chars q (set_chars q b m1) = Inr m' \<and> message m' p L R"
      using message_free [OF message_set_chars [OF m1(4)] m1(2,3)] by blast
    then obtain f where f: "\<And>b. free_chars q (set_chars q b m1) = Inr (f b)" "\<And>b. message (f b) p L R" by metis
    have ob: "object (chars (set_chars q b m1)) q = Inr b" for b using m1(2) by (simp add: object_def set_chars_def)
    show ?thesis using False m1(1,2)
      by (auto simp: assert_ptr_def print_header_memory [OF m1(4,2)] Some_bind_res bind_run_assoc case_prod_unfold ob f
        intro!: run_rel_same)
  qed
qed

lemma send_body_memory:
  assumes "message m p L R" "finite_rest R"
  shows "run_rel (beside p L R) (send_msg_body E (msg_of L) needs_body erred s) (mem_send_msg_body E A p needs_body erred m s)"
  unfolding send_msg_body_def mem_send_msg_body_def
proof (rule get_body_size_then [OF assms], unfold split, rule run_rel_if, rule get_body_then [OF assms], unfold split)
  fix b n q m'
  assume q: "q \<noteq> 0" "r_chars R q = None" "message m' p L (with_chars R q b)"
  obtain m1 where "free_chars q m' = Inr m1" "message m1 p L R" using message_free [OF q(3,1,2)] by blast
  with q(1) message_at(1) [OF q(3), of q b] show "run_rel (beside p L R)
      (if 0 = (0::int) \<and> Some b \<noteq> None then
         bind_run (send_all (env_sender E) (Some b) n s) (\<lambda>(n, s). returns (erred \<or> n = -1, s)) else returns (True, s))
      (if 0 = (0::int) \<and> q \<noteq> 0 then
         bind_run (Some (object (chars m') q)) (\<lambda>b.
         bind_run (send_all (env_sender E) (Some b) n s) (\<lambda>(n, s).
         bind_run (Some (free_chars q m')) (\<lambda>m. returns (erred \<or> n = -1, m, s)))) else returns (True, m', s))"
    by (auto simp: object_def intro!: run_rel_same)
qed (use assms(1) in auto)

lemma send_memory:
  assumes "message m p L R" "finite_rest R"
  shows "run_rel (beside p L R)
    (bind_run (send_msg_header E (msg_of L) s) (\<lambda>(erred, s).
     bind_run (send_msg_body E (msg_of L) needs_body erred s) (\<lambda>(erred, s). returns (if \<not> erred then 0 else -1, s))))
    (mem_send_msg needs_body E A p m s)"
proof -
  have "assert_ptr p = Inr ()" using messageD(4) [OF assms(1)] by (simp add: assert_ptr_def)
  then show ?thesis unfolding mem_send_msg_def
    by (auto intro!: run_rel_bind [OF send_header_memory [OF assms]] run_rel_bind [OF send_body_memory [OF _ assms(2)]])
qed

lemma endpoint_send_memory:
  assumes "message m p L R" "finite_rest R"
  shows "run_rel (beside p L R) (hms_endpoint_send_msg E ep (Some (msg_of L)) s) (mem_endpoint_send_msg E A ep p m s)"
  unfolding hms_endpoint_send_msg_def mem_endpoint_send_msg_def
  using send_memory [OF assms] by (auto intro!: run_rel_same)

lemma connector_send_memory:
  assumes "message m p L R" "finite_rest R"
  shows "run_rel (beside p L R) (hms_connector_send_msg E c (Some (msg_of L)) s) (mem_connector_send_msg E A c p m s)"
  unfolding hms_connector_send_msg_def mem_connector_send_msg_def
  using send_memory [OF assms] by (auto intro!: run_rel_same)

end

subsection \<open>A second message\<close>

text \<open>When the memory beside a message is as before, so is the message.\<close>

lemma message_contents:
  assumes "message m p L R" "contents m' = contents m"
  shows "message m' p L R"
proof -
  have eqs: "msgs m' = msgs m" "chars m' = chars m" "uheaders m' = uheaders m" "nheaders m' = nheaders m"
    "other_heads m' {} = other_heads m {}" using assms(2) by (simp_all add: contents_def)
  have h: "mapped m' q = mapped m q \<and> (mapped m q \<longrightarrow> next_of m' q = next_of m q \<and> prev_of m' q = prev_of m q)" for q
    using fun_cong [OF eqs(5), of q] by (auto simp: other_heads_def split: if_splits)
  have "ring m' a xs" if "ring m a xs" for a xs
    using that ring_cong [of a xs m' m] h by (auto simp: ring_def is_head_def)
  moreover have "other_heads m' B = other_heads m B" for B using h by (auto simp: other_heads_def)
  ultimately show ?thesis using assms(1) eqs by (simp add: message_def in_memory_def rest_def)
qed

text \<open>The verb of a message is read beside another.\<close>

lemma outside_le: "outside g xs = f \<Longrightarrow> f q = Some x \<Longrightarrow> g q = Some x"
  by (auto simp: outside_def restrict_map_def split: if_splits)

lemma answers_get_verb_beside:
  assumes "message m p L R" "message m' q L' (contents m)" "heap_allocator A" "finite_rest R"
  shows "answers m' (hms_msg_get_verb (Some (msg_of L))) (Some (mem_msg_get_verb A p m'))"
proof -
  have r: "outside (msgs m') [(q, struct_of L')] = msgs m" "outside (chars m') (l_chars L') = chars m"
    using messageD(3) [OF assms(2)] by (simp_all add: rest_def contents_def)
  have fin: "finite_memory m'"
    using assms(4) messageD(5) [OF assms(1)] messageD(5) [OF assms(2)] contents_finite by simp
  have p: "p \<noteq> 0" "object (msgs m') p = Inr (struct_of L)"
    using in_memoryD(8,10) [OF messageD(1) [OF assms(1)]] outside_le [OF r(1)] by (auto simp: object_def)
  show ?thesis
  proof (cases "l_verb L")
    case None
    with p show ?thesis by (simp add: answers_def hms_msg_get_verb_def mem_msg_get_verb_def struct_of_def assert_ptr_def)
  next
    case (Some v)
    then have "(fst v, snd v) \<in> set (l_chars L)" by (simp add: l_chars_def)
    then have v: "fst v \<noteq> 0" "object (chars m') (fst v) = Inr (snd v)"
      using in_memoryD(2) [OF messageD(1) [OF assms(1)]] outside_le [OF r(2)] by (auto simp: holds_def object_def)
    from heap_allocator.strdup_new [OF assms(3) fin, of "At (fst v)" "snd v"] v Some p show ?thesis
      by (auto simp: answers_def hms_msg_get_verb_def mem_msg_get_verb_def struct_of_def assert_ptr_def deref_arg_def)
  qed
qed

subsection \<open>The default functions\<close>

definition op_in_memory :: "'s hms_op \<Rightarrow> 's mem_op \<Rightarrow> bool" where
  "op_in_memory f g \<longleftrightarrow>
     (\<forall>ep m p L R s. message m p L R \<longrightarrow> finite_rest R \<longrightarrow> run_rel (handles p R) (f ep (msg_of L) s) (g ep p m s))"

definition default_reply :: "'s env \<Rightarrow> endpoint_base \<Rightarrow> string option \<Rightarrow> hms_msg \<Rightarrow> 's \<Rightarrow> (bool \<times> hms_msg \<times> 's) run" where
  "default_reply E endpoint w reply s =
     (case w of
        None \<Rightarrow>
          bind_run (Some (hms_msg_set_verb (Some reply) (Some ''ERROR''))) (\<lambda>(reply, _).
          bind_run (hms_endpoint_send_msg E (Some endpoint) (Some reply) s) (\<lambda>(_, s).
          returns (True, reply, s)))
      | Some v \<Rightarrow>
          if strcasecmp v ''PING'' = 0 then
            bind_run (Some (hms_msg_set_verb (Some reply) (Some ''PONG''))) (\<lambda>(reply, _).
            bind_run (hms_endpoint_send_msg E (Some endpoint) (Some reply) s) (\<lambda>(_, s).
            returns (False, reply, s)))
          else if strcasecmp v ''INFO'' = 0 then
            bind_run (Some (hms_msg_set_verb (Some reply) (Some ''INFO''))) (\<lambda>(reply, _).
            let (time_buf, s) = env_time E s in
            bind_run (Some (hms_msg_add_named_header (Some reply) (Some ''Localtime'') (Some time_buf)))
              (\<lambda>(reply, _).
            bind_run (hms_endpoint_send_msg E (Some endpoint) (Some reply) s) (\<lambda>(_, s).
            returns (False, reply, s))))
          else if strcasecmp v ''BYE'' = 0 then returns (True, reply, s)
          else returns (True, reply, s))"

lemma default_handle_split:
  "hms_default_handle E endpoint msg s =
     bind_run (Some (hms_msg_get_verb (Some msg))) (\<lambda>(verb, _).
     bind_run (default_reply E endpoint verb hms_msg_create s) (\<lambda>(erred, reply, s).
     bind_run (Some (hms_msg_destroy (Some reply))) (\<lambda>_.
     returns (if \<not> erred then 0 else -1, msg, s))))"
  unfolding hms_default_handle_def default_reply_def Let_def ..

context heap_allocator begin

lemma reply_answer:
  assumes "message m p L R" "finite_rest R"
  shows "run_rel (handles p R)
    (bind_run (hms_endpoint_send_msg E (Some ep) (Some (msg_of L)) s) (\<lambda>(_, s). returns (b, msg_of L, s)))
    (bind_run (mem_endpoint_send_msg E A (Some ep) p m s) (\<lambda>(_, m, s). returns (b, m, s)))"
  by (rule run_rel_bind [OF endpoint_send_memory [OF assms]]) auto

lemma default_reply_memory:
  assumes "message m p L R" "finite_rest R" "case w of None \<Rightarrow> v = 0 | Some b \<Rightarrow> v \<noteq> 0 \<and> deref_arg m (At v) = Inr b"
  shows "run_rel (handles p R) (default_reply E ep w (msg_of L) s) (mem_default_reply E A ep v p m s)"
proof -
  have answer: "run_rel (handles p R)
      (bind_run (Some (hms_msg_set_verb (Some (msg_of L)) (Some t))) (\<lambda>(reply, _).
       bind_run (hms_endpoint_send_msg E (Some ep) (Some reply) s) (\<lambda>(_, s). returns (b, reply, s))))
      (bind_run (Some (mem_msg_set_verb A p (Lit t) m)) (\<lambda>(_, m).
       bind_run (mem_endpoint_send_msg E A (Some ep) p m s) (\<lambda>(_, m, s). returns (b, m, s))))" for t b
    by (rule set_verb_then [OF assms(1,2)], unfold split, rule reply_answer [OF _ assms(2)])
  have info: "run_rel (handles p R)
      (bind_run (Some (hms_msg_set_verb (Some (msg_of L)) (Some t))) (\<lambda>(reply, _).
       let (time_buf, s) = env_time E s in
       bind_run (Some (hms_msg_add_named_header (Some reply) (Some k) (Some time_buf))) (\<lambda>(reply, _).
       bind_run (hms_endpoint_send_msg E (Some ep) (Some reply) s) (\<lambda>(_, s). returns (b, reply, s)))))
      (bind_run (Some (mem_msg_set_verb A p (Lit t) m)) (\<lambda>(_, m).
       let (time_buf, s) = env_time E s in
       bind_run (mem_msg_add_named_header A p (Lit k) (Lit time_buf) m) (\<lambda>(_, m).
       bind_run (mem_endpoint_send_msg E A (Some ep) p m s) (\<lambda>(_, m, s). returns (b, m, s)))))" for t k b
  proof (rule set_verb_then [OF assms(1,2)], cases "env_time E s")
    fix m' L' r c s'
    assume "message m' p L' R" "env_time E s = (c, s')"
    then show "run_rel (handles p R)
      (case (msg_of L', r) of (reply, _) \<Rightarrow> let (time_buf, s) = env_time E s in
       bind_run (Some (hms_msg_add_named_header (Some reply) (Some k) (Some time_buf))) (\<lambda>(reply, _).
       bind_run (hms_endpoint_send_msg E (Some ep) (Some reply) s) (\<lambda>(_, s). returns (b, reply, s))))
      (case (r, m') of (_, m) \<Rightarrow> let (time_buf, s) = env_time E s in
       bind_run (mem_msg_add_named_header A p (Lit k) (Lit time_buf) m) (\<lambda>(_, m).
       bind_run (mem_endpoint_send_msg E A (Some ep) p m s) (\<lambda>(_, m, s). returns (b, m, s))))"
      by (simp add: add_named_then [OF _ assms(2)] reply_answer [OF _ assms(2)])
  qed
  show ?thesis using assms answer info unfolding default_reply_def mem_default_reply_def
    by (cases w) auto
qed

lemma default_handle_memory: "op_in_memory (hms_default_handle E) (mem_default_handle E A)"
  unfolding op_in_memory_def
proof (intro allI impI)
  fix ep m p L R s
  assume m: "message m p L R" "finite_rest R"
  have fin: "finite_rest (contents m)" using m messageD(5) contents_finite by simp
  obtain q m1 L1 where m1: "mem_msg_create A m = Inr (q, m1)" "message m1 q L1 (contents m)" "msg_of L1 = hms_msg_create"
    using create_message [OF refl fin] by blast
  obtain w r where w: "hms_msg_get_verb (Some (msg_of L)) = Inr (w, r)"
    by (cases "l_verb L") (auto simp: hms_msg_get_verb_def)
  obtain v m2 R2 where m2: "mem_msg_get_verb A p m1 = Inr (v, r, m2)" "message m2 q L1 R2" "new_array (contents m) v R2"
    "case w of None \<Rightarrow> v = 0 | Some b \<Rightarrow> v \<noteq> 0 \<and> deref_arg m2 (At v) = Inr b"
  proof (cases w)
    case None
    with answers_message [OF answers_get_verb_beside [OF m(1) m1(2) heap_allocator_axioms m(2)] m1(2)] w that m1(2)
    show ?thesis by (auto simp: new_array_def)
  next
    case (Some b)
    with answers_message [OF answers_get_verb_beside [OF m(1) m1(2) heap_allocator_axioms m(2)] m1(2)] w obtain g m' where
      g: "g \<noteq> 0" "r_chars (contents m) g = None" "mem_msg_get_verb A p m1 = Inr (g, r, m')"
      "message m' q L1 (with_chars (contents m) g b)" by auto
    have "deref_arg m' (At g) = Inr b" using arg_at(2) [OF g(4) _ g(1), of b] by simp
    with g Some that show ?thesis by (auto simp: new_array_def)
  qed
  have fin2: "finite_rest R2" using fin new_array_finite [OF m2(3)] by simp
  have "run_rel (handles q R2) (default_reply E ep w hms_msg_create s) (mem_default_reply E A ep v q m2 s)"
    using default_reply_memory [OF m2(2) fin2 m2(4)] m1(3) by simp
  then show "run_rel (handles p R) (hms_default_handle E ep (msg_of L) s) (mem_default_handle E A ep p m s)"
    unfolding default_handle_split mem_default_handle_def w m1(1) bind_run_simps split m2(1)
  proof (rule handles_bind, unfold split)
    fix e m3 L3 s'
    assume m3: "message m3 q L3 R2"
    obtain m4 where m4: "free_chars v m3 = Inr m4" "message m4 q L3 (contents m)" using new_array_free [OF m3 m2(3)] by blast
    obtain m5 where m5: "mem_msg_destroy q m4 = returns (0, m5)" "contents m5 = contents m" using destroy_message [OF m4(2)] by blast
    show "run_rel (handles p R)
      (bind_run (Some (hms_msg_destroy (Some (msg_of L3)))) (\<lambda>_. returns (if \<not> e then 0 else -1, msg_of L, s')))
      (bind_run (Some (free_chars v m3)) (\<lambda>m. bind_run (mem_msg_destroy q m) (\<lambda>(_, m).
         returns (if \<not> e then 0 else -1, m, s'))))"
      using message_contents [OF m(1) m5(2)] by (auto simp: destroy_msg_of m4(1) m5(1))
  qed
qed

end

subsection \<open>The loop\<close>

definition ops_in_memory :: "'s hms_ops \<Rightarrow> 's mem_ops \<Rightarrow> bool" where
  "ops_in_memory ops mops \<longleftrightarrow>
     rel_option op_in_memory (hms_validate ops) (mem_validate mops) \<and>
     rel_option op_in_memory (hms_accepts ops) (mem_accepts mops) \<and>
     rel_option op_in_memory (hms_handle ops) (mem_handle mops)"

lemma call_op_memory:
  assumes "rel_option op_in_memory f g" "message m p L R" "finite_rest R"
  shows "run_rel (handles p R) (call_op f ep (msg_of L) s) (mem_call_op g ep p m s)"
  using assms by (cases f; cases g) (auto simp: call_op_def mem_call_op_def op_in_memory_def)

context heap_allocator begin

lemma handle_msg_memory:
  assumes "ops_in_memory (ep_ops ep) mops" "message m p L R" "finite_rest R"
  shows "run_rel (handles p R) (handle_msg E ep st (msg_of L) s)
    (mem_handle_msg E A (endpoint_base.truncate ep) mops st p m s)"
proof -
  let ?b = "endpoint_base.truncate ep"
  note ops = assms(1) [unfolded ops_in_memory_def]
  have validate: "run_rel (handles p R)
      (if hms_validate (ep_ops ep) = None then returns (0, msg_of L, s)
       else call_op (hms_validate (ep_ops ep)) ?b (msg_of L) s)
      (if mem_validate mops = None then returns (0, m, s) else mem_call_op (mem_validate mops) ?b p m s)"
    using ops call_op_memory [OF _ assms(2,3), of "hms_validate (ep_ops ep)" "mem_validate mops" ?b s] assms(2)
    by (cases "hms_validate (ep_ops ep)"; cases "mem_validate mops") auto
  have accepts: "run_rel (handles p R) (call_op (hms_accepts (ep_ops ep)) ?b (msg_of L) s)
      (mem_call_op (mem_accepts mops) ?b p m s)" if "message m p L R" for m L s
    by (rule call_op_memory [OF _ that assms(3)]) (simp add: ops)
  have handler: "run_rel (handles p R) (call_op (hms_handle (ep_ops ep)) ?b (msg_of L) s)
      (mem_call_op (mem_handle mops) ?b p m s)" if "message m p L R" for m L s
    by (rule call_op_memory [OF _ that assms(3)]) (simp add: ops)
  have default: "run_rel (handles p R) (hms_default_handle E ?b (msg_of L) s) (mem_default_handle E A ?b p m s)"
    if "message m p L R" for m L s
    using default_handle_memory [of E] that assms(3) by (simp add: op_in_memory_def)
  show ?thesis unfolding handle_msg_def mem_handle_msg_def Let_def
  proof (rule handles_bind [OF validate], unfold split, rule run_rel_if)
    fix valid m L s
    assume m: "message m p L R"
    show "run_rel (handles p R)
       (bind_run (call_op (hms_accepts (ep_ops ep)) ?b (msg_of L) s) (\<lambda>(accepted, msg, s).
         if accepted = 0 then call_op (hms_handle (ep_ops ep)) ?b msg s else hms_default_handle E ?b msg s))
       (bind_run (mem_call_op (mem_accepts mops) ?b p m s) (\<lambda>(accepted, m, s).
         if accepted = 0 then mem_call_op (mem_handle mops) ?b p m s else mem_default_handle E A ?b p m s))"
      by (rule handles_bind [OF accepts [OF m]]) (simp add: handler default)
  qed auto
qed

end

text \<open>A turn of the loop ends with the memory it began with.\<close>

definition emptied :: "rest_memory \<Rightarrow> 'e \<times> 's \<Rightarrow> 'e \<times> msg_memory \<times> 's \<Rightarrow> bool" where
  "emptied R x y \<longleftrightarrow> (case (x, y) of ((e, s), (e', m', s')) \<Rightarrow> e' = e \<and> s' = s \<and> contents m' = R)"

lemma emptied_iff [simp]:
  "emptied R (e, s) y \<longleftrightarrow> (\<exists>m'. y = (e, m', s) \<and> contents m' = R)"
  by (cases y) (auto simp: emptied_def)

context heap_allocator begin

lemma recv_memory:
  assumes "socket (env_read E) pending" "finite_memory m"
  shows "case hms_endpoint_recv_msg ck E (Some ep) s of
      Inl e \<Rightarrow> mem_endpoint_recv_msg ck E A (Some ep) m s = Some (Inl e)
    | Inr ((None, r), s') \<Rightarrow> r = -1 \<and> (\<exists>m'. mem_endpoint_recv_msg ck E A (Some ep) m s = returns (0, r, m', s') \<and>
        contents m' = contents m)
    | Inr ((Some M, r), s') \<Rightarrow> r = 0 \<and> (\<exists>p m' L. mem_endpoint_recv_msg ck E A (Some ep) m s = returns (p, r, m', s') \<and>
        message m' p L (contents m) \<and> msg_of L = M)"
proof (cases "hms_msg_parse ck (env_read E) HERMES_MAX_HDR_SIZE s")
  case (Inl e)
  with parse_memory [OF assms, of ck HERMES_MAX_HDR_SIZE s, unfolded parsed_in_def] show ?thesis
    by (simp add: hms_endpoint_recv_msg_def mem_endpoint_recv_msg_def mem_recv_msg_def)
next
  case (Inr x)
  obtain M s' where x: "x = (M, s')" by (cases x)
  show ?thesis
  proof (cases M)
    case None
    with parse_memory [OF assms, of ck HERMES_MAX_HDR_SIZE s, unfolded parsed_in_def] Inr x show ?thesis
      by (auto simp: hms_endpoint_recv_msg_def mem_endpoint_recv_msg_def mem_recv_msg_def)
  next
    case (Some M')
    with parse_memory [OF assms, of ck HERMES_MAX_HDR_SIZE s, unfolded parsed_in_def] Inr x obtain p m' L where
      m': "mem_msg_parse ck A (env_read E) HERMES_MAX_HDR_SIZE m s = returns (p, m', s')" "message m' p L (contents m)"
      "msg_of L = M'" by auto
    with Inr x Some messageD(4) [OF m'(2)] show ?thesis
      by (auto simp: hms_endpoint_recv_msg_def mem_endpoint_recv_msg_def mem_recv_msg_def)
  qed
qed

lemma loop_memory:
  "handle_endpoint_loop ck E ep st s = Some r \<Longrightarrow>
    \<forall>m. finite_memory m \<longrightarrow> socket (env_read E) pending \<longrightarrow> ops_in_memory (ep_ops ep) mops \<longrightarrow>
    run_rel (emptied (contents m)) (Some r) (mem_handle_endpoint_loop ck E A (endpoint_base.truncate ep) mops st m s)"
proof (erule handle_endpoint_loop.raw_induct [rotated], intro allI impI, goal_cases)
  case (1 loop ck E ep st s r m)
  let ?b = "endpoint_base.truncate ep"
  note rec = recv_memory [OF 1(4,3), of ck ?b s]
  have fin: "finite_rest (contents m)" using 1(3) contents_finite by simp
  show ?case
  proof (cases "hms_endpoint_recv_msg ck E (Some ?b) s")
    case (Inl e)
    with rec 1(2) [symmetric] show ?thesis by (simp add: mem_handle_endpoint_loop.simps)
  next
    case (Inr x)
    obtain M q s1 where x: "x = ((M, q), s1)" by (metis prod.exhaust)
    show ?thesis
    proof (cases M)
      case None
      with rec Inr x 1(2) [symmetric] show ?thesis by (auto simp: mem_handle_endpoint_loop.simps)
    next
      case (Some M')
      with rec Inr x obtain p m1 L where m1: "q = 0" "mem_endpoint_recv_msg ck E A (Some ?b) m s = returns (p, q, m1, s1)"
        "message m1 p L (contents m)" "msg_of L = M'" by auto
      have "run_rel (emptied (contents m))
         (bind_run (handle_msg E ep st (msg_of L) s1) (\<lambda>(st, msg, s).
          bind_run (Some (hms_msg_destroy (Some msg))) (\<lambda>_. if st \<noteq> 0 then returns (st, s) else loop ck E ep st s)))
         (bind_run (mem_handle_msg E A ?b mops st p m1 s1) (\<lambda>(st, m, s).
          bind_run (mem_msg_destroy p m) (\<lambda>(_, m).
          if st \<noteq> 0 then returns (st, m, s) else mem_handle_endpoint_loop ck E A ?b mops st m s)))"
      proof (rule handles_bind [OF handle_msg_memory [OF 1(5) m1(3) fin]], unfold split)
        fix st m2 L2 s2
        assume "message m2 p L2 (contents m)"
        from destroy_message [OF this] obtain m3 where m3: "mem_msg_destroy p m2 = returns (0, m3)" "contents m3 = contents m"
          by blast
        have "finite_memory m3" using fin m3(2) contents_finite by metis
        with 1(1) [of ck E ep st s2] 1(4,5) m3(2) have
          "loop ck E ep st s2 = Some r \<Longrightarrow>
            run_rel (emptied (contents m)) (Some r) (mem_handle_endpoint_loop ck E A ?b mops st m3 s2)" for r by metis
        then show "run_rel (emptied (contents m))
          (bind_run (Some (hms_msg_destroy (Some (msg_of L2)))) (\<lambda>_. if st \<noteq> 0 then returns (st, s2) else loop ck E ep st s2))
          (bind_run (mem_msg_destroy p m2) (\<lambda>(_, m).
            if st \<noteq> 0 then returns (st, m, s2) else mem_handle_endpoint_loop ck E A ?b mops st m s2))"
          using m3 by (cases "loop ck E ep st s2") (auto simp: destroy_msg_of)
      qed
      moreover have "bind_run (handle_msg E ep st (msg_of L) s1) (\<lambda>(st, msg, s).
          bind_run (Some (hms_msg_destroy (Some msg))) (\<lambda>_. if st \<noteq> 0 then returns (st, s) else loop ck E ep st s)) = Some r"
        using 1(2) Inr x Some m1(1,4) by simp
      ultimately show ?thesis using m1(1,2) by (simp add: mem_handle_endpoint_loop.simps)
    qed
  qed
qed

end

subsection \<open>The functions of an endpoint\<close>

definition mem_no_ops :: "'s mem_ops" where
  "mem_no_ops = \<lparr>mem_validate = None, mem_accepts = None, mem_handle = None\<rparr>"

lemma no_ops_memory: "ops_in_memory no_ops mem_no_ops"
  by (simp add: ops_in_memory_def no_ops_def mem_no_ops_def)

lemma default_ops_memory:
  "op_in_memory hms_default_validate mem_default_validate" "op_in_memory hms_default_accepts mem_default_accepts"
  by (auto simp: op_in_memory_def hms_default_validate_def mem_default_validate_def hms_default_accepts_def
    mem_default_accepts_def)

lemma endpoint_ops_memory:
  assumes "heap_allocator A" "ops_in_memory ops mops"
  shows "ops_in_memory (ep_ops (hms_endpoint_init E now fd ops)) (mem_endpoint_ops E A mops)"
proof -
  have r: "rel_option op_in_memory (if f = None then Some d else f) (if g = None then Some d' else g)"
    if "rel_option op_in_memory f g" "op_in_memory d d'" for f g d d'
    using that by (cases f; cases g) auto
  show ?thesis using assms(2)
    by (simp add: ops_in_memory_def hms_endpoint_init_def mem_endpoint_ops_def r [simplified] default_ops_memory
      heap_allocator.default_handle_memory [OF assms(1)] del: not_None_eq)
qed

subsection \<open>Properties\<close>

text \<open>
  C7: A server that runs forever does not grow: for every application whose functions return and behave on memory
  as on values (\<open>ops_in_memory\<close>, which the default functions and those of the copy server do), on every
  connection, the loop of \<open>_hms_handle_endpoint\<close> on memory ends with what it does on values, and if it
  returns, the memory is exactly as before: every message received, every reply, every header buffer, body
  and string is freed, once. It stops the process only where the loop on values does, at a fatal length.
\<close>
theorem server_in_memory:
  assumes "heap_allocator A" "finite_memory m" "ops_in_memory (ep_ops ep) mops"
    "hms_validate (ep_ops ep) = None \<or> op_ok conn_pending (hms_validate (ep_ops ep))"
    "op_ok conn_pending (hms_accepts (ep_ops ep))" "op_ok conn_pending (hms_handle (ep_ops ep))"
  shows "case mem_handle_endpoint_loop ck conn_env A (endpoint_base.truncate ep) mops 0 m c of
      None \<Rightarrow> False
    | Some (Inl e) \<Rightarrow> handle_endpoint_loop ck conn_env ep 0 c = Some (Inl e) \<and>
        (\<exists>t. suffix t (conn_pending c) \<and> fatal_length 1024 t)
    | Some (Inr (status, m', c')) \<Rightarrow> handle_endpoint_loop ck conn_env ep 0 c = returns (status, c') \<and>
        contents m' = contents m"
proof -
  have "server conn_env conn_pending conn_sent conn_up (ep_ops ep)"
    using assms(4-6) by unfold_locales simp_all
  from server.loop_returns [OF this refl, of ck 0 c] obtain r where
    r: "handle_endpoint_loop ck conn_env ep 0 c = Some r"
    "\<forall>e. r = Inl e \<longrightarrow> (\<exists>t. suffix t (conn_pending c) \<and> fatal_length 1024 t)" by blast
  have "run_rel (emptied (contents m)) (Some r)
      (mem_handle_endpoint_loop ck conn_env A (endpoint_base.truncate ep) mops 0 m c)"
    using heap_allocator.loop_memory [OF assms(1) r(1)] assms(2,3) net.socket_axioms by blast
  with r show ?thesis by (cases r) auto
qed

theorem server_in_memory_witness:
  "\<exists>c' m'. mem_handle_endpoint_loop False conn_env fresh_addresses
      (endpoint_base.truncate (hms_endpoint_init conn_env (0, 0) 4 no_ops))
      (mem_endpoint_ops conn_env fresh_addresses mem_no_ops) 0 empty_memory
      \<lparr>arrives = [RData ''Pi'', RData (''ng'' @ [NL, CHR ''.'']), RData (NL # ''BYE'' @ [NL, CHR ''.'', NL])],
       leaves = ([WTake 2], []), clock = []\<rparr> = returns (-1, m', c') \<and>
    contents m' = contents empty_memory \<and> conn_sent c' = ''PONG'' @ [NL, CHR ''.'', NL]"
proof -
  let ?a = "hms_msg_create\<lparr>verb := Some ''Ping''\<rparr>" and ?b = "hms_msg_create\<lparr>verb := Some ''BYE''\<rparr>"
  let ?c = "\<lparr>arrives = [RData ''Pi'', RData (''ng'' @ [NL, CHR ''.'']), RData (NL # ''BYE'' @ [NL, CHR ''.'', NL])],
       leaves = ([WTake 2], []), clock = []\<rparr>"
  have "wire_ok False ?a" "wire_ok False ?b"
    unfolding wire_ok_def int_max_def by (simp_all add: header_ok_def hdr_wf_def named_wf_def hms_msg_create_def
        word_ok_def plain_def dot_line_def body_wf_def checksum_ok_def header_text_def)
  moreover have "lower ''Ping'' = ''ping''" "lower ''BYE'' = ''bye''" by code_simp+
  ultimately obtain c' where c': "handle_endpoint_loop False conn_env (hms_endpoint_init conn_env (0, 0) 4 no_ops) 0 ?c =
      returns (-1, c')" "conn_sent c' = ''PONG'' @ [NL, CHR ''.'', NL]"
    using default_session_loop [of "[?a, ?b]" False ?c "(0, 0)" 4 0]
    by (auto simp: sock_up_def sock_sent_def msg_bytes_def header_text_def hms_msg_create_def goes_on_def)
  have ops: "ops_in_memory (ep_ops (hms_endpoint_init conn_env (0, 0) 4 no_ops)) (mem_endpoint_ops conn_env fresh_addresses mem_no_ops)"
    by (rule endpoint_ops_memory [OF fresh.heap_allocator_axioms no_ops_memory])
  from server_in_memory [OF fresh.heap_allocator_axioms finite_empty_memory ops dflt.validate_ok dflt.accepts_ok dflt.handle_ok,
      of False ?c] c' show ?thesis by (auto split: option.splits sum.splits)
qed

end
