(* ===== verification/Tpool.thy ===== *)
theory Tpool
  imports Hms_Util
begin

section \<open>The thread pool (src/src/tpool/tpool.c, src/src/include/tpool.h)\<close>

text \<open>
  The pool and the queue of work structures, with the memory they live in; an address is a number, 0 is NULL,
  and \<open>works\<close> holds the structures that are allocated. The \<open>routine\<close> of a work structure and its \<open>arg\<close>
  are one value.

  All fields are read and written with \<open>queue_lock\<close> held, except where a pool is torn down. So what a thread
  does from taking the lock to giving it up, at the end or in \<open>pthread_cond_wait\<close>, is one definition here, a
  section, which no other thread can interleave with. Its result says how the thread goes on and which
  condition variables it has signalled. The calls of the pthread library succeed.
\<close>

type_synonym addr = nat

record 'w tpool_work =
  work :: 'w
  next_work :: addr

record 'w tpool =
  num_threads :: int
  max_queue_size :: int
  do_not_block_when_full :: bool
  cur_queue_size :: int
  queue_head :: addr
  queue_tail :: addr
  queue_closed :: bool
  shutdown :: bool
  works :: "addr \<Rightarrow> 'w tpool_work option"

definition tpool_init :: "int \<Rightarrow> int \<Rightarrow> bool \<Rightarrow> 'w tpool" where
  "tpool_init num_worker_threads max_size do_not_block =
     \<lparr>num_threads = num_worker_threads, max_queue_size = max_size,
      do_not_block_when_full = do_not_block, cur_queue_size = 0, queue_head = 0, queue_tail = 0,
      queue_closed = False, shutdown = False, works = (\<lambda>a. None)\<rparr>"

text \<open>An access to a structure; \<open>free\<close>, which does nothing for NULL.\<close>

definition get_work :: "'w tpool \<Rightarrow> addr \<Rightarrow> 'w tpool_work res" where
  "get_work p a = (case works p a of None \<Rightarrow> Inl Undefined | Some x \<Rightarrow> if a = 0 then Inl Undefined else Inr x)"

definition set_work :: "addr \<Rightarrow> 'w tpool_work option \<Rightarrow> 'w tpool \<Rightarrow> 'w tpool" where
  "set_work a x p = p\<lparr>works := (works p)(a := x)\<rparr>"

definition free_work :: "addr \<Rightarrow> 'w tpool \<Rightarrow> 'w tpool res" where
  "free_work a p =
     (if a = 0 then Inr p else bind_res (get_work p a) (\<lambda>_. Inr (set_work a None p)))"

subsection \<open>Adding work\<close>

text \<open>\<open>a\<close> is the address \<open>malloc\<close> returns; the result says whether \<open>queue_not_empty\<close> was broadcast.\<close>

definition enqueue :: "addr \<Rightarrow> 'w \<Rightarrow> 'w tpool \<Rightarrow> ('w tpool \<times> bool) res" where
  "enqueue a w p =
     (let p = set_work a (Some \<lparr>work = w, next_work = 0\<rparr>) p in
      bind_res
        (if cur_queue_size p = 0 then Inr (p\<lparr>queue_tail := a, queue_head := a\<rparr>, True)
         else
           bind_res (get_work p (queue_tail p)) (\<lambda>tail.
           let p = set_work (queue_tail p) (Some (tail\<lparr>next_work := a\<rparr>)) p in
           Inr (p\<lparr>queue_tail := a\<rparr>, False))) (\<lambda>(p, bcast).
      bind_res (int_add (cur_queue_size p) 1) (\<lambda>n.
      Inr (p\<lparr>cur_queue_size := n\<rparr>, bcast))))"

text \<open>
  \<open>tpool_add_work\<close> up to its return or to \<open>pthread_cond_wait (queue_not_full)\<close>, and from there on when it is
  woken up (\<open>first\<close> is false): the \<open>int\<close> returned, or \<open>None\<close> for a thread that waits.
\<close>

definition tpool_add_work ::
    "bool \<Rightarrow> addr \<Rightarrow> 'w \<Rightarrow> 'w tpool \<Rightarrow> ('w tpool \<times> int option \<times> bool) res" where
  "tpool_add_work first a w p =
     (if first \<and> cur_queue_size p = max_queue_size p \<and> do_not_block_when_full p
      then Inr (p, Some (-1), False)
      else if cur_queue_size p = max_queue_size p \<and> \<not> (shutdown p \<or> queue_closed p)
      then Inr (p, None, False)
      else if shutdown p \<or> queue_closed p then Inr (p, Some (-1), False)
      else bind_res (enqueue a w p) (\<lambda>(p, bcast). Inr (p, Some 1, bcast)))"

subsection \<open>The workers\<close>

text \<open>
  Where a worker stands: before it takes the lock at the top of its loop, asleep in
  \<open>pthread_cond_wait (queue_not_empty)\<close>, woken up from there, with a work structure in hand, or gone.
\<close>

datatype worker_pc = WStart | WSleep | WWoken | WRun addr | WExit

definition dequeue :: "'w tpool \<Rightarrow> ('w tpool \<times> addr) res" where
  "dequeue p =
     (let my_workp = queue_head p; p = p\<lparr>cur_queue_size := cur_queue_size p - 1\<rparr> in
      if cur_queue_size p = 0 then Inr (p\<lparr>queue_head := 0, queue_tail := 0\<rparr>, my_workp)
      else bind_res (get_work p my_workp) (\<lambda>x. Inr (p\<lparr>queue_head := next_work x\<rparr>, my_workp)))"

text \<open>
  The locked part of the loop of \<open>tpool_thread\<close>, from its start or from a wake-up; the two flags are the
  broadcast of \<open>queue_not_full\<close> and the signal of \<open>queue_empty\<close>.
\<close>

definition tpool_thread :: "'w tpool \<Rightarrow> ('w tpool \<times> worker_pc \<times> bool \<times> bool) res" where
  "tpool_thread p =
     (if cur_queue_size p = 0 \<and> \<not> shutdown p then Inr (p, WSleep, False, False)
      else if shutdown p then Inr (p, WExit, False, False)
      else
        bind_res (dequeue p) (\<lambda>(p, my_workp).
        Inr (p, WRun my_workp,
             \<not> do_not_block_when_full p \<and> cur_queue_size p = max_queue_size p - 1,
             cur_queue_size p = 0)))"

subsection \<open>Tearing down\<close>

text \<open>
  \<open>tpool_destroy\<close>: up to its first unlock or its wait for \<open>queue_empty\<close>, and from a wake-up there. The
  result is \<open>None\<close> for a thread that waits, else whether it goes on (or returns 0 at once).
\<close>

definition destroy_section :: "'w tpool \<Rightarrow> ('w tpool \<times> bool option)" where
  "destroy_section p =
     (if cur_queue_size p \<noteq> 0 then (p, None) else (p\<lparr>shutdown := True\<rparr>, Some True))"

definition tpool_destroy :: "int \<Rightarrow> 'w tpool \<Rightarrow> ('w tpool \<times> bool option)" where
  "tpool_destroy finish p =
     (if queue_closed p \<or> shutdown p then (p, Some False)
      else
        let p = p\<lparr>queue_closed := True\<rparr> in
        if finish = 1 then destroy_section p else (p\<lparr>shutdown := True\<rparr>, Some True))"

text \<open>The loop that frees the queue, \<open>while (tpool->queue_head != NULL)\<close>.\<close>

partial_function (option) free_queue :: "'w tpool \<Rightarrow> 'w tpool res option" where
  [code]: "free_queue p =
     (if queue_head p = 0 then Some (Inr p)
      else
        (case get_work p (queue_head p) of
           Inl e \<Rightarrow> Some (Inl e)
         | Inr x \<Rightarrow>
             let cur_nodep = next_work x; p = p\<lparr>queue_head := next_work x\<rparr> in
             (case free_work cur_nodep p of
                Inl e \<Rightarrow> Some (Inl e)
              | Inr p \<Rightarrow> free_queue p)))"

end
