(* ===== verification/Tpool_System.thy ===== *)
theory Tpool_System
  imports Tpool
begin

section \<open>The threads of a pool\<close>

text \<open>
  The pool with all threads that use it: its workers, the threads that are in a call of \<open>tpool_add_work\<close>, and
  those in a call of \<open>tpool_destroy\<close>. One step is one section of one thread, in any order. A wait on a
  condition variable ends by a broadcast, by a signal, which wakes one waiting thread if there is one, or
  spuriously. A worker in a routine may itself add work: the call is then that of another thread here, which
  allows more interleavings than there are.

  \<open>pool\<close> is \<open>None\<close> once it has been freed; an access to it is undefined then. \<open>accepted\<close> and \<open>taken\<close> are not in
  the program: the work that was accepted and the work that workers took, in order.
\<close>

datatype 'w adder_pc = AIdle | ACall 'w | ASleep 'w | AWoken 'w | ARet int

text \<open>
  The numbers are the argument \<open>finish\<close> and the loop variable of the joins. A thread asleep in
  \<open>tpool_destroy\<close> has \<open>finish\<close> 1.
\<close>

datatype destroyer_pc =
  DIdle | DCall int | DSleep | DWoken | DNotEmpty int | DNotFull int | DJoin int nat | DFree int | DRet int

record 'w sys =
  pool :: "'w tpool option"
  workers :: "worker_pc list"
  adders :: "nat \<Rightarrow> 'w adder_pc"
  destroyers :: "nat \<Rightarrow> destroyer_pc"
  accepted :: "'w list"
  taken :: "'w list"

definition sys_init :: "nat \<Rightarrow> int \<Rightarrow> bool \<Rightarrow> 'w sys" where
  "sys_init n max_size do_not_block =
     \<lparr>pool = Some (tpool_init (int n) max_size do_not_block), workers = replicate n WStart,
      adders = (\<lambda>c. AIdle), destroyers = (\<lambda>d. DIdle), accepted = [], taken = []\<rparr>"

subsection \<open>Condition variables\<close>

definition wake_workers :: "worker_pc list \<Rightarrow> worker_pc list" where
  "wake_workers ws = map (\<lambda>w. if w = WSleep then WWoken else w) ws"

definition wake_adders :: "(nat \<Rightarrow> 'w adder_pc) \<Rightarrow> nat \<Rightarrow> 'w adder_pc" where
  "wake_adders f c = (case f c of ASleep w \<Rightarrow> AWoken w | x \<Rightarrow> x)"

definition wake_destroyer :: "nat \<Rightarrow> (nat \<Rightarrow> destroyer_pc) \<Rightarrow> nat \<Rightarrow> destroyer_pc" where
  "wake_destroyer d f = (if f d = DSleep then f(d := DWoken) else f)"

subsection \<open>One section of one thread\<close>

definition on_pool :: "'w sys \<Rightarrow> ('w tpool \<Rightarrow> 'b res) \<Rightarrow> 'b res" where
  "on_pool s f = (case pool s of None \<Rightarrow> Inl Undefined | Some p \<Rightarrow> f p)"

definition add_step :: "bool \<Rightarrow> nat \<Rightarrow> addr \<Rightarrow> 'w \<Rightarrow> 'w sys \<Rightarrow> 'w sys res" where
  "add_step first c a w s = on_pool s (\<lambda>p.
     bind_res (tpool_add_work first a w p) (\<lambda>(p, r, bcast).
     Inr (s\<lparr>pool := Some p,
            workers := if bcast then wake_workers (workers s) else workers s,
            adders := (adders s)(c := (case r of None \<Rightarrow> ASleep w | Some r \<Rightarrow> ARet r)),
            accepted := accepted s @ (if r = Some 1 then [w] else [])\<rparr>)))"

definition worker_step :: "nat \<Rightarrow> nat \<Rightarrow> 'w sys \<Rightarrow> 'w sys res" where
  "worker_step i d s = on_pool s (\<lambda>p.
     bind_res (tpool_thread p) (\<lambda>(p', pc, not_full, empty).
     Inr (s\<lparr>pool := Some p',
            workers := (workers s)[i := pc],
            adders := if not_full then wake_adders (adders s) else adders s,
            destroyers := if empty then wake_destroyer d (destroyers s) else destroyers s,
            taken := taken s @
              (case pc of WRun a \<Rightarrow> (case works p a of None \<Rightarrow> [] | Some x \<Rightarrow> [work x]) | _ \<Rightarrow> [])\<rparr>)))"

text \<open>The routine is called through the work structure, and that is freed when it has returned.\<close>

definition worker_run :: "nat \<Rightarrow> addr \<Rightarrow> 'w sys \<Rightarrow> 'w sys res" where
  "worker_run i a s = on_pool s (\<lambda>p.
     bind_res (get_work p a) (\<lambda>_.
     bind_res (free_work a p) (\<lambda>p.
     Inr (s\<lparr>pool := Some p, workers := (workers s)[i := WStart]\<rparr>))))"

definition destroy_step :: "nat \<Rightarrow> int option \<Rightarrow> 'w sys \<Rightarrow> 'w sys res" where
  "destroy_step d start s = on_pool s (\<lambda>p.
     let (p, r) = (case start of Some finish \<Rightarrow> tpool_destroy finish p | None \<Rightarrow> destroy_section p);
         finish = (case start of Some finish \<Rightarrow> finish | None \<Rightarrow> 1)
     in Inr (s\<lparr>pool := Some p,
               destroyers := (destroyers s)
                 (d := (case r of None \<Rightarrow> DSleep | Some go \<Rightarrow> if go then DNotEmpty finish else DRet 0))\<rparr>))"

definition not_empty_step :: "nat \<Rightarrow> int \<Rightarrow> 'w sys \<Rightarrow> 'w sys res" where
  "not_empty_step d f s = on_pool s (\<lambda>p.
     Inr (s\<lparr>workers := wake_workers (workers s), destroyers := (destroyers s)(d := DNotFull f)\<rparr>))"

definition not_full_step :: "nat \<Rightarrow> int \<Rightarrow> 'w sys \<Rightarrow> 'w sys res" where
  "not_full_step d f s = on_pool s (\<lambda>p.
     Inr (s\<lparr>adders := wake_adders (adders s), destroyers := (destroyers s)(d := DJoin f 0)\<rparr>))"

text \<open>
  \<open>pthread_join\<close> returns when the worker has gone; after the last one, \<open>free_step\<close> frees the queue and the
  pool. It is \<open>None\<close> if the loop that frees the queue did not end.
\<close>

definition join_step :: "nat \<Rightarrow> int \<Rightarrow> nat \<Rightarrow> 'w sys \<Rightarrow> 'w sys res" where
  "join_step d f i s = on_pool s (\<lambda>p.
     Inr (s\<lparr>destroyers := (destroyers s)
       (d := if int i < num_threads p then DJoin f (i + 1) else DFree f)\<rparr>))"

definition can_join :: "nat \<Rightarrow> 'w sys \<Rightarrow> bool" where
  "can_join i s = (i < length (workers s) \<longrightarrow> workers s ! i = WExit)"

definition free_step :: "nat \<Rightarrow> 'w sys \<Rightarrow> 'w sys res option" where
  "free_step d s =
     (case pool s of
        None \<Rightarrow> Some (Inl Undefined)
      | Some p \<Rightarrow> map_option (\<lambda>r. bind_res r (\<lambda>p.
          Inr (s\<lparr>pool := None, destroyers := (destroyers s)(d := DRet 0)\<rparr>))) (free_queue p))"

subsection \<open>The steps of the system\<close>

definition fresh :: "'w sys \<Rightarrow> addr \<Rightarrow> bool" where
  "fresh s a \<longleftrightarrow> a \<noteq> 0 \<and> (case pool s of None \<Rightarrow> True | Some p \<Rightarrow> works p a = None)"

inductive tpool_step :: "'w sys \<Rightarrow> 'w sys res \<Rightarrow> bool" for s where
  call_add: "adders s c = AIdle \<Longrightarrow> tpool_step s (Inr (s\<lparr>adders := (adders s)(c := ACall w)\<rparr>))"
| add: "adders s c = ACall w \<Longrightarrow> fresh s a \<Longrightarrow> tpool_step s (add_step True c a w s)"
| add_again: "adders s c = AWoken w \<Longrightarrow> fresh s a \<Longrightarrow> tpool_step s (add_step False c a w s)"
| add_wake: "adders s c = ASleep w \<Longrightarrow> tpool_step s (Inr (s\<lparr>adders := (adders s)(c := AWoken w)\<rparr>))"
| add_return: "adders s c = ARet r \<Longrightarrow> tpool_step s (Inr (s\<lparr>adders := (adders s)(c := AIdle)\<rparr>))"
| worker: "i < length (workers s) \<Longrightarrow> workers s ! i \<in> {WStart, WWoken} \<Longrightarrow>
    (\<exists>e. destroyers s e = DSleep) \<longrightarrow> destroyers s d = DSleep \<Longrightarrow> tpool_step s (worker_step i d s)"
| worker_wake: "i < length (workers s) \<Longrightarrow> workers s ! i = WSleep \<Longrightarrow>
    tpool_step s (Inr (s\<lparr>workers := (workers s)[i := WWoken]\<rparr>))"
| run: "i < length (workers s) \<Longrightarrow> workers s ! i = WRun a \<Longrightarrow> tpool_step s (worker_run i a s)"
| call_destroy: "destroyers s d = DIdle \<Longrightarrow>
    tpool_step s (Inr (s\<lparr>destroyers := (destroyers s)(d := DCall finish)\<rparr>))"
| destroy: "destroyers s d = DCall finish \<Longrightarrow> tpool_step s (destroy_step d (Some finish) s)"
| destroy_wake: "destroyers s d = DSleep \<Longrightarrow>
    tpool_step s (Inr (s\<lparr>destroyers := (destroyers s)(d := DWoken)\<rparr>))"
| destroy_again: "destroyers s d = DWoken \<Longrightarrow> tpool_step s (destroy_step d None s)"
| not_empty: "destroyers s d = DNotEmpty f \<Longrightarrow> tpool_step s (not_empty_step d f s)"
| not_full: "destroyers s d = DNotFull f \<Longrightarrow> tpool_step s (not_full_step d f s)"
| join: "destroyers s d = DJoin f i \<Longrightarrow> can_join i s \<Longrightarrow> tpool_step s (join_step d f i s)"
| free: "destroyers s d = DFree f \<Longrightarrow> free_step d s = Some r \<Longrightarrow> tpool_step s r"

inductive reachable :: "nat \<Rightarrow> int \<Rightarrow> bool \<Rightarrow> 'w sys \<Rightarrow> bool" for n max_size do_not_block where
  start: "reachable n max_size do_not_block (sys_init n max_size do_not_block)"
| step: "reachable n max_size do_not_block s \<Longrightarrow> tpool_step s (Inr s') \<Longrightarrow>
    reachable n max_size do_not_block s'"

end
