(* ===== verification/Tpool_Invariant.thy ===== *)
theory Tpool_Invariant
  imports Tpool_System
begin

section \<open>The invariant of the thread pool\<close>

text \<open>
  The queue as a list of addresses, and an invariant of all threads together that every step preserves. It is
  the basis of the properties in Tpool_Correct.
\<close>

subsection \<open>The queue\<close>

text \<open>The structures from \<open>h\<close> on, linked by \<open>next_work\<close> and ended by NULL.\<close>

fun chain :: "(addr \<Rightarrow> 'w tpool_work option) \<Rightarrow> addr \<Rightarrow> addr list \<Rightarrow> bool" where
  "chain m h [] \<longleftrightarrow> h = 0"
| "chain m h (a # as) \<longleftrightarrow> h = a \<and> a \<noteq> 0 \<and> (\<exists>x. m a = Some x \<and> chain m (next_work x) as)"

definition queue_ok :: "'w tpool \<Rightarrow> addr list \<Rightarrow> bool" where
  "queue_ok p as \<longleftrightarrow> chain (works p) (queue_head p) as \<and> distinct as \<and>
     cur_queue_size p = int (length as) \<and> (as \<noteq> [] \<longrightarrow> queue_tail p = last as)"

definition item :: "'w tpool \<Rightarrow> addr \<Rightarrow> 'w" where
  "item p a = (case works p a of None \<Rightarrow> undefined | Some x \<Rightarrow> work x)"

lemma chain_alloc: "chain m h as \<Longrightarrow> a \<in> set as \<Longrightarrow> a \<noteq> 0 \<and> m a \<noteq> None"
  by (induction m h as rule: chain.induct) auto

lemma chain_other: "chain m h as \<Longrightarrow> a \<notin> set as \<Longrightarrow> chain (m(a := x)) h as"
  by (induction m h as rule: chain.induct) auto

lemma chain_snoc:
  assumes "chain m h (as @ [t])" "distinct (as @ [t])" "a \<notin> set (as @ [t])" "a \<noteq> 0" "m a = Some y"
    "next_work y = 0" "m t = Some x"
  shows "chain (m(t \<mapsto> x\<lparr>next_work := a\<rparr>)) h (as @ [t, a])"
  using assms
proof (induction as arbitrary: h)
  case (Cons b as)
  then show ?case by (cases "m b") auto
qed auto

lemma enqueue_queue:
  assumes "queue_ok p as" "a \<noteq> 0" "works p a = None" "int (length as) < int_max"
  shows "\<exists>p'. enqueue a w p = Inr (p', as = []) \<and> queue_ok p' (as @ [a]) \<and>
    map (item p') (as @ [a]) = map (item p) as @ [w] \<and>
    (\<forall>b. b \<noteq> a \<longrightarrow> (works p' b = None \<longleftrightarrow> works p b = None)) \<and>
    p'\<lparr>works := works p, cur_queue_size := cur_queue_size p, queue_head := queue_head p,
       queue_tail := queue_tail p\<rparr> = p"
proof -
  have new: "a \<notin> set as" using assms(1,3) chain_alloc by (force simp: queue_ok_def)
  have n: "int_add (int (length as)) 1 = Inr (int (length as) + 1)"
    using assms(4) by (simp add: int_min_def)
  show ?thesis
  proof (cases as rule: rev_cases)
    case Nil
    with assms n show ?thesis
      by (simp add: enqueue_def queue_ok_def set_work_def Let_def item_def)
  next
    case (snoc bs t)
    with assms(1) have t: "queue_tail p = t" "t \<noteq> 0" "t \<noteq> a" "cur_queue_size p = int (length as)"
      "chain (works p) (queue_head p) (bs @ [t])" "distinct (bs @ [t])"
      using chain_alloc [of "works p" "queue_head p" as t] new by (auto simp: queue_ok_def)
    obtain x where x: "works p t = Some x" using chain_alloc [OF t(5), of t] by auto
    let ?m = "(works p)(a \<mapsto> \<lparr>work = w, next_work = 0\<rparr>)"
    have "chain ?m (queue_head p) (bs @ [t])" using t(5) new snoc by (intro chain_other) auto
    from chain_snoc [OF this t(6), of a "\<lparr>work = w, next_work = 0\<rparr>" x]
    have c: "chain (?m(t \<mapsto> x\<lparr>next_work := a\<rparr>)) (queue_head p) (bs @ [t, a])"
      using new snoc x t(3) assms(2) by simp
    let ?w = "?m(t \<mapsto> x\<lparr>next_work := a\<rparr>)"
    let ?p = "p\<lparr>works := ?w, queue_tail := a, cur_queue_size := int (length as) + 1\<rparr>"
    have "enqueue a w p = Inr (?p, False)"
      using n t(1-4) x snoc by (simp add: enqueue_def set_work_def get_work_def Let_def)
    moreover have "queue_ok ?p (as @ [a])"
      using c new t(6) snoc by (simp add: queue_ok_def)
    moreover have other: "item ?p b = item p b" if "b \<noteq> a" for b
      using that x by (simp add: item_def)
    moreover have "item ?p a = w" using t(3) by (simp add: item_def)
    moreover have "map (item ?p) as = map (item p) as"
      using new by (intro map_cong refl other) auto
    ultimately show ?thesis
      using snoc x by (intro exI [of _ ?p]) simp
  qed
qed

lemma dequeue_queue:
  assumes "queue_ok p (a # as)"
  shows "\<exists>p'. dequeue p = Inr (p', a) \<and> queue_ok p' as \<and> works p' = works p \<and>
    p'\<lparr>cur_queue_size := cur_queue_size p, queue_head := queue_head p, queue_tail := queue_tail p\<rparr> = p"
proof (cases "as = []")
  case True
  with assms show ?thesis by (simp add: dequeue_def queue_ok_def Let_def)
next
  case False
  from assms obtain x where "works p a = Some x" "chain (works p) (next_work x) as" "a \<noteq> 0"
    "queue_head p = a" by (auto simp: queue_ok_def)
  with assms False show ?thesis
    by (simp add: dequeue_def queue_ok_def Let_def get_work_def)
qed

subsection \<open>The invariant of the system\<close>

text \<open>
  A destroyer is active from its entry into the pool until it has freed it. At most one is; \<open>k\<close> is where it
  stands. A sleeping thread has a reason to sleep, or a broadcast that wakes it is still to come.
\<close>

fun active :: "destroyer_pc \<Rightarrow> bool" where
  "active DIdle = False"
| "active (DCall f) = False"
| "active (DRet r) = False"
| "active _ = True"

fun worker_fine :: "'w tpool \<Rightarrow> addr list \<Rightarrow> destroyer_pc \<Rightarrow> worker_pc \<Rightarrow> bool" where
  "worker_fine p as k (WRun a) = (a \<noteq> 0 \<and> works p a \<noteq> None \<and> a \<notin> set as)"
| "worker_fine p as k WExit = shutdown p"
| "worker_fine p as k WSleep = (cur_queue_size p = 0 \<and> (shutdown p \<longrightarrow> (\<exists>f. k = DNotEmpty f)))"
| "worker_fine p as k _ = True"

fun adder_fine :: "'w tpool \<Rightarrow> destroyer_pc \<Rightarrow> 'w adder_pc \<Rightarrow> bool" where
  "adder_fine p k (ASleep w) = (cur_queue_size p = max_queue_size p \<and> \<not> do_not_block_when_full p \<and>
     (shutdown p \<longrightarrow> (\<exists>f. k = DNotEmpty f \<or> k = DNotFull f)))"
| "adder_fine p k (AWoken w) = (\<not> do_not_block_when_full p)"
| "adder_fine p k _ = True"

definition down :: "'w tpool \<Rightarrow> addr list \<Rightarrow> int \<Rightarrow> bool" where
  "down p as f \<longleftrightarrow> queue_closed p \<and> shutdown p \<and> (f = 1 \<longrightarrow> as = [])"

fun destroyer_fine :: "'w tpool \<Rightarrow> addr list \<Rightarrow> worker_pc list \<Rightarrow> destroyer_pc \<Rightarrow> bool" where
  "destroyer_fine p as ws DSleep = (queue_closed p \<and> \<not> shutdown p \<and> as \<noteq> [])"
| "destroyer_fine p as ws DWoken = (queue_closed p \<and> \<not> shutdown p)"
| "destroyer_fine p as ws (DNotEmpty f) = down p as f"
| "destroyer_fine p as ws (DNotFull f) = down p as f"
| "destroyer_fine p as ws (DJoin f i) = (down p as f \<and> (\<forall>j < i. j < length ws \<longrightarrow> ws ! j = WExit))"
| "destroyer_fine p as ws (DFree f) = (down p as f \<and> (\<forall>w \<in> set ws. w = WExit))"
| "destroyer_fine p as ws _ = (\<not> queue_closed p \<and> \<not> shutdown p)"

definition apart :: "worker_pc list \<Rightarrow> bool" where
  "apart ws \<longleftrightarrow> (\<forall>i < length ws. \<forall>j < length ws. \<forall>a. ws ! i = WRun a \<and> ws ! j = WRun a \<longrightarrow> i = j)"

definition pool_inv :: "'w sys \<Rightarrow> 'w tpool \<Rightarrow> addr list \<Rightarrow> nat \<Rightarrow> bool" where
  "pool_inv s p as d0 \<longleftrightarrow> queue_ok p as \<and> accepted s = taken s @ map (item p) as \<and>
     cur_queue_size p \<le> max_queue_size p \<and> max_queue_size p \<le> int_max \<and>
     num_threads p = int (length (workers s)) \<and> apart (workers s) \<and>
     (\<forall>w \<in> set (workers s). worker_fine p as (destroyers s d0) w) \<and>
     (\<forall>c. adder_fine p (destroyers s d0) (adders s c)) \<and>
     destroyer_fine p as (workers s) (destroyers s d0) \<and>
     (\<forall>e. e \<noteq> d0 \<longrightarrow> \<not> active (destroyers s e))"

definition sys_inv :: "'w sys \<Rightarrow> bool" where
  "sys_inv s \<longleftrightarrow>
     (case pool s of None \<Rightarrow> True | Some p \<Rightarrow> \<exists>as d0. pool_inv s p as d0)"

lemma sys_inv_init: "0 \<le> m \<Longrightarrow> m \<le> int_max \<Longrightarrow> sys_inv (sys_init n m b)"
  by (auto simp: sys_inv_def sys_init_def pool_inv_def tpool_init_def queue_ok_def apart_def
      intro!: exI [of _ "[]"])

text \<open>The effect of an update of one worker, and of a broadcast.\<close>

lemma set_upd: "w \<in> set (ws[i := x]) \<Longrightarrow> w = x \<or> w \<in> set ws"
  using set_update_subset_insert by fastforce

lemma apart_upd: "apart ws \<Longrightarrow> (\<And>a. x = WRun a \<Longrightarrow> WRun a \<notin> set ws) \<Longrightarrow> apart (ws[i := x])"
  unfolding apart_def by (metis length_list_update nth_list_update_eq nth_list_update_neq nth_mem)

lemma apart_done: "apart ws \<Longrightarrow> i < length ws \<Longrightarrow> ws ! i = WRun a \<Longrightarrow> WRun a \<notin> set (ws[i := WStart])"
  unfolding apart_def in_set_conv_nth
  by (metis length_list_update nth_list_update_eq nth_list_update_neq worker_pc.distinct(5))

lemma set_wake: "w \<in> set (wake_workers ws) \<Longrightarrow> w = WWoken \<or> w \<in> set ws \<and> w \<noteq> WSleep"
  by (auto simp: wake_workers_def)

lemma wake_nth:
  "length (wake_workers ws) = length ws"
  "i < length ws \<Longrightarrow> wake_workers ws ! i = WRun a \<longleftrightarrow> ws ! i = WRun a"
  "i < length ws \<Longrightarrow> wake_workers ws ! i = WExit \<longleftrightarrow> ws ! i = WExit"
  by (simp_all add: wake_workers_def)

lemma apart_wake: "apart ws \<Longrightarrow> apart (wake_workers ws)"
  unfolding apart_def by (metis wake_nth(1,2))

lemma adder_wake: "adder_fine p k (f c) \<Longrightarrow> adder_fine p k' (wake_adders f c)"
  by (cases "f c") (auto simp: wake_adders_def)

text \<open>What a step may do to a live pool: leave a live pool that is well-formed again.\<close>

definition lives :: "'w sys res \<Rightarrow> bool" where
  "lives r \<longleftrightarrow> (\<exists>s' p' as' d0. r = Inr s' \<and> pool s' = Some p' \<and> pool_inv s' p' as' d0)"

lemma livesI: "pool_inv s' p' as' d0 \<Longrightarrow> pool s' = Some p' \<Longrightarrow> lives (Inr s')"
  by (auto simp: lives_def)

lemma pool_invD:
  assumes "pool_inv s p as d0"
  shows "queue_ok p as" "cur_queue_size p = int (length as)" "accepted s = taken s @ map (item p) as"
    "cur_queue_size p \<le> max_queue_size p" "max_queue_size p \<le> int_max"
    "num_threads p = int (length (workers s))" "apart (workers s)"
    "\<And>w. w \<in> set (workers s) \<Longrightarrow> worker_fine p as (destroyers s d0) w"
    "\<And>c. adder_fine p (destroyers s d0) (adders s c)"
    "destroyer_fine p as (workers s) (destroyers s d0)"
    "\<And>e. e \<noteq> d0 \<Longrightarrow> \<not> active (destroyers s e)"
  using assms by (auto simp: pool_inv_def queue_ok_def)

lemma destroyer_closed: "destroyer_fine p as ws k \<Longrightarrow> active k = queue_closed p"
  by (cases k) (auto simp: down_def)

lemma destroyer_down: "destroyer_fine p as ws k \<Longrightarrow> shutdown p \<Longrightarrow> queue_closed p"
  by (cases k) (auto simp: down_def)

text \<open>A caller in the critical section of \<open>tpool_add_work\<close>: it is refused, goes to sleep, or puts its job behind the last one.\<close>

lemma put_lives:
  assumes inv: "pool_inv s p as d0" and p: "pool s = Some p" "a \<noteq> 0" "works p a = None"
    and free: "cur_queue_size p \<noteq> max_queue_size p" and off: "\<not> shutdown p" "\<not> queue_closed p"
  shows "lives (add_step first c a w s)"
proof -
  note D = pool_invD [OF inv]
  have "int (length as) < int_max" using D(2,4,5) free by auto
  from enqueue_queue [OF D(1) p(2,3) this, of w] obtain p' where
    e: "enqueue a w p = Inr (p', as = [])" "queue_ok p' (as @ [a])"
    "map (item p') (as @ [a]) = map (item p) as @ [w]"
    "\<forall>b. b \<noteq> a \<longrightarrow> (works p' b = None \<longleftrightarrow> works p b = None)"
    "p'\<lparr>works := works p, cur_queue_size := cur_queue_size p, queue_head := queue_head p,
       queue_tail := queue_tail p\<rparr> = p" by blast
  have same: "num_threads p' = num_threads p" "max_queue_size p' = max_queue_size p"
    "do_not_block_when_full p' = do_not_block_when_full p" "queue_closed p' = queue_closed p"
    "shutdown p' = shutdown p" "cur_queue_size p' = cur_queue_size p + 1"
    using e(2,5) D(2) by (cases p; cases p'; simp add: queue_ok_def)+
  have alloc: "b \<noteq> a \<and> works p' b \<noteq> None" if "works p b \<noteq> None" for b
    using that p(3) e(4) by metis
  let ?ws = "if as = [] then wake_workers (workers s) else workers s" and ?k = "destroyers s d0"
  let ?s = "s\<lparr>pool := Some p', workers := ?ws, adders := (adders s)(c := ARet 1),
    accepted := accepted s @ [w]\<rparr>"
  have w: "worker_fine p' (as @ [a]) ?k w" if w: "w \<in> set ?ws" for w
  proof -
    have "w = WWoken \<or> w \<in> set (workers s) \<and> (w = WSleep \<longrightarrow> as \<noteq> [])"
      using w by (auto split: if_splits dest: set_wake)
    then show ?thesis using D(8) [of w] D(2) off alloc by (cases w) auto
  qed
  have ad: "adder_fine p' ?k (((adders s)(c := ARet 1)) e)" for e
    using D(9) [of e] free off same by (cases "adders s e") auto
  have "destroyer_fine p' (as @ [a]) ?ws ?k"
    using D(10) off same by (cases ?k) (auto simp: down_def)
  then have "pool_inv ?s p' (as @ [a]) d0"
    using w ad e(2,3) D same free unfolding pool_inv_def
    by (auto simp: apart_wake wake_nth)
  then show ?thesis
    using free off p(1) e(1)
    by (auto simp: add_step_def on_pool_def tpool_add_work_def intro!: livesI)
qed

lemma add_lives:
  assumes inv: "pool_inv s p as d0" and p: "pool s = Some p" "a \<noteq> 0" "works p a = None"
    and pc: "if first then adders s c = ACall w else adders s c = AWoken w"
  shows "lives (add_step first c a w s)"
proof (cases "cur_queue_size p = max_queue_size p \<or> shutdown p \<or> queue_closed p")
  note D = pool_invD [OF inv]
  case True
  have stay: "lives (Inr (s\<lparr>pool := Some p, adders := (adders s)(c := x)\<rparr>))"
    if "adder_fine p (destroyers s d0) x" for x
    by (rule livesI [of _ p as d0]) (use inv that in \<open>auto simp: pool_inv_def\<close>)
  have "\<not> first \<longrightarrow> \<not> do_not_block_when_full p"
    using D(9) [of c] pc by auto
  then show ?thesis
    using True p stay [of "ARet (-1)"] stay [of "ASleep w"]
    by (auto simp: add_step_def on_pool_def tpool_add_work_def)
qed (use put_lives [OF inv p] in blast)

text \<open>
  A worker in the critical section of \<open>tpool_thread\<close>: it leaves, goes to sleep, or takes the first structure.
\<close>

lemma dequeue_first:
  assumes "queue_ok p (a # bs)"
  obtains p' where "dequeue p = Inr (p', a)" "queue_ok p' bs" "works p' = works p" "item p' = item p"
    "num_threads p' = num_threads p" "max_queue_size p' = max_queue_size p"
    "do_not_block_when_full p' = do_not_block_when_full p" "queue_closed p' = queue_closed p"
    "shutdown p' = shutdown p" "cur_queue_size p' = cur_queue_size p - 1" "cur_queue_size p' = int (length bs)"
    "a \<noteq> 0" "works p a \<noteq> None" "a \<notin> set bs"
proof -
  from dequeue_queue [OF assms] obtain p' where
    e: "dequeue p = Inr (p', a)" "queue_ok p' bs" "works p' = works p"
    "p'\<lparr>cur_queue_size := cur_queue_size p, queue_head := queue_head p, queue_tail := queue_tail p\<rparr> = p"
    by blast
  have "num_threads p' = num_threads p" "max_queue_size p' = max_queue_size p"
    "do_not_block_when_full p' = do_not_block_when_full p" "queue_closed p' = queue_closed p"
    "shutdown p' = shutdown p" "cur_queue_size p' = cur_queue_size p - 1" "cur_queue_size p' = int (length bs)"
    using e(2,4) assms by (cases p; cases p'; simp add: queue_ok_def)+
  moreover have "a \<noteq> 0" "works p a \<noteq> None" "a \<notin> set bs"
    using assms chain_alloc [of "works p" "queue_head p" "a # bs" a] by (auto simp: queue_ok_def)
  moreover have "item p' = item p" using e(3) by (simp add: item_def fun_eq_iff)
  ultimately show thesis using that e(1-3) by blast
qed

lemma worker_fine_taken:
  assumes fine: "\<And>w. w \<in> set ws \<Longrightarrow> worker_fine p (a # bs) k w" and size: "cur_queue_size p = int (length (a # bs))"
    and sh: "\<not> shutdown p" and a: "a \<noteq> 0" "works p a \<noteq> None" "a \<notin> set bs" and works: "works p' = works p"
    and w: "w \<in> set (ws[i := WRun a])"
  shows "worker_fine p' bs k' w"
proof (cases "w = WRun a")
  case True
  then show ?thesis using a works by simp
next
  case False
  then have "w \<in> set ws" using w set_upd by fastforce
  from fine [OF this] False size sh works show ?thesis by (cases w) simp_all
qed

lemma destroyer_fine_taken:
  assumes inv: "pool_inv s p as d0" and sh: "\<not> shutdown p"
    and p': "queue_closed p' = queue_closed p" "shutdown p' = shutdown p"
    and d: "(\<exists>e. destroyers s e = DSleep) \<longrightarrow> destroyers s d = DSleep"
  shows "destroyer_fine p' bs ws ((if bs = [] then wake_destroyer d (destroyers s) else destroyers s) d0)"
proof (cases "destroyers s d0")
  note D = pool_invD [OF inv]
  case DSleep
  then have "destroyers s d = DSleep" using d by blast
  moreover have "e = d0" if "destroyers s e = DSleep" for e using D(11) [of e] that by auto
  ultimately have "d = d0" by blast
  then show ?thesis using DSleep D(10) p' by (auto simp: wake_destroyer_def)
qed (use pool_invD(10) [OF inv] sh p' in \<open>auto simp: wake_destroyer_def down_def\<close>)

lemma take_lives:
  assumes inv: "pool_inv s p (a # bs) d0" and p: "pool s = Some p" and sh: "\<not> shutdown p"
    and d: "(\<exists>e. destroyers s e = DSleep) \<longrightarrow> destroyers s d = DSleep"
  shows "lives (worker_step i d s)"
proof -
  note D = pool_invD [OF inv]
  from dequeue_first [OF D(1)] obtain p' where e: "dequeue p = Inr (p', a)" "queue_ok p' bs" "works p' = works p"
      "item p' = item p"
    and same: "num_threads p' = num_threads p" "max_queue_size p' = max_queue_size p"
      "do_not_block_when_full p' = do_not_block_when_full p" "queue_closed p' = queue_closed p"
      "shutdown p' = shutdown p" "cur_queue_size p' = cur_queue_size p - 1" "cur_queue_size p' = int (length bs)"
    and a: "a \<noteq> 0" "works p a \<noteq> None" "a \<notin> set bs" .
  let ?nf = "\<not> do_not_block_when_full p' \<and> cur_queue_size p' = max_queue_size p' - 1"
  let ?ds = "if bs = [] then wake_destroyer d (destroyers s) else destroyers s"
  let ?s = "s\<lparr>pool := Some p', workers := (workers s)[i := WRun a],
    adders := if ?nf then wake_adders (adders s) else adders s, destroyers := ?ds, taken := taken s @ [item p a]\<rparr>"
  have act: "active (?ds e) = active (destroyers s e)" for e by (auto simp: wake_destroyer_def)
  note w = worker_fine_taken [where p' = p' and i = i and k' = "?ds d0", OF D(8) D(2) sh a e(3)]
  have ad: "adder_fine p' (?ds d0) (adders ?s c)" for c
    using D(9) [of c] same sh D(2,4) by (cases "adders s c") (auto simp: wake_adders_def)
  note dd = destroyer_fine_taken [OF inv sh same(4,5) d, of bs "(workers s)[i := WRun a]"]
  have ap: "apart ((workers s)[i := WRun a])" by (rule apart_upd [OF D(7)]) (use D(8) [of "WRun a"] in auto)
  have "pool_inv ?s p' bs d0"
    unfolding pool_inv_def using w ad dd act ap D(3-6,11) e(2,4) same by simp
  moreover have "worker_step i d s = Inr ?s"
    using p sh D(2) e(1) a(2) same(7)
    by (auto simp: worker_step_def on_pool_def tpool_thread_def item_def split: option.split)
  ultimately show ?thesis by (auto intro: livesI)
qed

lemma thread_lives:
  assumes inv: "pool_inv s p as d0" and p: "pool s = Some p" and i: "i < length (workers s)"
    and pc: "workers s ! i \<in> {WStart, WWoken}"
    and d: "(\<exists>e. destroyers s e = DSleep) \<longrightarrow> destroyers s d = DSleep"
  shows "lives (worker_step i d s)"
proof -
  note D = pool_invD [OF inv]
  let ?k = "destroyers s d0"
  have stay: "lives (Inr (s\<lparr>pool := Some p, workers := (workers s)[i := x], taken := taken s @ []\<rparr>))"
    if "worker_fine p as ?k x" "\<And>a. x \<noteq> WRun a" "?k = DSleep \<or> ?k = DWoken \<or> x = WExit \<or> \<not> shutdown p" for x
  proof (rule livesI [of _ p as d0])
    have "destroyer_fine p as ((workers s)[i := x]) ?k"
      using D(10) that pc i
      by (cases ?k) (auto simp: down_def nth_list_update dest!: set_upd)
    then show "pool_inv (s\<lparr>pool := Some p, workers := (workers s)[i := x], taken := taken s @ []\<rparr>) p as d0"
      using inv that by (auto simp: pool_inv_def intro: apart_upd dest!: set_upd)
  qed simp
  consider (exits) "shutdown p" | (sleeps) "\<not> shutdown p" "as = []" | (takes) a bs where "\<not> shutdown p" "as = a # bs"
    by (cases as) auto
  then show ?thesis
  proof cases
    case exits
    with p stay [of WExit] show ?thesis by (simp add: worker_step_def on_pool_def tpool_thread_def)
  next
    case sleeps
    with p D(2) stay [of WSleep] show ?thesis by (simp add: worker_step_def on_pool_def tpool_thread_def)
  next
    case takes
    then show ?thesis using take_lives [OF _ p _ d] inv by simp
  qed
qed

lemma destroyer_upd:
  "destroyer_fine p as ws k \<Longrightarrow> i < length ws \<Longrightarrow> ws ! i \<noteq> WExit \<Longrightarrow> destroyer_fine p as (ws[i := x]) k"
  by (cases k) (auto simp: nth_list_update dest!: set_upd)

lemma run_lives:
  assumes inv: "pool_inv s p as d0" and p: "pool s = Some p" and i: "i < length (workers s)"
    and pc: "workers s ! i = WRun a"
  shows "lives (worker_run i a s)"
proof -
  note D = pool_invD [OF inv]
  have in_ws: "WRun a \<in> set (workers s)" using i pc by (metis nth_mem)
  from D(8) [OF in_ws] obtain x where a: "a \<noteq> 0" "works p a = Some x" "a \<notin> set as" by auto
  let ?p = "set_work a None p" and ?s = "s\<lparr>pool := Some (set_work a None p), workers := (workers s)[i := WStart]\<rparr>"
  have items: "map (item ?p) as = map (item p) as"
    using a(3) by (intro map_cong refl) (auto simp: item_def set_work_def)
  have q: "queue_ok ?p as"
    using D(1) a(3) by (auto simp: queue_ok_def set_work_def intro: chain_other)
  have w: "worker_fine ?p as (destroyers s d0) w" if "w \<in> set ((workers s)[i := WStart])" for w
  proof (cases w)
    case (WRun b)
    then have "w \<in> set (workers s)" "b \<noteq> a"
      using that set_upd apart_done [OF D(7) i pc] by fastforce+
    with D(8) [OF this(1)] WRun show ?thesis by (simp add: set_work_def)
  next
    case WSleep
    then have "w \<in> set (workers s)" using that set_upd by fastforce
    from D(8) [OF this] WSleep show ?thesis by (simp add: set_work_def)
  next
    case WExit
    then have "w \<in> set (workers s)" using that set_upd by fastforce
    from D(8) [OF this] WExit show ?thesis by (simp add: set_work_def)
  qed simp_all
  have ad: "adder_fine ?p (destroyers s d0) (adders s c)" for c
    using D(9) [of c] by (cases "adders s c") (simp_all add: set_work_def)
  have "destroyer_fine p as ((workers s)[i := WStart]) (destroyers s d0)"
    using D(10) i pc by (intro destroyer_upd) auto
  then have dd: "destroyer_fine ?p as ((workers s)[i := WStart]) (destroyers s d0)"
    by (cases "destroyers s d0") (simp_all add: set_work_def down_def)
  have ap: "apart ((workers s)[i := WStart])" by (rule apart_upd [OF D(7)]) simp
  have "pool_inv ?s ?p as d0"
    unfolding pool_inv_def using w ad dd ap q D(3-6,11) items by (simp add: set_work_def)
  then show ?thesis
    using p a by (auto simp: worker_run_def on_pool_def get_work_def free_work_def intro!: livesI)
qed

text \<open>A step of a destroyer: it moves itself and wakes others, and only sets flags of the pool.\<close>

lemma destroyer_moves:
  assumes inv: "pool_inv s p as d0" and d: "d = d0 \<or> \<not> queue_closed p"
    and p: "p' = p\<lparr>queue_closed := cl, shutdown := sh\<rparr>"
    and ws: "length ws = length (workers s)" "apart ws"
    and w: "\<forall>w. w \<in> set ws \<longrightarrow> worker_fine p' as k w" and ad: "\<forall>c. adder_fine p' k (ads c)"
    and k: "destroyer_fine p' as ws k"
  shows "lives (Inr (s\<lparr>pool := Some p', workers := ws, adders := ads, destroyers := (destroyers s)(d := k)\<rparr>))"
proof (rule livesI [of _ p' as d])
  note D = pool_invD [OF inv]
  have "\<not> active (destroyers s e)" if "e \<noteq> d" for e
    using D(11) [of e] destroyer_closed [OF D(10)] d that by blast
  moreover have "item p' = item p" by (simp add: p item_def fun_eq_iff)
  ultimately show "pool_inv (s\<lparr>pool := Some p', workers := ws, adders := ads,
      destroyers := (destroyers s)(d := k)\<rparr>) p' as d"
    using D(1,3-6) ws w ad k p by (simp add: pool_inv_def queue_ok_def)
qed simp

lemma inactive_moves:
  assumes "pool_inv s p as d0" "d \<noteq> d0" "\<not> active k"
  shows "lives (Inr (s\<lparr>pool := Some p, destroyers := (destroyers s)(d := k)\<rparr>))"
  by (rule livesI [of _ p as d0]) (use assms in \<open>simp_all add: pool_inv_def\<close>)

lemma fine_any:
  "\<not> shutdown p \<Longrightarrow> worker_fine p as k w \<Longrightarrow> worker_fine p as k' w"
  "\<not> shutdown p \<Longrightarrow> adder_fine p k x \<Longrightarrow> adder_fine p k' x"
  by (cases w; simp) (cases x; simp)

lemma early_moves:
  assumes inv: "pool_inv s p as d0" and sh: "\<not> shutdown p"
    and k: "destroyer_fine p as (workers s) k" and d: "d = d0 \<or> \<not> queue_closed p"
  shows "lives (Inr (s\<lparr>pool := Some p, destroyers := (destroyers s)(d := k)\<rparr>))"
proof -
  note D = pool_invD [OF inv]
  have "lives (Inr (s\<lparr>pool := Some p, workers := workers s, adders := adders s,
      destroyers := (destroyers s)(d := k)\<rparr>))"
    by (rule destroyer_moves [OF inv d, where cl = "queue_closed p" and sh = "shutdown p"])
      (use k D(7) fine_any(1) [OF sh D(8)] fine_any(2) [OF sh D(9)] in simp_all)
  then show ?thesis by simp
qed

lemma section_lives:
  assumes inv: "pool_inv s p as d0" and p: "pool s = Some p" and d: "d = d0 \<or> \<not> queue_closed p"
    and sh: "\<not> shutdown p" and p1: "p1 = p\<lparr>queue_closed := True\<rparr>"
  shows "lives (Inr (s\<lparr>pool := Some p1, destroyers := (destroyers s)(d := DSleep)\<rparr>)) \<or> as = []"
    and "f = 1 \<longrightarrow> as = [] \<Longrightarrow> lives (Inr (s\<lparr>pool := Some (p1\<lparr>shutdown := True\<rparr>),
      destroyers := (destroyers s)(d := DNotEmpty f)\<rparr>))"
proof -
  note D = pool_invD [OF inv]
  let ?k = "destroyers s d0"
  have w: "worker_fine p1 as DSleep w" "worker_fine (p1\<lparr>shutdown := True\<rparr>) as (DNotEmpty f) w"
    if "w \<in> set (workers s)" for w
    using D(8) [OF that] sh by (cases w; simp add: p1)+
  have ad: "adder_fine p1 DSleep (adders s c)" "adder_fine (p1\<lparr>shutdown := True\<rparr>) (DNotEmpty f) (adders s c)" for c
    using D(9) [of c] sh by (cases "adders s c"; simp add: p1)+
  show "lives (Inr (s\<lparr>pool := Some p1, destroyers := (destroyers s)(d := DSleep)\<rparr>)) \<or> as = []"
  proof (cases "as = []")
    case False
    have "lives (Inr (s\<lparr>pool := Some p1, workers := workers s, adders := adders s,
        destroyers := (destroyers s)(d := DSleep)\<rparr>))"
      by (rule destroyer_moves [OF inv d, where cl = True and sh = "shutdown p"])
        (use w ad sh p1 D(7) False in simp_all)
    then show ?thesis by simp
  qed simp
  assume f: "f = 1 \<longrightarrow> as = []"
  have "lives (Inr (s\<lparr>pool := Some (p1\<lparr>shutdown := True\<rparr>), workers := workers s, adders := adders s,
      destroyers := (destroyers s)(d := DNotEmpty f)\<rparr>))"
    by (rule destroyer_moves [OF inv d, where cl = True and sh = True])
      (use w ad sh p1 D(7) f in \<open>simp_all add: down_def\<close>)
  then show "lives (Inr (s\<lparr>pool := Some (p1\<lparr>shutdown := True\<rparr>),
      destroyers := (destroyers s)(d := DNotEmpty f)\<rparr>))" by simp
qed

lemma destroy_lives:
  assumes inv: "pool_inv s p as d0" and p: "pool s = Some p"
    and pc: "case start of Some f \<Rightarrow> destroyers s d = DCall f | None \<Rightarrow> destroyers s d = DWoken"
  shows "lives (destroy_step d start s)"
proof (cases start)
  note D = pool_invD [OF inv]
  case None
  with pc have d: "d = d0" using D(11) [of d] by auto
  with D(10) None pc have sh: "queue_closed p" "\<not> shutdown p" by auto
  then have same: "p = p\<lparr>queue_closed := True\<rparr>" by (cases p) simp
  from sh show ?thesis
    using section_lives(1) [OF inv p _ sh(2) same, where d = d]
      section_lives(2) [OF inv p _ sh(2) same, where d = d and f = 1] d None p D(2)
    by (cases "as = []") (simp_all add: destroy_step_def on_pool_def destroy_section_def)
next
  note D = pool_invD [OF inv]
  case (Some f)
  show ?thesis
  proof (cases "queue_closed p")
    case True
    with D(10) Some pc have "d \<noteq> d0" by auto
    with True Some p show ?thesis
      using inactive_moves [OF inv, of d "DRet 0"]
      by (simp add: destroy_step_def on_pool_def tpool_destroy_def)
  next
    case False
    with D(10) have sh: "\<not> shutdown p" using destroyer_down by blast
    let ?p = "p\<lparr>queue_closed := True\<rparr>"
    show ?thesis
    proof (cases "f = 1 \<and> as \<noteq> []")
      case True
      then show ?thesis
        using section_lives(1) [OF inv p _ sh refl, where d = d] False sh Some p D(2)
        by (simp add: destroy_step_def on_pool_def tpool_destroy_def destroy_section_def)
    next
      case go: False
      then show ?thesis
        using section_lives(2) [OF inv p _ sh refl, where d = d and f = f] False sh Some p D(2)
        by (cases "f = 1") (auto simp: destroy_step_def on_pool_def tpool_destroy_def destroy_section_def Let_def)
    qed
  qed
qed

lemma active_is:
  assumes "pool_inv s p as d0" "active (destroyers s d)"
  shows "d = d0" "destroyer_fine p as (workers s) (destroyers s d)"
  using pool_invD [OF assms(1)] assms(2) by metis+

lemma not_empty_lives:
  assumes inv: "pool_inv s p as d0" and p: "pool s = Some p" and pc: "destroyers s d = DNotEmpty f"
  shows "lives (not_empty_step d f s)"
proof -
  note D = pool_invD [OF inv]
  from active_is [OF inv, of d] pc have d: "d = d0" "down p as f" by simp_all
  have w: "worker_fine p as (DNotFull f) w" if "w \<in> set (wake_workers (workers s))" for w
    using set_wake [OF that] D(8) [of w] by (cases w) auto
  have ad: "adder_fine p (DNotFull f) (adders s c)" for c
    using D(9) [of c] d pc by (cases "adders s c") auto
  have "lives (Inr (s\<lparr>pool := Some p, workers := wake_workers (workers s), adders := adders s,
      destroyers := (destroyers s)(d := DNotFull f)\<rparr>))"
    by (rule destroyer_moves [OF inv, where cl = "queue_closed p" and sh = "shutdown p"])
      (use d w ad D(7) in \<open>simp_all add: wake_nth apart_wake\<close>)
  then show ?thesis using p by (cases s) (simp add: not_empty_step_def on_pool_def)
qed

lemma not_full_lives:
  assumes inv: "pool_inv s p as d0" and p: "pool s = Some p" and pc: "destroyers s d = DNotFull f"
  shows "lives (not_full_step d f s)"
proof -
  note D = pool_invD [OF inv]
  from active_is [OF inv, of d] pc have d: "d = d0" "down p as f" by simp_all
  have w: "worker_fine p as (DJoin f 0) w" if "w \<in> set (workers s)" for w
    using D(8) [OF that] d pc by (cases w) (auto simp: down_def)
  have ad: "adder_fine p (DJoin f 0) (wake_adders (adders s) c)" for c
    by (rule adder_wake) (rule D(9))
  have "lives (Inr (s\<lparr>pool := Some p, workers := workers s, adders := wake_adders (adders s),
      destroyers := (destroyers s)(d := DJoin f 0)\<rparr>))"
    by (rule destroyer_moves [OF inv, where cl = "queue_closed p" and sh = "shutdown p"])
      (use d w ad D(7) in simp_all)
  then show ?thesis using p by (cases s) (simp add: not_full_step_def on_pool_def)
qed

lemma join_lives:
  assumes inv: "pool_inv s p as d0" and p: "pool s = Some p" and pc: "destroyers s d = DJoin f i"
    and "can_join i s"
  shows "lives (join_step d f i s)"
proof -
  note D = pool_invD [OF inv]
  let ?k = "if int i < num_threads p then DJoin f (i + 1) else DFree f"
  from active_is [OF inv, of d] pc have d: "d = d0" "down p as f"
    "\<And>j. j < i \<Longrightarrow> j < length (workers s) \<Longrightarrow> workers s ! j = WExit" by simp_all
  have w: "worker_fine p as ?k w" if "w \<in> set (workers s)" for w
    using D(8) [OF that] d pc by (cases w) auto
  have ad: "adder_fine p ?k (adders s c)" for c
    using D(9) [of c] d pc by (cases "adders s c") auto
  have "destroyer_fine p as (workers s) ?k"
    using d assms(4) D(6) by (auto simp: can_join_def less_Suc_eq in_set_conv_nth)
  then have "lives (Inr (s\<lparr>pool := Some p, workers := workers s, adders := adders s,
      destroyers := (destroyers s)(d := ?k)\<rparr>))"
    by (intro destroyer_moves [OF inv, where cl = "queue_closed p" and sh = "shutdown p"])
      (use d w ad D(7) in simp_all)
  then show ?thesis using p by (cases s) (auto simp: join_step_def on_pool_def)
qed

subsection \<open>Freeing the pool\<close>

text \<open>
  The structure that is freed is the one after the head, so a queue of two or more structures is read after
  it was freed, and the structure of a queue of one is not freed.
\<close>

lemma free_queue_chain:
  assumes "queue_ok p as"
  shows "free_queue p =
    (if as = [] then Some (Inr p)
     else if length as = 1 then Some (Inr (p\<lparr>queue_head := 0\<rparr>))
     else Some (Inl Undefined))"
proof (cases as)
  case Nil
  with assms show ?thesis by (subst free_queue.simps) (simp add: queue_ok_def)
next
  case (Cons a bs)
  then obtain x where a: "queue_head p = a" "a \<noteq> 0" "works p a = Some x"
    "chain (works p) (next_work x) bs" using assms by (auto simp: queue_ok_def)
  show ?thesis
  proof (cases bs)
    case Nil
    with a Cons have "free_queue p = free_queue (p\<lparr>queue_head := 0\<rparr>)"
      by (subst free_queue.simps) (simp add: get_work_def free_work_def)
    also have "\<dots> = Some (Inr (p\<lparr>queue_head := 0\<rparr>))" by (subst free_queue.simps) simp
    finally show ?thesis using Cons Nil by simp
  next
    fix b cs assume bs: "bs = b # cs"
    with a obtain y where b: "next_work x = b" "b \<noteq> 0" "works p b = Some y" by auto
    let ?p = "set_work b None (p\<lparr>queue_head := b\<rparr>)"
    have "free_queue p = free_queue ?p"
      using a b by (subst free_queue.simps) (simp add: get_work_def free_work_def)
    also have "\<dots> = Some (Inl Undefined)"
      using b by (subst free_queue.simps) (simp add: get_work_def set_work_def)
    finally show ?thesis using Cons bs by simp
  qed
qed

text \<open>A step of a system whose pool is well-formed and not yet freed.\<close>

lemma step_lives:
  assumes step: "tpool_step s r" and inv: "pool_inv s p as d0" and p: "pool s = Some p"
  shows "lives r \<or> (\<exists>d f. destroyers s d = DFree f \<and> free_step d s = Some r)"
  using step
proof cases
  note D = pool_invD [OF inv]
  have adder: "lives (Inr (s\<lparr>adders := (adders s)(c := x)\<rparr>))"
    if "adder_fine p (destroyers s d0) x" for c x
    by (rule livesI [of _ p as d0]) (use inv that p in \<open>auto simp: pool_inv_def\<close>)
  { case (call_add c w)
    then show ?thesis using adder [of "ACall w" c] by simp }
  { case (add c w a)
    then show ?thesis using add_lives [OF inv p, of a True c w] by (simp add: fresh_def p) }
  { case (add_again c w a)
    then show ?thesis using add_lives [OF inv p, of a False c w] by (simp add: fresh_def p) }
  { case (add_wake c w)
    then show ?thesis using adder [of "AWoken w" c] D(9) [of c] by simp }
  { case (add_return c r)
    then show ?thesis using adder [of AIdle c] by simp }
  { case (worker i d)
    then show ?thesis using thread_lives [OF inv p, of i d] by simp }
  { case (worker_wake i)
    have "worker_fine p as (destroyers s d0) w" if "w \<in> set ((workers s)[i := WWoken])" for w
      using set_upd [OF that] D(8) [of w] by (cases w) auto
    moreover have "destroyer_fine p as ((workers s)[i := WWoken]) (destroyers s d0)"
      using D(10) worker_wake by (intro destroyer_upd) auto
    moreover have "apart ((workers s)[i := WWoken])" by (rule apart_upd [OF D(7)]) simp
    ultimately have "pool_inv (s\<lparr>workers := (workers s)[i := WWoken]\<rparr>) p as d0"
      using inv by (simp add: pool_inv_def)
    then show ?thesis using worker_wake p by (auto intro!: livesI) }
  { case (run i a)
    then show ?thesis using run_lives [OF inv p, of i a] by simp }
  { case (call_destroy d f)
    have "lives (Inr (s\<lparr>pool := Some p, destroyers := (destroyers s)(d := DCall f)\<rparr>))"
    proof (cases "d = d0")
      case True
      with D(10) call_destroy show ?thesis by (intro early_moves [OF inv]) auto
    next
      case False
      then show ?thesis by (intro inactive_moves [OF inv]) simp_all
    qed
    then show ?thesis using call_destroy p by (cases s) simp }
  { case (destroy d f)
    then show ?thesis using destroy_lives [OF inv p, of d "Some f"] by simp }
  { case (destroy_wake d)
    from active_is [OF inv, of d] destroy_wake have d: "d = d0" "queue_closed p" "\<not> shutdown p" by simp_all
    then have "lives (Inr (s\<lparr>pool := Some p, destroyers := (destroyers s)(d := DWoken)\<rparr>))"
      by (intro early_moves [OF inv]) auto
    then show ?thesis using destroy_wake p by (cases s) simp }
  { case (destroy_again d)
    then show ?thesis using destroy_lives [OF inv p, of d None] by simp }
  { case (not_empty d f)
    then show ?thesis using not_empty_lives [OF inv p] by simp }
  { case (not_full d f)
    then show ?thesis using not_full_lives [OF inv p] by simp }
  { case (join d f i)
    then show ?thesis using join_lives [OF inv p] by simp }
  { case (free d f)
    then show ?thesis by blast }
qed

subsection \<open>What holds in every reachable state\<close>

text \<open>The fields \<open>tpool_init\<close> sets and nothing changes.\<close>

lemma enqueue_settings:
  "enqueue a w p = Inr (p', b) \<Longrightarrow> max_queue_size p' = max_queue_size p \<and>
     do_not_block_when_full p' = do_not_block_when_full p"
  by (auto simp: enqueue_def set_work_def Let_def res_iff split: if_splits)

lemma add_work_settings:
  "tpool_add_work first a w p = Inr (p', r, b) \<Longrightarrow> max_queue_size p' = max_queue_size p \<and>
     do_not_block_when_full p' = do_not_block_when_full p"
  by (auto simp: tpool_add_work_def res_iff split: if_splits dest: enqueue_settings)

lemma thread_settings:
  "tpool_thread p = Inr (p', r, b) \<Longrightarrow> max_queue_size p' = max_queue_size p \<and>
     do_not_block_when_full p' = do_not_block_when_full p"
  by (auto simp: tpool_thread_def dequeue_def Let_def res_iff split: if_splits)

lemma free_settings:
  "free_work a p = Inr p' \<Longrightarrow> max_queue_size p' = max_queue_size p \<and>
     do_not_block_when_full p' = do_not_block_when_full p"
  by (auto simp: free_work_def set_work_def res_iff split: if_splits)

lemma destroy_settings:
  "tpool_destroy f p = (p', r) \<Longrightarrow> max_queue_size p' = max_queue_size p \<and>
     do_not_block_when_full p' = do_not_block_when_full p"
  "destroy_section p = (p', r) \<Longrightarrow> max_queue_size p' = max_queue_size p \<and>
     do_not_block_when_full p' = do_not_block_when_full p"
  by (auto simp: tpool_destroy_def destroy_section_def Let_def split: if_splits)

lemma on_pool_Inr:
  "on_pool s f = Inr x \<longleftrightarrow> (\<exists>p. pool s = Some p \<and> f p = Inr x)"
  "Inr x = on_pool s f \<longleftrightarrow> (\<exists>p. pool s = Some p \<and> f p = Inr x)"
  by (auto simp: on_pool_def split: option.splits)

lemma step_settings:
  assumes "tpool_step s (Inr s')" "pool s' = Some p'"
  shows "\<exists>p. pool s = Some p \<and> max_queue_size p' = max_queue_size p \<and>
    do_not_block_when_full p' = do_not_block_when_full p \<and> length (workers s') = length (workers s)"
  using assms(1)
proof cases
  case (free d f)
  then show ?thesis using assms(2) by (auto simp: free_step_def res_iff split: option.splits)
next
  case (destroy d f)
  then show ?thesis using assms(2) destroy_settings(1)
    by (cases "pool s") (auto simp: destroy_step_def on_pool_def split: prod.split_asm)
next
  case (destroy_again d)
  then show ?thesis using assms(2) destroy_settings(2)
    by (cases "pool s") (auto simp: destroy_step_def on_pool_def split: prod.split_asm)
qed (use assms(2) in \<open>auto simp: add_step_def worker_step_def worker_run_def not_empty_step_def
    not_full_step_def join_step_def on_pool_Inr res_iff wake_nth
    split: option.splits prod.splits dest!: add_work_settings thread_settings free_settings\<close>)

lemma reachable_settings:
  "reachable n m b s \<Longrightarrow> pool s = Some p \<Longrightarrow>
     max_queue_size p = m \<and> do_not_block_when_full p = b \<and> length (workers s) = n"
proof (induction arbitrary: p rule: reachable.induct)
  case (step s s')
  then show ?case using step_settings [OF step.hyps(2) step.prems] by auto
qed (auto simp: sys_init_def tpool_init_def)

lemma reachable_inv:
  assumes "reachable n m b s" "0 \<le> m" "m \<le> int_max"
  shows "sys_inv s"
  using assms(1)
proof induction
  case (step s s')
  show ?case
  proof (cases "pool s'")
    case (Some p')
    then obtain p where p: "pool s = Some p" using step_settings [OF step.hyps(2)] by auto
    with step.IH obtain as d0 where "pool_inv s p as d0" by (auto simp: sys_inv_def)
    from step_lives [OF step.hyps(2) this p] Some p show ?thesis
      by (auto simp: sys_inv_def lives_def free_step_def res_iff split: option.splits)
  qed (simp add: sys_inv_def)
qed (use assms sys_inv_init in blast)

lemma reachable_pool:
  assumes "reachable n m b s" "0 \<le> m" "m \<le> int_max" "pool s = Some p"
  obtains as d0 where "pool_inv s p as d0" "max_queue_size p = m" "length (workers s) = n"
  using reachable_inv [OF assms(1-3)] reachable_settings [OF assms(1,4)] assms(4) by (auto simp: sys_inv_def)

text \<open>When a step is undefined.\<close>

lemma step_fault_iff:
  assumes "reachable n m b s" "0 \<le> m" "m \<le> int_max" "pool s = Some p"
  shows "tpool_step s (Inl e) \<longleftrightarrow>
    e = Undefined \<and> (\<exists>d f. destroyers s d = DFree f \<and> f \<noteq> 1 \<and> 2 \<le> cur_queue_size p)"
proof -
  obtain as d0 where inv: "pool_inv s p as d0" "max_queue_size p = m" "length (workers s) = n"
    using reachable_pool [OF assms] .
  note D = pool_invD [OF inv(1)]
  have free: "free_step d s = Some (Inl e) \<longleftrightarrow> e = Undefined \<and> 2 \<le> cur_queue_size p" for d
    using D(2) free_queue_chain [OF D(1)] assms(4) by (cases as; cases "tl as") (auto simp: free_step_def)
  show ?thesis
  proof
    assume "tpool_step s (Inl e)"
    from step_lives [OF this inv(1) assms(4)] obtain d f where
      d: "destroyers s d = DFree f" "free_step d s = Some (Inl e)" by (auto simp: lives_def)
    moreover have "f = 1 \<longrightarrow> as = []" using active_is(2) [OF inv(1), of d] d(1) by (simp add: down_def)
    ultimately show "e = Undefined \<and> (\<exists>d f. destroyers s d = DFree f \<and> f \<noteq> 1 \<and> 2 \<le> cur_queue_size p)"
      using free D(2) by (intro conjI exI [of _ d] exI [of _ f]) auto
  next
    assume "e = Undefined \<and> (\<exists>d f. destroyers s d = DFree f \<and> f \<noteq> 1 \<and> 2 \<le> cur_queue_size p)"
    then show "tpool_step s (Inl e)" using free tpool_step.free by blast
  qed
qed

text \<open>After the pool was freed all workers have ended.\<close>

lemma freed_workers:
  assumes "reachable n m b s" "0 \<le> m" "m \<le> int_max" "pool s = None"
  shows "set (workers s) \<subseteq> {WExit}"
  using assms(1,4)
proof induction
  case (step s s')
  show ?case
  proof (cases "pool s")
    case None
    from step.hyps(2) show ?thesis
    proof cases
      case (worker i d)
      then show ?thesis using None by (simp add: worker_step_def on_pool_def)
    next
      case (worker_wake i)
      then show ?thesis using step.IH [OF None] by (metis nth_mem singletonD subsetD worker_pc.distinct(13))
    qed (use None step.IH [OF None] in \<open>auto simp: add_step_def worker_run_def not_empty_step_def not_full_step_def
        join_step_def destroy_step_def free_step_def on_pool_def\<close>)
  next
    case (Some p)
    obtain as d0 where inv: "pool_inv s p as d0" "max_queue_size p = m" "length (workers s) = n"
      using reachable_pool [OF step.hyps(1) assms(2,3) Some] .
    from step_lives [OF step.hyps(2) inv(1) Some] step.prems obtain d f where
      d: "destroyers s d = DFree f" "free_step d s = Some (Inr s')" by (auto simp: lives_def)
    then have "set (workers s) \<subseteq> {WExit}" using active_is(2) [OF inv(1), of d] by auto
    then show ?thesis using d(2) Some by (auto simp: free_step_def res_iff)
  qed
qed (simp add: sys_init_def tpool_init_def)

end
