(* ===== verification/Tpool_Correct.thy ===== *)
theory Tpool_Correct
  imports Tpool_Invariant
begin

section \<open>Correctness of the thread pool\<close>

text \<open>
  Runs of the system to test the model and to apply the properties to, and the properties: what holds in every
  reachable state, whatever the threads do and however they are interleaved.
\<close>

subsection \<open>Runs\<close>

text \<open>Steps given by who takes them, to compute runs of the system.\<close>

datatype 'w action =
  CallAdd nat 'w | Add nat addr | Thread nat nat | Run nat | CallDestroy nat int | Destroy nat |
  NotEmpty nat | NotFull nat | Join nat

fun act :: "'w action \<Rightarrow> 'w sys \<Rightarrow> 'w sys res option" where
  "act (CallAdd c w) s =
     (case adders s c of AIdle \<Rightarrow> Some (Inr (s\<lparr>adders := (adders s)(c := ACall w)\<rparr>)) | _ \<Rightarrow> None)"
| "act (Add c a) s =
     (case adders s c of ACall w \<Rightarrow> if fresh s a then Some (add_step True c a w s) else None | _ \<Rightarrow> None)"
| "act (Thread i d) s =
     (if i < length (workers s) \<and> workers s ! i \<in> {WStart, WWoken} \<and>
         ((\<exists>e. destroyers s e = DSleep) \<longrightarrow> destroyers s d = DSleep)
      then Some (worker_step i d s) else None)"
| "act (Run i) s =
     (if i < length (workers s) then (case workers s ! i of WRun a \<Rightarrow> Some (worker_run i a s) | _ \<Rightarrow> None)
      else None)"
| "act (CallDestroy d f) s =
     (if destroyers s d = DIdle then Some (Inr (s\<lparr>destroyers := (destroyers s)(d := DCall f)\<rparr>)) else None)"
| "act (Destroy d) s =
     (case destroyers s d of DCall f \<Rightarrow> Some (destroy_step d (Some f) s)
      | DWoken \<Rightarrow> Some (destroy_step d None s) | _ \<Rightarrow> None)"
| "act (NotEmpty d) s = (case destroyers s d of DNotEmpty f \<Rightarrow> Some (not_empty_step d f s) | _ \<Rightarrow> None)"
| "act (NotFull d) s = (case destroyers s d of DNotFull f \<Rightarrow> Some (not_full_step d f s) | _ \<Rightarrow> None)"
| "act (Join d) s =
     (case destroyers s d of DJoin f i \<Rightarrow> if can_join i s then Some (join_step d f i s) else None | _ \<Rightarrow> None)"

lemma act_step: "act a s = Some r \<Longrightarrow> tpool_step s r"
  by (cases "(a, s)" rule: act.cases)
    (auto intro: tpool_step.intros split: if_split_asm adder_pc.split_asm worker_pc.split_asm destroyer_pc.split_asm)

fun acts :: "'w action list \<Rightarrow> 'w sys \<Rightarrow> 'w sys option" where
  "acts [] s = Some s"
| "acts (a # as) s = (case act a s of Some (Inr s') \<Rightarrow> acts as s' | _ \<Rightarrow> None)"

lemma acts_reachable: "acts as s = Some s' \<Longrightarrow> reachable n m b s \<Longrightarrow> reachable n m b s'"
  by (induction as s rule: acts.induct)
    (auto intro: reachable.step act_step split: option.split_asm sum.split_asm)

lemmas run_defs = sys_init_def tpool_init_def add_step_def worker_step_def worker_run_def destroy_step_def
  not_empty_step_def not_full_step_def join_step_def can_join_def on_pool_def fresh_def tpool_add_work_def
  enqueue_def set_work_def get_work_def free_work_def tpool_thread_def dequeue_def tpool_destroy_def
  destroy_section_def wake_workers_def wake_destroyer_def Let_def int_max_def int_min_def

text \<open>A worker that slept was woken by the first of two additions.\<close>

definition two_queued :: "nat sys" where
  "two_queued =
     \<lparr>pool = Some (\<lparr>num_threads = 1, max_queue_size = 10, do_not_block_when_full = True, cur_queue_size = 2,
        queue_head = 1, queue_tail = 2, queue_closed = False, shutdown = False,
        works = (\<lambda>a. None)(1 \<mapsto> \<lparr>work = 7, next_work = 2\<rparr>, 2 \<mapsto> \<lparr>work = 8, next_work = 0\<rparr>)\<rparr>),
      workers = [WWoken], adders = (\<lambda>c. AIdle)(0 := ARet 1, 1 := ARet 1), destroyers = (\<lambda>d. DIdle),
      accepted = [7, 8], taken = []\<rparr>"

lemma two_queued_run:
  "acts [Thread 0 0, CallAdd 0 7, Add 0 1, CallAdd 1 8, Add 1 2] (sys_init 1 10 True) = Some two_queued"
  by (simp add: run_defs two_queued_def fun_upd_twist)

lemma two_queued: "reachable 1 10 True two_queued"
  by (rule acts_reachable [OF two_queued_run reachable.start])

text \<open>The pool is then torn down without waiting for the queue.\<close>

definition torn_down :: "nat sys" where
  "torn_down = two_queued
     \<lparr>pool := map_option (\<lambda>p. p\<lparr>queue_closed := True, shutdown := True\<rparr>) (pool two_queued),
      workers := [WExit], destroyers := (\<lambda>d. DIdle)(0 := DFree 0)\<rparr>"

lemma torn_down_run:
  "acts [CallDestroy 0 0, Destroy 0, NotEmpty 0, NotFull 0, Thread 0 0, Join 0, Join 0] two_queued =
     Some torn_down"
  by (simp add: run_defs wake_adders_def two_queued_def torn_down_def fun_eq_iff)

lemma torn_down: "reachable 1 10 True torn_down"
  by (rule acts_reachable [OF torn_down_run two_queued])

text \<open>It is torn down after the queue was drained: the destroyer waits and is woken by the worker.\<close>

definition drained :: "nat sys" where
  "drained = two_queued
     \<lparr>pool := map_option (\<lambda>p. p\<lparr>queue_closed := True, shutdown := True, cur_queue_size := 0, queue_head := 0,
        queue_tail := 0, works := \<lambda>a. None\<rparr>) (pool two_queued),
      workers := [WExit], destroyers := (\<lambda>d. DIdle)(0 := DFree 1), taken := [7, 8]\<rparr>"

lemma drained_run:
  "acts [CallDestroy 0 1, Destroy 0, Thread 0 0, Run 0, Thread 0 0, Destroy 0, NotEmpty 0, NotFull 0, Run 0,
     Thread 0 0, Join 0, Join 0] two_queued = Some drained"
  by (simp add: run_defs two_queued_def drained_def wake_adders_def fun_upd_def fun_eq_iff)

lemma drained: "reachable 1 10 True drained"
  by (rule acts_reachable [OF drained_run two_queued])

subsection \<open>The properties\<close>

text \<open>
  C19: In every reachable state of a pool in use, the linked work structures are a first-in first-out queue of
  at most \<open>max_queue_size\<close> entries: \<open>queue_head\<close>, \<open>queue_tail\<close> and \<open>cur_queue_size\<close> fit the chain, and the
  work that was accepted is the work the workers took, in that order, followed by the work in the chain. A
  structure in the hands of a worker is allocated, is in no other worker's hands, and is not in the queue.
\<close>

theorem pool_fifo:
  assumes "reachable n m b s" "0 \<le> m" "m \<le> int_max" "pool s = Some p"
  shows "\<exists>as. queue_ok p as \<and> int (length as) \<le> m \<and> accepted s = taken s @ map (item p) as \<and>
    (\<forall>i < n. \<forall>a. workers s ! i = WRun a \<longrightarrow> works p a \<noteq> None \<and> a \<notin> set as \<and>
       (\<forall>j < n. workers s ! j = WRun a \<longrightarrow> j = i))"
proof -
  obtain as d0 where inv: "pool_inv s p as d0" "max_queue_size p = m" "length (workers s) = n"
    using reachable_pool [OF assms] .
  note D = pool_invD [OF inv(1)]
  have "works p a \<noteq> None \<and> a \<notin> set as" if "i < n" "workers s ! i = WRun a" for i a
    using D(8) [of "WRun a"] that inv(3) by (metis nth_mem worker_fine.simps(1))
  then show ?thesis
    using D(1-4,7) inv(2,3) unfolding apart_def by (intro exI [of _ as]) auto
qed

theorem pool_fifo_witness:
  "\<exists>as. queue_ok (the (pool two_queued)) as \<and> int (length as) \<le> 10 \<and>
     accepted two_queued = taken two_queued @ map (item (the (pool two_queued))) as"
  using pool_fifo [OF two_queued, of "the (pool two_queued)"]
  by (force simp: int_max_def two_queued_def)

text \<open>
  C20: No wake-up is lost. While there is work no worker sleeps; while there is room no caller of
  \<open>tpool_add_work\<close> sleeps; when the queue is empty no caller of \<open>tpool_destroy\<close> sleeps. Once the shutdown flag
  is set, a thread that still sleeps has the broadcast that wakes it still to come.
\<close>

theorem pool_no_lost_wakeup:
  assumes "reachable n m b s" "0 \<le> m" "m \<le> int_max" "pool s = Some p"
  shows "(0 < cur_queue_size p \<longrightarrow> WSleep \<notin> set (workers s)) \<and>
    (cur_queue_size p < m \<longrightarrow> (\<forall>c w. adders s c \<noteq> ASleep w)) \<and>
    (cur_queue_size p = 0 \<longrightarrow> (\<forall>d. destroyers s d \<noteq> DSleep)) \<and>
    (shutdown p \<and> WSleep \<in> set (workers s) \<longrightarrow> (\<exists>d f. destroyers s d = DNotEmpty f)) \<and>
    (shutdown p \<longrightarrow> (\<forall>c w. adders s c = ASleep w \<longrightarrow>
       (\<exists>d f. destroyers s d = DNotEmpty f \<or> destroyers s d = DNotFull f)))"
proof -
  obtain as d0 where inv: "pool_inv s p as d0" "max_queue_size p = m"
    using reachable_pool [OF assms] by blast
  note D = pool_invD [OF inv(1)]
  have "as \<noteq> []" if "destroyers s d = DSleep" for d
    using active_is [OF inv(1), of d] that by simp
  moreover have "cur_queue_size p = m \<and> (shutdown p \<longrightarrow>
      (\<exists>d f. destroyers s d = DNotEmpty f \<or> destroyers s d = DNotFull f))" if "adders s c = ASleep w" for c w
    using D(9) [of c] that inv(2) by auto
  moreover have "cur_queue_size p = 0 \<and> (shutdown p \<longrightarrow> (\<exists>d f. destroyers s d = DNotEmpty f))"
    if "WSleep \<in> set (workers s)" using D(8) [OF that] by auto
  ultimately show ?thesis using D(2) by fastforce
qed

theorem pool_no_lost_wakeup_witness:
  "0 < cur_queue_size (the (pool two_queued)) \<and> WSleep \<notin> set (workers two_queued)"
  using pool_no_lost_wakeup [OF two_queued, of "the (pool two_queued)"]
  by (simp add: int_max_def two_queued_def)

text \<open>
  C21: While the pool exists, no step of any thread is undefined, with one exception, and this is exactly when:
  a thread that was told not to wait for the queue frees the pool, and two or more work structures are left in
  the queue. Its loop frees the structure after the head and goes on from there.
\<close>

theorem pool_faults:
  assumes "reachable n m b s" "0 \<le> m" "m \<le> int_max" "pool s = Some p"
  shows "tpool_step s (Inl e) \<longleftrightarrow>
    e = Undefined \<and> (\<exists>d f. destroyers s d = DFree f \<and> f \<noteq> 1 \<and> 2 \<le> cur_queue_size p)"
  using assms by (rule step_fault_iff)

theorem pool_faults_witness: "tpool_step torn_down (Inl Undefined)"
  using pool_faults [OF torn_down, of "the (pool torn_down)" Undefined]
  by (auto simp: int_max_def torn_down_def two_queued_def)

lemma closed_accepts_nothing:
  assumes "tpool_step s (Inr s')" "pool s = Some p" "queue_closed p"
  shows "accepted s' = accepted s"
  using assms(1)
proof cases
  case (destroy d f)
  then show ?thesis using assms(2,3) by (auto simp: destroy_step_def on_pool_def tpool_destroy_def)
next
  case (destroy_again d)
  then show ?thesis using assms(2) by (auto simp: destroy_step_def on_pool_def split: prod.split_asm)
next
  case (free d f)
  then show ?thesis using assms(2) by (auto simp: free_step_def res_iff)
qed (use assms(2,3) in \<open>auto simp: add_step_def worker_step_def worker_run_def not_empty_step_def
    not_full_step_def join_step_def on_pool_Inr tpool_add_work_def res_iff
    split: if_split_asm\<close>)

text \<open>
  C22: When \<open>tpool_destroy\<close> with \<open>finish\<close> 1 is past its wait, all work that was accepted has been taken and no
  more is accepted; when it comes to free the pool every worker has ended, so that the work is done.
\<close>

theorem finish_drains:
  assumes "reachable n m b s" "0 \<le> m" "m \<le> int_max" "pool s = Some p"
    and "destroyers s d = DNotEmpty 1 \<or> destroyers s d = DNotFull 1 \<or> (\<exists>i. destroyers s d = DJoin 1 i) \<or>
      destroyers s d = DFree 1"
  shows "accepted s = taken s \<and> (\<forall>s'. tpool_step s (Inr s') \<longrightarrow> accepted s' = accepted s) \<and>
    (destroyers s d = DFree 1 \<longrightarrow> set (workers s) \<subseteq> {WExit})"
proof -
  obtain as d0 where inv: "pool_inv s p as d0" "max_queue_size p = m" "length (workers s) = n"
    using reachable_pool [OF assms(1-4)] .
  have "destroyer_fine p as (workers s) (destroyers s d)"
    using assms(5) by (intro active_is(2) [OF inv(1)]) auto
  then have "down p as 1" "destroyers s d = DFree 1 \<longrightarrow> set (workers s) \<subseteq> {WExit}"
    using assms(5) by auto
  then show ?thesis
    using pool_invD(3) [OF inv(1)] closed_accepts_nothing [OF _ assms(4)] by (auto simp: down_def)
qed

theorem finish_drains_witness: "accepted drained = taken drained \<and> set (workers drained) \<subseteq> {WExit}"
  using finish_drains [OF drained, of "the (pool drained)" 0]
  by (simp add: int_max_def drained_def two_queued_def)

subsection \<open>A teardown can always be completed\<close>

text \<open>What is left to do until the destroyer \<open>d\<close> may free the pool, as a lexicographic measure.\<close>

fun stage :: "destroyer_pc \<Rightarrow> nat" where
  "stage DSleep = 4"
| "stage DWoken = 4"
| "stage (DNotEmpty f) = 3"
| "stage (DNotFull f) = 2"
| "stage (DJoin f i) = 1"
| "stage _ = 0"

definition left :: "nat \<Rightarrow> 'w sys \<Rightarrow> nat" where
  "left d s = (case destroyers s d of
     DJoin f i \<Rightarrow> length (workers s) - i
   | _ \<Rightarrow> (case pool s of None \<Rightarrow> 0 | Some p \<Rightarrow> nat (cur_queue_size p)))"

fun busy :: "worker_pc \<Rightarrow> nat" where
  "busy (WRun a) = 2"
| "busy WExit = 0"
| "busy _ = 1"

definition rank :: "nat \<Rightarrow> ('w sys \<times> 'w sys) set" where
  "rank d = measures [\<lambda>s. stage (destroyers s d), left d, \<lambda>s. if destroyers s d = DWoken then 1 else 0,
     \<lambda>s. sum_list (map busy (workers s))]"

lemma busy_less:
  assumes "i < length ws" "busy x < busy (ws ! i)"
  shows "sum_list (map busy (ws[i := x])) < sum_list (map busy ws)"
proof -
  have "ws = take i ws @ ws ! i # drop (Suc i) ws" using assms(1) by (rule id_take_nth_drop)
  then have "sum_list (map busy ws) = sum_list (map busy (take i ws)) + busy (ws ! i) +
      sum_list (map busy (drop (Suc i) ws))"
    by (metis (no_types, lifting) add.assoc list.simps(9) map_append sum_list.Cons sum_list_append)
  then show ?thesis using assms by (simp add: upd_conv_take_nth_drop)
qed

text \<open>One step nearer.\<close>

definition nearer :: "nat \<Rightarrow> 'w sys \<Rightarrow> 'w sys \<Rightarrow> bool" where
  "nearer d s s' \<longleftrightarrow> tpool_step s (Inr s') \<and> active (destroyers s' d) \<and> (s', s) \<in> rank d"

lemma run_nearer:
  assumes inv: "pool_inv s p as d" and p: "pool s = Some p" and i: "i < length (workers s)"
    and pc: "workers s ! i = WRun a" and k: "active (destroyers s d)"
  shows "\<exists>s'. nearer d s s'"
proof -
  obtain s' where s': "worker_run i a s = Inr s'" using run_lives [OF inv p i pc] by (auto simp: lives_def)
  then have "destroyers s' = destroyers s" "workers s' = (workers s)[i := WStart]" "left d s' = left d s"
    using p by (auto simp: worker_run_def on_pool_Inr res_iff left_def set_work_def free_work_def
        split: destroyer_pc.splits if_split_asm)
  then have "(s', s) \<in> rank d"
    using busy_less [OF i, of WStart] pc by (simp add: rank_def)
  then show ?thesis
    using tpool_step.run [OF i pc] k s' \<open>destroyers s' = destroyers s\<close> unfolding nearer_def by metis
qed

lemma take_nearer:
  assumes inv: "pool_inv s p as d" and p: "pool s = Some p" and i: "i < length (workers s)"
    and pc: "workers s ! i \<in> {WStart, WWoken}" and k: "destroyers s d = DSleep"
  shows "\<exists>s'. nearer d s s'"
proof -
  note D = pool_invD [OF inv]
  from k D(10) obtain a bs where as: "as = a # bs" "\<not> shutdown p" by (cases as) auto
  from dequeue_queue [OF D(1) [unfolded as]] obtain p' where
    e: "dequeue p = Inr (p', a)" "queue_ok p' bs" by blast
  obtain s' where s': "worker_step i d s = Inr s'"
    using thread_lives [OF inv p i pc] k by (auto simp: lives_def)
  then have s'_is: "pool s' = Some p'" "destroyers s' d = DSleep \<or> destroyers s' d = DWoken"
    using p as e(1) k D(2)
    by (auto simp: worker_step_def on_pool_Inr tpool_thread_def res_iff wake_destroyer_def split: if_split_asm)
  then have "left d s' < left d s"
    using k p e(2) D(2) as by (auto simp: left_def queue_ok_def)
  then have "(s', s) \<in> rank d" using s'_is k by (auto simp: rank_def)
  moreover have "tpool_step s (Inr s')" using tpool_step.worker [OF i pc, of d] k s' by metis
  ultimately show ?thesis using s'_is unfolding nearer_def by auto
qed

lemma exit_nearer:
  assumes p: "pool s = Some p" and i: "i < length (workers s)"
    and pc: "workers s ! i \<in> {WStart, WWoken}" and k: "destroyers s d = DJoin f j" and sh: "shutdown p"
  shows "\<exists>s'. nearer d s s'"
proof -
  obtain d1 where d1: "(\<exists>e. destroyers s e = DSleep) \<longrightarrow> destroyers s d1 = DSleep" by blast
  let ?s = "s\<lparr>pool := Some p, workers := (workers s)[i := WExit], taken := taken s @ []\<rparr>"
  have "worker_step i d1 s = Inr ?s"
    using p sh by (simp add: worker_step_def on_pool_def tpool_thread_def)
  moreover have "(?s, s) \<in> rank d"
    using busy_less [OF i, of WExit] pc k by (auto simp: rank_def left_def)
  ultimately show ?thesis
    using tpool_step.worker [OF i pc d1] k unfolding nearer_def by (intro exI [of _ ?s]) simp
qed

lemma active_nearer:
  assumes inv: "pool_inv s p as d" and p: "pool s = Some p" and n: "workers s \<noteq> []"
    and k: "active (destroyers s d)" "\<forall>f. destroyers s d \<noteq> DFree f"
  shows "\<exists>s'. nearer d s s'"
proof (cases "destroyers s d")
  note D = pool_invD [OF inv]
  case DSleep
  from n have 0: "0 < length (workers s)" by simp
  then have "worker_fine p as DSleep (workers s ! 0)" using D(8) DSleep by (metis nth_mem)
  then show ?thesis
    using D(2) D(10) DSleep run_nearer [OF inv p 0 _ k(1)] take_nearer [OF inv p 0 _ DSleep]
    by (cases "workers s ! 0") auto
next
  note D = pool_invD [OF inv]
  case DWoken
  obtain s' where s': "destroy_step d None s = Inr s'"
    using destroy_lives [OF inv p, of d None] DWoken by (auto simp: lives_def)
  then have "active (destroyers s' d) \<and> (s', s) \<in> rank d"
    using p DWoken by (auto simp: destroy_step_def on_pool_def destroy_section_def rank_def left_def
        split: if_split_asm)
  moreover have "tpool_step s (Inr s')" using tpool_step.destroy_again [OF DWoken] s' by metis
  ultimately show ?thesis unfolding nearer_def by blast
next
  case (DNotEmpty f)
  have "nearer d s (s\<lparr>workers := wake_workers (workers s), destroyers := (destroyers s)(d := DNotFull f)\<rparr>)"
    using tpool_step.not_empty [OF DNotEmpty] p DNotEmpty
    by (simp add: nearer_def not_empty_step_def on_pool_def rank_def)
  then show ?thesis by blast
next
  case (DNotFull f)
  have "nearer d s (s\<lparr>adders := wake_adders (adders s), destroyers := (destroyers s)(d := DJoin f 0)\<rparr>)"
    using tpool_step.not_full [OF DNotFull] p DNotFull
    by (simp add: nearer_def not_full_step_def on_pool_def rank_def)
  then show ?thesis by blast
next
  note D = pool_invD [OF inv]
  case (DJoin f i)
  show ?thesis
  proof (cases "can_join i s")
    case True
    let ?s = "s\<lparr>destroyers := (destroyers s)(d := if int i < num_threads p then DJoin f (i + 1) else DFree f)\<rparr>"
    have "join_step d f i s = Inr ?s" by (simp add: join_step_def on_pool_def p)
    moreover have "(?s, s) \<in> rank d" using DJoin D(6) by (auto simp: rank_def left_def)
    ultimately show ?thesis
      using tpool_step.join [OF DJoin True] unfolding nearer_def by (intro exI [of _ ?s]) simp
  next
    case False
    then have i: "i < length (workers s)" "workers s ! i \<noteq> WExit" by (auto simp: can_join_def)
    have sh: "shutdown p" using D(10) DJoin by (simp add: down_def)
    have "worker_fine p as (DJoin f i) (workers s ! i)" using D(8) DJoin i(1) by (metis nth_mem)
    then show ?thesis
      using sh i(2) run_nearer [OF inv p i(1) _ k(1)] exit_nearer [OF p i(1) _ DJoin sh]
      by (cases "workers s ! i") auto
  qed
qed (use k in simp_all)

definition continues :: "'w sys \<Rightarrow> 'w sys \<Rightarrow> bool" where
  "continues = rtranclp (\<lambda>s s'. tpool_step s (Inr s'))"

lemma wf_rank: "wf (rank d)"
  by (simp add: rank_def)

lemma active_completes:
  assumes "pool_inv s p as d" "pool s = Some p" "workers s \<noteq> []" "active (destroyers s d)"
  shows "\<exists>s' f. continues s s' \<and> destroyers s' d = DFree f \<and> pool s' \<noteq> None"
  using assms
proof (induction s arbitrary: p as rule: wf_induct_rule [OF wf_rank [of d]])
  case (1 s)
  show ?case
  proof (cases "\<exists>f. destroyers s d = DFree f")
    case True
    then show ?thesis using 1(3) by (auto simp: continues_def)
  next
    case False
    then obtain s1 where s1: "tpool_step s (Inr s1)" "active (destroyers s1 d)" "(s1, s) \<in> rank d"
      using active_nearer [OF 1(2-5)] by (auto simp: nearer_def)
    have "e = d" if "active (destroyers s e)" for e using active_is(1) [OF 1(2) that] .
    then have "lives (Inr s1)" using step_lives [OF s1(1) 1(2,3)] False active.simps(9) by metis
    then obtain p1 as1 d1 where p1: "pool s1 = Some p1" "pool_inv s1 p1 as1 d1" by (auto simp: lives_def)
    with s1(2) have "d1 = d" using active_is(1) by metis
    moreover have "workers s1 \<noteq> []" using step_settings [OF s1(1) p1(1)] 1(4) by auto
    ultimately obtain s' f where "continues s1 s'" "destroyers s' d = DFree f" "pool s' \<noteq> None"
      using 1(1) [OF s1(3)] p1 s1(2) by metis
    then show ?thesis
      using s1(1) by (metis (mono_tags, lifting) continues_def converse_rtranclp_into_rtranclp)
  qed
qed

text \<open>
  C23: A teardown cannot get stuck. From every reachable state in which a thread is in \<open>tpool_destroy\<close>, asleep or
  not, and whatever \<open>finish\<close> was, there is a continuation in which it comes to free the pool, all workers gone;
  the pool has at least one worker, and the routines return.
\<close>

theorem destroy_completes:
  assumes "reachable n m b s" "0 \<le> m" "m \<le> int_max" "pool s = Some p" "0 < n" "active (destroyers s d)"
  shows "\<exists>s' f. continues s s' \<and> reachable n m b s' \<and> destroyers s' d = DFree f \<and> set (workers s') \<subseteq> {WExit}"
proof -
  obtain as d0 where inv: "pool_inv s p as d0" "max_queue_size p = m" "length (workers s) = n"
    using reachable_pool [OF assms(1-4)] .
  have "d = d0" using active_is(1) [OF inv(1) assms(6)] .
  then obtain s' f p' where s': "continues s s'" "destroyers s' d = DFree f" "pool s' = Some p'"
    using active_completes [of s p as d] inv assms(4-6) by auto
  have r: "reachable n m b s'"
    using s'(1) assms(1) unfolding continues_def by induction (auto intro: reachable.step)
  obtain as' d' where inv': "pool_inv s' p' as' d'" "max_queue_size p' = m" "length (workers s') = n"
    using reachable_pool [OF r assms(2,3) s'(3)] .
  have "set (workers s') \<subseteq> {WExit}" using active_is(2) [OF inv'(1), of d] s'(2) by auto
  with r show ?thesis using s' by blast
qed

text \<open>The destroyer asleep, with two structures queued.\<close>

definition waiting :: "nat sys" where
  "waiting = two_queued
     \<lparr>pool := map_option (\<lambda>p. p\<lparr>queue_closed := True\<rparr>) (pool two_queued),
      destroyers := (\<lambda>d. DIdle)(0 := DSleep)\<rparr>"

lemma waiting_run: "acts [CallDestroy 0 1, Destroy 0] two_queued = Some waiting"
  by (simp add: run_defs two_queued_def waiting_def)

theorem destroy_completes_witness:
  "\<exists>s' f. continues waiting s' \<and> reachable 1 10 True s' \<and> destroyers s' 0 = DFree f \<and> set (workers s') \<subseteq> {WExit}"
  by (rule destroy_completes [OF acts_reachable [OF waiting_run two_queued], of "the (pool waiting)"])
    (simp_all add: int_max_def waiting_def two_queued_def)

end
