(* ===== verification/Manager.thy ===== *)
theory Manager
  imports Hermes Tpool_System
begin

section \<open>The server (hermes_init, hermes_shutdown and _hms_listen in src/src/hms/hermes.c)\<close>

text \<open>
  The manager with its thread pool. Three threads are in its code: the one that calls \<open>hermes_init\<close> and later
  \<open>hermes_shutdown\<close>, once; the listener, which is a routine a worker of the pool runs; and the other workers,
  which handle connections. So the state is the manager's struct, the threads of the pool (Tpool_System, with
  jobs as work), and where the first two stand. They use the pool only through \<open>tpool_add_work\<close>, as its callers
  0 (the listener) and 1, and \<open>tpool_destroy\<close>, as caller 0. Beside them is what the process does on SIGPIPE, which
  is for all its threads.

  A field that was never set is \<open>None\<close>. \<open>hms_accepts\<close> of \<open>dops\<close> is never set; nothing reads \<open>dops\<close>.
\<close>

datatype 's job = Listen | Handle "'s hms_endpoint"

record 's hms =
  server_socket :: "int option"
  server_port :: int
  manager_shutdown :: bool
  manager_num_threads :: int
  dops :: "'s hms_ops"
  ops :: "'s hms_ops"

datatype main_pc = MInit | MReady | MShutdown | MDone

text \<open>
  The listener: not started, before it opens its socket (the number is \<open>sleep_time\<close>), in \<open>accept\<close>, in
  \<open>tpool_add_work\<close>, returned.
\<close>

datatype listen_pc = LWait | LOpen nat | LAccept | LAdd | LReturned

text \<open>
  \<open>slept\<close>, \<open>forced\<close>, \<open>connections\<close> and \<open>dropped\<close> are not in the program: the seconds slept; the argument of the
  call of \<open>hermes_shutdown\<close>; the connections that \<open>accept\<close> returned, those for which an endpoint was made and the
  sockets of those that were left when the listener saw the shutdown flag.
\<close>

record 's server =
  manager :: "'s hms"
  threads :: "'s job sys"
  main :: main_pc
  listener :: listen_pc
  sigpipe :: sig_action
  slept :: "nat list"
  forced :: "int option"
  connections :: "'s hms_endpoint list"
  dropped :: "int list"

definition set_adder :: "nat \<Rightarrow> 's job adder_pc \<Rightarrow> 's server \<Rightarrow> 's server" where
  "set_adder c x s = s\<lparr>threads := (threads s)\<lparr>adders := (adders (threads s))(c := x)\<rparr>\<rparr>"

definition set_destroyer :: "nat \<Rightarrow> destroyer_pc \<Rightarrow> 's server \<Rightarrow> 's server" where
  "set_destroyer d x s = s\<lparr>threads := (threads s)\<lparr>destroyers := (destroyers (threads s))(d := x)\<rparr>\<rparr>"

subsection \<open>Starting\<close>

text \<open>
  \<open>hermes_init\<close> up to its call of \<open>tpool_add_work\<close>, if there is one, and from its return. The number of threads
  is not negative. SIGPIPE is ignored from here on, whatever the process did with it in \<open>E\<close>.
\<close>

definition hermes_init :: "'s env \<Rightarrow> nat \<Rightarrow> int \<Rightarrow> 's hms_ops \<Rightarrow> 's server res" where
  "hermes_init E n_threads port aops =
     bind_res (int_add (int n_threads) 2) (\<lambda>_.
     let E = E\<lparr>env_sigpipe := SigIgnored\<rparr>; s =
       \<lparr>manager =
          \<lparr>server_socket = None, server_port = port, manager_shutdown = False,
           manager_num_threads = int n_threads,
           dops = \<lparr>hms_validate = Some hms_default_validate, hms_accepts = None,
                   hms_handle = Some (hms_default_handle E)\<rparr>,
           ops = aops\<rparr>,
        threads = sys_init (n_threads + 2) 10 True,
        main = MReady, listener = LWait, sigpipe = env_sigpipe E, slept = [], forced = None,
        connections = [], dropped = []\<rparr>
     in Inr (if port > 0 then set_adder 1 (ACall Listen) (s\<lparr>main := MInit\<rparr>) else s))"

definition hermes_init_return :: "int \<Rightarrow> 's server \<Rightarrow> 's server res" where
  "hermes_init_return ret s =
     bind_res (hms_assert_not_equals (-1) ret) (\<lambda>_. Inr (set_adder 1 AIdle (s\<lparr>main := MReady\<rparr>)))"

subsection \<open>Listening\<close>

definition next_sleep :: "nat \<Rightarrow> nat" where
  "next_sleep sleep_time =
     (if sleep_time = 0 then 2 else if sleep_time = 2 then 2 * sleep_time else sleep_time)"

text \<open>
  One attempt to open the socket, from the label \<open>retry_listen\<close>, given what \<open>socket\<close>, \<open>setsockopt\<close>, \<open>bind\<close> and
  \<open>listen\<close> return.
\<close>

definition open_socket :: "int \<Rightarrow> int \<Rightarrow> int \<Rightarrow> int \<Rightarrow> 's hms \<Rightarrow> 's hms \<times> bool" where
  "open_socket sockfd opt bound lst m =
     (if sockfd = -1 then (m, False)
      else if opt = -1 then (m, False)
      else if bound = -1 then (m, False)
      else
        let m = m\<lparr>server_socket := Some sockfd\<rparr> in
        if lst = -1 then (m, False) else (m, True))"

definition listen_open :: "nat \<Rightarrow> int \<Rightarrow> int \<Rightarrow> int \<Rightarrow> int \<Rightarrow> 's server \<Rightarrow> 's server" where
  "listen_open sleep_time sockfd opt bound lst s =
     (let slp = (if sleep_time \<noteq> 0 then [sleep_time] else []); sleep_time = next_sleep sleep_time;
          (m, ok) = open_socket sockfd opt bound lst (manager s)
      in s\<lparr>manager := m, slept := slept s @ slp, listener := if ok then LAccept else LOpen sleep_time\<rparr>)"

text \<open>
  One round of the loop that accepts connections: from the return of \<open>accept\<close> with \<open>new_fd\<close>, at the time \<open>now\<close>,
  to the call of \<open>tpool_add_work\<close> or the end of the function; and the return of that call. The connection that
  comes in under the shutdown flag is neither handed on nor closed. \<open>setsockopt\<close> is called for its effect on the
  socket only.
\<close>

definition listen_accept :: "'s env \<Rightarrow> int \<times> int \<Rightarrow> int \<Rightarrow> 's server \<Rightarrow> 's server res" where
  "listen_accept E now new_fd s =
     (if new_fd = -1 then Inr (s\<lparr>listener := LReturned\<rparr>)
      else if manager_shutdown (manager s) then
        bind_res (hms_assert_not_equals 0 (if manager_shutdown (manager s) then 1 else 0))
          (\<lambda>_. Inr (s\<lparr>listener := LReturned, dropped := dropped s @ [new_fd]\<rparr>))
      else
        let endpoint = hms_endpoint_init (E\<lparr>env_sigpipe := sigpipe s\<rparr>) now new_fd (ops (manager s)) in
        Inr (set_adder 0 (ACall (Handle endpoint))
          (s\<lparr>listener := LAdd, connections := connections s @ [endpoint]\<rparr>)))"

definition listen_added :: "int \<Rightarrow> 's server \<Rightarrow> 's server res" where
  "listen_added ret s =
     bind_res (hms_assert_not_equals (-1) ret) (\<lambda>_. Inr (set_adder 0 AIdle (s\<lparr>listener := LAccept\<rparr>)))"

subsection \<open>Shutting down\<close>

text \<open>
  \<open>hermes_shutdown\<close> up to its call of \<open>tpool_destroy\<close>, and from its return. It hands \<open>force\<close> on as \<open>finish\<close>.
  To close a socket that was never set is undefined here.
\<close>

definition hermes_shutdown_call :: "int \<Rightarrow> 's server \<Rightarrow> 's server" where
  "hermes_shutdown_call force s =
     set_destroyer 0 (DCall force)
       (s\<lparr>manager := (manager s)\<lparr>manager_shutdown := True\<rparr>, main := MShutdown,
         forced := Some force\<rparr>)"

definition hermes_shutdown_return :: "'s server \<Rightarrow> 's server res" where
  "hermes_shutdown_return s =
     (case server_socket (manager s) of
        None \<Rightarrow> Inl Undefined
      | Some fd \<Rightarrow> Inr (s\<lparr>main := MDone\<rparr>))"

subsection \<open>The steps of the server\<close>

text \<open>A worker is in the routine \<open>_hms_listen\<close>.\<close>

definition runs_listener :: "'s job sys \<Rightarrow> worker_pc \<Rightarrow> bool" where
  "runs_listener t w =
     (case pool t of
        None \<Rightarrow> False
      | Some p \<Rightarrow> (case w of
          WRun a \<Rightarrow> (case works p a of None \<Rightarrow> False | Some x \<Rightarrow> work x = Listen)
        | _ \<Rightarrow> False))"

definition listening :: "'s job sys \<Rightarrow> bool" where
  "listening t = list_ex (runs_listener t) (workers t)"

text \<open>No call of \<open>tpool_add_work\<close> or \<open>tpool_destroy\<close> begins or returns.\<close>

definition keeps_calls :: "'w sys \<Rightarrow> 'w sys \<Rightarrow> bool" where
  "keeps_calls t t' \<longleftrightarrow>
     (\<forall>c. adders t' c = AIdle \<longleftrightarrow> adders t c = AIdle) \<and>
     (\<forall>d. destroyers t' d = DIdle \<longleftrightarrow> destroyers t d = DIdle)"

text \<open>
  A step is a section of code that holds the lock of the pool, whoever runs it (the routine \<open>_hms_listen\<close> does
  not end before the listener has returned), or a stretch of the code of this file.
\<close>

inductive server_step :: "'s env \<Rightarrow> 's server \<Rightarrow> 's server res \<Rightarrow> bool" for E s where
  thread: "tpool_step (threads s) (Inr t) \<Longrightarrow> keeps_calls (threads s) t \<Longrightarrow>
    listening (threads s) \<and> \<not> listening t \<longrightarrow> listener s = LReturned \<Longrightarrow>
    server_step E s (Inr (s\<lparr>threads := t\<rparr>))"
| thread_fault: "tpool_step (threads s) (Inl e) \<Longrightarrow> server_step E s (Inl e)"
| init_return: "main s = MInit \<Longrightarrow> adders (threads s) 1 = ARet ret \<Longrightarrow>
    server_step E s (hermes_init_return ret s)"
| listen_start: "listener s = LWait \<Longrightarrow> listening (threads s) \<Longrightarrow>
    server_step E s (Inr (s\<lparr>listener := LOpen 0\<rparr>))"
| listen_open: "listener s = LOpen sleep_time \<Longrightarrow>
    server_step E s (Inr (listen_open sleep_time sockfd opt bound lst s))"
| listen_accept: "listener s = LAccept \<Longrightarrow> server_step E s (listen_accept E now new_fd s)"
| listen_added: "listener s = LAdd \<Longrightarrow> adders (threads s) 0 = ARet ret \<Longrightarrow>
    server_step E s (listen_added ret s)"
| shutdown_call: "main s = MReady \<Longrightarrow> server_step E s (Inr (hermes_shutdown_call force s))"
| shutdown_return: "main s = MShutdown \<Longrightarrow> destroyers (threads s) 0 = DRet ret \<Longrightarrow>
    server_step E s (hermes_shutdown_return s)"

inductive server_reachable :: "'s env \<Rightarrow> nat \<Rightarrow> int \<Rightarrow> 's hms_ops \<Rightarrow> 's server \<Rightarrow> bool"
  for E n port aops where
  server_start: "hermes_init E n port aops = Inr s \<Longrightarrow> server_reachable E n port aops s"
| server_next: "server_reachable E n port aops s \<Longrightarrow> server_step E s (Inr s') \<Longrightarrow>
    server_reachable E n port aops s'"

end
