(* ===== verification/Job_Queue.thy ===== *)
theory Job_Queue
  imports Main "HOL-Library.Sublist"
begin

section \<open>The interface of a job queue\<close>

text \<open>
  What the server needs of the thread pool: jobs that enter are taken in the order they entered, whatever the
  threads do in between. \<open>entered s\<close> are the jobs accepted so far, \<open>gone s\<close> those that were taken; \<open>step\<close> is a
  step of anyone who uses the queue.
\<close>

locale job_queue =
  fixes step :: "'s \<Rightarrow> 's \<Rightarrow> bool" and inv :: "'s \<Rightarrow> bool"
    and entered :: "'s \<Rightarrow> 'w list" and gone :: "'s \<Rightarrow> 'w list"
  assumes inv_step: "inv s \<Longrightarrow> step s s' \<Longrightarrow> inv s'"
    and in_order: "inv s \<Longrightarrow> prefix (gone s) (entered s)"
    and grows: "inv s \<Longrightarrow> step s s' \<Longrightarrow> prefix (entered s) (entered s')"
begin

lemma inv_run: "rtranclp step s s' \<Longrightarrow> inv s \<Longrightarrow> inv s'"
  by (induction rule: rtranclp_induct) (auto intro: inv_step)

lemma grows_run: "rtranclp step s s' \<Longrightarrow> inv s \<Longrightarrow> prefix (entered s) (entered s')"
proof (induction rule: rtranclp_induct)
  case (step s1 s2)
  then show ?case using grows [of s1 s2] inv_run [of s s1] by (blast intro: prefix_order.trans)
qed simp

text \<open>Two jobs that were taken were taken in the order they entered.\<close>

lemma taken_as_entered: "inv s \<Longrightarrow> i < length (gone s) \<Longrightarrow> gone s ! i = entered s ! i"
  using in_order [of s] by (auto simp: prefix_def nth_append)

end

text \<open>A client that has a queue inside: each of its steps is some steps of the queue.\<close>

locale job_client = job_queue +
  fixes cstep :: "'c \<Rightarrow> 'c \<Rightarrow> bool" and cinv :: "'c \<Rightarrow> bool" and queue :: "'c \<Rightarrow> 's"
  assumes cinv_step: "cinv c \<Longrightarrow> cstep c c' \<Longrightarrow> cinv c'"
    and cinv_inv: "cinv c \<Longrightarrow> inv (queue c)"
    and simulates: "cinv c \<Longrightarrow> cstep c c' \<Longrightarrow> rtranclp step (queue c) (queue c')"
begin

lemma client_run:
  "rtranclp cstep c c' \<Longrightarrow> cinv c \<Longrightarrow> cinv c' \<and> rtranclp step (queue c) (queue c')"
proof (induction rule: rtranclp_induct)
  case (step c1 c2)
  then show ?case using cinv_step [of c1 c2] simulates [of c1 c2] by (auto intro: rtranclp_trans)
qed simp

lemma client_grows:
  "rtranclp cstep c c' \<Longrightarrow> cinv c \<Longrightarrow> prefix (entered (queue c)) (entered (queue c'))"
  using client_run grows_run cinv_inv by blast

lemma client_in_order: "cinv c \<Longrightarrow> prefix (gone (queue c)) (entered (queue c))"
  by (rule in_order) (rule cinv_inv)

end

end
