(* ===== verification/Tpool_Queue.thy ===== *)
theory Tpool_Queue
  imports Tpool_Invariant Job_Queue
begin

section \<open>The thread pool as a job queue\<close>

text \<open>The pool provides the interface Job_Queue, also after it has been freed.\<close>

lemma enqueue_item:
  assumes "enqueue a w p = Inr (p', b)" "c \<noteq> a"
  shows "item p' c = item p c"
  using assms
  by (auto simp: enqueue_def set_work_def get_work_def item_def Let_def res_iff
      split: if_split_asm option.split_asm)

lemma add_work_item: "tpool_add_work first a w p = Inr (p', r, b) \<Longrightarrow> c \<noteq> a \<Longrightarrow> item p' c = item p c"
  using enqueue_item [of a w p p' b c] by (auto simp: tpool_add_work_def res_iff split: if_split_asm)

lemma thread_item:
  "tpool_thread p = Inr (p', pc, x) \<Longrightarrow> works p' = works p"
  by (auto simp: tpool_thread_def dequeue_def Let_def res_iff split: if_split_asm)

lemma add_step_item:
  assumes "add_step first c x w s = Inr s'" "fresh s x" "pool s = Some q" "pool s' = Some p"
  shows "works q a \<noteq> None \<Longrightarrow> item p a = item q a" "taken s' = taken s"
    "WRun a \<in> set (workers s') \<Longrightarrow> WRun a \<in> set (workers s)"
proof -
  from assms obtain r b where e: "tpool_add_work first x w q = Inr (p, r, b)" "taken s' = taken s"
    "workers s' = (if b then wake_workers (workers s) else workers s)"
    by (auto simp: add_step_def on_pool_Inr res_iff)
  then show "taken s' = taken s" "WRun a \<in> set (workers s') \<Longrightarrow> WRun a \<in> set (workers s)"
    using set_wake by (auto split: if_split_asm)
  assume "works q a \<noteq> None"
  then show "item p a = item q a" using add_work_item [OF e(1), of a] assms(2,3)
    by (cases "a = x") (auto simp: fresh_def)
qed

text \<open>A worker runs a job that was taken.\<close>

lemma running_taken:
  assumes "reachable n m b s" "0 \<le> m" "m \<le> int_max"
  shows "pool s = Some p \<Longrightarrow> WRun a \<in> set (workers s) \<Longrightarrow> item p a \<in> set (taken s)"
  using assms(1)
proof (induction arbitrary: p a)
  case (step s s')
  obtain q where q: "pool s = Some q" using step_settings [OF step.hyps(2) step.prems(1)] by auto
  obtain as d0 where inv: "pool_inv s q as d0" "max_queue_size q = m" "length (workers s) = n"
    using reachable_pool [OF step.hyps(1) assms(2,3) q] .
  note D = pool_invD [OF inv(1)]
  have old: "item q a \<in> set (taken s) \<and> works q a \<noteq> None" if "WRun a \<in> set (workers s)"
    using step.IH [OF q that] D(8) [OF that] by simp
  have wake: "WRun a \<in> set (workers s)" if "WRun a \<in> set (wake_workers (workers s))"
    using set_wake [OF that] by simp
  from step.hyps(2) show ?case
  proof cases
    case (add c w x)
    note item = add_step_item [OF this(1) [symmetric] this(3) q step.prems(1)]
    show ?thesis using item(1) [of a] item(2,3) old step.prems(2) by simp
  next
    case (add_again c w x)
    note item = add_step_item [OF this(1) [symmetric] this(3) q step.prems(1)]
    show ?thesis using item(1) [of a] item(2,3) old step.prems(2) by simp
  next
    case (worker i d)
    then obtain pc nf em where w: "tpool_thread q = Inr (p, pc, nf, em)" "workers s' = (workers s)[i := pc]"
      "taken s' = taken s @ (case pc of WRun a \<Rightarrow> (case works q a of None \<Rightarrow> [] | Some x \<Rightarrow> [work x]) | _ \<Rightarrow> [])"
      using q step.prems by (auto simp: worker_step_def on_pool_Inr res_iff)
    have same: "item p a = item q a" using thread_item [OF w(1)] by (simp add: item_def)
    show ?thesis
    proof (cases "WRun a \<in> set (workers s)")
      case True
      then show ?thesis using old same w(3) by simp
    next
      case False
      then have pc: "pc = WRun a" using step.prems(2) w(2) set_upd [of "WRun a"] by auto
      then have "as \<noteq> []" "\<not> shutdown q" using w(1) D(2) by (auto simp: tpool_thread_def split: if_split_asm)
      then have "works q a \<noteq> None"
        using w(1) pc D(1,2) dequeue_queue [of q "hd as" "tl as"] chain_alloc [of "works q" "queue_head q" as a]
        by (cases as) (auto simp: tpool_thread_def queue_ok_def)
      then show ?thesis using w(3) pc same by (auto simp: item_def)
    qed
  next
    case (run i x)
    then have "a \<noteq> x" "WRun a \<in> set (workers s)" 
      using step.prems(2) q apart_done [OF D(7), of i x] set_upd [of "WRun a" "workers s" i WStart]
      by (auto simp: worker_run_def on_pool_Inr res_iff)
    then show ?thesis using run q step.prems(1) old
      by (auto simp: worker_run_def on_pool_Inr res_iff free_work_def set_work_def item_def split: if_split_asm)
  next
    case (worker_wake i)
    then have "WRun a \<in> set (workers s)"
      using step.prems(2) set_upd [of "WRun a" "workers s" i WWoken] by auto
    then show ?thesis using worker_wake q step.prems(1) old by auto
  qed (use q step.prems old wake in
      \<open>auto simp: not_empty_step_def not_full_step_def join_step_def destroy_step_def free_step_def
        destroy_section_def tpool_destroy_def item_def on_pool_Inr res_iff Let_def split: if_split_asm prod.split_asm\<close>)
qed (simp add: sys_init_def)

text \<open>What was taken is a beginning of what was accepted.\<close>

lemma destroy_step_same:
  assumes "Inr s' = destroy_step d f s"
  shows "\<exists>p p' k. pool s = Some p \<and> s' = s\<lparr>pool := Some p', destroyers := (destroyers s)(d := k)\<rparr>"
proof -
  obtain p where p: "pool s = Some p" using assms by (auto simp: destroy_step_def on_pool_Inr)
  obtain p' r where r: "(case f of None \<Rightarrow> destroy_section p | Some f \<Rightarrow> tpool_destroy f p) = (p', r)"
    by fastforce
  show ?thesis
    using assms by (auto simp: destroy_step_def on_pool_def p r)
qed

lemma accepted_grows:
  assumes "tpool_step s (Inr s')" shows "prefix (accepted s) (accepted s')"
  using assms
proof cases
  case (destroy d f)
  then show ?thesis using destroy_step_same by fastforce
next
  case (destroy_again d)
  then show ?thesis using destroy_step_same by fastforce
qed (auto simp: add_step_def worker_step_def worker_run_def not_empty_step_def not_full_step_def join_step_def
    free_step_def on_pool_Inr res_iff split: option.split_asm)

lemma taken_stays:
  assumes "tpool_step s (Inr s')" "pool s' = None" shows "taken s' = taken s \<and> accepted s' = accepted s"
  using assms
proof cases
  case (destroy d f)
  then show ?thesis using destroy_step_same assms(2) by fastforce
next
  case (destroy_again d)
  then show ?thesis using destroy_step_same assms(2) by fastforce
qed (use assms(2) in \<open>auto simp: add_step_def worker_step_def worker_run_def not_empty_step_def
    not_full_step_def join_step_def free_step_def on_pool_Inr res_iff split: option.split_asm\<close>)

lemma taken_prefix:
  assumes "reachable n m b s" "0 \<le> m" "m \<le> int_max"
  shows "prefix (taken s) (accepted s)"
  using assms(1)
proof induction
  case (step s s')
  show ?case
  proof (cases "pool s'")
    case None
    then show ?thesis using taken_stays [OF step.hyps(2)] step.IH by simp
  next
    case (Some p')
    obtain as d0 where "pool_inv s' p' as d0" "max_queue_size p' = m" "length (workers s') = n"
      using reachable_pool [OF reachable.step [OF step.hyps] assms(2,3) Some] .
    then show ?thesis using pool_invD(3) by fastforce
  qed
qed (simp add: sys_init_def)

text \<open>There is always an address left for \<open>malloc\<close>.\<close>

lemma add_work_finite:
  "tpool_add_work first a w p = Inr (p', r, b) \<Longrightarrow> finite (dom (works p)) \<Longrightarrow> finite (dom (works p'))"
  by (auto simp: tpool_add_work_def enqueue_def set_work_def Let_def res_iff simp del: fun_upd_apply
      split: if_split_asm)

lemma free_work_finite: "free_work a p = Inr p' \<Longrightarrow> finite (dom (works p)) \<Longrightarrow> finite (dom (works p'))"
  by (auto simp: free_work_def set_work_def res_iff split: if_split_asm)

lemma destroy_works:
  assumes "Inr s' = destroy_step d f s" "pool s = Some p" "pool s' = Some p'" shows "works p' = works p"
proof -
  obtain q r where r: "(case f of None \<Rightarrow> destroy_section p | Some f \<Rightarrow> tpool_destroy f p) = (q, r)"
    by fastforce
  then have "works q = works p"
    by (auto simp: destroy_section_def tpool_destroy_def Let_def split: if_split_asm option.split_asm)
  then show ?thesis using assms by (auto simp: destroy_step_def on_pool_def r)
qed

lemma finite_works:
  "reachable n m b s \<Longrightarrow> pool s = Some p \<Longrightarrow> finite (dom (works p))"
proof (induction arbitrary: p rule: reachable.induct)
  case (step s s')
  obtain q where q: "pool s = Some q" using step_settings [OF step.hyps(2) step.prems] by auto
  note fin = step.IH [OF q]
  from step.hyps(2) show ?case
  proof cases
    case (destroy d f)
    then show ?thesis using destroy_works [OF _ q step.prems] fin by metis
  next
    case (destroy_again d)
    then show ?thesis using destroy_works [OF _ q step.prems] fin by metis
  next
    case (free d f)
    then show ?thesis using q step.prems by (auto simp: free_step_def res_iff)
  qed (use q fin step.prems in \<open>auto simp: add_step_def worker_step_def worker_run_def not_empty_step_def
      not_full_step_def join_step_def on_pool_Inr res_iff thread_item
      dest: add_work_finite free_work_finite\<close>)
qed (simp add: sys_init_def tpool_init_def)

lemma fresh_exists:
  assumes "reachable n m b s" shows "\<exists>a. fresh s a"
proof (cases "pool s")
  case None
  then show ?thesis by (auto simp: fresh_def)
next
  case (Some p)
  have "finite (insert 0 (dom (works p)))" using finite_works [OF assms Some] by simp
  then obtain a where "a \<notin> insert 0 (dom (works p))" using ex_new_if_finite infinite_UNIV_nat by blast
  then show ?thesis using Some by (auto simp: fresh_def)
qed

definition pool_reached :: "'w sys \<Rightarrow> bool" where
  "pool_reached s \<longleftrightarrow> (\<exists>n m b. 0 \<le> m \<and> m \<le> int_max \<and> reachable n m b s)"

interpretation jobs: job_queue "\<lambda>s s'. tpool_step s (Inr s')" pool_reached accepted taken
proof
  fix s s' :: "'w sys"
  assume "pool_reached s" "tpool_step s (Inr s')"
  then show "pool_reached s'" by (auto simp: pool_reached_def intro: reachable.step)
next
  fix s :: "'w sys"
  assume "pool_reached s"
  then show "prefix (taken s) (accepted s)" by (auto simp: pool_reached_def intro: taken_prefix)
qed (rule accepted_grows)

end
