(* ===== verification/Manager_Invariant.thy ===== *)
theory Manager_Invariant
  imports Manager Tpool_Queue
begin

section \<open>The invariant of the server\<close>

text \<open>
  What the threads of the pool and the two threads in the manager's code have in common: the jobs they call
  \<open>tpool_add_work\<close> for, who tears the pool down, and that the listener runs in a worker.
\<close>

text \<open>What a step of the pool does to a caller of \<open>tpool_add_work\<close>, in a pool that does not block.\<close>

definition no_waits :: "'w sys \<Rightarrow> bool" where
  "no_waits t \<longleftrightarrow> (\<forall>c w. adders t c \<noteq> ASleep w \<and> adders t c \<noteq> AWoken w) \<and>
     (\<forall>p. pool t = Some p \<longrightarrow> do_not_block_when_full p)"

lemma wake_adders_same: "no_waits t \<Longrightarrow> wake_adders (adders t) = adders t"
proof
  fix c assume "no_waits t"
  then show "wake_adders (adders t) c = adders t c"
    by (cases "adders t c") (auto simp: no_waits_def wake_adders_def)
qed

definition add_returns :: "'w sys \<Rightarrow> 'w sys \<Rightarrow> bool" where
  "add_returns t t' \<longleftrightarrow> (\<exists>c w r p. adders t c = ACall w \<and> adders t' = (adders t)(c := ARet r) \<and>
     destroyers t' = destroyers t \<and> pool t = Some p \<and>
     (r = 1 \<and> accepted t' = accepted t @ [w] \<or>
      r = -1 \<and> accepted t' = accepted t \<and>
        (cur_queue_size p = max_queue_size p \<or> shutdown p \<or> queue_closed p)))"

lemma add_step_returns:
  assumes "no_waits t" "adders t c = ACall w" "add_step True c a w t = Inr t'"
  shows "add_returns t t'"
proof -
  from assms(3) obtain p p' r b where p: "pool t = Some p" "tpool_add_work True a w p = Inr (p', r, b)"
    "adders t' = (adders t)(c := (case r of None \<Rightarrow> ASleep w | Some r \<Rightarrow> ARet r))"
    "accepted t' = accepted t @ (if r = Some 1 then [w] else [])" "destroyers t' = destroyers t"
    by (auto simp: add_step_def on_pool_Inr res_iff)
  have "r = Some 1 \<or> r = Some (-1) \<and> (cur_queue_size p = max_queue_size p \<or> shutdown p \<or> queue_closed p)"
    using p(1,2) assms(1) by (auto simp: tpool_add_work_def no_waits_def res_iff split: if_split_asm)
  then show ?thesis using p assms(2) by (auto simp: add_returns_def)
qed

lemma inner_adders:
  assumes "tpool_step t (Inr t')" "keeps_calls t t'" "no_waits t"
  shows "adders t' = adders t \<and> accepted t' = accepted t \<or> add_returns t t'"
  using assms(1)
proof cases
  case (call_add c w)
  have "adders t' c \<noteq> AIdle" "adders t c = AIdle" using call_add by simp_all
  then show ?thesis using assms(2) by (simp add: keeps_calls_def)
next
  case (add c w a)
  then show ?thesis using add_step_returns [OF assms(3), of c w a t'] by simp
next
  case (add_return c r)
  have "adders t' c = AIdle" "adders t c \<noteq> AIdle" using add_return by simp_all
  then show ?thesis using assms(2) by (simp add: keeps_calls_def)
next
  case (destroy d f)
  then show ?thesis using destroy_step_same by fastforce
next
  case (destroy_again d)
  then show ?thesis using destroy_step_same by fastforce
next
  case (worker i d)
  then show ?thesis
    by (auto simp: worker_step_def on_pool_Inr res_iff wake_adders_same [OF assms(3)] split: if_split_asm)
qed (use assms(3) in \<open>auto simp: no_waits_def worker_run_def not_empty_step_def not_full_step_def join_step_def
      free_step_def on_pool_Inr res_iff wake_adders_same [OF assms(3)] split: option.split_asm\<close>)

lemma add_returns_waits: "add_returns t t' \<Longrightarrow> no_waits t \<Longrightarrow> adders t' c \<noteq> ASleep w \<and> adders t' c \<noteq> AWoken w"
  by (auto simp: add_returns_def no_waits_def split: if_split_asm)

text \<open>A single caller of \<open>tpool_destroy\<close> returns from it only when the pool has been freed.\<close>

lemma destroy_returns:
  assumes step: "tpool_step t (Inr t')" and inv: "sys_inv t"
    and one: "\<forall>d. d \<noteq> 0 \<longrightarrow> destroyers t d = DIdle"
    and ret: "destroyers t' 0 = DRet r" "destroyers t 0 \<noteq> DRet r"
  shows "pool t' = None"
  using step
proof cases
  case (destroy d f)
  then have d: "d = 0" using one by auto
  obtain p where p: "pool t = Some p" using destroy by (auto simp: destroy_step_def on_pool_Inr)
  with inv obtain as d0 where pi: "pool_inv t p as d0" by (auto simp: sys_inv_def)
  have "\<not> active (destroyers t d0)" using one d destroy by (cases "d0 = 0") auto
  then have "\<not> queue_closed p" "\<not> shutdown p"
    using destroyer_closed [OF pool_invD(10) [OF pi]] destroyer_down [OF pool_invD(10) [OF pi]] by auto
  then have "destroyers t' 0 = DSleep \<or> destroyers t' 0 = DNotEmpty f"
    using destroy d p by (auto simp: destroy_step_def on_pool_def tpool_destroy_def destroy_section_def Let_def
        split: if_split_asm)
  then show ?thesis using ret(1) by auto
next
  case (destroy_again d)
  then have "d = 0" using one by auto
  then have "destroyers t' 0 = DSleep \<or> destroyers t' 0 = DNotEmpty 1"
    using destroy_again by (cases "pool t")
      (auto simp: destroy_step_def on_pool_def destroy_section_def split: if_split_asm)
  then show ?thesis using ret(1) by auto
next
  case (worker i d)
  then have "destroyers t' 0 = destroyers t 0 \<or> destroyers t' 0 = DWoken"
    by (auto simp: worker_step_def on_pool_Inr res_iff wake_destroyer_def split: if_split_asm)
  then show ?thesis using ret by auto
next
  case (free d f)
  then show ?thesis using one by (auto simp: free_step_def res_iff split: option.split_asm)
qed (use ret in \<open>auto simp: add_step_def worker_run_def not_empty_step_def not_full_step_def join_step_def
      on_pool_Inr res_iff split: if_split_asm\<close>)

subsection \<open>The invariant\<close>

text \<open>
  The jobs handed to \<open>tpool_add_work\<close>, in order, and those of them that were not accepted, or not yet: at most
  one.
\<close>

definition calls :: "int \<Rightarrow> 's server \<Rightarrow> 's job list" where
  "calls port s = (if port > 0 then [Listen] else []) @ map Handle (connections s)"

definition pending :: "'s server \<Rightarrow> 's job list" where
  "pending s =
     (case adders (threads s) 1 of ACall w \<Rightarrow> [w] | _ \<Rightarrow> []) @
     (case adders (threads s) 0 of
        ACall w \<Rightarrow> [w]
      | ARet r \<Rightarrow> if r = -1 then [Handle (last (connections s))] else []
      | _ \<Rightarrow> [])"

fun in_loop :: "listen_pc \<Rightarrow> bool" where
  "in_loop LWait = False"
| "in_loop LReturned = False"
| "in_loop _ = True"

definition callers_ok :: "'s server \<Rightarrow> bool" where
  "callers_ok s \<longleftrightarrow>
     (adders (threads s) 0 \<noteq> AIdle \<longleftrightarrow> listener s = LAdd) \<and>
     (adders (threads s) 1 \<noteq> AIdle \<longleftrightarrow> main s = MInit) \<and>
     (\<forall>c. 2 \<le> c \<longrightarrow> adders (threads s) c = AIdle) \<and>
     (\<forall>w. adders (threads s) 1 = ACall w \<longrightarrow> w = Listen \<and> listener s = LWait) \<and>
     (\<forall>r. adders (threads s) 1 = ARet r \<longrightarrow> r = 1) \<and>
     (\<forall>w. adders (threads s) 0 = ACall w \<longrightarrow> connections s \<noteq> [] \<and> w = Handle (last (connections s))) \<and>
     (\<forall>r. adders (threads s) 0 = ARet r \<longrightarrow> r = 1 \<or> r = -1 \<and> connections s \<noteq> []) \<and>
     (listener s = LWait \<longrightarrow> connections s = [])"

definition teardown_ok :: "'s server \<Rightarrow> bool" where
  "teardown_ok s \<longleftrightarrow>
     (\<forall>d. d \<noteq> 0 \<longrightarrow> destroyers (threads s) d = DIdle) \<and>
     (destroyers (threads s) 0 = DIdle \<longleftrightarrow> main s = MInit \<or> main s = MReady) \<and>
     (main s = MDone \<longrightarrow> (\<exists>r. destroyers (threads s) 0 = DRet r)) \<and>
     (\<forall>r. destroyers (threads s) 0 = DRet r \<longrightarrow> pool (threads s) = None) \<and>
     (pool (threads s) = None \<longrightarrow> (\<exists>r. destroyers (threads s) 0 = DRet r))"

text \<open>
  Whom the teardown waits for is what \<open>hermes_shutdown\<close> was called with; and when it waited for the queue, nothing
  that was accepted is left.
\<close>

fun finish_of :: "destroyer_pc \<Rightarrow> int option" where
  "finish_of DIdle = None"
| "finish_of (DRet r) = None"
| "finish_of (DCall f) = Some f"
| "finish_of DSleep = Some 1"
| "finish_of DWoken = Some 1"
| "finish_of (DNotEmpty f) = Some f"
| "finish_of (DNotFull f) = Some f"
| "finish_of (DJoin f i) = Some f"
| "finish_of (DFree f) = Some f"

definition forced_ok :: "'s server \<Rightarrow> bool" where
  "forced_ok s \<longleftrightarrow>
     (\<forall>f. finish_of (destroyers (threads s) 0) = Some f \<longrightarrow> forced s = Some f) \<and>
     (pool (threads s) = None \<and> forced s = Some 1 \<longrightarrow> accepted (threads s) = taken (threads s))"

text \<open>A connection was left only by a listener that has returned, after the shutdown flag was set.\<close>

definition dropped_ok :: "'s server \<Rightarrow> bool" where
  "dropped_ok s \<longleftrightarrow>
     dropped s = [] \<or> listener s = LReturned \<and> manager_shutdown (manager s) \<and> length (dropped s) = 1"

definition server_inv :: "nat \<Rightarrow> int \<Rightarrow> 's server \<Rightarrow> bool" where
  "server_inv n port s \<longleftrightarrow> reachable (n + 2) 10 True (threads s) \<and> no_waits (threads s) \<and>
     accepted (threads s) @ pending s = calls port s \<and> callers_ok s \<and> teardown_ok s \<and> forced_ok s \<and>
     dropped_ok s \<and> (in_loop (listener s) \<longrightarrow> listening (threads s))"

lemmas server_inv_defs = server_inv_def callers_ok_def teardown_ok_def forced_ok_def dropped_ok_def calls_def
  pending_def
  set_adder_def set_destroyer_def

lemma server_inv_init:
  assumes "hermes_init E n port aops = Inr s" shows "server_inv n port s"
proof -
  have start: "reachable (n + 2) 10 True (sys_init (n + 2) 10 True :: 'b job sys)" by (rule reachable.start)
  have call: "reachable (n + 2) 10 True
      ((sys_init (n + 2) 10 True :: 'b job sys)\<lparr>adders := (adders (sys_init (n + 2) 10 True))(1 := ACall Listen)\<rparr>)"
    by (rule reachable.step [OF start tpool_step.call_add]) (simp add: sys_init_def)
  from assms show ?thesis
    using start call
    by (auto simp: hermes_init_def server_inv_defs no_waits_def Let_def res_iff sys_init_def tpool_init_def
        split: if_split_asm)
qed

lemma reach_10:
  assumes "reachable n 10 b s" "pool s = Some p"
  shows "\<exists>as d0. pool_inv s p as d0 \<and> max_queue_size p = 10"
proof -
  have b: "(0::int) \<le> 10" "10 \<le> int_max" by (simp_all add: int_max_def)
  obtain as d0 where "pool_inv s p as d0" "max_queue_size p = 10" "length (workers s) = n"
    using reachable_pool [OF assms(1) b assms(2)] .
  then show ?thesis by blast
qed

lemma listening_iff:
  "listening t \<longleftrightarrow>
     (\<exists>p a x. pool t = Some p \<and> WRun a \<in> set (workers t) \<and> works p a = Some x \<and> work x = Listen)"
proof -
  have "runs_listener t w \<longleftrightarrow>
      (\<exists>p a x. w = WRun a \<and> pool t = Some p \<and> works p a = Some x \<and> work x = Listen)" for w
    by (cases w) (auto simp: runs_listener_def split: option.splits)
  then show ?thesis by (auto simp: listening_def list_ex_iff)
qed

lemma listening_taken:
  assumes "reachable n 10 b t" "listening t" shows "Listen \<in> set (accepted t)"
proof -
  obtain p a x where p: "pool t = Some p" "WRun a \<in> set (workers t)" "works p a = Some x" "work x = Listen"
    using assms(2) by (auto simp: listening_iff)
  have "item p a \<in> set (taken t)" using running_taken [OF assms(1) _ _ p(1,2)] by (simp add: int_max_def)
  moreover have "prefix (taken t) (accepted t)" using taken_prefix [OF assms(1)] by (simp add: int_max_def)
  ultimately show ?thesis using p(3,4) set_mono_prefix by (fastforce simp: item_def)
qed

lemma listening_running:
  assumes "sys_inv t" "listening t" "destroyers t 0 = DFree f" shows False
proof -
  obtain p a where p: "pool t = Some p" "WRun a \<in> set (workers t)"
    using assms(2) by (auto simp: listening_iff)
  then obtain as d0 where "pool_inv t p as d0" using assms(1) by (auto simp: sys_inv_def)
  from active_is(2) [OF this, of 0] assms(3) p(2) show False by auto
qed

text \<open>The first call of \<open>tpool_add_work\<close> succeeds: the queue is empty and nobody has closed it.\<close>

lemma first_call:
  assumes "server_inv n port s" "adders (threads s) 1 = ACall w" "pool (threads s) = Some p"
  shows "cur_queue_size p \<noteq> max_queue_size p" "\<not> shutdown p" "\<not> queue_closed p"
proof -
  have c: "callers_ok s" "teardown_ok s" "accepted (threads s) @ pending s = calls port s"
    using assms(1) by (simp_all add: server_inv_def)
  then have w: "w = Listen" "listener s = LWait" "main s = MInit"
    using assms(2) by (auto simp: callers_ok_def)
  then have idle: "adders (threads s) 0 = AIdle" "connections s = []"
    using c(1) by (auto simp: callers_ok_def)
  have empty: "accepted (threads s) = []"
    using c(3) assms(2) w idle by (auto simp: calls_def pending_def split: if_split_asm)
  have nobody: "destroyers (threads s) d = DIdle" for d
    using c(2) w by (cases "d = 0") (simp_all add: teardown_ok_def)
  have "reachable (n + 2) 10 True (threads s)" using assms(1) by (simp add: server_inv_def)
  from reach_10 [OF this assms(3)] obtain as d0 where inv: "pool_inv (threads s) p as d0"
    "max_queue_size p = 10" by blast
  note D = pool_invD [OF inv(1)]
  show "cur_queue_size p \<noteq> max_queue_size p" using D(2,3) empty inv(2) by simp
  have "\<not> active (destroyers (threads s) d0)" using nobody by simp
  then show "\<not> shutdown p" "\<not> queue_closed p"
    using destroyer_closed [OF D(10)] destroyer_down [OF D(10)] by auto
qed

subsection \<open>Steps keep the invariant\<close>

lemma ret_stays:
  assumes "tpool_step t (Inr t')" "destroyers t d = DRet r" shows "destroyers t' d = DRet r"
  using assms(1)
proof cases
  case (destroy e f)
  then show ?thesis using assms(2) destroy_step_same [of t' e "Some f" t] by fastforce
next
  case (destroy_again e)
  then show ?thesis using assms(2) destroy_step_same [of t' e None t] by fastforce
next
  case (free e f)
  then show ?thesis using assms(2) by (auto simp: free_step_def res_iff split: option.split_asm)
qed (use assms(2) in \<open>auto simp: add_step_def worker_step_def worker_run_def not_empty_step_def
    not_full_step_def join_step_def on_pool_Inr res_iff wake_destroyer_def split: if_split_asm\<close>)

lemma freeing_returns:
  assumes "tpool_step t (Inr t')" "sys_inv t" "pool t = Some p" "pool t' = None"
  shows "\<exists>d r. destroyers t' d = DRet r \<and> destroyers t d \<noteq> DIdle"
proof -
  obtain as d0 where "pool_inv t p as d0" using assms(2,3) by (auto simp: sys_inv_def)
  from step_lives [OF assms(1) this assms(3)] assms(4) obtain d f where
    d: "destroyers t d = DFree f" "free_step d t = Some (Inr t')" by (auto simp: lives_def)
  then have "destroyers t' d = DRet 0" using assms(3) by (auto simp: free_step_def res_iff)
  with d(1) show ?thesis by (intro exI [of _ d] exI [of _ 0]) simp
qed

lemma no_waits_step:
  assumes "reachable n m True t'" "no_waits t" "adders t' = adders t \<or> add_returns t t'"
  shows "no_waits t'"
  using assms reachable_settings [OF assms(1)] add_returns_waits [of t t']
  by (auto simp: no_waits_def)

lemma callers_add:
  assumes s: "server_inv n port s" and r: "add_returns (threads s) t"
  shows "callers_ok (s\<lparr>threads := t\<rparr>) \<and> accepted t @ pending (s\<lparr>threads := t\<rparr>) = calls port s"
proof -
  have c: "callers_ok s" "accepted (threads s) @ pending s = calls port s"
    using s by (simp_all add: server_inv_def)
  from r obtain c w r p where t: "adders (threads s) c = ACall w" "adders t = (adders (threads s))(c := ARet r)"
    "pool (threads s) = Some p" and
    res: "r = 1 \<and> accepted t = accepted (threads s) @ [w] \<or>
     r = -1 \<and> accepted t = accepted (threads s) \<and>
       (cur_queue_size p = max_queue_size p \<or> shutdown p \<or> queue_closed p)"
    unfolding add_returns_def by blast
  have "\<not> 2 \<le> c" using t(1) c(1) by (auto simp: callers_ok_def)
  then consider (first) "c = 1" | (later) "c = 0" by linarith
  then show ?thesis
  proof cases
    case first
    have "r = 1" "accepted t = accepted (threads s) @ [w]"
      using res first_call [OF s _ t(3), of w] t(1) first by simp_all
    moreover have "adders (threads s) 0 = AIdle" using c(1) t(1) first by (auto simp: callers_ok_def)
    ultimately show ?thesis
      using c t first by (simp add: callers_ok_def pending_def calls_def)
  next
    case later
    have idle: "adders (threads s) 1 = AIdle \<or> adders (threads s) 1 = ARet 1"
    proof (cases "adders (threads s) 1")
      case (ACall w)
      then show ?thesis using c(1) t(1) later by (auto simp: callers_ok_def)
    qed (use s c(1) in \<open>auto simp: server_inv_def no_waits_def callers_ok_def\<close>)
    have w: "w = Handle (last (connections s))" "connections s \<noteq> []" "listener s = LAdd"
      using c(1) t(1) later by (auto simp: callers_ok_def)
    have r1: "r = 1 \<or> r = -1" using res by blast
    have "callers_ok (s\<lparr>threads := t\<rparr>)"
      using c(1) w r1 unfolding callers_ok_def later by (simp add: t(2) later)
    moreover have "accepted t @ pending (s\<lparr>threads := t\<rparr>) = accepted (threads s) @ pending s"
      using res idle t(1,2) later w(1) by (elim disjE) (simp_all add: pending_def)
    ultimately show ?thesis using c(2) by simp
  qed
qed

lemma server_invD:
  assumes "server_inv n port s"
  shows "reachable (n + 2) 10 True (threads s)" "no_waits (threads s)" "callers_ok s" "teardown_ok s"
    "accepted (threads s) @ pending s = calls port s" "in_loop (listener s) \<longrightarrow> listening (threads s)"
    "forced_ok s" "dropped_ok s"
  using assms by (simp_all add: server_inv_def)

lemma thread_teardown:
  assumes s: "server_inv n port s" and step: "tpool_step (threads s) (Inr t)" and k: "keeps_calls (threads s) t"
  shows "teardown_ok (s\<lparr>threads := t\<rparr>)"
  unfolding teardown_ok_def
proof (intro conjI allI impI)
  note c = server_invD [OF s]
  have inv: "sys_inv (threads s)" using reachable_inv [OF c(1)] by (simp add: int_max_def)
  {
    fix r assume ret: "destroyers (threads (s\<lparr>threads := t\<rparr>)) 0 = DRet r"
    show "pool (threads (s\<lparr>threads := t\<rparr>)) = None"
    proof (cases "destroyers (threads s) 0 = DRet r")
      case True
      then have "pool (threads s) = None" using c(4) by (auto simp: teardown_ok_def)
      then show ?thesis using step_settings [OF step] by (cases "pool t") auto
    next
      case False
      then show ?thesis using destroy_returns [OF step inv _ _ False] ret c(4) by (simp add: teardown_ok_def)
    qed
  next
    assume none: "pool (threads (s\<lparr>threads := t\<rparr>)) = None"
    show "\<exists>r. destroyers (threads (s\<lparr>threads := t\<rparr>)) 0 = DRet r"
    proof (cases "pool (threads s)")
      case None
      then show ?thesis using c(4) ret_stays [OF step, of 0] by (auto simp: teardown_ok_def)
    next
      case (Some p)
      from freeing_returns [OF step inv Some] none obtain d r where
        "destroyers t d = DRet r" "destroyers (threads s) d \<noteq> DIdle" by auto
      then show ?thesis using c(4) by (cases "d = 0") (auto simp: teardown_ok_def)
    qed
  }
qed (use server_invD(4) [OF s] k ret_stays [OF step] in \<open>auto simp: teardown_ok_def keeps_calls_def\<close>)

text \<open>No step changes whom a teardown waits for, and the step that frees the pool loses nothing if that was the queue.\<close>

lemma finish_stays:
  assumes step: "tpool_step t (Inr t')" and k: "keeps_calls t t'" and f: "finish_of (destroyers t' d) = Some f"
  shows "finish_of (destroyers t d) = Some f"
  using step
proof cases
  case (call_destroy e g)
  have "destroyers t' e \<noteq> DIdle" "destroyers t e = DIdle" using call_destroy by simp_all
  then show ?thesis using k by (simp add: keeps_calls_def)
next
  case (destroy e g)
  then obtain p where p: "pool t = Some p" by (auto simp: destroy_step_def on_pool_Inr)
  show ?thesis
    using destroy f p by (auto simp: destroy_step_def on_pool_def tpool_destroy_def destroy_section_def Let_def
        split: if_split_asm)
next
  case (destroy_again e)
  then obtain p where p: "pool t = Some p" by (auto simp: destroy_step_def on_pool_Inr)
  show ?thesis
    using destroy_again f p by (auto simp: destroy_step_def on_pool_def destroy_section_def split: if_split_asm)
qed (use f in \<open>auto simp: add_step_def worker_step_def worker_run_def not_empty_step_def not_full_step_def
    join_step_def free_step_def on_pool_Inr res_iff wake_destroyer_def split: if_split_asm option.split_asm\<close>)

lemma free_loses_nothing:
  assumes step: "tpool_step t (Inr t')" and inv: "sys_inv t" and p: "pool t = Some p" "pool t' = None"
    and f: "\<And>d f. destroyers t d = DFree f \<Longrightarrow> f = 1"
  shows "accepted t' = taken t'"
proof -
  obtain as d0 where i: "pool_inv t p as d0" using inv p(1) by (auto simp: sys_inv_def)
  from step_lives [OF step i p(1)] p(2) obtain d g where
    d: "destroyers t d = DFree g" by (auto simp: lives_def)
  have "destroyer_fine p as (workers t) (destroyers t d)" by (rule active_is(2) [OF i]) (simp add: d)
  then have "down p as 1" using d f [OF d] by simp
  then show ?thesis using pool_invD(3) [OF i] taken_stays [OF step p(2)] by (simp add: down_def)
qed

lemma thread_forced:
  assumes s: "server_inv n port s" and step: "tpool_step (threads s) (Inr t)" and k: "keeps_calls (threads s) t"
  shows "forced_ok (s\<lparr>threads := t\<rparr>)"
proof -
  note c = server_invD [OF s]
  have inv: "sys_inv (threads s)" using reachable_inv [OF c(1)] by (simp add: int_max_def)
  have "accepted t = taken t" if none: "pool t = None" and one: "forced s = Some 1"
  proof (cases "pool (threads s)")
    case None
    then show ?thesis using c(7) one taken_stays [OF step none] by (simp add: forced_ok_def)
  next
    case (Some p)
    have "f = 1" if d: "destroyers (threads s) d = DFree f" for d f
    proof -
      have "d = 0" using d c(4) by (cases "d = 0") (auto simp: teardown_ok_def)
      then show ?thesis using d c(7) one by (simp add: forced_ok_def)
    qed
    then show ?thesis by (rule free_loses_nothing [OF step inv Some none])
  qed
  then show ?thesis using c(7) finish_stays [OF step k, of 0] by (simp add: forced_ok_def)
qed

lemma thread_inv:
  assumes s: "server_inv n port s" and step: "tpool_step (threads s) (Inr t)" and k: "keeps_calls (threads s) t"
    and l: "listening (threads s) \<and> \<not> listening t \<longrightarrow> listener s = LReturned"
  shows "server_inv n port (s\<lparr>threads := t\<rparr>)"
proof -
  note c = server_invD [OF s]
  have r: "reachable (n + 2) 10 True t" using reachable.step [OF c(1) step] .
  have add: "adders t = adders (threads s) \<and> accepted t = accepted (threads s) \<or> add_returns (threads s) t"
    using inner_adders [OF step k c(2)] .
  have calls: "callers_ok (s\<lparr>threads := t\<rparr>) \<and> accepted t @ pending (s\<lparr>threads := t\<rparr>) = calls port s"
  proof (cases "add_returns (threads s) t")
    case True
    then show ?thesis using callers_add [OF s] by blast
  next
    case False
    with add have same: "adders t = adders (threads s)" "accepted t = accepted (threads s)" by simp_all
    then have "callers_ok (s\<lparr>threads := t\<rparr>) = callers_ok s" "pending (s\<lparr>threads := t\<rparr>) = pending s"
      by (simp_all add: callers_ok_def pending_def cong: adder_pc.case_cong if_cong)
    with same c(3,5) show ?thesis by simp
  qed
  moreover have "dropped_ok (s\<lparr>threads := t\<rparr>)" using c(8) by (simp add: dropped_ok_def)
  ultimately show ?thesis
    using r thread_teardown [OF s step k] thread_forced [OF s step k] no_waits_step [OF r c(2)] add l c(6) unfolding server_inv_def
    by (cases "listener s") (auto simp: calls_def)
qed

text \<open>The other steps are calls and returns in the pool, or leave it alone.\<close>

lemma assert_returns:
  "Inr x = bind_res (hms_assert_not_equals e c) (\<lambda>_. Inr y) \<longleftrightarrow> e \<noteq> c \<and> x = y"
  by (cases "e = c") auto

lemma listening_calls [simp]:
  "listening (t\<lparr>adders := f\<rparr>) = listening t" "listening (t\<lparr>destroyers := g\<rparr>) = listening t"
  by (simp_all add: listening_iff)

lemma server_simulates:
  assumes "server_inv n port s" "server_step E s (Inr s')"
  shows "threads s' = threads s \<or> tpool_step (threads s) (Inr (threads s'))"
  using assms(2)
proof cases
  case (init_return ret)
  then show ?thesis
    using tpool_step.add_return [of "threads s" 1 ret]
    by (auto simp: hermes_init_return_def set_adder_def assert_returns)
next
  case (listen_open sleep_time sockfd opt bound lst)
  then show ?thesis by (auto simp: listen_open_def Let_def split: prod.splits)
next
  case (listen_accept now new_fd)
  then have "adders (threads s) 0 = AIdle" using assms(1) by (simp add: server_inv_def callers_ok_def)
  from tpool_step.call_add [OF this] listen_accept show ?thesis
    by (auto simp: listen_accept_def set_adder_def res_iff Let_def split: if_split_asm)
next
  case (listen_added ret)
  then show ?thesis
    using tpool_step.add_return [of "threads s" 0 ret]
    by (auto simp: listen_added_def set_adder_def assert_returns)
next
  case (shutdown_call force)
  then have "destroyers (threads s) 0 = DIdle" using assms(1) by (simp add: server_inv_def teardown_ok_def)
  from tpool_step.call_destroy [OF this] shutdown_call show ?thesis
    by (auto simp: hermes_shutdown_call_def set_destroyer_def)
next
  case (shutdown_return ret)
  then show ?thesis by (auto simp: hermes_shutdown_return_def split: option.split_asm)
qed auto

text \<open>
  What is left to show of such a step is what it does to the callers, to the job a caller still holds, and to the
  loop of the listener; each step is a lemma.
\<close>

lemmas others = forced_ok_def dropped_ok_def

lemma server_stepI:
  assumes s: "server_inv n port s" and step: "server_step E s (Inr s')"
    and "no_waits (threads s')" "callers_ok s'" "teardown_ok s'" "forced_ok s'" "dropped_ok s'" "accepted (threads s') @ pending s' = calls port s'"
      "in_loop (listener s') \<longrightarrow> listening (threads s')"
  shows "server_inv n port s'"
  using server_simulates [OF s step] reachable.step [OF server_invD(1) [OF s]] server_invD(1) [OF s] assms(3-9)
  by (auto simp: server_inv_def)

lemma init_return_inv:
  assumes s: "server_inv n port s" and step: "server_step E s (Inr s')"
    and pc: "main s = MInit" "adders (threads s) 1 = ARet ret" and ret: "Inr s' = hermes_init_return ret s"
  shows "server_inv n port s'"
proof -
  note c = server_invD [OF s]
  have s': "s' = set_adder 1 AIdle (s\<lparr>main := MReady\<rparr>)" and "ret \<noteq> -1"
    using ret by (simp_all add: hermes_init_return_def assert_returns)
  then have "pending s' = pending s"
    using pc by (simp add: pending_def set_adder_def cong: adder_pc.case_cong if_cong)
  moreover have "callers_ok s'" using c(3) pc by (simp add: s' callers_ok_def set_adder_def)
  moreover have "teardown_ok s'" using c(4) pc(1) by (auto simp: s' teardown_ok_def set_adder_def)
  ultimately show ?thesis
    using c(2,5-8) by (intro server_stepI [OF s step]) (simp_all add: s' set_adder_def no_waits_def calls_def others)
qed

lemma listen_start_inv:
  assumes s: "server_inv n port s" and step: "server_step E s (Inr (s\<lparr>listener := LOpen 0\<rparr>))"
    and pc: "listener s = LWait" "listening (threads s)"
  shows "server_inv n port (s\<lparr>listener := LOpen 0\<rparr>)"
proof -
  note c = server_invD [OF s]
  have "Listen \<in> set (accepted (threads s))" using listening_taken [OF c(1)] pc(2) by blast
  moreover have "accepted (threads s) = []" if "adders (threads s) 1 = ACall w" for w
    using that c(3,5) pc by (auto simp: callers_ok_def pending_def calls_def split: if_split_asm)
  ultimately have "callers_ok (s\<lparr>listener := LOpen 0\<rparr>)" using c(3) pc by (auto simp: callers_ok_def)
  moreover have "pending (s\<lparr>listener := LOpen 0\<rparr>) = pending s"
    using pc by (simp add: pending_def cong: adder_pc.case_cong if_cong)
  ultimately show ?thesis
    using c(2,4,5,7,8) pc by (intro server_stepI [OF s step]) (simp_all add: calls_def teardown_ok_def others)
qed

lemma listen_open_inv:
  assumes s: "server_inv n port s" and step: "server_step E s (Inr s')"
    and pc: "listener s = LOpen sleep_time" and s': "s' = listen_open sleep_time sockfd opt bound lst s"
  shows "server_inv n port s'"
proof -
  note c = server_invD [OF s]
  obtain m l z where s': "s' = s\<lparr>manager := m, slept := z, listener := l\<rparr>" "l = LAccept \<or> (\<exists>t. l = LOpen t)"
    using s' by (auto simp: listen_open_def Let_def split: prod.splits)
  have "callers_ok s'" using c(3) pc s'(2) by (auto simp: s'(1) callers_ok_def)
  moreover have "pending s' = pending s"
    by (simp add: s'(1) pending_def cong: adder_pc.case_cong if_cong)
  ultimately show ?thesis
    using c(2,4-8) pc by (intro server_stepI [OF s step]) (simp_all add: calls_def s'(1) teardown_ok_def others)
qed

lemma listen_accept_inv:
  assumes s: "server_inv n port s" and step: "server_step E s (Inr s')"
    and pc: "listener s = LAccept" and acc: "Inr s' = listen_accept E now new_fd s"
  shows "server_inv n port s'"
proof -
  note c = server_invD [OF s]
  have idle: "adders (threads s) 0 = AIdle" using c(3) pc by (simp add: callers_ok_def)
  have first: "adders (threads s) 1 \<noteq> ACall w" for w using c(3) pc by (auto simp: callers_ok_def)
  let ?e = "hms_endpoint_init (E\<lparr>env_sigpipe := sigpipe s\<rparr>) now new_fd (ops (manager s))"
  have none: "dropped s = []" using c(8) pc by (simp add: dropped_ok_def)
  have keeps: "s\<lparr>listener := LReturned\<rparr> = s\<lparr>listener := LReturned, dropped := []\<rparr>" using none by (cases s) simp
  have "s' = s\<lparr>listener := LReturned\<rparr> \<or>
      manager_shutdown (manager s) \<and> s' = s\<lparr>listener := LReturned, dropped := [new_fd]\<rparr> \<or>
      s' = set_adder 0 (ACall (Handle ?e)) (s\<lparr>listener := LAdd, connections := connections s @ [?e]\<rparr>)"
    using acc none by (auto simp: listen_accept_def assert_returns Let_def split: if_split_asm)
  then consider (ends) d where "s' = s\<lparr>listener := LReturned, dropped := d\<rparr>"
      "d = [] \<or> manager_shutdown (manager s) \<and> d = [new_fd]"
    | (adds) "s' = set_adder 0 (ACall (Handle ?e)) (s\<lparr>listener := LAdd, connections := connections s @ [?e]\<rparr>)"
    using keeps by metis
  then show ?thesis
  proof cases
    case ends
    have "callers_ok s'" using c(3) pc first by (simp add: ends(1) callers_ok_def)
    moreover have "pending s' = pending s"
      by (simp add: ends(1) pending_def cong: adder_pc.case_cong if_cong)
    moreover have "dropped_ok s'" using ends(2) by (auto simp: ends(1) dropped_ok_def)
    ultimately show ?thesis
      using c(2,4,5,7) by (intro server_stepI [OF s step]) (simp_all add: calls_def ends(1) teardown_ok_def others)
  next
    case adds
    have "callers_ok s'" using c(3) pc first by (simp add: adds callers_ok_def set_adder_def)
    moreover have "pending s = []" "pending s' = [Handle ?e]"
      using idle first by (cases "adders (threads s) 1"; simp add: adds pending_def set_adder_def)+
    moreover have "teardown_ok s'" using c(4) by (simp add: adds teardown_ok_def set_adder_def)
    ultimately show ?thesis
      using c(2,5-7) pc none
      by (intro server_stepI [OF s step]) (simp_all add: calls_def adds set_adder_def no_waits_def others)
  qed
qed

lemma listen_added_inv:
  assumes s: "server_inv n port s" and step: "server_step E s (Inr s')"
    and pc: "listener s = LAdd" "adders (threads s) 0 = ARet ret" and add: "Inr s' = listen_added ret s"
  shows "server_inv n port s'"
proof -
  note c = server_invD [OF s]
  have s': "s' = set_adder 0 AIdle (s\<lparr>listener := LAccept\<rparr>)" and ret: "ret \<noteq> -1"
    using add by (simp_all add: listen_added_def assert_returns)
  have first: "adders (threads s) 1 \<noteq> ACall w" for w using c(3) pc by (auto simp: callers_ok_def)
  have "callers_ok s'" using c(3) pc first by (simp add: s' callers_ok_def set_adder_def)
  moreover have "pending s' = pending s"
    using pc ret by (simp add: s' pending_def set_adder_def cong: adder_pc.case_cong if_cong)
  moreover have "teardown_ok s'" using c(4) by (simp add: s' teardown_ok_def set_adder_def)
  ultimately show ?thesis
    using c(2,5-8) pc
    by (intro server_stepI [OF s step]) (simp_all add: s' set_adder_def no_waits_def calls_def others)
qed

lemma shutdown_call_inv:
  assumes s: "server_inv n port s" and step: "server_step E s (Inr (hermes_shutdown_call force s))" and pc: "main s = MReady"
  shows "server_inv n port (hermes_shutdown_call force s)"
proof -
  note c = server_invD [OF s] and def = hermes_shutdown_call_def set_destroyer_def
  have "callers_ok (hermes_shutdown_call force s)" using c(3) pc by (simp add: def callers_ok_def)
  moreover have "pending (hermes_shutdown_call force s) = pending s"
    using pc by (simp add: def pending_def cong: adder_pc.case_cong if_cong)
  moreover have "teardown_ok (hermes_shutdown_call force s)" using c(4) pc by (auto simp: def teardown_ok_def)
  moreover have "pool (threads s) \<noteq> None" using c(4) pc by (auto simp: teardown_ok_def)
  ultimately show ?thesis
    using c(2,5,6,8) pc by (intro server_stepI [OF s step]) (auto simp: def no_waits_def calls_def others)
qed

lemma shutdown_return_inv:
  assumes s: "server_inv n port s" and step: "server_step E s (Inr s')"
    and pc: "main s = MShutdown" "destroyers (threads s) 0 = DRet ret" and ret: "Inr s' = hermes_shutdown_return s"
  shows "server_inv n port s'"
proof -
  note c = server_invD [OF s]
  have s': "s' = s\<lparr>main := MDone\<rparr>" using ret by (auto simp: hermes_shutdown_return_def split: option.split_asm)
  have "callers_ok s'" using c(3) pc by (simp add: s' callers_ok_def)
  moreover have "pending s' = pending s" by (simp add: s' pending_def cong: adder_pc.case_cong if_cong)
  moreover have "teardown_ok s'" using c(4) pc by (simp add: s' teardown_ok_def)
  ultimately show ?thesis
    using c(2,5-8) by (intro server_stepI [OF s step]) (simp_all add: calls_def s' others)
qed

lemma server_step_inv:
  assumes s: "server_inv n port s" and step: "server_step E s (Inr s')"
  shows "server_inv n port s'"
  using step
proof cases
  case (thread t)
  then show ?thesis using thread_inv [OF s, of t] by simp
next
  case listen_start
  then show ?thesis using listen_start_inv [OF s] step by simp
next
  case (shutdown_call force)
  then show ?thesis using shutdown_call_inv [OF s] step by simp
qed (use init_return_inv [OF s step] listen_open_inv [OF s step] listen_accept_inv [OF s step] listen_added_inv [OF s step]
    shutdown_return_inv [OF s step] in blast)+

end
