(* ===== verification/Manager_Correct.thy ===== *)
theory Manager_Correct
  imports Manager_Invariant Tpool_Correct
begin

section \<open>Correctness of the server\<close>

text \<open>
  The server as a client of the job queue, and what follows for every reachable state: connections are served in
  order, when the process stops, what a shutdown waits for.
\<close>

lemma reachable_server_inv: "server_reachable E n port aops s \<Longrightarrow> server_inv n port s"
  by (induction rule: server_reachable.induct) (auto intro: server_inv_init server_step_inv)

interpretation server_jobs: job_client "\<lambda>t t'. tpool_step t (Inr t')" pool_reached accepted taken
  "\<lambda>s s'. server_step E s (Inr s')" "server_inv n port" threads for E n port
proof
  fix s s' assume "server_inv n port s" "server_step E s (Inr s')"
  then show "server_inv n port s'" by (rule server_step_inv)
next
  fix s assume "server_inv n port s"
  then show "pool_reached (threads s)"
    unfolding pool_reached_def by (intro exI [of _ "n + 2"] exI [of _ 10] exI [of _ True])
      (simp add: server_inv_def int_max_def)
next
  fix s s' assume "server_inv n port s" "server_step E s (Inr s')"
  then show "rtranclp (\<lambda>t t'. tpool_step t (Inr t')) (threads s) (threads s')"
    using server_simulates by fastforce
qed

text \<open>
  The job that is not accepted, or not yet: whose it can be.
\<close>

lemma pending_one:
  assumes "callers_ok s"
  shows "length (pending s) \<le> 1"
    "pending s \<noteq> [] \<Longrightarrow> (\<exists>c w. adders (threads s) c = ACall w) \<or> adders (threads s) 0 = ARet (-1)"
  using assms by (cases "adders (threads s) 1"; cases "adders (threads s) 0";
    auto simp: callers_ok_def pending_def split: if_split_asm)+

lemma queue_between:
  assumes "server_inv n port s" "pool (threads s) = Some p"
  shows "\<exists>as. queue_ok p as \<and> accepted (threads s) = taken (threads s) @ map (item p) as"
proof -
  obtain as d0 where "pool_inv (threads s) p as d0"
    using reach_10 [OF server_invD(1) [OF assms(1)] assms(2)] by blast
  from pool_invD(1,3) [OF this] show ?thesis by blast
qed

text \<open>When the pool is gone nobody is in a call of it.\<close>

lemma loop_listens:
  assumes "server_inv n port s" "in_loop (listener s)"
  shows "\<exists>p. pool (threads s) = Some p" "destroyers (threads s) 0 \<noteq> DFree f" "main s \<noteq> MDone"
proof -
  have l: "listening (threads s)" using assms by (simp add: server_inv_def)
  then show p: "\<exists>p. pool (threads s) = Some p" by (auto simp: listening_iff)
  have "sys_inv (threads s)"
    using assms(1) reachable_inv [of "n + 2" 10 True "threads s"] by (simp add: server_inv_def int_max_def)
  then show "destroyers (threads s) 0 \<noteq> DFree f" using listening_running l by blast
  have "teardown_ok s" using assms(1) by (simp add: server_inv_def)
  then show "main s \<noteq> MDone" using p by (auto simp: teardown_ok_def)
qed

lemma freed_idle:
  assumes s: "server_inv n port s" and none: "pool (threads s) = None"
  shows "adders (threads s) c = AIdle" "destroyers (threads s) d = DIdle \<or> (\<exists>r. destroyers (threads s) d = DRet r)"
proof -
  note c = server_invD [OF s]
  obtain r where r: "destroyers (threads s) 0 = DRet r" using c(4) none by (auto simp: teardown_ok_def)
  then show "destroyers (threads s) d = DIdle \<or> (\<exists>r. destroyers (threads s) d = DRet r)"
    using c(4) by (cases "d = 0") (simp_all add: teardown_ok_def)
  have "main s \<noteq> MInit" using c(4) r by (auto simp: teardown_ok_def)
  moreover have "listener s \<noteq> LAdd" using loop_listens(1) [OF s] none by auto
  ultimately show "adders (threads s) c = AIdle"
    using c(3) by (cases "c = 0"; cases "c = 1") (simp_all add: callers_ok_def)
qed

text \<open>
  C24: The server hands connections over in order, and this is where one can be lost. In every reachable state:
  (1) the jobs handed to the pool are the listener and then the connections in the order in which they came in;
  the pool has accepted them all but at most the last, and that one only while its call of \<open>tpool_add_work\<close> has
  not returned or when it was refused, which ends the server (C27). (2) The workers have taken a beginning of the
  accepted jobs, so that none is served twice or overtaken, and as long as the pool exists the others are in its
  queue, in order. (3) Once it is freed, after a call \<open>hermes_shutdown (manager, 1)\<close>, every connection for which an
  endpoint was made was accepted by the pool and taken by a worker, and all workers have ended. With another
  \<open>force\<close> those that were in the queue when it was freed are lost. (4) A connection that came in and got no
  endpoint is one at most: it was accepted under the shutdown flag, and is neither served nor closed.
\<close>

theorem server_in_order:
  assumes "server_reachable E n port aops s"
  shows "(\<exists>waits. calls port s = accepted (threads s) @ waits \<and> length waits \<le> 1 \<and>
      (waits \<noteq> [] \<longrightarrow> (\<exists>c w. adders (threads s) c = ACall w) \<or> adders (threads s) 0 = ARet (-1))) \<and>
    prefix (taken (threads s)) (accepted (threads s)) \<and>
    (\<forall>p. pool (threads s) = Some p \<longrightarrow>
      (\<exists>as. queue_ok p as \<and> accepted (threads s) = taken (threads s) @ map (item p) as)) \<and>
    (pool (threads s) = None \<and> forced s = Some 1 \<longrightarrow>
      taken (threads s) = calls port s \<and> set (workers (threads s)) \<subseteq> {WExit}) \<and>
    (dropped s = [] \<or> manager_shutdown (manager s) \<and> listener s = LReturned \<and> length (dropped s) = 1)"
proof -
  have inv: "server_inv n port s" by (rule reachable_server_inv [OF assms])
  note c = server_invD [OF inv]
  have waits: "\<exists>waits. calls port s = accepted (threads s) @ waits \<and> length waits \<le> 1 \<and>
      (waits \<noteq> [] \<longrightarrow> (\<exists>c w. adders (threads s) c = ACall w) \<or> adders (threads s) 0 = ARet (-1))"
    using c(5) pending_one [OF c(3)] by (intro exI [of _ "pending s"]) simp
  have "taken (threads s) = calls port s \<and> set (workers (threads s)) \<subseteq> {WExit}"
    if "pool (threads s) = None" "forced s = Some 1"
    using that c(5,7) freed_idle(1) [OF inv that(1)] freed_workers [OF c(1) _ _ that(1)]
    by (simp add: forced_ok_def pending_def int_max_def)
  then show ?thesis
    using waits server_jobs.client_in_order [OF inv] queue_between [OF inv] c(8) by (auto simp: dropped_ok_def)
qed

text \<open>
  What is handed over: endpoints with the functions of the application, in a process that ignores SIGPIPE. This
  is what the properties of a connection (Hermes_Correct) ask of the environment.
\<close>

lemma endpoints_handed:
  assumes "server_reachable E n port aops s"
  shows "sigpipe s = SigIgnored \<and> ops (manager s) = aops \<and>
    (\<forall>e \<in> set (connections s). \<exists>now fd. e = hms_endpoint_init (E\<lparr>env_sigpipe := SigIgnored\<rparr>) now fd aops)"
  using assms
proof induction
  case (server_start s)
  then show ?case by (auto simp: hermes_init_def Let_def res_iff set_adder_def split: if_split_asm)
next
  case (server_next s s')
  from server_next.hyps(2) show ?case
  proof cases
    case (listen_open sleep_time sockfd opt bound lst)
    then show ?thesis using server_next.IH
      by (auto simp: listen_open_def open_socket_def Let_def split: if_split_asm)
  next
    case (listen_accept now new_fd)
    then show ?thesis using server_next.IH
      by (cases now) (auto simp: listen_accept_def assert_returns Let_def set_adder_def split: if_split_asm)
  next
    case (shutdown_return ret)
    then show ?thesis using server_next.IH by (auto simp: hermes_shutdown_return_def split: option.split_asm)
  qed (use server_next.IH in \<open>auto simp: hermes_init_return_def listen_added_def hermes_shutdown_call_def
      set_adder_def set_destroyer_def assert_returns\<close>)
qed


lemma freed_quiet:
  assumes "server_inv n port s" "pool (threads s) = None" shows "\<not> tpool_step (threads s) (Inl e)"
proof
  assume step: "tpool_step (threads s) (Inl e)"
  have gone: "set (workers (threads s)) \<subseteq> {WExit}"
    using assms freed_workers [of "n + 2" 10 True "threads s"] by (simp add: server_inv_def int_max_def)
  have a: "adders (threads s) c = AIdle" for c by (rule freed_idle(1) [OF assms])
  have gone_d: "destroyers (threads s) d \<noteq> DCall f" "destroyers (threads s) d \<noteq> DWoken"
    "destroyers (threads s) d \<noteq> DNotEmpty f" "destroyers (threads s) d \<noteq> DNotFull f"
    "destroyers (threads s) d \<noteq> DJoin f i" "destroyers (threads s) d \<noteq> DFree f" for d f i
    using freed_idle(2) [OF assms, of d] by auto
  have w: "workers (threads s) ! i = WExit" if "i < length (workers (threads s))" for i
    using gone nth_mem [OF that] by auto
  from step show False
    by cases (use a gone_d w in \<open>force+\<close>)
qed

text \<open>
  C25: All ways in which the manager and the pool can stop the process or become undefined: the listener's
  assertion, when \<open>tpool_add_work\<close> refused a connection; \<open>hermes_shutdown\<close> closing a socket that was never
  opened; and a teardown that does not wait for the queue, with two or more jobs left in it. No step on the pool
  happens after it was freed, and the assertion of \<open>hermes_init\<close> never fails.
\<close>

theorem server_faults:
  assumes "server_reachable E n port aops s" "server_step E s (Inl e)"
  shows "e = AssertExit \<and> listener s = LAdd \<and> adders (threads s) 0 = ARet (-1) \<or>
    e = Undefined \<and> main s = MShutdown \<and> server_socket (manager s) = None \<or>
    e = Undefined \<and> (\<exists>p f. pool (threads s) = Some p \<and> destroyers (threads s) 0 = DFree f \<and> f \<noteq> 1 \<and>
      2 \<le> cur_queue_size p)"
  using assms(2)
proof cases
  have inv: "server_inv n port s" by (rule reachable_server_inv [OF assms(1)])
  then have c: "callers_ok s" "teardown_ok s" "reachable (n + 2) 10 True (threads s)"
    by (simp_all add: server_inv_def)
  { case thread_fault
    then obtain p where p: "pool (threads s) = Some p" using freed_quiet [OF inv] by blast
    from step_fault_iff [OF c(3) _ _ p] thread_fault obtain d f where
      d: "e = Undefined" "destroyers (threads s) d = DFree f" "f \<noteq> 1" "2 \<le> cur_queue_size p"
      by (auto simp: int_max_def)
    then have "d = 0" using c(2) by (auto simp: teardown_ok_def)
    then show ?thesis using d p by auto }
  { case (init_return ret)
    then have "ret = 1" using c(1) by (simp add: callers_ok_def)
    then show ?thesis using init_return by (simp add: hermes_init_return_def) }
  { case (listen_accept now new_fd)
    then show ?thesis by (auto simp: listen_accept_def Let_def split: if_split_asm) }
  { case (listen_added ret)
    then show ?thesis by (cases "ret = -1") (simp_all add: listen_added_def) }
  { case (shutdown_return ret)
    then show ?thesis by (simp add: hermes_shutdown_return_def split: option.split_asm) }
qed

subsection \<open>The pauses between attempts to open the socket\<close>

text \<open>They double once: 2 seconds after the first failure, 4 after every other.\<close>

lemma backoff_capped: "(next_sleep ^^ k) 0 = (if k = 0 then 0 else if k = 1 then 2 else 4)"
  by (induction k) (auto simp: next_sleep_def)

subsection \<open>A full pool\<close>

text \<open>One connection: it is accepted, and the call of \<open>tpool_add_work\<close> for it returns.\<close>

lemma add_called:
  assumes s: "server_reachable E n port aops s" and l: "listener s = LAccept"
    and up: "\<not> manager_shutdown (manager s)" and fd: "fd \<noteq> -1"
    and p: "pool (threads s) = Some p"
  shows "\<exists>s1. listen_accept E now fd s = Inr s1 \<and> server_step E s (Inr s1) \<and>
    server_reachable E n port aops s1 \<and> listener s1 = LAdd \<and> main s1 = main s \<and> manager s1 = manager s \<and> pool (threads s1) = Some p \<and>
    workers (threads s1) = workers (threads s) \<and> (\<exists>w. adders (threads s1) 0 = ACall w) \<and>
    connections s1 = connections s @ [hms_endpoint_init (E\<lparr>env_sigpipe := sigpipe s\<rparr>) now fd (ops (manager s))]"
proof -
  let ?e = "hms_endpoint_init (E\<lparr>env_sigpipe := sigpipe s\<rparr>) now fd (ops (manager s))"
  let ?s = "set_adder 0 (ACall (Handle ?e)) (s\<lparr>listener := LAdd, connections := connections s @ [?e]\<rparr>)"
  have "server_step E s (listen_accept E now fd s)" using l by (rule server_step.listen_accept)
  moreover have "listen_accept E now fd s = Inr ?s" using fd up by (simp add: listen_accept_def Let_def)
  ultimately have step: "server_step E s (Inr ?s)" by simp
  show ?thesis
    using step server_next [OF s step] p fd up
    by (intro exI [of _ ?s]) (simp add: listen_accept_def set_adder_def Let_def)
qed

lemma add_returned:
  assumes l: "listener s = LAdd" and w: "adders (threads s) 0 = ACall w" "fresh (threads s) a"
    and p: "pool (threads s) = Some p" and r: "tpool_add_work True a w p = Inr (p', Some r, b)"
    and keep: "\<And>a x. works p a = Some x \<Longrightarrow> \<exists>y. works p' a = Some y \<and> work y = work x"
  shows "\<exists>s1. server_step E s (Inr s1) \<and> listener s1 = LAdd \<and> adders (threads s1) 0 = ARet r \<and>
    main s1 = main s \<and> manager s1 = manager s \<and> connections s1 = connections s \<and> pool (threads s1) = Some p'"
proof -
  let ?t = "threads s"
  let ?t' = "?t\<lparr>pool := Some p', workers := if b then wake_workers (workers ?t) else workers ?t,
    adders := (adders ?t)(0 := ARet r), accepted := accepted ?t @ (if Some r = Some 1 then [w] else [])\<rparr>"
  have "add_step True 0 a w ?t = Inr ?t'"
    using p r by (simp add: add_step_def on_pool_def)
  moreover have "tpool_step ?t (add_step True 0 a w ?t)" using w by (rule tpool_step.add)
  ultimately have step: "tpool_step ?t (Inr ?t')" by simp
  have "keeps_calls ?t ?t'" using w(1) by (simp add: keeps_calls_def)
  moreover have "listening ?t'" if "listening ?t"
  proof -
    from that obtain q a x where "pool ?t = Some q" "WRun a \<in> set (workers ?t)" "works q a = Some x"
      "work x = Listen" unfolding listening_iff by blast
    then have "WRun a \<in> set (workers ?t)" "works p a = Some x" "work x = Listen" using p by simp_all
    moreover from this(1) have "WRun a \<in> set (if b then wake_workers (workers ?t) else workers ?t)"
      by (force simp: wake_workers_def)
    ultimately show ?thesis using keep [of a x] by (auto simp: listening_iff)
  qed
  ultimately have "server_step E s (Inr (s\<lparr>threads := ?t'\<rparr>))"
    using step by (intro server_step.thread) auto
  then show ?thesis using l by (intro exI [of _ "s\<lparr>threads := ?t'\<rparr>"]) simp
qed

lemma full_refuses:
  assumes s: "server_reachable E n port aops s" and l: "listener s = LAccept"
    and up: "\<not> manager_shutdown (manager s)" and fd: "fd \<noteq> -1"
    and p: "pool (threads s) = Some p" "cur_queue_size p = 10"
  shows "\<exists>s1 s2. listen_accept E now fd s = Inr s1 \<and> server_step E s (Inr s1) \<and> server_reachable E n port aops s1 \<and>
    server_step E s1 (Inr s2) \<and> server_reachable E n port aops s2 \<and> server_step E s2 (Inl AssertExit)"
proof -
  obtain s1 w where s1: "listen_accept E now fd s = Inr s1" "server_step E s (Inr s1)" "server_reachable E n port aops s1" "listener s1 = LAdd"
    "pool (threads s1) = Some p" "adders (threads s1) 0 = ACall w"
    using add_called [OF s l up fd p(1), of now] by blast
  have r: "reachable (n + 2) 10 True (threads s1)"
    using reachable_server_inv [OF s1(3)] by (simp add: server_inv_def)
  obtain a where a: "fresh (threads s1) a" using fresh_exists [OF r] by blast
  have "max_queue_size p = 10" "do_not_block_when_full p" using reachable_settings [OF r s1(5)] by auto
  then have "tpool_add_work True a w p = Inr (p, Some (-1), False)"
    using p(2) by (simp add: tpool_add_work_def)
  from add_returned [OF s1(4,6) a s1(5) this, of E] obtain s2 where
    s2: "server_step E s1 (Inr s2)" "listener s2 = LAdd" "adders (threads s2) 0 = ARet (-1)" by auto
  have "server_step E s2 (listen_added (-1) s2)" using s2(2,3) by (rule server_step.listen_added)
  then have "server_step E s2 (Inl AssertExit)" by (simp add: listen_added_def)
  then show ?thesis using s1 s2 server_next [OF s1(3) s2(1)] by blast
qed

text \<open>
  C27: When ten connections wait for a worker, the next one ends the server: from any reachable state with a full
  queue, a successful \<open>accept\<close> is followed by a call of \<open>tpool_add_work\<close> that can be refused at once, and the
  assertion on its result then exits the process.
\<close>

theorem full_pool_exits:
  assumes "server_reachable E n port aops s" "listener s = LAccept" "\<not> manager_shutdown (manager s)"
    "pool (threads s) = Some p" "cur_queue_size p = 10" "fd \<noteq> -1"
  shows "\<exists>s1 s2. listen_accept E now fd s = Inr s1 \<and> server_step E s (Inr s1) \<and> server_reachable E n port aops s1 \<and>
    server_step E s1 (Inr s2) \<and> server_reachable E n port aops s2 \<and> server_step E s2 (Inl AssertExit)"
  using full_refuses [OF assms(1-3,6,4,5)] .

subsection \<open>A run\<close>

text \<open>A server with two workers and the default functions, up to its first \<open>accept\<close>.\<close>

definition no_ops :: "conn hms_ops" where
  "no_ops = \<lparr>hms_validate = None, hms_accepts = None, hms_handle = None\<rparr>"

definition started_pool :: "bool \<Rightarrow> conn job tpool" where
  "started_pool queued =
     \<lparr>num_threads = 2, max_queue_size = 10, do_not_block_when_full = True,
      cur_queue_size = (if queued then 1 else 0), queue_head = (if queued then 1 else 0),
      queue_tail = (if queued then 1 else 0), queue_closed = False, shutdown = False,
      works = (\<lambda>a. None)(1 \<mapsto> \<lparr>work = Listen, next_work = 0\<rparr>)\<rparr>"

definition started :: "conn job sys" where
  "started =
     \<lparr>pool = Some (started_pool False), workers = [WRun 1, WStart], adders = (\<lambda>c. AIdle),
      destroyers = (\<lambda>d. DIdle), accepted = [Listen], taken = [Listen]\<rparr>"

definition server_at :: "conn job sys \<Rightarrow> main_pc \<Rightarrow> listen_pc \<Rightarrow> int option \<Rightarrow> conn server" where
  "server_at t m l fd =
     \<lparr>manager =
        \<lparr>server_socket = fd, server_port = 61182, manager_shutdown = False, manager_num_threads = 0,
         dops = \<lparr>hms_validate = Some hms_default_validate, hms_accepts = None,
                 hms_handle = Some (hms_default_handle conn_env)\<rparr>,
         ops = no_ops\<rparr>,
      threads = t, main = m, listener = l, sigpipe = SigIgnored, slept = [], forced = None,
      connections = [], dropped = []\<rparr>"

definition listening_server :: "conn server" where
  "listening_server = server_at started MReady LAccept (Some 3)"

lemma reach_thread:
  assumes "server_reachable E n port aops s" "tpool_step (threads s) (Inr t)" "keeps_calls (threads s) t"
    "\<not> listening (threads s)"
  shows "server_reachable E n port aops (s\<lparr>threads := t\<rparr>)"
  by (rule server_next [OF assms(1)]) (rule server_step.thread; use assms in blast)

lemma listening_server: "server_reachable conn_env 0 61182 no_ops listening_server"
proof -
  let ?call = "(sys_init 2 10 True)\<lparr>adders := (\<lambda>c. AIdle)(1 := ACall Listen)\<rparr> :: conn job sys"
  let ?added = "started\<lparr>pool := Some (started_pool True), workers := [WStart, WStart],
    adders := (\<lambda>c. AIdle)(1 := ARet 1), taken := []\<rparr>"
  have two: "replicate 2 WStart = [WStart, WStart]" by (simp add: numeral_2_eq_2)
  note defs = sys_init_def tpool_init_def started_def started_pool_def
  have same: "conn_env\<lparr>env_sigpipe := SigIgnored\<rparr> = conn_env" by (simp add: conn_env_def)
  have "hermes_init conn_env 0 61182 no_ops = Inr (server_at ?call MInit LWait None)"
    by (simp add: same hermes_init_def server_at_def set_adder_def Let_def sys_init_def int_max_def int_min_def
        fun_eq_iff two)
  then have r0: "server_reachable conn_env 0 61182 no_ops (server_at ?call MInit LWait None)"
    by (rule server_start)
  have "add_step True 1 1 Listen ?call = Inr ?added"
    by (simp add: add_step_def on_pool_def tpool_add_work_def enqueue_def set_work_def defs Let_def
        wake_workers_def int_max_def int_min_def two)
  moreover have "tpool_step ?call (add_step True 1 1 Listen ?call)"
    by (rule tpool_step.add) (simp_all add: fresh_def defs)
  ultimately have "tpool_step ?call (Inr ?added)" by simp
  then have r1: "server_reachable conn_env 0 61182 no_ops (server_at ?added MInit LWait None)"
    using reach_thread [OF r0, of ?added]
    by (simp add: server_at_def keeps_calls_def listening_iff defs)
  have "server_step conn_env (server_at ?added MInit LWait None)
      (hermes_init_return 1 (server_at ?added MInit LWait None))"
    by (rule server_step.init_return) (simp_all add: server_at_def)
  moreover have "hermes_init_return 1 (server_at ?added MInit LWait None) =
      Inr (server_at (?added\<lparr>adders := \<lambda>c. AIdle\<rparr>) MReady LWait None)"
    by (simp add: hermes_init_return_def server_at_def set_adder_def fun_upd_idem)
  ultimately have r2: "server_reachable conn_env 0 61182 no_ops
      (server_at (?added\<lparr>adders := \<lambda>c. AIdle\<rparr>) MReady LWait None)"
    using server_next [OF r1] by simp
  let ?idle = "?added\<lparr>adders := \<lambda>c. AIdle\<rparr>"
  have "worker_step 0 0 ?idle = Inr started"
    by (simp add: worker_step_def on_pool_def tpool_thread_def dequeue_def defs wake_destroyer_def Let_def)
  moreover have "tpool_step ?idle (worker_step 0 0 ?idle)"
    by (rule tpool_step.worker) (simp_all add: started_def)
  ultimately have "tpool_step ?idle (Inr started)" by simp
  then have r3: "server_reachable conn_env 0 61182 no_ops (server_at started MReady LWait None)"
    using reach_thread [OF r2, of started]
    by (simp add: server_at_def keeps_calls_def listening_iff defs)
  have "listening started" by (simp add: listening_iff defs)
  then have "server_step conn_env (server_at started MReady LWait None)
      (Inr (server_at started MReady (LOpen 0) None))"
    using server_step.listen_start [of "server_at started MReady LWait None" conn_env]
    by (simp add: server_at_def)
  from server_next [OF r3 this]
  have r4: "server_reachable conn_env 0 61182 no_ops (server_at started MReady (LOpen 0) None)" .
  have "server_step conn_env (server_at started MReady (LOpen 0) None)
      (Inr (listen_open 0 3 0 0 0 (server_at started MReady (LOpen 0) None)))"
    by (rule server_step.listen_open) (simp add: server_at_def)
  moreover have "listen_open 0 3 0 0 0 (server_at started MReady (LOpen 0) None) = listening_server"
    by (simp add: listen_open_def open_socket_def server_at_def listening_server_def Let_def)
  ultimately show ?thesis using server_next [OF r4] by simp
qed

text \<open>Ten more connections arrive while the other worker is busy.\<close>

definition queued :: "nat \<Rightarrow> conn server \<Rightarrow> bool" where
  "queued k s \<longleftrightarrow> server_reachable conn_env 0 61182 no_ops s \<and> listener s = LAccept \<and> main s = MReady \<and>
     \<not> manager_shutdown (manager s) \<and>
     (\<exists>p. pool (threads s) = Some p \<and> cur_queue_size p = int k)"

lemma open_pool:
  assumes "server_inv n port s" "main s = MReady" "pool (threads s) = Some p"
  shows "\<not> shutdown p" "\<not> queue_closed p"
proof -
  have t: "teardown_ok s" "reachable (n + 2) 10 True (threads s)" using assms(1) by (simp_all add: server_inv_def)
  have idle: "destroyers (threads s) d = DIdle" for d
    using t(1) assms(2) by (cases "d = 0") (simp_all add: teardown_ok_def)
  obtain as d0 where inv: "pool_inv (threads s) p as d0" using reach_10 [OF t(2) assms(3)] by blast
  have "\<not> active (destroyers (threads s) d0)" using idle by simp
  then show "\<not> shutdown p" "\<not> queue_closed p"
    using destroyer_closed [OF pool_invD(10) [OF inv]] destroyer_down [OF pool_invD(10) [OF inv]] by auto
qed

lemma queued_next:
  assumes q: "queued k s" "k < 10" shows "\<exists>s'. queued (Suc k) s'"
proof -
  from q(1) obtain p where s: "server_reachable conn_env 0 61182 no_ops s" "listener s = LAccept"
    "main s = MReady" "\<not> manager_shutdown (manager s)" "pool (threads s) = Some p" "cur_queue_size p = int k"
    by (auto simp: queued_def)
  obtain s1 w where s1: "server_reachable conn_env 0 61182 no_ops s1" "listener s1 = LAdd" "main s1 = main s"
    "manager s1 = manager s" "pool (threads s1) = Some p" "adders (threads s1) 0 = ACall w"
    using add_called [OF s(1,2,4) _ s(5), of 3 "(0, 0)"] by auto
  have inv: "server_inv 0 61182 s1" by (rule reachable_server_inv [OF s1(1)])
  then have r: "reachable (0 + 2) 10 True (threads s1)" by (simp add: server_inv_def)
  obtain a where a: "fresh (threads s1) a" using fresh_exists [OF r] by blast
  obtain as d0 where pinv: "pool_inv (threads s1) p as d0" "max_queue_size p = 10"
    using reach_10 [OF r s1(5)] by blast
  note D = pool_invD [OF pinv(1)]
  have a': "a \<noteq> 0" "works p a = None" "int (length as) < int_max"
    using a s1(5) D(2) s(6) q(2) by (auto simp: fresh_def int_max_def)
  obtain p' where p': "enqueue a w p = Inr (p', as = [])" "queue_ok p' (as @ [a])"
    "\<forall>b. b \<noteq> a \<longrightarrow> (works p' b = None \<longleftrightarrow> works p b = None)"
    using enqueue_queue [OF D(1) a', of w] by blast
  have add: "tpool_add_work True a w p = Inr (p', Some 1, as = [])"
    using p'(1) open_pool [OF inv _ s1(5)] s1(3) s(3,6) pinv(2) q(2) by (simp add: tpool_add_work_def)
  have keep: "\<exists>y. works p' b = Some y \<and> work y = work x" if "works p b = Some x" for b x
  proof -
    have "b \<noteq> a" using that a'(2) by auto
    then show ?thesis
      using that p'(3) enqueue_item [OF p'(1), of b] by (cases "works p' b") (auto simp: item_def)
  qed
  obtain s2 where s2: "server_step conn_env s1 (Inr s2)" "listener s2 = LAdd" "adders (threads s2) 0 = ARet 1"
    "main s2 = main s1" "manager s2 = manager s1" "pool (threads s2) = Some p'"
    using add_returned [OF s1(2,6) a s1(5) add keep, of conn_env] by auto
  let ?s = "set_adder 0 AIdle (s2\<lparr>listener := LAccept\<rparr>)"
  have "server_step conn_env s2 (listen_added 1 s2)" using s2(2,3) by (rule server_step.listen_added)
  then have "server_step conn_env s2 (Inr ?s)" by (simp add: listen_added_def)
  from server_next [OF server_next [OF s1(1) s2(1)] this]
  have "server_reachable conn_env 0 61182 no_ops ?s" .
  moreover have "cur_queue_size p' = int (Suc k)" using p'(2) D(2) s(6) by (simp add: queue_ok_def)
  ultimately show ?thesis
    using s1 s2 s by (intro exI [of _ ?s]) (simp add: queued_def set_adder_def)
qed

lemma queued_exists: "k \<le> 10 \<Longrightarrow> \<exists>s. queued k s"
proof (induction k)
  case 0
  have "queued 0 listening_server"
    using listening_server
    by (simp add: queued_def listening_server_def server_at_def started_def started_pool_def)
  then show ?case by blast
next
  case (Suc k)
  then show ?case using queued_next by auto
qed

subsection \<open>A run that shuts down\<close>

text \<open>Steps of the pool's threads by which no call begins or returns.\<close>

fun inside :: "'w action \<Rightarrow> bool" where
  "inside (CallAdd c w) = False"
| "inside (CallDestroy d f) = False"
| "inside _ = True"

lemma wakes_idle: "wake_adders f c = AIdle \<longleftrightarrow> f c = AIdle" "wake_destroyer d g e = DIdle \<longleftrightarrow> g e = DIdle"
  by (auto simp: wake_adders_def wake_destroyer_def split: adder_pc.splits)

lemma act_inside:
  assumes "act a t = Some (Inr t')" "inside a" shows "keeps_calls t t'"
proof (cases a)
  case (Add c x)
  then obtain w where w: "adders t c = ACall w" "add_step True c x w t = Inr t'"
    using assms(1) by (auto split: adder_pc.split_asm if_split_asm)
  then show ?thesis by (auto simp: add_step_def on_pool_Inr res_iff keeps_calls_def
      split: option.splits if_split_asm)
next
  case (Thread i d)
  then have "worker_step i d t = Inr t'" using assms(1) by (simp split: if_split_asm)
  then show ?thesis by (auto simp: worker_step_def on_pool_Inr res_iff keeps_calls_def wakes_idle split: if_split_asm)
next
  case (Run i)
  then obtain x where "worker_run i x t = Inr t'" using assms(1) by (auto split: worker_pc.split_asm if_split_asm)
  then show ?thesis by (auto simp: worker_run_def on_pool_Inr res_iff keeps_calls_def)
next
  case (Destroy d)
  then obtain f where f: "destroyers t d \<noteq> DIdle" "destroy_step d f t = Inr t'"
    using assms(1) by (auto split: destroyer_pc.split_asm)
  then obtain p p' r where "(case f of None \<Rightarrow> destroy_section p | Some f \<Rightarrow> tpool_destroy f p) = (p', r)"
    "pool t = Some p" by (auto simp: destroy_step_def on_pool_Inr) (metis surj_pair)
  with f show ?thesis by (auto simp: destroy_step_def on_pool_def keeps_calls_def split: option.split_asm if_split_asm)
next
  case (NotEmpty d)
  then show ?thesis
    using assms(1) by (auto simp: not_empty_step_def on_pool_Inr keeps_calls_def split: destroyer_pc.split_asm if_split_asm)
next
  case (NotFull d)
  then show ?thesis
    using assms(1) by (auto simp: not_full_step_def on_pool_Inr keeps_calls_def wakes_idle
        split: destroyer_pc.split_asm if_split_asm)
next
  case (Join d)
  then show ?thesis
    using assms(1) by (auto simp: join_step_def on_pool_Inr keeps_calls_def split: destroyer_pc.split_asm if_split_asm)
qed (use assms in simp_all)

lemma reach_act:
  assumes "server_reachable E n port aops s" "act a (threads s) = Some (Inr t)" "inside a"
    "listening t \<or> listener s = LReturned"
  shows "server_reachable E n port aops (s\<lparr>threads := t\<rparr>)"
  by (rule server_next [OF assms(1)])
    (rule server_step.thread; use assms(4) act_step [OF assms(2)] act_inside [OF assms(2,3)] in blast)

lemma reach_acts:
  assumes "server_reachable E n port aops s" "acts as (threads s) = Some t" "list_all inside as"
    "listener s = LReturned"
  shows "server_reachable E n port aops (s\<lparr>threads := t\<rparr>)"
  using assms
proof (induction as arbitrary: s)
  case (Cons a as)
  then obtain t1 where t1: "act a (threads s) = Some (Inr t1)" "acts as t1 = Some t"
    by (auto split: option.split_asm sum.split_asm)
  then have "server_reachable E n port aops (s\<lparr>threads := t1\<rparr>)"
    using Cons.prems by (intro reach_act [OF Cons.prems(1), of a]) simp_all
  then show ?case using Cons.IH [of "s\<lparr>threads := t1\<rparr>"] t1(2) Cons.prems by simp
next
  case Nil
  then have "s\<lparr>threads := t\<rparr> = s" by (cases s) simp
  then show ?case by (simp only: Nil.prems(1))
qed

text \<open>
  One connection comes in and is taken by the other worker. Then the server is shut down, waiting for the queue;
  a connection that comes in now is not handed on.
\<close>

definition guest :: "conn hms_endpoint" where
  "guest = hms_endpoint_init conn_env (0, 0) 4 no_ops"

definition serving :: "conn job sys" where
  "serving = started\<lparr>pool := Some (started_pool False\<lparr>works := (works (started_pool False))
      (2 \<mapsto> \<lparr>work = Handle guest, next_work = 0\<rparr>)\<rparr>),
    workers := [WRun 1, WRun 2], accepted := [Listen, Handle guest], taken := [Listen, Handle guest]\<rparr>"

definition serving_server :: "conn server" where
  "serving_server = (server_at serving MReady LAccept (Some 3))\<lparr>connections := [guest]\<rparr>"

lemma serving_server: "server_reachable conn_env 0 61182 no_ops serving_server"
proof -
  let ?accept = "(server_at (started\<lparr>adders := (\<lambda>c. AIdle)(0 := ACall (Handle guest))\<rparr>) MReady LAdd (Some 3))
    \<lparr>connections := [guest]\<rparr>"
  let ?p = "(started_pool True)\<lparr>queue_head := 2, queue_tail := 2,
    works := (works (started_pool False))(2 \<mapsto> \<lparr>work = Handle guest, next_work = 0\<rparr>)\<rparr>"
  let ?added = "started\<lparr>pool := Some ?p, adders := (\<lambda>c. AIdle)(0 := ARet 1),
    accepted := [Listen, Handle guest]\<rparr>"
  have same: "conn_env\<lparr>env_sigpipe := SigIgnored\<rparr> = conn_env" by (simp add: conn_env_def)
  note step = server_step.listen_accept [of listening_server conn_env "(0, 0)" 4]
  have "listen_accept conn_env (0, 0) 4 listening_server = Inr ?accept"
    by (simp add: listen_accept_def listening_server_def server_at_def guest_def same set_adder_def started_def Let_def)
  then have r1: "server_reachable conn_env 0 61182 no_ops ?accept"
    using server_next [OF listening_server] step by (simp add: listening_server_def server_at_def)
  have "act (Add 0 2) (threads ?accept) = Some (Inr ?added)"
    by (simp add: server_at_def started_def started_pool_def run_defs)
  then have r2: "server_reachable conn_env 0 61182 no_ops (?accept\<lparr>threads := ?added\<rparr>)"
    by (rule reach_act [OF r1]) (simp_all add: started_def started_pool_def listening_iff)
  have "server_step conn_env (?accept\<lparr>threads := ?added\<rparr>) (listen_added 1 (?accept\<lparr>threads := ?added\<rparr>))"
    by (rule server_step.listen_added) (simp_all add: server_at_def)
  then have added: "server_step conn_env (?accept\<lparr>threads := ?added\<rparr>)
      (Inr ((server_at (?added\<lparr>adders := \<lambda>c. AIdle\<rparr>) MReady LAccept (Some 3))\<lparr>connections := [guest]\<rparr>))"
    by (simp add: listen_added_def set_adder_def server_at_def fun_upd_idem)
  let ?idle = "(server_at (?added\<lparr>adders := \<lambda>c. AIdle\<rparr>) MReady LAccept (Some 3))\<lparr>connections := [guest]\<rparr>"
  have r3: "server_reachable conn_env 0 61182 no_ops ?idle" by (rule server_next [OF r2 added])
  have "act (Thread 1 0) (threads ?idle) = Some (Inr serving)"
    by (simp add: server_at_def serving_def started_def started_pool_def run_defs)
  then have "server_reachable conn_env 0 61182 no_ops (?idle\<lparr>threads := serving\<rparr>)"
    by (rule reach_act [OF r3]) (simp_all add: serving_def started_def started_pool_def listening_iff)
  then show ?thesis by (simp add: serving_server_def server_at_def)
qed

definition freeing :: "conn job sys" where
  "freeing = serving\<lparr>pool := Some (started_pool False\<lparr>works := Map.empty, queue_closed := True, shutdown := True\<rparr>),
    workers := [WExit, WExit], destroyers := (\<lambda>d. DIdle)(0 := DFree 1)\<rparr>"

definition stopped_server :: "conn server" where
  "stopped_server =
     (let s = hermes_shutdown_call 1 serving_server in
      s\<lparr>listener := LReturned, dropped := [5],
        threads := freeing\<lparr>pool := None, destroyers := (\<lambda>d. DIdle)(0 := DRet 0)\<rparr>\<rparr>)"

lemma stopped_server: "server_reachable conn_env 0 61182 no_ops stopped_server"
proof -
  let ?s = "hermes_shutdown_call 1 serving_server"
  have r1: "server_reachable conn_env 0 61182 no_ops ?s"
    by (rule server_next [OF serving_server])
      (rule server_step.shutdown_call, simp add: serving_server_def server_at_def)
  let ?d = "?s\<lparr>listener := LReturned, dropped := [5]\<rparr>"
  have "server_step conn_env ?s (listen_accept conn_env (0, 0) 5 ?s)"
    by (rule server_step.listen_accept)
      (simp add: hermes_shutdown_call_def set_destroyer_def serving_server_def server_at_def)
  then have "server_step conn_env ?s (Inr ?d)"
    by (simp add: listen_accept_def hermes_shutdown_call_def set_destroyer_def serving_server_def server_at_def)
  from server_next [OF r1 this] have r2: "server_reachable conn_env 0 61182 no_ops ?d" .
  have "acts [Run 0, Run 1, Destroy 0, NotEmpty 0, NotFull 0, Thread 0 0, Thread 1 0, Join 0, Join 0, Join 0]
      (threads ?d) = Some freeing"
    by (simp add: freeing_def serving_def serving_server_def hermes_shutdown_call_def set_destroyer_def server_at_def
        started_def started_pool_def run_defs wake_adders_def fun_eq_iff)
  then have r3: "server_reachable conn_env 0 61182 no_ops (?d\<lparr>threads := freeing\<rparr>)"
    by (rule reach_acts [OF r2]) simp_all
  let ?t = "freeing\<lparr>pool := None, destroyers := (\<lambda>d. DIdle)(0 := DRet 0)\<rparr>"
  have "free_step 0 freeing = Some (Inr ?t)"
    by (simp add: free_step_def freeing_def serving_def started_pool_def free_queue.simps fun_eq_iff)
  then have step: "tpool_step freeing (Inr ?t)"
    by (intro tpool_step.free [of freeing 0 1]) (simp_all add: freeing_def)
  have k: "keeps_calls freeing ?t" by (simp add: keeps_calls_def freeing_def)
  have "server_step conn_env (?d\<lparr>threads := freeing\<rparr>) (Inr (?d\<lparr>threads := freeing\<rparr>\<lparr>threads := ?t\<rparr>))"
    by (rule server_step.thread) (use step k in simp_all)
  from server_next [OF r3 this] show ?thesis by (simp add: stopped_server_def Let_def)
qed

subsection \<open>The properties at the run\<close>

lemma full_server:
  obtains s p where "server_reachable conn_env 0 61182 no_ops s" "listener s = LAccept" "main s = MReady"
    "\<not> manager_shutdown (manager s)" "pool (threads s) = Some p" "cur_queue_size p = 10"
  using queued_exists [of 10] by (auto simp: queued_def)

theorem server_in_order_witness:
  "(\<exists>(s :: conn server) p as. pool (threads s) = Some p \<and> cur_queue_size p = 10 \<and> length as = 10 \<and>
      accepted (threads s) = taken (threads s) @ map (item p) as) \<and>
   pool (threads stopped_server) = None \<and> forced stopped_server = Some 1 \<and>
   taken (threads stopped_server) = [Listen, Handle guest] \<and>
   taken (threads stopped_server) = calls 61182 stopped_server \<and> set (workers (threads stopped_server)) \<subseteq> {WExit} \<and>
   dropped stopped_server = [5] \<and> manager_shutdown (manager stopped_server) \<and> listener stopped_server = LReturned"
proof -
  obtain s p where s: "server_reachable conn_env 0 61182 no_ops s" "pool (threads s) = Some p"
    "cur_queue_size p = 10" by (rule full_server)
  then obtain as where as: "queue_ok p as" "accepted (threads s) = taken (threads s) @ map (item p) as"
    using server_in_order [OF s(1)] by blast
  have "length as = 10" using as(1) s(3) by (simp add: queue_ok_def)
  moreover have "pool (threads stopped_server) = None" "forced stopped_server = Some 1"
    "taken (threads stopped_server) = [Listen, Handle guest]" "dropped stopped_server = [5]"
    by (simp_all add: stopped_server_def freeing_def serving_def hermes_shutdown_call_def set_destroyer_def)
  ultimately show ?thesis using server_in_order [OF stopped_server] s as by auto
qed


theorem server_faults_witness:
  "\<exists>s :: conn server. server_step conn_env s (Inl AssertExit) \<and> listener s = LAdd \<and>
     adders (threads s) 0 = ARet (-1)"
proof -
  obtain s p where s: "server_reachable conn_env 0 61182 no_ops s" "listener s = LAccept" "main s = MReady"
    "\<not> manager_shutdown (manager s)" "pool (threads s) = Some p" "cur_queue_size p = 10"
    by (rule full_server)
  obtain s2 where s2: "server_reachable conn_env 0 61182 no_ops s2" "server_step conn_env s2 (Inl AssertExit)"
    using full_refuses [OF s(1,2,4) _ s(5,6), of 5 "(0, 0)"] by auto
  from server_faults [OF this] s2(2) show ?thesis by auto
qed

theorem full_pool_exits_witness:
  "\<exists>s s1 s2 :: conn server. listen_accept conn_env (0, 0) 5 s = Inr s1 \<and> server_step conn_env s1 (Inr s2) \<and>
     server_step conn_env s2 (Inl AssertExit)"
proof -
  obtain s p where s: "server_reachable conn_env 0 61182 no_ops s" "listener s = LAccept" "main s = MReady"
    "\<not> manager_shutdown (manager s)" "pool (threads s) = Some p" "cur_queue_size p = 10"
    by (rule full_server)
  from full_pool_exits [OF s(1,2,4-6), of 5 "(0, 0)"] show ?thesis by auto
qed

end
