(* ===== verification/Files.thy ===== *)
theory Files
  imports Prelude
begin

section \<open>The files the copy application reads and writes\<close>

text \<open>
  The calls on files of \<open>copy_client.c\<close> and \<open>copy_server.c\<close>, parameters of the model like the sockets, with
  the POSIX contract the code relies on. \<open>fs_fopen\<close> opens a stream for reading (\<open>None\<close> is NULL; a stream is
  named by its descriptor), \<open>fs_size\<close> is \<open>fseek (f, 0, SEEK_END)\<close> and \<open>ftell (f)\<close>. \<open>fs_open_write\<close> opens with
  \<open>O_WRONLY | O_CREAT\<close>. \<open>fs_pread fd n off\<close> returns the count and the bytes stored, \<open>fs_pwrite fd bs off\<close> the
  count. The results of the calls that close are not read by the code.
\<close>

record 's file_calls =
  fs_fopen :: "string \<Rightarrow> 's \<Rightarrow> int option \<times> 's"
  fs_size :: "int \<Rightarrow> 's \<Rightarrow> int \<times> 's"
  fs_fclose :: "int \<Rightarrow> 's \<Rightarrow> 's"
  fs_open_read :: "string \<Rightarrow> 's \<Rightarrow> int \<times> 's"
  fs_open_write :: "string \<Rightarrow> 's \<Rightarrow> int \<times> 's"
  fs_pread :: "int \<Rightarrow> nat \<Rightarrow> int \<Rightarrow> 's \<Rightarrow> (int \<times> char list) \<times> 's"
  fs_pwrite :: "int \<Rightarrow> char list \<Rightarrow> int \<Rightarrow> 's \<Rightarrow> int \<times> 's"
  fs_close :: "int \<Rightarrow> 's \<Rightarrow> 's"

text \<open>Writing at an offset: what was there is replaced, a gap behind the end is filled with zeros.\<close>

definition overwrite :: "nat \<Rightarrow> char list \<Rightarrow> char list \<Rightarrow> char list" where
  "overwrite off bs c =
     (if bs = [] then c
      else take off (c @ replicate (off - length c) (CHR 0x00)) @ bs @ drop (off + length bs) c)"

lemma overwrite_Nil [simp]: "overwrite off [] c = c"
  by (simp add: overwrite_def)

lemma overwrite_behind: "overwrite (length pre) bs (pre @ rest) = pre @ bs @ drop (length bs) rest"
  by (simp add: overwrite_def)

text \<open>The content of a file that opening it for writing creates.\<close>

definition created :: "char list option \<Rightarrow> char list" where
  "created f = (case f of None \<Rightarrow> [] | Some c \<Rightarrow> c)"

lemma created_simps [simp]: "created None = []" "created (Some c) = c"
  by (simp_all add: created_def)

text \<open>
  \<open>stored s\<close> are the files with their contents, \<open>opened s\<close> the descriptors in use with the names they were
  opened by. A call can fail, and then changes no file; a count can be short. While the system \<open>works\<close>
  nothing fails that the files do not make fail, and counts are full.
\<close>

locale files =
  fixes F :: "'s file_calls" and stored :: "'s \<Rightarrow> string \<Rightarrow> char list option"
    and opened :: "'s \<Rightarrow> int \<Rightarrow> string option" and works :: "'s \<Rightarrow> bool"
  assumes fopen_spec: "fs_fopen F name s = (r, s') \<Longrightarrow> stored s' = stored s \<and> (works s \<longrightarrow> works s') \<and>
      (case r of None \<Rightarrow> opened s' = opened s \<and> (works s \<longrightarrow> stored s name = None)
       | Some h \<Rightarrow> opened s' = (opened s)(h \<mapsto> name) \<and> opened s h = None \<and> stored s name \<noteq> None)"
    and size_spec: "fs_size F h s = (l, s') \<Longrightarrow> opened s h = Some name \<Longrightarrow> stored s name = Some c \<Longrightarrow>
      stored s' = stored s \<and> opened s' = opened s \<and> (works s \<longrightarrow> works s') \<and>
      (l = -1 \<and> \<not> works s \<or> l = int (length c))"
    and fclose_spec: "fs_fclose F h s = s' \<Longrightarrow>
      stored s' = stored s \<and> opened s' = (opened s)(h := None) \<and> (works s \<longrightarrow> works s')"
    and open_read_spec: "fs_open_read F name s = (fd, s') \<Longrightarrow> stored s' = stored s \<and> (works s \<longrightarrow> works s') \<and>
      (fd = -1 \<and> opened s' = opened s \<and> (works s \<longrightarrow> stored s name = None) \<or>
       0 \<le> fd \<and> opened s' = (opened s)(fd \<mapsto> name) \<and> opened s fd = None \<and> stored s name \<noteq> None)"
    and open_write_spec: "fs_open_write F name s = (fd, s') \<Longrightarrow> (works s \<longrightarrow> works s') \<and>
      (fd = -1 \<and> opened s' = opened s \<and> stored s' = stored s \<and> \<not> works s \<or>
       0 \<le> fd \<and> opened s' = (opened s)(fd \<mapsto> name) \<and> opened s fd = None \<and>
       stored s' = (stored s)(name \<mapsto> created (stored s name)))"
    and pread_spec: "fs_pread F fd n off s = ((k, bs), s') \<Longrightarrow> opened s fd = Some name \<Longrightarrow>
      stored s name = Some c \<Longrightarrow> 0 \<le> off \<Longrightarrow>
      stored s' = stored s \<and> opened s' = opened s \<and> (works s \<longrightarrow> works s') \<and>
      (k = -1 \<and> \<not> works s \<or>
       k = int (length bs) \<and> length bs \<le> n \<and> bs = take (length bs) (drop (nat off) c) \<and>
       (works s \<longrightarrow> bs = take n (drop (nat off) c)))"
    and pwrite_spec: "fs_pwrite F fd bs off s = (k, s') \<Longrightarrow> opened s fd = Some name \<Longrightarrow>
      stored s name = Some c \<Longrightarrow> opened s' = opened s \<and> (works s \<longrightarrow> works s') \<and> k \<le> int (length bs) \<and>
      (if off < 0 then k = -1 else works s \<longrightarrow> k = int (length bs)) \<and>
      stored s' = (stored s)(name \<mapsto> overwrite (nat off) (take (nat k) bs) c)"
    and close_spec: "fs_close F fd s = s' \<Longrightarrow>
      stored s' = stored s \<and> opened s' = (opened s)(fd := None) \<and> (works s \<longrightarrow> works s')"

subsection \<open>A disk\<close>

text \<open>
  A system with files by name, the descriptors in use, and a script of what happens to the calls: \<open>FShort\<close>
  cuts the count of a read or a write, \<open>FErr\<close> makes a call fail. When the script has ended nothing fails.
\<close>

datatype file_event = FOk | FErr | FShort nat

record disk =
  d_files :: "string \<Rightarrow> char list option"
  d_open :: "string option list"
  d_script :: "file_event list"

definition d_works :: "disk \<Rightarrow> bool" where
  "d_works d \<longleftrightarrow> set (d_script d) \<subseteq> {FOk}"

definition d_opened :: "disk \<Rightarrow> int \<Rightarrow> string option" where
  "d_opened d fd = (if 0 \<le> fd \<and> nat fd < length (d_open d) then d_open d ! nat fd else None)"

definition d_event :: "disk \<Rightarrow> file_event \<times> disk" where
  "d_event d = (case d_script d of [] \<Rightarrow> (FOk, d) | e # es \<Rightarrow> (e, d\<lparr>d_script := es\<rparr>))"

definition d_new :: "string \<Rightarrow> disk \<Rightarrow> int \<times> disk" where
  "d_new name d = (int (length (d_open d)), d\<lparr>d_open := d_open d @ [Some name]\<rparr>)"

definition d_close :: "int \<Rightarrow> disk \<Rightarrow> disk" where
  "d_close fd d = (if d_opened d fd = None then d else d\<lparr>d_open := (d_open d)[nat fd := None]\<rparr>)"

definition d_open_read :: "string \<Rightarrow> disk \<Rightarrow> int option \<times> disk" where
  "d_open_read name d =
     (let (e, d) = d_event d in
      if e = FErr \<or> d_files d name = None then (None, d)
      else let (fd, d) = d_new name d in (Some fd, d))"

definition d_open_write :: "string \<Rightarrow> disk \<Rightarrow> int \<times> disk" where
  "d_open_write name d =
     (let (e, d) = d_event d in
      if e = FErr then (-1, d)
      else d_new name (d\<lparr>d_files := (d_files d)(name \<mapsto> created (d_files d name))\<rparr>))"

text \<open>The file behind a descriptor.\<close>

definition d_file :: "disk \<Rightarrow> int \<Rightarrow> (string \<times> char list) option" where
  "d_file d fd =
     (case d_opened d fd of
        None \<Rightarrow> None
      | Some name \<Rightarrow> map_option (Pair name) (d_files d name))"

fun count :: "file_event \<Rightarrow> char list \<Rightarrow> char list" where
  "count (FShort k) bs = take k bs"
| "count e bs = bs"

definition d_size :: "int \<Rightarrow> disk \<Rightarrow> int \<times> disk" where
  "d_size fd d =
     (let (e, d) = d_event d in
      case d_file d fd of
        Some (name, c) \<Rightarrow> if e = FErr then (-1, d) else (int (length c), d)
      | None \<Rightarrow> (-1, d))"

definition d_pread :: "int \<Rightarrow> nat \<Rightarrow> int \<Rightarrow> disk \<Rightarrow> (int \<times> char list) \<times> disk" where
  "d_pread fd n off d =
     (let (e, d) = d_event d in
      case d_file d fd of
        Some (name, c) \<Rightarrow>
          if e = FErr \<or> off < 0 then ((-1, []), d)
          else let bs = count e (take n (drop (nat off) c)) in ((int (length bs), bs), d)
      | None \<Rightarrow> ((-1, []), d))"

definition d_pwrite :: "int \<Rightarrow> char list \<Rightarrow> int \<Rightarrow> disk \<Rightarrow> int \<times> disk" where
  "d_pwrite fd bs off d =
     (let (e, d) = d_event d in
      case d_file d fd of
        Some (name, c) \<Rightarrow>
          if e = FErr \<or> off < 0 then (-1, d)
          else let bs = count e bs in
            (int (length bs), d\<lparr>d_files := (d_files d)(name \<mapsto> overwrite (nat off) bs c)\<rparr>)
      | None \<Rightarrow> (-1, d))"

definition disk_calls :: "disk file_calls" where
  "disk_calls =
     \<lparr>fs_fopen = d_open_read, fs_size = d_size, fs_fclose = d_close,
      fs_open_read = (\<lambda>name d. case d_open_read name d of (r, d) \<Rightarrow> (case r of None \<Rightarrow> -1 | Some fd \<Rightarrow> fd, d)),
      fs_open_write = d_open_write, fs_pread = d_pread, fs_pwrite = d_pwrite, fs_close = d_close\<rparr>"

lemma d_event_facts:
  assumes "d_event d = (e, d')"
  shows "d_files d' = d_files d" "d_opened d' = d_opened d" "d_file d' = d_file d"
    "d_works d \<Longrightarrow> d_works d' \<and> e = FOk"
proof -
  have f: "d_files d' = d_files d" "d_open d' = d_open d" "d_works d \<Longrightarrow> d_works d' \<and> e = FOk"
    using assms by (auto simp: d_event_def d_works_def split: list.splits)
  show o: "d_opened d' = d_opened d" by (rule ext) (simp add: d_opened_def f)
  show "d_file d' = d_file d" by (rule ext) (simp add: d_file_def f o split: option.split)
  show "d_files d' = d_files d" "d_works d \<Longrightarrow> d_works d' \<and> e = FOk" by fact+
qed

lemma d_new_facts:
  assumes "d_new name d = (fd, d')"
  shows "0 \<le> fd" "d_opened d' = (d_opened d)(fd \<mapsto> name)" "d_opened d fd = None" "d_files d' = d_files d"
    "d_works d' = d_works d"
  using assms by (auto simp: d_new_def d_opened_def d_works_def nth_append fun_eq_iff)

lemma d_close_facts:
  "d_files (d_close fd d) = d_files d" "d_opened (d_close fd d) = (d_opened d)(fd := None)"
  "d_works (d_close fd d) = d_works d"
  by (auto simp: d_close_def d_opened_def d_works_def fun_eq_iff nth_list_update)

lemma d_open_read_facts:
  assumes "d_open_read name d = (r, d')"
  shows "d_files d' = d_files d \<and> (d_works d \<longrightarrow> d_works d') \<and>
    (case r of None \<Rightarrow> d_opened d' = d_opened d \<and> (d_works d \<longrightarrow> d_files d name = None)
     | Some fd \<Rightarrow> 0 \<le> fd \<and> d_opened d' = (d_opened d)(fd \<mapsto> name) \<and> d_opened d fd = None \<and>
         d_files d name \<noteq> None)"
proof -
  obtain e d1 where e: "d_event d = (e, d1)" by force
  obtain fd d2 where n: "d_new name d1 = (fd, d2)" by force
  have "(r, d') = (if e = FErr \<or> d_files d1 name = None then (None, d1) else (Some fd, d2))"
    using assms by (auto simp: d_open_read_def e n)
  with d_event_facts [OF e] d_new_facts [OF n] show ?thesis by (auto split: if_splits)
qed

lemma d_open_write_facts:
  assumes "d_open_write name d = (fd, d')"
  shows "(d_works d \<longrightarrow> d_works d') \<and>
    (fd = -1 \<and> d_opened d' = d_opened d \<and> d_files d' = d_files d \<and> \<not> d_works d \<or>
     0 \<le> fd \<and> d_opened d' = (d_opened d)(fd \<mapsto> name) \<and> d_opened d fd = None \<and>
     d_files d' = (d_files d)(name \<mapsto> created (d_files d name)))"
proof -
  obtain e d1 where e: "d_event d = (e, d1)" by force
  let ?d = "d1\<lparr>d_files := (d_files d1)(name \<mapsto> created (d_files d1 name))\<rparr>"
  obtain f d2 where n: "d_new name ?d = (f, d2)" by force
  have "(fd, d') = (if e = FErr then (-1, d1) else (f, d2))"
    using assms by (auto simp: d_open_write_def e n)
  moreover have "d_opened ?d = d_opened d1" "d_works ?d = d_works d1"
    by (simp_all add: d_opened_def d_works_def fun_eq_iff)
  ultimately show ?thesis
    using d_event_facts [OF e] d_new_facts [OF n] by (auto split: if_splits)
qed

lemma count_facts:
  "length (count e bs) \<le> length bs" "take (length (count e bs)) bs = count e bs"
  by (cases e; simp add: min_def)+

lemma d_size_facts:
  assumes "d_size fd d = (l, d')" "d_opened d fd = Some name" "d_files d name = Some c"
  shows "d_files d' = d_files d \<and> d_opened d' = d_opened d \<and> (d_works d \<longrightarrow> d_works d') \<and>
    (l = -1 \<and> \<not> d_works d \<or> l = int (length c))"
proof -
  obtain e d1 where e: "d_event d = (e, d1)" by force
  have f: "d_file d1 fd = Some (name, c)"
    using assms d_event_facts(3) [OF e] by (simp add: d_file_def)
  have "(l, d') = (if e = FErr then (-1, d1) else (int (length c), d1))"
    using assms f by (auto simp: d_size_def e)
  with d_event_facts [OF e] show ?thesis by (auto split: if_splits)
qed

lemma d_pread_facts:
  assumes "d_pread fd n off d = ((k, bs), d')" "d_opened d fd = Some name" "d_files d name = Some c" "0 \<le> off"
  shows "d_files d' = d_files d \<and> d_opened d' = d_opened d \<and> (d_works d \<longrightarrow> d_works d') \<and>
    (k = -1 \<and> \<not> d_works d \<or>
     k = int (length bs) \<and> length bs \<le> n \<and> bs = take (length bs) (drop (nat off) c) \<and>
     (d_works d \<longrightarrow> bs = take n (drop (nat off) c)))"
proof -
  obtain e d1 where e: "d_event d = (e, d1)" by force
  have f: "d_file d1 fd = Some (name, c)"
    using assms d_event_facts(3) [OF e] by (simp add: d_file_def)
  let ?bs = "count e (take n (drop (nat off) c))"
  have "((k, bs), d') = (if e = FErr then ((-1, []), d1) else ((int (length ?bs), ?bs), d1))"
    using assms f by (auto simp: d_pread_def e Let_def)
  moreover have "take (length ?bs) (drop (nat off) c) = ?bs" "length ?bs \<le> n"
    by (cases e; simp add: min_def)+
  ultimately show ?thesis using d_event_facts [OF e] by (auto split: if_splits)
qed

lemma d_pwrite_facts:
  assumes "d_pwrite fd bs off d = (k, d')" "d_opened d fd = Some name" "d_files d name = Some c"
  shows "d_opened d' = d_opened d \<and> (d_works d \<longrightarrow> d_works d') \<and> k \<le> int (length bs) \<and>
    (if off < 0 then k = -1 else d_works d \<longrightarrow> k = int (length bs)) \<and>
    d_files d' = (d_files d)(name \<mapsto> overwrite (nat off) (take (nat k) bs) c)"
proof -
  obtain e d1 where e: "d_event d = (e, d1)" by force
  have f: "d_file d1 fd = Some (name, c)"
    using assms d_event_facts(3) [OF e] by (simp add: d_file_def)
  let ?bs = "count e bs"
  let ?d = "d1\<lparr>d_files := (d_files d1)(name \<mapsto> overwrite (nat off) ?bs c)\<rparr>"
  have "(k, d') = (if e = FErr \<or> off < 0 then (-1, d1) else (int (length ?bs), ?d))"
    using assms f by (auto simp: d_pwrite_def e Let_def)
  moreover have "d_opened ?d = d_opened d1" "d_works ?d = d_works d1"
    by (simp_all add: d_opened_def d_works_def fun_eq_iff)
  moreover have "(d_files d)(name \<mapsto> c) = d_files d" using assms(3) by (simp add: fun_upd_idem)
  ultimately show ?thesis
    using d_event_facts [OF e] count_facts(1,2) [of e bs] by (auto split: if_splits)
qed

interpretation disk: files disk_calls d_files d_opened d_works
proof (unfold_locales, goal_cases)
  case (1 name s r s')
  then have "d_open_read name s = (r, s')" by (simp add: disk_calls_def)
  from d_open_read_facts [OF this] show ?case by (cases r) simp_all
next
  case (2 h s l s' name c)
  then show ?case by (intro d_size_facts) (simp_all add: disk_calls_def)
next
  case (4 name s fd s')
  obtain r d where r: "d_open_read name s = (r, d)" by force
  with 4 have "fd = (case r of None \<Rightarrow> -1 | Some fd \<Rightarrow> fd)" "s' = d" by (simp_all add: disk_calls_def)
  with d_open_read_facts [OF r] show ?case by (cases r) simp_all
next
  case (5 name s fd s')
  then show ?case by (intro d_open_write_facts) (simp add: disk_calls_def)
next
  case (6 fd n off s k bs s' name c)
  then show ?case by (intro d_pread_facts) (simp_all add: disk_calls_def)
next
  case (7 fd bs off s k s' name c)
  then show ?case by (intro d_pwrite_facts) (simp_all add: disk_calls_def)
qed (auto simp: disk_calls_def d_close_facts)

end
