(* ===== verification/Copy_App.thy ===== *)
theory Copy_App
  imports Hermes Files
begin

section \<open>Copying a file (src/src/tests/copy_client.c, copy_server.c)\<close>

text \<open>
  The application that comes with the library: a client that sends a file in chunks, each a COPY message with
  the name, the offset and the bytes, and a server that writes them. \<open>F\<close> are the calls on files (Files), on
  the same state \<open>s\<close> as the connection. What is printed on the console is not modelled, with one exception:
  \<open>print_debug\<close>, which reads memory.
\<close>

subsection \<open>The functions of the server\<close>

definition copy_validate :: "'s hms_op" where
  "copy_validate endpoint msg s =
     (let is_valid = True; is_copy = False in
      bind_run (Some (hms_msg_get_verb (Some msg))) (\<lambda>(verb, ret).
      bind_run
        (if ret = 0 then
           bind_run (Some (deref verb)) (\<lambda>verb.
           returns (if strcasecmp verb ''COPY'' \<noteq> 0 then False else is_copy))
         else returns is_copy) (\<lambda>is_copy.
      bind_run (Some (if is_copy then hms_msg_num_headers (Some msg) else Inr 1)) (\<lambda>num_headers.
      bind_run (Some (if is_copy then hms_msg_num_named_headers (Some msg) else Inr 3)) (\<lambda>num_named.
      bind_run (Some (if is_copy then hms_msg_get_body_size (Some msg) else Inr 1)) (\<lambda>body_size.
      let is_valid =
        (if is_copy \<and> num_headers \<le> 0 then False
         else if is_copy \<and> num_named \<noteq> 3 then False
         else if is_copy \<and> body_size \<le> 0 then False
         else is_valid)
      in returns (if is_valid then 0 else -1, msg, s)))))))"

definition copy_accepts :: "'s hms_op" where
  "copy_accepts endpoint msg s =
     bind_run (Some (hms_msg_get_verb (Some msg))) (\<lambda>(verb, _).
     case verb of
       None \<Rightarrow> returns (-1, msg, s)
     | Some v \<Rightarrow> returns (if strcasecmp v ''COPY'' = 0 then 0 else -1, msg, s))"

text \<open>
  The label \<open>copy_handle_done\<close>. \<open>data\<close> is declared behind the first three jumps to it: \<open>None\<close> is the variable
  that was never set, and \<open>if (data)\<close> reads it.
\<close>

definition copy_handle_done ::
    "'s file_calls \<Rightarrow> int \<Rightarrow> char list option option \<Rightarrow> bool \<Rightarrow> hms_msg \<Rightarrow> 's \<Rightarrow> (int \<times> hms_msg \<times> 's) run" where
  "copy_handle_done F fd data erred msg s =
     (let s = (if fd \<ge> 0 then fs_close F fd s else s) in
      case data of
        None \<Rightarrow> Some (Inl Undefined)
      | Some _ \<Rightarrow> returns (if \<not> erred then 0 else -1, msg, s))"

definition copy_handle :: "'s file_calls \<Rightarrow> 's hms_op" where
  "copy_handle F endpoint msg s =
     bind_run (Some (hms_msg_get_named_header (Some msg) (Some ''Filename''))) (\<lambda>(filename, _).
     bind_run (Some (hms_msg_get_named_header (Some msg) (Some ''Offset''))) (\<lambda>(offset_str, _).
     case filename of
       None \<Rightarrow> copy_handle_done F (-1) None True msg s
     | Some filename \<Rightarrow>
     case offset_str of
       None \<Rightarrow> copy_handle_done F (-1) None True msg s
     | Some offset_str \<Rightarrow>
     let (fd, s) = fs_open_write F filename s in
     if fd = -1 then copy_handle_done F fd None True msg s
     else
       let offset = atoi offset_str in
       bind_run (Some (hms_msg_get_body_size (Some msg))) (\<lambda>len.
       bind_run (Some (hms_msg_get_body (Some msg))) (\<lambda>(data, data_len, _).
       case data of
         None \<Rightarrow> copy_handle_done F fd (Some None) True msg s
       | Some d \<Rightarrow>
           if data_len \<noteq> len then copy_handle_done F fd (Some (Some d)) True msg s
           else
             let (n, s) = fs_pwrite F fd (take (nat len) d) offset s in
             copy_handle_done F fd (Some (Some d)) (n \<noteq> len) msg s))))"

definition copy_ops :: "'s file_calls \<Rightarrow> 's hms_ops" where
  "copy_ops F =
     \<lparr>hms_validate = Some copy_validate, hms_accepts = Some copy_accepts, hms_handle = Some (copy_handle F)\<rparr>"

subsection \<open>The client\<close>

text \<open>
  The block under \<open>__DEBUG_PRINT_MSG_HEADER__\<close>, which copy_client.c defines: the header is printed into a
  buffer of exactly its size, and \<open>%s\<close> reads that buffer up to a NUL.
\<close>

definition print_debug :: "hms_msg \<Rightarrow> string res" where
  "print_debug request =
     bind_res (hms_msg_get_header_size (Some request)) (\<lambda>debug_buf_size.
     bind_res (hms_msg_print_header (Some request) (Some (malloc_area (nat debug_buf_size))) debug_buf_size)
       (\<lambda>(debug_buf, _).
     if NUL \<in> set debug_buf then Inr (cstr debug_buf) else Inl Undefined))"

text \<open>The label \<open>done_send_chunk\<close>.\<close>

definition send_chunk_done :: "'s file_calls \<Rightarrow> int \<Rightarrow> bool \<Rightarrow> hms_msg \<Rightarrow> 's \<Rightarrow> (int \<times> 's) run" where
  "send_chunk_done F src_fd erred request s =
     (let s = (if src_fd \<noteq> -1 then fs_close F src_fd s else s) in
      bind_run (Some (hms_msg_destroy (Some request))) (\<lambda>_.
      returns (if \<not> erred then 0 else -1, s)))"

text \<open>
  \<open>debug\<close> is \<open>__DEBUG_PRINT_MSG_HEADER__\<close>. A negative size given to \<open>malloc\<close> is a huge one, and the result NULL.
  To read more than the buffer holds (a chunk of -1 bytes) is undefined.
\<close>

definition send_chunk ::
    "bool \<Rightarrow> bool \<Rightarrow> 's env \<Rightarrow> 's file_calls \<Rightarrow> hms_connector ptr \<Rightarrow> string \<Rightarrow> string \<Rightarrow> int \<Rightarrow> int \<Rightarrow>
     's \<Rightarrow> (int \<times> 's) run" where
  "send_chunk ck debug E F connector src dst offset len s =
     (let offset_str = sprintf_d offset; request = hms_msg_create in
      bind_run (Some (hms_msg_set_verb (Some request) (Some ''COPY''))) (\<lambda>(request, _).
      bind_run (Some (hms_msg_add_named_header (Some request) (Some ''Filename'') (Some dst))) (\<lambda>(request, _).
      bind_run (Some (hms_msg_add_named_header (Some request) (Some ''Offset'') (Some offset_str))) (\<lambda>(request, _).
      let (src_fd, s) = fs_open_read F src s in
      if src_fd = -1 then send_chunk_done F src_fd True request s
      else
        bind_run (Some (int_add len 1)) (\<lambda>size.
        if size < 0 then send_chunk_done F src_fd True request s
        else if len < 0 then Some (Inl Undefined)
        else
          let ((ret, bytes), s) = fs_pread F src_fd (nat len) offset s;
              data = bytes @ drop (length bytes) (malloc_area (nat size))
          in
          if ret \<noteq> len then send_chunk_done F src_fd True request s
          else
            bind_run (Some (hms_msg_set_body ck (Some request) (Some data) len)) (\<lambda>(request, ret).
            if ret \<noteq> 0 then send_chunk_done F src_fd True request s
            else
              bind_run (hms_connector_send_msg E connector (Some request) s) (\<lambda>(_, s).
              if ret \<noteq> 0 then send_chunk_done F src_fd True request s
              else
                bind_run (if debug then Some (print_debug request) else returns []) (\<lambda>_.
                send_chunk_done F src_fd False request s))))))))"

text \<open>The loop of \<open>main\<close>: its result is \<open>erred\<close>.\<close>

partial_function (option) send_chunks ::
    "bool \<Rightarrow> bool \<Rightarrow> 's env \<Rightarrow> 's file_calls \<Rightarrow> hms_connector ptr \<Rightarrow> string \<Rightarrow> string \<Rightarrow> int \<Rightarrow> int \<Rightarrow> int \<Rightarrow>
     's \<Rightarrow> (bool \<times> 's) run" where
  [code]: "send_chunks ck debug E F connector src dst chunk_size offset left s =
     (if left > 0 then
        bind_run
          (if left > chunk_size then
             bind_run (send_chunk ck debug E F connector src dst offset chunk_size s) (\<lambda>(status, s).
             bind_run (Some (int_add offset chunk_size)) (\<lambda>offset.
             bind_run (Some (int_add left (- chunk_size))) (\<lambda>left.
             returns (status, offset, left, s))))
           else
             bind_run (send_chunk ck debug E F connector src dst offset left s) (\<lambda>(status, s).
             bind_run (Some (int_add offset left)) (\<lambda>offset.
             returns (status, offset, 0, s)))) (\<lambda>(status, offset, left, s).
        if status = -1 then returns (True, s)
        else send_chunks ck debug E F connector src dst chunk_size offset left s)
      else returns (False, s))"

text \<open>
  \<open>main\<close>, with its arguments and the calls \<open>N\<close> that open the connection. The result of
  \<open>hms_connector_init\<close> is not looked at; when a chunk failed, the connector is not destroyed.
\<close>

definition copy_client ::
    "bool \<Rightarrow> bool \<Rightarrow> 's env \<Rightarrow> 's file_calls \<Rightarrow> 'a net \<Rightarrow> string list \<Rightarrow> 's \<Rightarrow> (int \<times> 's) run" where
  "copy_client ck debug E F N argv s =
     (if length argv = 6 then
        let src_file = argv ! 1; hostname = argv ! 2; port = atoi (argv ! 3);
            dst_file = argv ! 4; chunk_size = atoi (argv ! 5);
            (src, s) = fs_fopen F src_file s
        in case src of
          None \<Rightarrow> returns (-1, s)
        | Some src \<Rightarrow>
            let (n, s) = fs_size F src s; file_len = to_int32 n; s = fs_fclose F src s in
            bind_run (Some (hms_connector_init N (Some hostname) port)) (\<lambda>connector.
            bind_run (send_chunks ck debug E F connector src_file dst_file chunk_size 0 file_len s)
              (\<lambda>(erred, s).
            if erred then returns (-1, s)
            else
              bind_run (Some (hms_connector_destroy connector)) (\<lambda>_.
              returns (0, s))))
      else returns (-1, s))"

end
