(* ===== verification/Copy_Msg.thy ===== *)
theory Copy_Msg
  imports Copy_App Hermes_Correct
begin

section \<open>The messages of the copy application\<close>

text \<open>The COPY message for a chunk: what the client builds, and that the wire can carry it.\<close>

subsection \<open>Header lines\<close>

definition key_ok :: "string \<Rightarrow> bool" where
  "key_ok k \<longleftrightarrow> k \<noteq> [] \<and> plain k \<and> CHR '':'' \<notin> set k \<and> stripped k"

text \<open>Values without blanks and periods, such as numbers.\<close>

definition value_ok :: "string \<Rightarrow> bool" where
  "value_ok v \<longleftrightarrow> v \<noteq> [] \<and> (\<forall>c \<in> set v. \<not> isspace c \<and> c \<noteq> NUL \<and> c \<noteq> CHR ''.'')"

lemma isspace_chars: "isspace (CHR 0x0A)" "isspace (CHR 0x0D)" "isspace (CHR '' '')"
  by (simp_all add: isspace_def)

lemma not_dot_line: "v \<noteq> [] \<Longrightarrow> last v \<noteq> CHR '' '' \<Longrightarrow> last v \<noteq> CHR ''.'' \<Longrightarrow> \<not> dot_line (k @ v)"
  by (cases v rule: rev_cases) (simp_all add: dot_line_def)

lemma nheader_value:
  assumes "key_ok k" "value_ok v"
  shows "nheader_ok \<lparr>nh_key = k, nh_val = v\<rparr>"
proof -
  have v: "v \<noteq> []" "last v \<in> set v" "hd v \<in> set v" using assms(2) by (simp_all add: value_ok_def)
  have nb: "\<not> isspace c" "c \<noteq> NUL" "c \<noteq> CHR ''.''" if "c \<in> set v" for c
    using assms(2) that by (simp_all add: value_ok_def)
  have "plain v" using nb isspace_chars by (auto simp: plain_def)
  moreover have "\<not> dot_line ((k @ '':'') @ v)"
    using nb [OF v(2)] isspace_chars by (intro not_dot_line v(1)) auto
  moreover have "stripped v" using nb v by (simp add: stripped_def)
  ultimately show ?thesis
    using assms(1) by (simp add: nheader_ok_def nline_def key_ok_def plain_def)
qed

lemma value_sprintf_d: "value_ok (sprintf_d n)"
proof -
  have "\<not> isspace c \<and> c \<noteq> NUL \<and> c \<noteq> CHR ''.''" if "isdigit c \<or> c = CHR ''-''" for c
    using that by (auto simp: isdigit_def isspace_def Let_def)
  then show ?thesis using sprintf_d_chars by (auto simp: value_ok_def)
qed

lemma hex_string_chars: "c \<in> set (hex_string sig) \<Longrightarrow> c \<in> set HEX_STRING"
proof -
  have d: "unat b mod 16 < length HEX_STRING" "unat b div 16 < length HEX_STRING" for b :: byte
    using unsigned_less [where 'a = nat, of b] by (simp_all add: HEX_STRING_def div_less_iff_less_mult)
  assume "c \<in> set (hex_string sig)"
  then show ?thesis using nth_mem [OF d(1)] nth_mem [OF d(2)] by (auto simp: hex_string_def hex_byte_def)
qed

lemma value_hex_string: "sig \<noteq> [] \<Longrightarrow> value_ok (hex_string sig)"
proof -
  assume "sig \<noteq> []"
  then have "hex_string sig \<noteq> []" by (cases sig) (simp_all add: hex_string_def hex_byte_def)
  moreover have "\<forall>c \<in> set HEX_STRING. \<not> isspace c \<and> c \<noteq> NUL \<and> c \<noteq> CHR ''.''"
    by (simp add: HEX_STRING_def isspace_def)
  ultimately show ?thesis using hex_string_chars by (auto simp: value_ok_def)
qed

lemma length_dec_nat: "n < 10 ^ Suc k \<Longrightarrow> length (dec_nat n) \<le> Suc k"
proof (induction k arbitrary: n)
  case 0
  then show ?case by (simp add: dec_nat.simps [of n])
next
  case (Suc k)
  then have "n div 10 < 10 ^ Suc k" by simp
  from Suc.IH [OF this] show ?case by (simp add: dec_nat.simps [of n])
qed

lemma length_sprintf_d: "0 \<le> n \<Longrightarrow> n \<le> int_max \<Longrightarrow> length (sprintf_d n) \<le> 10"
  using length_dec_nat [of "nat n" 9] by (simp add: sprintf_d_def int_max_def)

subsection \<open>The message\<close>

definition chunk_headers :: "bool \<Rightarrow> string \<Rightarrow> int \<Rightarrow> char list \<Rightarrow> hms_msg_nheader list" where
  "chunk_headers ck dst offset c =
     [\<lparr>nh_key = ''Filename'', nh_val = dst\<rparr>, \<lparr>nh_key = ''Offset'', nh_val = sprintf_d offset\<rparr>,
      \<lparr>nh_key = HMS_CONTENT_LENGTH, nh_val = sprintf_d (int (length c))\<rparr>] @
     (if ck then [\<lparr>nh_key = HMS_CONTENT_CHECKSUM, nh_val = hex_string (rfc_md5 (map of_char c))\<rparr>] else [])"

definition chunk_msg :: "bool \<Rightarrow> string \<Rightarrow> int \<Rightarrow> char list \<Rightarrow> hms_msg" where
  "chunk_msg ck dst offset c =
     \<lparr>msg_id = None, verb = Some ''COPY'', headers = [], num_headers = 0,
      named_headers = chunk_headers ck dst offset c,
      num_named_headers = int (length (chunk_headers ck dst offset c)),
      content_len = int (length c), content = Some c\<rparr>"

text \<open>A name that can be sent: as a header, and short enough for the 1024 bytes of a header.\<close>

definition name_ok :: "string \<Rightarrow> bool" where
  "name_ok dst \<longleftrightarrow> nheader_ok \<lparr>nh_key = ''Filename'', nh_val = dst\<rparr> \<and> length dst \<le> 900"

definition offset_ok :: "int \<Rightarrow> bool" where
  "offset_ok n \<longleftrightarrow> 0 \<le> n \<and> n \<le> int_max"

lemma chunk_keys:
  "lower ''Filename'' = ''filename''" "lower ''Offset'' = ''offset''"
  "lower HMS_CONTENT_LENGTH = ''content-length''" "lower HMS_CONTENT_CHECKSUM = ''content-checksum''"
  by code_simp+

lemma chunk_key_ok: "key_ok ''Offset''" "key_ok HMS_CONTENT_LENGTH" "key_ok HMS_CONTENT_CHECKSUM"
  by code_simp+

lemma chunk_find:
  "find_named ''Filename'' (chunk_headers ck dst n c) = Some dst"
  "find_named ''Offset'' (chunk_headers ck dst n c) = Some (sprintf_d n)"
  "find_named HMS_CONTENT_LENGTH (chunk_headers ck dst n c) = Some (sprintf_d (int (length c)))"
  "find_named HMS_CONTENT_CHECKSUM (chunk_headers ck dst n c) =
     (if ck then Some (hex_string (rfc_md5 (map of_char c))) else None)"
  by (simp_all add: chunk_headers_def chunk_keys)

lemma chunk_headers_wf: "named_wf (chunk_headers ck dst n c)"
  by (simp add: chunk_headers_def named_wf_def chunk_keys)

lemma chunk_msg_wf:
  assumes "c \<noteq> []" "int (length c) \<le> int_max"
  shows "hdr_wf (chunk_msg ck dst n c)" "body_wf (chunk_msg ck dst n c)" "msg_wf (chunk_msg ck dst n c)"
  using assms chunk_headers_wf [of ck dst n c] chunk_find(3) [of ck dst n c]
    atoi_sprintf_d [of "int (length c)"]
  by (simp_all add: chunk_msg_def hdr_wf_def body_wf_def msg_wf_def int_min_def)

lemma chunk_header_text:
  assumes "name_ok dst" "offset_ok n" "int (length c) \<le> int_max"
  shows "length (header_text (chunk_msg ck dst n c)) \<le> 1024"
  using assms length_sprintf_d [of n] length_sprintf_d [of "int (length c)"]
  by (simp add: name_ok_def offset_ok_def header_text_def chunk_msg_def chunk_headers_def
      HMS_CONTENT_LENGTH_def HMS_CONTENT_CHECKSUM_def length_rfc_md5)

lemma chunk_wire_ok:
  assumes "name_ok dst" "offset_ok n" "c \<noteq> []" "int (length c) < int_max"
  shows "wire_ok ck (chunk_msg ck dst n c)"
proof -
  have c: "int (length c) \<le> int_max" using assms(4) by simp
  have "rfc_md5 (map of_char c) \<noteq> []"
    using length_rfc_md5 [of "map of_char c"] by (metis list.size(3) zero_neq_numeral)
  then have "\<forall>h \<in> set (chunk_headers ck dst n c). nheader_ok h"
    using assms(1) chunk_key_ok
    by (auto simp: chunk_headers_def name_ok_def intro!: nheader_value value_sprintf_d value_hex_string)
  moreover have "word_ok ''COPY''" "\<not> dot_line ''COPY''" by code_simp+
  ultimately have "header_ok (chunk_msg ck dst n c)"
    using chunk_msg_wf(1) [OF assms(3) c] by (simp add: header_ok_def) (simp add: chunk_msg_def)
  moreover have "checksum_ok ck (chunk_msg ck dst n c)"
    by (simp add: checksum_ok_def chunk_msg_def chunk_find(4) length_rfc_md5)
  ultimately show ?thesis
    using assms chunk_header_text [OF assms(1,2) c] chunk_msg_wf(2) [OF assms(3) c]
    by (simp add: wire_ok_def) (simp add: chunk_msg_def)
qed

text \<open>It arrives as it was: the receiver sets the headers of the content to what they are.\<close>

lemma chunk_received: "received ck (chunk_msg ck dst n c) = chunk_msg ck dst n c"
proof -
  have "del_named HMS_CONTENT_CHECKSUM
      [\<lparr>nh_key = ''Filename'', nh_val = dst\<rparr>, \<lparr>nh_key = ''Offset'', nh_val = sprintf_d n\<rparr>,
       \<lparr>nh_key = HMS_CONTENT_CHECKSUM, nh_val = v\<rparr>, \<lparr>nh_key = HMS_CONTENT_LENGTH, nh_val = w\<rparr>] =
      [\<lparr>nh_key = ''Filename'', nh_val = dst\<rparr>, \<lparr>nh_key = ''Offset'', nh_val = sprintf_d n\<rparr>,
       \<lparr>nh_key = HMS_CONTENT_LENGTH, nh_val = w\<rparr>]" for v w
    by (simp add: chunk_keys)
  then show ?thesis
    by (simp add: received_def chunk_msg_def chunk_headers_def put_named_def chunk_keys)
qed

text \<open>What the client does to make it: the message before it has its content, and that.\<close>

definition copy_request :: "string \<Rightarrow> int \<Rightarrow> hms_msg" where
  "copy_request dst n =
     hms_msg_create\<lparr>verb := Some ''COPY'', num_named_headers := 2,
       named_headers := [\<lparr>nh_key = ''Filename'', nh_val = dst\<rparr>, \<lparr>nh_key = ''Offset'', nh_val = sprintf_d n\<rparr>]\<rparr>"

lemma copy_request_built:
  "bind_run (Some (hms_msg_set_verb (Some hms_msg_create) (Some ''COPY''))) (\<lambda>(m, _).
   bind_run (Some (hms_msg_add_named_header (Some m) (Some ''Filename'') (Some dst))) (\<lambda>(m, _).
   bind_run (Some (hms_msg_add_named_header (Some m) (Some ''Offset'') (Some (sprintf_d n)))) (\<lambda>(m, _). f m))) =
   f (copy_request dst n)"
  by (simp add: hms_msg_set_verb_eq hms_msg_add_named_header_res put_named_def copy_request_def
      hms_msg_create_def chunk_keys int_min_def int_max_def)

lemma copy_request_wf: "hdr_wf (copy_request dst n)" "content (copy_request dst n) = None"
  "content_len (copy_request dst n) = 0"
  by (simp_all add: copy_request_def hdr_wf_def named_wf_def hms_msg_create_def chunk_keys)

lemma chunk_built:
  assumes "c \<noteq> []" "int (length c) \<le> int_max"
  shows "hms_msg_set_body ck (Some (copy_request dst n)) (Some (c @ rest)) (int (length c)) =
    Inr (chunk_msg ck dst n c, 0)"
proof -
  have "hms_msg_set_body ck (Some (copy_request dst n)) (Some (c @ rest)) (int (length c)) =
      hms_msg_set_body ck (Some (copy_request dst n)) (Some c) (int (length c))"
    by (rule set_body_cong) (simp add: copy_out_def)
  moreover have "hms_msg_del_body (Some (copy_request dst n)) = Inr (copy_request dst n, 0)"
    by (simp add: hms_msg_del_body_def copy_request_wf)
  ultimately show ?thesis
    using assms checksum_string_rfc [OF refl assms(2)]
    by (simp add: hms_msg_set_body_def copy_out_def hms_msg_add_named_header_res Let_def copy_request_def
        chunk_msg_def chunk_headers_def hms_msg_create_def put_named_def chunk_keys int_min_def int_max_def)
qed

end
