(* ===== verification/Host.thy ===== *)
theory Host
  imports Socket Files
begin

section \<open>A host: a connection and files\<close>

text \<open>
  What the copy application runs on. Its calls on the connection do not touch the files and the other way
  round.
\<close>

locale host = connection E pending sent up + files F stored opened works
  for E :: "'s env" and pending :: "'s \<Rightarrow> char list" and sent :: "'s \<Rightarrow> char list" and up :: "'s \<Rightarrow> bool"
    and F :: "'s file_calls" and stored :: "'s \<Rightarrow> string \<Rightarrow> char list option"
    and opened :: "'s \<Rightarrow> int \<Rightarrow> string option" and works :: "'s \<Rightarrow> bool" +
  assumes read_files: "env_read E s n = (k, bs, s') \<Longrightarrow>
      stored s' = stored s \<and> opened s' = opened s \<and> works s' = works s"
    and send_files: "env_send E s bs = (k, s') \<Longrightarrow>
      stored s' = stored s \<and> opened s' = opened s \<and> works s' = works s"
    and fopen_net: "fs_fopen F name s = (r, s') \<Longrightarrow> pending s' = pending s \<and> sent s' = sent s \<and> up s' = up s \<and> env_broken E s' = env_broken E s"
    and size_net: "fs_size F h s = (l, s') \<Longrightarrow> pending s' = pending s \<and> sent s' = sent s \<and> up s' = up s \<and> env_broken E s' = env_broken E s"
    and fclose_net: "fs_fclose F h s = s' \<Longrightarrow> pending s' = pending s \<and> sent s' = sent s \<and> up s' = up s \<and> env_broken E s' = env_broken E s"
    and open_read_net: "fs_open_read F name s = (fd, s') \<Longrightarrow>
      pending s' = pending s \<and> sent s' = sent s \<and> up s' = up s \<and> env_broken E s' = env_broken E s"
    and open_write_net: "fs_open_write F name s = (fd, s') \<Longrightarrow>
      pending s' = pending s \<and> sent s' = sent s \<and> up s' = up s \<and> env_broken E s' = env_broken E s"
    and pread_net: "fs_pread F fd n off s = (x, s') \<Longrightarrow> pending s' = pending s \<and> sent s' = sent s \<and> up s' = up s \<and> env_broken E s' = env_broken E s"
    and pwrite_net: "fs_pwrite F fd bs off s = (k, s') \<Longrightarrow>
      pending s' = pending s \<and> sent s' = sent s \<and> up s' = up s \<and> env_broken E s' = env_broken E s"
    and close_net: "fs_close F fd s = s' \<Longrightarrow> pending s' = pending s \<and> sent s' = sent s \<and> up s' = up s \<and> env_broken E s' = env_broken E s"

subsection \<open>A scripted connection and a disk\<close>

type_synonym machine = "conn \<times> disk"

definition host_env :: "'a env \<Rightarrow> ('a \<times> 'b) env" where
  "host_env E =
     \<lparr>env_read = (\<lambda>s n. case env_read E (fst s) n of (k, bs, c) \<Rightarrow> (k, bs, c, snd s)),
      env_send = (\<lambda>s bs. case env_send E (fst s) bs of (k, c) \<Rightarrow> (k, c, snd s)),
      env_time = (\<lambda>s. case env_time E (fst s) of (t, c) \<Rightarrow> (t, c, snd s)),
      env_broken = (\<lambda>s. env_broken E (fst s)), env_sigpipe = env_sigpipe E\<rparr>"

definition on_disk :: "('b \<Rightarrow> 'x \<times> 'b) \<Rightarrow> 'a \<times> 'b \<Rightarrow> 'x \<times> 'a \<times> 'b" where
  "on_disk f s = (case f (snd s) of (x, d) \<Rightarrow> (x, fst s, d))"

definition host_files :: "'b file_calls \<Rightarrow> ('a \<times> 'b) file_calls" where
  "host_files F =
     \<lparr>fs_fopen = (\<lambda>name. on_disk (fs_fopen F name)), fs_size = (\<lambda>h. on_disk (fs_size F h)),
      fs_fclose = (\<lambda>h. apsnd (fs_fclose F h)), fs_open_read = (\<lambda>name. on_disk (fs_open_read F name)),
      fs_open_write = (\<lambda>name. on_disk (fs_open_write F name)),
      fs_pread = (\<lambda>fd n off. on_disk (fs_pread F fd n off)),
      fs_pwrite = (\<lambda>fd bs off. on_disk (fs_pwrite F fd bs off)), fs_close = (\<lambda>fd. apsnd (fs_close F fd))\<rparr>"

text \<open>The machine of a server, which ignores SIGPIPE, and that of the client, which does not.\<close>

abbreviation machine_env :: "machine env" where "machine_env \<equiv> host_env conn_env"

abbreviation client_env :: "machine env" where "client_env \<equiv> host_env bare_env"

abbreviation machine_files :: "machine file_calls" where "machine_files \<equiv> host_files disk_calls"

lemma on_disk_eq: "on_disk f s = (x, s') \<longleftrightarrow> f (snd s) = (x, snd s') \<and> fst s' = fst s"
  by (cases s') (auto simp: on_disk_def split: prod.splits)

lemma host_env_eq:
  "env_read (host_env E) s n = (k, bs, s') \<longleftrightarrow> env_read E (fst s) n = (k, bs, fst s') \<and> snd s' = snd s"
  "env_send (host_env E) s bs = (k, s') \<longleftrightarrow> env_send E (fst s) bs = (k, fst s') \<and> snd s' = snd s"
  "env_time (host_env E) s = (t, s') \<longleftrightarrow> env_time E (fst s) = (t, fst s') \<and> snd s' = snd s"
  "env_broken (host_env E) s = env_broken E (fst s)"
  "env_sigpipe (host_env E) = env_sigpipe E"
  by (cases s'; auto simp: host_env_def split: prod.splits)+

interpretation machine: host machine_env "\<lambda>s. conn_pending (fst s)" "\<lambda>s. conn_sent (fst s)"
  "\<lambda>s. conn_up (fst s)" machine_files "\<lambda>s. d_files (snd s)" "\<lambda>s. d_opened (snd s)" "\<lambda>s. d_works (snd s)"
proof (unfold_locales, goal_cases)
  case (1 s n k bs s')
  then show ?case using net.rd_data [of "fst s" n k bs "fst s'"] by (simp add: host_env_eq)
next
  case (2 s n k bs s')
  then show ?case using net.rd_end [of "fst s" n k bs "fst s'"] by (simp add: host_env_eq)
next
  case (3 s bs k s')
  then show ?case using net.wr_some [of "fst s" bs k "fst s'"] by (simp add: host_env_eq)
next
  case (4 s bs k s')
  then show ?case using net.wr_none [of "fst s" bs k "fst s'"] by (simp add: host_env_eq)
next
  case (5 s bs k s')
  then show ?case using net.wr_blocks [of "fst s" bs k "fst s'"] by (simp add: host_env_eq)
next
  case (6 s bs k s')
  then show ?case using net.wr_up [of "fst s" bs k "fst s'"] by (simp add: host_env_eq)
next
  case (7 s bs k s')
  then show ?case using net.wr_broken [of "fst s" bs k "fst s'"] by (simp add: host_env_eq)
next
  case (8 s n k bs s')
  then show ?case using net.read_keeps [of "fst s" n k bs "fst s'"] by (simp add: host_env_eq)
next
  case (9 s bs k s')
  then show ?case using net.send_keeps [of "fst s" bs k "fst s'"] by (simp add: host_env_eq)
next
  case (10 s t s')
  then show ?case using net.time_keeps [of "fst s" t "fst s'"] by (simp add: host_env_eq)
next
  case (11 s t s')
  then show ?case using net.time_line [of "fst s" t "fst s'"] by (simp add: host_env_eq)
next
  case (12 name s r s')
  then show ?case using disk.fopen_spec [of name "snd s" r "snd s'"] by (simp add: host_files_def on_disk_eq)
next
  case (13 h s l s' name c)
  then show ?case using disk.size_spec [of h "snd s" l "snd s'" name c] by (simp add: host_files_def on_disk_eq)
next
  case (14 h s s')
  then show ?case using disk.fclose_spec [of h "snd s" "snd s'"] by (auto simp: host_files_def)
next
  case (15 name s fd s')
  then show ?case using disk.open_read_spec [of name "snd s" fd "snd s'"] by (simp add: host_files_def on_disk_eq)
next
  case (16 name s fd s')
  then show ?case using disk.open_write_spec [of name "snd s" fd "snd s'"] by (simp add: host_files_def on_disk_eq)
next
  case (17 fd n off s k bs s' name c)
  then show ?case using disk.pread_spec [of fd n off "snd s" k bs "snd s'" name c] by (simp add: host_files_def on_disk_eq)
next
  case (18 fd bs off s k s' name c)
  then show ?case using disk.pwrite_spec [of fd bs off "snd s" k "snd s'" name c] by (simp add: host_files_def on_disk_eq)
next
  case (19 fd s s')
  then show ?case using disk.close_spec [of fd "snd s" "snd s'"] by (auto simp: host_files_def)
qed (auto simp: host_env_eq host_files_def on_disk_eq)

lemma host_sigpipe:
  "host E pending sent up F stored opened works \<Longrightarrow>
   host (E\<lparr>env_sigpipe := a\<rparr>) pending sent up F stored opened works"
  by (simp add: host_def host_axioms_def connection_sigpipe)

lemma client_env_eq: "client_env = machine_env\<lparr>env_sigpipe := SigDefault\<rparr>"
  by (simp add: host_env_def bare_env_def)

interpretation client: host client_env "\<lambda>s. conn_pending (fst s)" "\<lambda>s. conn_sent (fst s)"
  "\<lambda>s. conn_up (fst s)" machine_files "\<lambda>s. d_files (snd s)" "\<lambda>s. d_opened (snd s)" "\<lambda>s. d_works (snd s)"
  unfolding client_env_eq by (rule host_sigpipe [OF machine.host_axioms])

end
