(* ===== verification/Copy_Client.thy ===== *)
theory Copy_Client
  imports Copy_Msg Host
begin

section \<open>The client of the copy application\<close>

text \<open>
  What one chunk and the whole client do to the connection and the files, on every host (Host), and what the
  debugging output does.
\<close>

subsection \<open>Debugging output\<close>

lemma header_text_no_NUL:
  assumes "header_ok m"
  shows "NUL \<notin> set (header_text m)"
proof -
  have "plain (nline h)" if "h \<in> set (named_headers m)" for h
    using assms that by (simp add: header_ok_def nheader_ok_def)
  then have "NUL \<notin> set (nheaders_text (named_headers m))"
    by (auto simp: nheaders_text_def nline_def plain_def)
  moreover obtain v where "verb m = Some v" "plain v" "plain (uheaders_text (headers m))"
    using assms uheaders_text_plain [of "headers m"] by (auto simp: header_ok_def word_ok_def split: option.splits)
  ultimately show ?thesis by (simp add: header_text_def plain_def)
qed

lemma print_debug_undefined:
  assumes "header_ok m" "int (length (header_text m)) \<le> int_max"
  shows "print_debug m = Inl Undefined"
proof -
  obtain v where v: "verb m = Some v" using assms(1) by (auto simp: header_ok_def split: option.splits)
  show ?thesis
    using header_size_text [OF v assms(2)] hms_msg_print_header_verb [OF v assms(2)]
      header_text_no_NUL [OF assms(1)]
    by (simp add: print_debug_def malloc_area_def)
qed

subsection \<open>Chunks\<close>

text \<open>The chunks of at most \<open>k\<close> bytes of the bytes \<open>c\<close> that start at \<open>off\<close>, with their offsets.\<close>

function chunks :: "nat \<Rightarrow> nat \<Rightarrow> char list \<Rightarrow> (nat \<times> char list) list" where
  "chunks k off c =
     (if k = 0 \<or> c = [] then [] else (off, take k c) # chunks k (off + k) (drop k c))"
  by pat_completeness auto
termination by (relation "measure (\<lambda>(k, off, c). length c)") auto

declare chunks.simps [simp del]

lemma chunks_Nil [simp]: "chunks k off [] = []"
  by (subst chunks.simps) simp

lemma chunks_step: "0 < k \<Longrightarrow> c \<noteq> [] \<Longrightarrow> chunks k off c = (off, take k c) # chunks k (off + k) (drop k c)"
  by (subst chunks.simps) simp

definition chunk_bytes :: "bool \<Rightarrow> string \<Rightarrow> (nat \<times> char list) list \<Rightarrow> char list" where
  "chunk_bytes ck dst cs = concat (map (\<lambda>(off, c). msg_bytes (chunk_msg ck dst (int off) c)) cs)"

lemma chunk_bytes_simps [simp]:
  "chunk_bytes ck dst [] = []"
  "chunk_bytes ck dst ((off, c) # cs) = msg_bytes (chunk_msg ck dst (int off) c) @ chunk_bytes ck dst cs"
  by (simp_all add: chunk_bytes_def)

lemma went_msg_cong:
  "sent s = sent t \<Longrightarrow> up s = up t \<Longrightarrow> sent s' = sent t' \<Longrightarrow> up s' = up t' \<Longrightarrow>
   went_msg sent up s s' m e = went_msg sent up t t' m e"
  by (simp add: went_msg_def)

context host
begin

text \<open>The request with the bytes \<open>c\<close>, sent on a host.\<close>

lemma chunk_sent:
  fixes ck
  assumes "c \<noteq> []" "int (length c) < int_max" "name_ok dst" "0 \<le> off" "off \<le> int_max"
  defines "m \<equiv> chunk_msg ck dst off c"
  shows "env_sigpipe E = SigDefault \<and> \<not> up s \<and> hms_connector_send_msg E (PObj con) (Some m) s = Some (Inl Killed) \<or>
    (\<exists>e s'. went_msg sent up s s' m e \<and>
      hms_connector_send_msg E (PObj con) (Some m) s = returns (if e \<or> content m = None then -1 else 0, s') \<and>
      stored s' = stored s \<and> opened s' = opened s \<and> works s' = works s \<and> pending s' = pending s)"
    "print_debug m = Inl Undefined"
    "env_sigpipe E = SigDefault \<Longrightarrow> env_broken E s \<Longrightarrow>
      hms_connector_send_msg E (PObj con) (Some m) s = Some (Inl Killed)"
proof -
  have "wire_ok ck m"
    unfolding m_def using assms by (intro chunk_wire_ok) (auto simp: offset_ok_def)
  then have w: "header_ok m" "int (length (header_text m)) < int_max" "msg_wf m"
    using chunk_msg_wf(3) [OF assms(1) order.strict_implies_order [OF assms(2)]] by (simp_all add: wire_ok_def int_max_def m_def)
  have v: "verb m = Some ''COPY''" by (simp add: chunk_msg_def m_def)
  from send_msg_out [OF refl refl v w(2,3), of s undefined con]
  show "env_sigpipe E = SigDefault \<and> \<not> up s \<and> hms_connector_send_msg E (PObj con) (Some m) s = Some (Inl Killed) \<or>
    (\<exists>e s'. went_msg sent up s s' m e \<and>
      hms_connector_send_msg E (PObj con) (Some m) s = returns (if e \<or> content m = None then -1 else 0, s') \<and>
      stored s' = stored s \<and> opened s' = opened s \<and> works s' = works s \<and> pending s' = pending s)"
  proof (elim disjE exE conjE, goal_cases)
    case 1
    then show ?case by blast
  next
    case (2 e s')
    have "(stored s', opened s', works s', pending s') = (stored s, opened s, works s, pending s)"
    proof (rule send_msg_keeps [OF _ 2(2)])
      fix s bs k s'
      assume "env_send E s bs = (k, s')"
      from send_files [OF this] send_keeps [OF this]
      show "(stored s', opened s', works s', pending s') = (stored s, opened s, works s, pending s)" by simp
    qed
    with 2 show ?case by blast
  qed
  show "print_debug m = Inl Undefined" using w by (intro print_debug_undefined) simp_all
  show "env_sigpipe E = SigDefault \<Longrightarrow> env_broken E s \<Longrightarrow>
      hms_connector_send_msg E (PObj con) (Some m) s = Some (Inl Killed)"
    by (rule send_msg_killed [OF refl refl v w(2)])
qed

lemma close_effect:
  "stored (fs_close F fd t) = stored t" "opened (fs_close F fd t) = (opened t)(fd := None)"
  "works t \<longrightarrow> works (fs_close F fd t)" "pending (fs_close F fd t) = pending t"
  "sent (fs_close F fd t) = sent t" "up (fs_close F fd t) = up t"
  using close_spec [OF refl, of fd t] close_net [OF refl, of fd t] by simp_all

lemma send_chunk_out:
  assumes "stored s src = Some f" "off + n \<le> length f" "0 < n" "int (length f) < int_max" "name_ok dst"
  shows "env_sigpipe E = SigDefault \<and> \<not> up s \<and>
      send_chunk ck debug E F (PObj con) src dst (int off) (int n) s = Some (Inl Killed) \<or>
    (\<exists>s'. stored s' = stored s \<and> opened s' = opened s \<and> pending s' = pending s \<and>
      (works s \<longrightarrow> works s') \<and> (up s \<longrightarrow> up s') \<and>
      (send_chunk ck debug E F (PObj con) src dst (int off) (int n) s = returns (-1, s') \<and> \<not> works s \<or>
       send_chunk ck debug E F (PObj con) src dst (int off) (int n) s =
         (if debug then Some (Inl Undefined) else returns (0, s')) \<and>
       (\<exists>e. went_msg sent up s s' (chunk_msg ck dst (int off) (take n (drop off f))) e)))"
  and "env_sigpipe E = SigDefault \<Longrightarrow> env_broken E s \<Longrightarrow> works s \<Longrightarrow>
    send_chunk ck debug E F (PObj con) src dst (int off) (int n) s = Some (Inl Killed)"
proof -
  let ?req = "copy_request dst (int off)" and ?c = "take n (drop off f)"
  let ?m = "chunk_msg ck dst (int off) ?c"
  let ?run = "send_chunk ck debug E F (PObj con) src dst (int off) (int n) s"
  let ?out = "\<lambda>s'. stored s' = stored s \<and> opened s' = opened s \<and> pending s' = pending s \<and>
    (works s \<longrightarrow> works s') \<and> (up s \<longrightarrow> up s') \<and>
    (?run = returns (-1, s') \<and> \<not> works s \<or>
     ?run = (if debug then Some (Inl Undefined) else returns (0, s')) \<and> (\<exists>e. went_msg sent up s s' ?m e))"
  have n: "int_add (int n) 1 = Inr (int n + 1)" "\<not> int n + 1 < 0" "\<not> int n < 0"
    using assms by (simp_all add: int_min_def)
  have destroy: "hms_msg_destroy (Some ?req) = Inr 0" by (rule hms_msg_destroy_wf [OF copy_request_wf(1)])
  note step = send_chunk_def Let_def copy_request_built send_chunk_done_def
  obtain fd s1 where o: "fs_open_read F src s = (fd, s1)" by force
  note o_net = open_read_net [OF o]
  from open_read_spec [OF o] assms(1) consider "fd = -1" "opened s1 = opened s" "\<not> works s" "stored s1 = stored s"
    | "0 \<le> fd" "opened s1 = (opened s)(fd \<mapsto> src)" "opened s fd = None" "stored s1 = stored s"
      "works s \<longrightarrow> works s1" by auto
  then have "(env_sigpipe E = SigDefault \<and> \<not> up s \<and> ?run = Some (Inl Killed) \<or> Ex ?out) \<and>
    (env_sigpipe E = SigDefault \<and> env_broken E s \<and> works s \<longrightarrow> ?run = Some (Inl Killed))"
  proof cases
    case 1
    then have "?out s1" using o_net o destroy by (simp add: step)
    with 1(3) show ?thesis by blast
  next
    case 2
    obtain k bs s2 where p: "fs_pread F fd n (int off) s1 = ((k, bs), s2)" by (metis prod.collapse)
    note p_net = pread_net [OF p]
    have op: "opened s1 fd = Some src" "stored s1 src = Some f" "0 \<le> int off" using 2 assms(1) by simp_all
    note p_spec = pread_spec [OF p op]
    have fd: "fd \<noteq> -1" using 2 by simp
    have reopen: "((opened s)(fd \<mapsto> src))(fd := None) = opened s" using 2(3) by (simp add: fun_eq_iff)
    show ?thesis
    proof (cases "k = int n")
      case False
      have "?run = returns (-1, fs_close F fd s2)"
        using o fd n p False destroy by (simp add: step)
      moreover have w: "\<not> works s"
        using p_spec False 2(5) assms(2) by auto
      ultimately have "?out (fs_close F fd s2)" using p_spec p_net 2 o_net close_effect reopen by simp
      with w show ?thesis by blast
    next
      case True
      then have bs: "bs = ?c" "length bs = n" using p_spec by auto
      have small: "?c \<noteq> []" "int (length ?c) \<le> int_max" "int (length ?c) = int n" "int off \<le> int_max"
        using assms bs(2) by auto
      have lt: "int (length ?c) < int_max" using assms small(3) by simp
      note sent = chunk_sent(1,3) [OF small(1) lt assms(5) op(3) small(4), where ck = ck and s = s2 and con = con]
      note debug = chunk_sent(2) [OF small(1) lt assms(5) op(3) small(4), where ck = ck]
      have body: "hms_msg_set_body ck (Some ?req) (Some (?c @ r)) (int n) = Inr (?m, 0)" for r
        using chunk_built [OF small(1,2), of ck dst "int off" r] by (simp only: small(3))
      have destroy': "hms_msg_destroy (Some ?m) = Inr 0"
        by (rule hms_msg_destroy_wf [OF chunk_msg_wf(1) [OF small(1,2)]])
      have run: "?run = bind_run (hms_connector_send_msg E (PObj con) (Some ?m) s2) (\<lambda>(_, s).
          if debug then Some (Inl Undefined) else returns (0, fs_close F fd s))"
        using o fd n p True bs(1) body destroy' debug by (simp add: step cong: if_cong)
      have nets: "up s2 = up s" "env_broken E s2 = env_broken E s" using p_net o_net by simp_all
      have killed: "?run = Some (Inl Killed)"
        if "hms_connector_send_msg E (PObj con) (Some ?m) s2 = Some (Inl Killed)" unfolding run that by simp
      from sent(1) have "env_sigpipe E = SigDefault \<and> \<not> up s \<and> ?run = Some (Inl Killed) \<or> Ex ?out"
      proof (elim disjE exE conjE, goal_cases)
        case 1
        with killed nets show ?case by simp
      next
        case (2 e s3)
        have "?run = (if debug then Some (Inl Undefined) else returns (0, fs_close F fd s3))"
          unfolding run 2(2) by simp
        moreover have "went_msg sent up s (fs_close F fd s3) ?m e"
          using 2(1) p_net o_net close_effect went_msg_cong [of sent s2 s up s3 "fs_close F fd s3" ?m e] by simp
        moreover have "up s \<longrightarrow> up (fs_close F fd s3)"
          using 2(1) nets by (simp add: went_msg_def close_effect)
        ultimately have "?out (fs_close F fd s3)" using p_spec p_net \<open>opened s1 = (opened s)(fd \<mapsto> src)\<close>
            \<open>stored s1 = stored s\<close> \<open>works s \<longrightarrow> works s1\<close> o_net close_effect reopen 2(3-6) by auto
        then show ?case by blast
      qed
      with killed sent(2) nets show ?thesis by blast
    qed
  qed
  then show "env_sigpipe E = SigDefault \<and> \<not> up s \<and> ?run = Some (Inl Killed) \<or> Ex ?out"
    "env_sigpipe E = SigDefault \<Longrightarrow> env_broken E s \<Longrightarrow> works s \<Longrightarrow> ?run = Some (Inl Killed)" by blast+
qed

text \<open>One turn of the loop over the file.\<close>

lemma send_chunks_step:
  assumes "off < length f" "0 < k" "int (length f) < int_max"
    "send_chunk ck False E F con src dst (int off) (int (min k (length f - off))) s = returns (st, s')" "st = -1 \<or> st = 0"
  shows "send_chunks ck False E F con src dst (int k) (int off) (int (length f - off)) s =
    (if st = -1 then returns (True, s')
     else send_chunks ck False E F con src dst (int k) (int (off + min k (length f - off)))
       (int (length f - (off + min k (length f - off)))) s')"
proof (cases "k < length f - off")
  case True
  then have "int_add (int off) (int k) = Inr (int (off + k))"
    "int_add (int (length f - off)) (- int k) = Inr (int (length f - (off + k)))"
    using assms(3) by (auto simp: int_min_def of_nat_diff)
  moreover have "int k < int (length f) - int off" "off < length f" using True by simp_all
  ultimately show ?thesis using True assms
    by (subst send_chunks.simps) (simp add: min_def)
next
  case False
  then have "int_add (int off) (int (length f - off)) = Inr (int (length f))"
    using assms by (auto simp: int_min_def of_nat_diff)
  moreover have "min k (length f - off) = length f - off" "\<not> int k < int (length f) - int off"
    using False assms(1) by auto
  ultimately show ?thesis using False assms
    by (subst send_chunks.simps) simp
qed

lemma send_chunks_out:
  assumes "stored s src = Some f" "off \<le> length f" "0 < k" "int (length f) < int_max" "name_ok dst"
  shows "env_sigpipe E = SigDefault \<and> \<not> up s \<and>
      send_chunks ck False E F (PObj con) src dst (int k) (int off) (int (length f - off)) s = Some (Inl Killed) \<or>
    (\<exists>erred s'. send_chunks ck False E F (PObj con) src dst (int k) (int off) (int (length f - off)) s =
        returns (erred, s') \<and>
      stored s' = stored s \<and> opened s' = opened s \<and> pending s' = pending s \<and>
      (works s \<longrightarrow> works s' \<and> \<not> erred) \<and> (up s \<longrightarrow> up s') \<and>
      (\<not> erred \<and> up s \<longrightarrow> sent s' = sent s @ chunk_bytes ck dst (chunks k off (drop off f))))"
  using assms
proof (induction "length f - off" arbitrary: off s rule: less_induct)
  case less
  show ?case
  proof (cases "off = length f")
    case True
    then show ?thesis by (subst (2) send_chunks.simps) (auto intro!: exI [of _ False])
  next
    case False
    let ?n = "min k (length f - off)"
    let ?c = "take ?n (drop off f)"
    let ?rest = "send_chunks ck False E F (PObj con) src dst (int k) (int (off + ?n)) (int (length f - (off + ?n)))"
    have n: "off + ?n \<le> length f" "0 < ?n" using less.prems False by auto
    have c: "?c = take k (drop off f)" "drop off f \<noteq> []" using less.prems False by (auto simp: min_def)
    have bytes: "msg_bytes m = header_text m @ body_of m" for m by (simp add: msg_bytes_def body_of_def)
    have run: "send_chunks ck False E F (PObj con) src dst (int k) (int off) (int (length f - off)) s = Some (Inl Killed)"
      if "send_chunk ck False E F (PObj con) src dst (int off) (int ?n) s = Some (Inl Killed)"
    proof (cases "k < length f - off")
      case True
      then have "int k < int (length f) - int off" "off < length f" by simp_all
      then show ?thesis using that True by (subst send_chunks.simps) (simp add: min_def)
    next
      case False
      then have "?n = length f - off" "\<not> int k < int (length f) - int off" by auto
      then show ?thesis using that False n by (subst send_chunks.simps) (simp split: if_splits)
    qed
    from send_chunk_out(1) [OF less.prems(1) n less.prems(4,5), of ck False con] show ?thesis
    proof (elim disjE exE conjE, goal_cases)
      case 1
      with run show ?case by blast
    next
      case (2 s1)
      have "off < length f" "-1 = (-1::int) \<or> -1 = (0::int)" using n by auto
      from send_chunks_step [OF this(1) less.prems(3,4) 2(6) this(2)] 2 show ?case by auto
    next
      case (3 s1 e)
      have "off < length f" "0 = (-1::int) \<or> 0 = (0::int)" "0 \<noteq> (-1::int)" using n by auto
      from send_chunks_step [OF this(1) less.prems(3,4) _ this(2), of ck "PObj con" src dst s s1] 3(6) this(3)
      have step: "send_chunks ck False E F (PObj con) src dst (int k) (int off) (int (length f - off)) s = ?rest s1"
        by simp
      have "length f - (off + ?n) < length f - off" "stored s1 src = Some f"
        using n 3(1) less.prems by auto
      note IH = less.hyps [OF this n(1) less.prems(3-5)]
      have rest: "chunks k (off + ?n) (drop (off + ?n) f) = chunks k (off + k) (drop k (drop off f))"
        by (cases "k < length f - off") (auto simp: min_def add.commute)
      have sent1: "sent s1 = sent s @ msg_bytes (chunk_msg ck dst (int off) (take k (drop off f)))" if "up s"
        using 3(7) that c(1) by (simp add: went_msg_def bytes)
      from IH show ?case
      proof (elim disjE exE conjE, goal_cases)
        case 1
        with step 3(5) show ?case by auto
      next
        case r: (2 erred s2)
        show ?case using step r 3(1-5) sent1 rest less.prems c by (auto simp: chunks_step)
      qed
    qed
  qed
qed

text \<open>The files and the connection when the client has found the length of the file.\<close>

lemma copy_client_start:
  assumes "stored s src = Some f" "int (length f) < int_max" "works s"
    "hms_connector_init N (Some hostname) (atoi port) = Inr (PObj con)"
  shows "\<exists>s1. stored s1 = stored s \<and> opened s1 = opened s \<and> works s1 \<and> pending s1 = pending s \<and>
    sent s1 = sent s \<and> up s1 = up s \<and> env_broken E s1 = env_broken E s \<and>
    copy_client ck debug E F N [prog, src, hostname, port, dst, chunk] s =
      bind_run (send_chunks ck debug E F (PObj con) src dst (atoi chunk) 0 (int (length f)) s1)
        (\<lambda>(erred, s). returns (if erred then -1 else 0, s))"
proof -
  obtain r t where o: "fs_fopen F src s = (r, t)" by force
  from fopen_spec [OF o] assms(1,3) obtain h where h: "r = Some h" "opened t = (opened s)(h \<mapsto> src)"
    "opened s h = None" "stored t = stored s" "works t" by (cases r) auto
  obtain l u where z: "fs_size F h t = (l, u)" by force
  have "opened t h = Some src" "stored t src = Some f" using h assms(1) by simp_all
  from size_spec [OF z this] h have u: "l = int (length f)" "stored u = stored s" "opened u = opened t" "works u"
    by auto
  have len: "to_int32 (int (length f)) = int (length f)"
    using assms(2) by (intro to_int32_id) (simp_all add: int_min_def)
  let ?s1 = "fs_fclose F h u"
  have "stored ?s1 = stored s \<and> opened ?s1 = opened s \<and> works ?s1"
    using fclose_spec [OF refl, of h u] u h by (auto simp: fun_eq_iff)
  moreover have "pending ?s1 = pending s \<and> sent ?s1 = sent s \<and> up ?s1 = up s \<and>
      env_broken E ?s1 = env_broken E s"
    using fclose_net [OF refl, of h u] size_net [OF z] fopen_net [OF o] by simp
  moreover have "copy_client ck debug E F N [prog, src, hostname, port, dst, chunk] s =
      bind_run (send_chunks ck debug E F (PObj con) src dst (atoi chunk) 0 (int (length f)) ?s1)
        (\<lambda>(erred, s). returns (if erred then -1 else 0, s))"
    using h(1) o z u(1) len assms(4)
    by (auto simp: copy_client_def Let_def eval_nat_numeral hms_connector_destroy_def bind_run_def
        split: Option.bind_splits sum.splits)
  ultimately show ?thesis by blast
qed

text \<open>The debugging output makes no difference to an empty file.\<close>

lemma send_chunks_empty: "send_chunks ck debug E F con src dst k off 0 s = returns (False, s)"
  by (subst send_chunks.simps) simp

lemma copy_client_out:
  assumes "stored s src = Some f" "int (length f) < int_max" "works s"
    "hms_connector_init N (Some hostname) (atoi port) = Inr (PObj con)" "0 < atoi chunk" "name_ok dst"
    "\<not> debug \<or> f = []"
  shows "env_sigpipe E = SigDefault \<and> \<not> up s \<and>
      copy_client ck debug E F N [prog, src, hostname, port, dst, chunk] s = Some (Inl Killed) \<or>
    (\<exists>s'. copy_client ck debug E F N [prog, src, hostname, port, dst, chunk] s = returns (0, s') \<and>
      stored s' = stored s \<and> opened s' = opened s \<and> pending s' = pending s \<and>
      (up s \<longrightarrow> sent s' = sent s @ chunk_bytes ck dst (chunks (nat (atoi chunk)) 0 f)))"
proof -
  from copy_client_start [OF assms(1-4), of ck debug prog dst chunk] obtain s1 where
    s1: "stored s1 = stored s" "opened s1 = opened s" "works s1" "pending s1 = pending s"
      "sent s1 = sent s" "up s1 = up s"
      "copy_client ck debug E F N [prog, src, hostname, port, dst, chunk] s =
        bind_run (send_chunks ck debug E F (PObj con) src dst (atoi chunk) 0 (int (length f)) s1)
          (\<lambda>(erred, s). returns (if erred then -1 else 0, s))" by blast
  have eq: "send_chunks ck debug E F (PObj con) src dst (atoi chunk) 0 (int (length f)) s1 =
      send_chunks ck False E F (PObj con) src dst (atoi chunk) 0 (int (length f)) s1"
    using assms(7) by (cases debug) (simp_all add: send_chunks_empty)
  have "stored s1 src = Some f" "0 < nat (atoi chunk)" using s1(1) assms(1,5) by simp_all
  from send_chunks_out [OF this(1) le0 this(2) assms(2,6), of ck con] show ?thesis
  proof (elim disjE exE conjE, goal_cases)
    case 1
    with s1(6,7) eq assms(5) show ?case by simp
  next
    case (2 erred s')
    with s1 eq assms(5) show ?case by (intro disjI2 exI [of _ s']) simp
  qed
qed

text \<open>With the debugging output, and on a broken connection.\<close>

lemma copy_client_first_chunk:
  assumes "stored s src = Some f" "int (length f) < int_max" "works s"
    "hms_connector_init N (Some hostname) (atoi port) = Inr (PObj con)" "0 < atoi chunk" "name_ok dst" "f \<noteq> []"
  shows "copy_client ck True E F N [prog, src, hostname, port, dst, chunk] s = Some (Inl Undefined) \<or>
      env_sigpipe E = SigDefault \<and> \<not> up s \<and>
      copy_client ck True E F N [prog, src, hostname, port, dst, chunk] s = Some (Inl Killed)"
    "env_sigpipe E = SigDefault \<Longrightarrow> env_broken E s \<Longrightarrow>
      copy_client ck debug E F N [prog, src, hostname, port, dst, chunk] s = Some (Inl Killed)"
proof -
  have stop: "\<exists>s1. stored s1 = stored s \<and> works s1 \<and> up s1 = up s \<and> env_broken E s1 = env_broken E s \<and>
      (\<forall>e. send_chunk ck debug E F (PObj con) src dst (int 0) (int (min (nat (atoi chunk)) (length f))) s1 = Some (Inl e) \<longrightarrow>
        copy_client ck debug E F N [prog, src, hostname, port, dst, chunk] s = Some (Inl e))" for debug
  proof -
    from copy_client_start [OF assms(1-4), of ck debug prog dst chunk] obtain s1 where
      s1: "stored s1 = stored s" "works s1" "up s1 = up s" "env_broken E s1 = env_broken E s"
        "copy_client ck debug E F N [prog, src, hostname, port, dst, chunk] s =
          bind_run (send_chunks ck debug E F (PObj con) src dst (atoi chunk) 0 (int (length f)) s1)
            (\<lambda>(erred, s). returns (if erred then -1 else 0, s))" by blast
    have "int (min (nat (atoi chunk)) (length f)) = (if int (length f) > atoi chunk then atoi chunk else int (length f))"
      using assms(5) by (auto simp: min_def)
    then have "send_chunks ck debug E F (PObj con) src dst (atoi chunk) 0 (int (length f)) s1 = Some (Inl e)"
      if "send_chunk ck debug E F (PObj con) src dst (int 0) (int (min (nat (atoi chunk)) (length f))) s1 = Some (Inl e)" for e
      using assms(7) that by (subst send_chunks.simps) (simp split: if_splits)
    with s1 show ?thesis by (intro exI [of _ s1]) simp
  qed
  have n: "0 + min (nat (atoi chunk)) (length f) \<le> length f" "0 < min (nat (atoi chunk)) (length f)"
    using assms(5,7) by auto
  from stop [of True] obtain s1 where s1: "stored s1 = stored s" "works s1" "up s1 = up s"
    "\<And>e. send_chunk ck True E F (PObj con) src dst (int 0) (int (min (nat (atoi chunk)) (length f))) s1 = Some (Inl e) \<Longrightarrow>
        copy_client ck True E F N [prog, src, hostname, port, dst, chunk] s = Some (Inl e)" by blast
  have "stored s1 src = Some f" using s1(1) assms(1) by simp
  from send_chunk_out(1) [OF this n assms(2,6), of ck True con] s1(2-4)
  show "copy_client ck True E F N [prog, src, hostname, port, dst, chunk] s = Some (Inl Undefined) \<or>
      env_sigpipe E = SigDefault \<and> \<not> up s \<and>
      copy_client ck True E F N [prog, src, hostname, port, dst, chunk] s = Some (Inl Killed)" by auto
  assume b: "env_sigpipe E = SigDefault" "env_broken E s"
  from stop [of debug] obtain s1 where s1: "stored s1 = stored s" "works s1" "env_broken E s1 = env_broken E s"
    "\<And>e. send_chunk ck debug E F (PObj con) src dst (int 0) (int (min (nat (atoi chunk)) (length f))) s1 = Some (Inl e) \<Longrightarrow>
        copy_client ck debug E F N [prog, src, hostname, port, dst, chunk] s = Some (Inl e)" by blast
  have "stored s1 src = Some f" using s1(1) assms(1) by simp
  from send_chunk_out(2) [OF this n assms(2,6) b(1)] s1(2-4) b(2)
  show "copy_client ck debug E F N [prog, src, hostname, port, dst, chunk] s = Some (Inl Killed)" by simp
qed

end

end
