(* ===== verification/Copy_Server.thy ===== *)
theory Copy_Server
  imports Copy_Msg Host
begin

section \<open>The server of the copy application\<close>

text \<open>
  What the three functions of the server answer to a message, and what the loop of a connection does with a
  sequence of COPY messages, on every host (Host).
\<close>

subsection \<open>Validation and acceptance\<close>

lemma copy_validate_eq: "copy_validate ep m s = returns (0, m, s)"
  by (simp add: copy_validate_def hms_msg_get_verb_def deref_def Let_def split: option.splits)

lemma copy_accepts_eq:
  "copy_accepts ep m s =
     returns (case verb m of None \<Rightarrow> -1 | Some v \<Rightarrow> if lower v = ''copy'' then 0 else -1, m, s)"
proof -
  have "lower ''COPY'' = ''copy''" by code_simp
  then show ?thesis by (simp add: copy_accepts_def hms_msg_get_verb_def split: option.splits)
qed

lemma handle_copy_msg:
  assumes "verb m = Some v" "lower v = ''copy''" "ep_ops ep = copy_ops F"
  shows "handle_msg E ep st m s = copy_handle F (endpoint_base.truncate ep) m s"
  using assms by (simp add: handle_msg_def copy_ops_def call_op_def copy_validate_eq copy_accepts_eq)

subsection \<open>Writes\<close>

text \<open>One write to a named file, which it creates if there is none.\<close>

definition write_file ::
    "string \<Rightarrow> nat \<Rightarrow> char list \<Rightarrow> (string \<Rightarrow> char list option) \<Rightarrow> string \<Rightarrow> char list option" where
  "write_file name off bs fs = fs(name \<mapsto> overwrite off bs (created (fs name)))"

context host
begin

lemma copy_handle_unset:
  assumes "find_named ''Filename'' (named_headers m) = None \<or> find_named ''Offset'' (named_headers m) = None"
  shows "copy_handle F ep m s = Some (Inl Undefined)"
  using assms
  by (auto simp: copy_handle_def hms_msg_get_named_header_eq copy_handle_done_def split: option.splits)

lemma copy_handle_out:
  assumes "msg_wf m" "find_named ''Filename'' (named_headers m) = Some name"
    "find_named ''Offset'' (named_headers m) = Some v"
  shows "copy_handle F ep m s = Some (Inl Undefined) \<and> \<not> works s \<or>
    (\<exists>r j s'. copy_handle F ep m s = returns (r, m, s') \<and> opened s' = opened s \<and> (works s \<longrightarrow> works s') \<and>
       pending s' = pending s \<and> sent s' = sent s \<and> up s' = up s \<and>
       stored s' = write_file name (nat (atoi v)) (case content m of None \<Rightarrow> [] | Some c \<Rightarrow> take j c) (stored s) \<and>
       (case content m of None \<Rightarrow> r = -1 | Some c \<Rightarrow>
          r = (if 0 \<le> atoi v \<and> length c \<le> j then 0 else -1) \<and> (works s \<and> 0 \<le> atoi v \<longrightarrow> length c \<le> j)))"
proof -
  obtain fd s1 where o: "fs_open_write F name s = (fd, s1)" by force
  have close: "stored (fs_close F fd t) = stored t" "opened (fs_close F fd t) = (opened t)(fd := None)"
    "works t \<longrightarrow> works (fs_close F fd t)" "pending (fs_close F fd t) = pending t"
    "sent (fs_close F fd t) = sent t" "up (fs_close F fd t) = up t" for t
    using close_spec [OF refl, of fd t] close_net [OF refl, of fd t] by simp_all
  have body: "hms_msg_get_body_size (Some m) = Inr (content_len m)"
    "hms_msg_get_body (Some m) = Inr (content m, content_len m, 0)"
    using assms(1) by (simp_all add: hms_msg_get_body_size_eq hms_msg_get_body_eq)
  note run = copy_handle_def copy_handle_done_def hms_msg_get_named_header_eq assms(2,3) body o Let_def
  from open_write_spec [OF o] consider "fd = -1" "\<not> works s"
    | "0 \<le> fd" "opened s1 = (opened s)(fd \<mapsto> name)" "opened s fd = None" "works s \<longrightarrow> works s1"
      "stored s1 = (stored s)(name \<mapsto> created (stored s name))" by auto
  then show ?thesis
  proof cases
    case 1
    then show ?thesis by (simp add: run)
  next
    case 2
    have reopen: "((opened s)(fd \<mapsto> name))(fd := None) = opened s" using 2(3) by (simp add: fun_eq_iff)
    show ?thesis
    proof (cases "content m")
      case None
      then have "copy_handle F ep m s = returns (-1, m, fs_close F fd s1)"
        using 2 by (simp add: run)
      then show ?thesis
        using None 2 reopen close [of s1] open_write_net [OF o] by (auto simp: write_file_def)
    next
      case (Some c)
      then have c: "content_len m = int (length c)" "c \<noteq> []" using assms(1) by (auto simp: msg_wf_def body_wf_def)
      obtain k s2 where w: "fs_pwrite F fd c (atoi v) s1 = (k, s2)" by force
      have "opened s1 fd = Some name" "stored s1 name = Some (created (stored s name))" using 2 by simp_all
      note w_spec = pwrite_spec [OF w this]
      have run2: "copy_handle F ep m s = returns (if k = int (length c) then 0 else -1, m, fs_close F fd s2)"
        using 2 Some c w by (simp add: run)
      have k: "k = int (length c) \<longleftrightarrow> 0 \<le> atoi v \<and> length c \<le> nat k"
        using w_spec c(2) by (cases c) (auto split: if_splits)
      have "works s \<and> 0 \<le> atoi v \<longrightarrow> length c \<le> nat k" using w_spec 2(4) by auto
      then show ?thesis
        using run2 k w_spec 2 reopen Some close [of s2] open_write_net [OF o] pwrite_net [OF w]
        by (intro disjI2 exI [of _ "if k = int (length c) then 0 else -1"] exI [of _ "nat k"]
            exI [of _ "fs_close F fd s2"]) (auto simp: write_file_def)
    qed
  qed
qed

lemma copy_chunk_out:
  assumes "offset_ok n" "c \<noteq> []" "int (length c) \<le> int_max" "works s"
  shows "\<exists>s'. copy_handle F ep (chunk_msg ck dst n c) s = returns (0, chunk_msg ck dst n c, s') \<and>
    stored s' = write_file dst (nat n) c (stored s) \<and> opened s' = opened s \<and> works s' \<and>
    pending s' = pending s \<and> sent s' = sent s \<and> up s' = up s"
proof -
  let ?m = "chunk_msg ck dst n c"
  have m: "msg_wf ?m" "find_named ''Filename'' (named_headers ?m) = Some dst"
    "find_named ''Offset'' (named_headers ?m) = Some (sprintf_d n)" "content ?m = Some c"
    using chunk_msg_wf(3) [OF assms(2,3)] chunk_find(1,2) [of ck dst n c] by (simp_all add: chunk_msg_def)
  have "atoi (sprintf_d n) = n" using assms(1) by (intro atoi_sprintf_d) (simp_all add: offset_ok_def int_min_def)
  with copy_handle_out [OF m(1-3), of ep s] assms(1,4) m(4) show ?thesis
    by (auto simp: offset_ok_def)
qed

end

subsection \<open>A session\<close>

text \<open>COPY messages as writes: name, offset and bytes.\<close>

type_synonym file_write = "string \<times> nat \<times> char list"

definition write_ok :: "file_write \<Rightarrow> bool" where
  "write_ok w \<longleftrightarrow> (case w of (dst, off, c) \<Rightarrow>
     name_ok dst \<and> int off \<le> int_max \<and> c \<noteq> [] \<and> int (length c) < int_max)"

definition write_msg :: "bool \<Rightarrow> file_write \<Rightarrow> hms_msg" where
  "write_msg ck w = (case w of (dst, off, c) \<Rightarrow> chunk_msg ck dst (int off) c)"

definition write_all ::
    "file_write list \<Rightarrow> (string \<Rightarrow> char list option) \<Rightarrow> string \<Rightarrow> char list option" where
  "write_all = fold (\<lambda>(dst, off, c). write_file dst off c)"

context host
begin

lemma copy_recv_end:
  assumes "pending s = []"
  shows "\<exists>s'. hms_endpoint_recv_msg ck E (Some ep) s = Inr ((None, -1), s') \<and>
    (stored s', opened s', works s', sent s') = (stored s, opened s, works s, sent s)"
proof (rule recv_end [where f = "\<lambda>s. (stored s, opened s, works s, sent s)", OF _ assms])
  fix s n k bs s'
  assume "env_read E s n = (k, bs, s')"
  from read_files [OF this] read_keeps [OF this]
  show "(stored s', opened s', works s', sent s') = (stored s, opened s, works s, sent s)" by simp
qed

lemma copy_recv_chunk:
  assumes "name_ok dst" "offset_ok n" "c \<noteq> []" "int (length c) < int_max"
    "pending s = msg_bytes (chunk_msg ck dst n c) @ rest"
  shows "\<exists>s'. hms_endpoint_recv_msg ck E (Some ep) s = Inr ((Some (chunk_msg ck dst n c), 0), s') \<and>
    pending s' = rest \<and> (stored s', opened s', works s', sent s') = (stored s, opened s, works s, sent s)"
proof -
  have "\<exists>s'. hms_endpoint_recv_msg ck E (Some ep) s =
      Inr ((Some (received ck (chunk_msg ck dst n c)), 0), s') \<and>
    pending s' = rest \<and> (stored s', opened s', works s', sent s') = (stored s, opened s, works s, sent s)"
  proof (rule recv_wire [where f = "\<lambda>s. (stored s, opened s, works s, sent s)",
        OF _ chunk_wire_ok [OF assms(1-4)] assms(5)])
    fix s n k bs s'
    assume "env_read E s n = (k, bs, s')"
    from read_files [OF this] read_keeps [OF this]
    show "(stored s', opened s', works s', sent s') = (stored s, opened s, works s, sent s)" by simp
  qed
  then show ?thesis by (simp add: chunk_received)
qed

lemma copy_session:
  assumes "\<forall>w \<in> set ws. write_ok w" "pending s = concat (map (\<lambda>w. msg_bytes (write_msg ck w)) ws)" "works s"
    "ep_ops ep = copy_ops F"
  shows "\<exists>s'. handle_endpoint_loop ck E ep 0 s = returns (0, s') \<and>
    stored s' = write_all ws (stored s) \<and> opened s' = opened s \<and> sent s' = sent s"
  using assms(1-3)
proof (induction ws arbitrary: s)
  case Nil
  then have "pending s = []" by simp
  from copy_recv_end [OF this, of ck "endpoint_base.truncate ep"] obtain s' where
    "hms_endpoint_recv_msg ck E (Some (endpoint_base.truncate ep)) s = Inr ((None, -1), s')"
    "stored s' = stored s" "opened s' = opened s" "sent s' = sent s" by auto
  then show ?case by (subst handle_endpoint_loop.simps) (simp add: write_all_def)
next
  case (Cons w ws)
  let ?b = "endpoint_base.truncate ep"
  obtain dst off c where w: "w = (dst, off, c)" by (cases w)
  let ?m = "chunk_msg ck dst (int off) c" and ?rest = "concat (map (\<lambda>w. msg_bytes (write_msg ck w)) ws)"
  have ok: "name_ok dst" "offset_ok (int off)" "c \<noteq> []" "int (length c) < int_max"
    using Cons.prems(1) w by (simp_all add: write_ok_def offset_ok_def)
  then have small: "int (length c) \<le> int_max" by simp
  have "pending s = msg_bytes ?m @ ?rest" using Cons.prems(2) w by (simp add: write_msg_def)
  from copy_recv_chunk [OF ok this, of ?b] obtain s1 where
    s1: "hms_endpoint_recv_msg ck E (Some ?b) s = Inr ((Some ?m, 0), s1)" "pending s1 = ?rest"
      "stored s1 = stored s" "opened s1 = opened s" "works s1 = works s" "sent s1 = sent s" by auto
  have "works s1" using s1(5) Cons.prems(3) by simp
  from copy_chunk_out [OF ok(2,3) small this, of ?b ck dst] obtain s2 where
    s2: "copy_handle F ?b ?m s1 = returns (0, ?m, s2)" "stored s2 = write_file dst off c (stored s1)"
      "opened s2 = opened s1" "works s2" "pending s2 = pending s1" "sent s2 = sent s1"
    by auto
  have "verb ?m = Some ''COPY''" "lower ''COPY'' = ''copy''" by (simp add: chunk_msg_def) code_simp
  then have "handle_msg E ep 0 ?m s1 = returns (0, ?m, s2)"
    using s2(1) assms(4) by (simp add: handle_copy_msg)
  then have step: "handle_endpoint_loop ck E ep 0 s = handle_endpoint_loop ck E ep 0 s2"
    using s1(1) hms_msg_destroy_wf [OF chunk_msg_wf(1) [OF ok(3) small]]
    by (subst handle_endpoint_loop.simps) simp
  have "\<forall>w \<in> set ws. write_ok w" "pending s2 = ?rest" using Cons.prems(1) s2(5) s1(2) by simp_all
  from Cons.IH [OF this s2(4)] step s1 s2 w show ?case
    by (auto simp: write_all_def)
qed

end

end
