(* ===== verification/Copy_Correct.thy ===== *)
theory Copy_Correct
  imports Copy_Client Copy_Server
begin

section \<open>Correctness of the copy application\<close>

subsection \<open>Chunks put together\<close>

lemma chunks_bounds:
  "(n, b) \<in> set (chunks k off c) \<Longrightarrow> n < off + length c \<and> b \<noteq> [] \<and> length b \<le> length c"
proof (induction k off c rule: chunks.induct)
  case (1 k off c)
  show ?case
  proof (cases "k = 0 \<or> c = []")
    case True
    then show ?thesis using "1.prems" by (subst (asm) chunks.simps) simp
  next
    case False
    with "1.prems" "1.IH" [OF False] show ?thesis
      by (cases "length c \<le> k") (auto simp: chunks_step)
  qed
qed

lemma write_chunks:
  assumes "0 < k" "c \<noteq> []" "created (fs dst) = pre @ rest" "length pre = off"
  shows "write_all (map (Pair dst) (chunks k off c)) fs = fs(dst \<mapsto> pre @ c @ drop (length c) rest)"
  using assms
proof (induction "length c" arbitrary: c fs pre rest off rule: less_induct)
  case less
  let ?fs = "write_file dst off (take k c) fs"
  have fs: "?fs = fs(dst \<mapsto> pre @ take k c @ drop (length (take k c)) rest)"
    using less.prems(3,4) overwrite_behind [of pre "take k c" rest] by (simp add: write_file_def)
  have step: "write_all (map (Pair dst) (chunks k off c)) fs =
      write_all (map (Pair dst) (chunks k (off + k) (drop k c))) ?fs"
    using less.prems by (simp add: chunks_step write_all_def)
  show ?case
  proof (cases "length c \<le> k")
    case True
    then show ?thesis using step fs by (simp add: write_all_def)
  next
    case False
    have "length (drop k c) < length c" "drop k c \<noteq> []" "length (pre @ take k c) = off + k"
      "created (?fs dst) = (pre @ take k c) @ drop k rest"
      using less.prems False fs by (auto simp: min_def)
    from less.hyps [where c = "drop k c" and fs = ?fs and pre = "pre @ take k c" and rest = "drop k rest" and
        off = "off + k", OF this(1) less.prems(1) this(2,4,3)]
    moreover have "take k c @ drop k c @ x = c @ x" for x by (metis append.assoc append_take_drop_id)
    ultimately show ?thesis
      using step fs False by (simp add: add.commute)
  qed
qed

lemma chunks_written:
  assumes "0 < k"
  shows "write_all (map (Pair dst) (chunks k 0 f)) fs =
    (if f = [] then fs else fs(dst \<mapsto> f @ drop (length f) (created (fs dst))))"
  using write_chunks [OF assms, of f fs dst "[]"] by (simp add: write_all_def)

lemma chunk_bytes_msgs:
  "chunk_bytes ck dst cs = concat (map (\<lambda>w. msg_bytes (write_msg ck w)) (map (Pair dst) cs))"
  by (induction cs) (auto simp: write_msg_def)

subsection \<open>Properties\<close>

text \<open>A network and a disk for the examples.\<close>

definition sample_net :: "string net" where
  "sample_net = \<lparr>net_host = (\<lambda>h. Some h), net_socket = 3, net_connect = (\<lambda>fd a p. 0),
     net_setsockopt = (\<lambda>fd. 0), net_now = (0, 0)\<rparr>"

definition sample_disk :: disk where
  "sample_disk = \<lparr>d_files = [''a'' \<mapsto> ''hello''], d_open = [], d_script = []\<rparr>"

definition blank_disk :: disk where
  "blank_disk = \<lparr>d_files = (\<lambda>name. None), d_open = [], d_script = []\<rparr>"

lemma sample_facts:
  "hms_connector_init sample_net (Some ''localhost'') (atoi ''61182'') =
     Inr (PObj \<lparr>conn_socket = 3, conn_start = (0, 0), conn_status = 0\<rparr>)"
  "d_files sample_disk ''a'' = Some ''hello''" "int (length ''hello'') < int_max" "d_works sample_disk"
  "0 < atoi ''2''" "name_ok ''b''"
proof -
  have "atoi ''61182'' = 61182" by code_simp
  then show "hms_connector_init sample_net (Some ''localhost'') (atoi ''61182'') =
     Inr (PObj \<lparr>conn_socket = 3, conn_start = (0, 0), conn_status = 0\<rparr>)"
    by (simp add: hms_connector_init_def sample_net_def Let_def)
  show "0 < atoi ''2''" "name_ok ''b''" by code_simp+
qed (simp_all add: sample_disk_def d_works_def int_max_def)

text \<open>
  What a copy leaves on the server. The client, compiled without its debugging output (or on an empty file, where
  that output makes no difference), connected over a connection that is up and on a disk that works, sends the
  file with any chunk size and returns 0; a server that gets the bytes it sent, cut into segments in any way, ends
  with status 0 and has the contents of the file under the name given, in front of what an older and longer
  file of that name had behind them, and no other file changed. An empty file is not created, and does not empty
  an old one. No descriptor stays open on either side.
\<close>
theorem file_copied:
  assumes "hms_connector_init N (Some hostname) (atoi port) = Inr (PObj con)" "conn_up c"
    "d_files d src = Some f" "int (length f) < int_max" "d_works d" "0 < atoi chunk" "name_ok dst" "\<not> debug \<or> f = []"
  shows "\<exists>c' d'. copy_client ck debug client_env machine_files N [prog, src, hostname, port, dst, chunk] (c, d) =
      returns (0, c', d') \<and> d_files d' = d_files d \<and> d_opened d' = d_opened d \<and>
    (\<forall>a b. conn_pending a = drop (length (conn_sent c)) (conn_sent c') \<and> d_works b \<longrightarrow>
      (\<exists>a' b'. handle_endpoint_loop ck machine_env
          (hms_endpoint_init machine_env now fd (copy_ops machine_files)) 0 (a, b) = returns (0, a', b') \<and>
        conn_sent a' = conn_sent a \<and> d_opened b' = d_opened b \<and>
        d_files b' = (if f = [] then d_files b
          else (d_files b)(dst \<mapsto> f @ drop (length f) (created (d_files b dst))))))"
proof -
  let ?k = "nat (atoi chunk)"
  let ?cs = "chunks ?k 0 f" and ?ep = "hms_endpoint_init machine_env now fd (copy_ops machine_files)"
  obtain c' d' where r: "copy_client ck debug client_env machine_files N
      [prog, src, hostname, port, dst, chunk] (c, d) = returns (0, c', d')"
      "d_files d' = d_files d" "d_opened d' = d_opened d" "conn_sent c' = conn_sent c @ chunk_bytes ck dst ?cs"
    using client.copy_client_out [of "(c, d)" src f N hostname port con chunk dst debug ck prog] assms by auto
  have ops: "ep_ops ?ep = copy_ops machine_files" by (simp add: hms_endpoint_init_def copy_ops_def)
  have "write_ok w" if "w \<in> set (map (Pair dst) ?cs)" for w
    using that chunks_bounds [of _ _ ?k 0 f] assms(4,7) by (fastforce simp: write_ok_def)
  then have ok: "\<forall>w \<in> set (map (Pair dst) ?cs). write_ok w" by blast
  have "\<exists>a' b'. handle_endpoint_loop ck machine_env ?ep 0 (a, b) = returns (0, a', b') \<and>
      conn_sent a' = conn_sent a \<and> d_opened b' = d_opened b \<and>
      d_files b' = (if f = [] then d_files b else (d_files b)(dst \<mapsto> f @ drop (length f) (created (d_files b dst))))"
    if "conn_pending a = drop (length (conn_sent c)) (conn_sent c') \<and> d_works b" for a b
  proof -
    have p: "conn_pending a = concat (map (\<lambda>w. msg_bytes (write_msg ck w)) (map (Pair dst) ?cs))"
      using that r(4) by (simp only: chunk_bytes_msgs) simp
    show ?thesis
      using machine.copy_session [OF ok, of "(a, b)" ck ?ep] p that ops chunks_written [of ?k dst f] assms(6)
      by auto
  qed
  with r show ?thesis by blast
qed

theorem file_copied_witness:
  "\<exists>c' d' a' b'. copy_client False False client_env machine_files sample_net
      [''copy'', ''a'', ''localhost'', ''61182'', ''b'', ''2'']
      (\<lparr>arrives = [], leaves = ([], []), clock = []\<rparr>, sample_disk) = returns (0, c', d') \<and>
    handle_endpoint_loop False machine_env (hms_endpoint_init machine_env (0, 0) 4 (copy_ops machine_files)) 0
      (\<lparr>arrives = [RData (conn_sent c')], leaves = ([], []), clock = []\<rparr>, blank_disk) = returns (0, a', b') \<and>
    d_files b' ''b'' = Some ''hello''"
proof -
  let ?c = "\<lparr>arrives = [], leaves = ([], []), clock = []\<rparr>"
  have c: "conn_up ?c" "conn_sent ?c = []" "d_works blank_disk" "d_files blank_disk ''b'' = None"
    by (simp_all add: sock_up_def sock_sent_def blank_disk_def d_works_def)
  have "\<not> False \<or> ''hello'' = []" by simp
  from file_copied [OF sample_facts(1) c(1) sample_facts(2-6) this, of False "''copy''" "(0, 0)" 4]
  show ?thesis
  proof (elim exE conjE, goal_cases)
    case (1 c' d')
    have "conn_pending \<lparr>arrives = [RData (conn_sent c')], leaves = ([], []), clock = []\<rparr> =
        drop (length (conn_sent ?c)) (conn_sent c') \<and> d_works blank_disk"
      using c by simp
    from 1(4) [rule_format, OF this] c(4) 1(1) show ?case by auto
  qed
qed

text \<open>
  C36: What the handler of the copy server does with any well-formed message, on any disk. Without a \<open>Filename\<close>
  or an \<open>Offset\<close> header it is undefined, although the message was validated, and so it is when the file cannot
  be opened. Otherwise it writes at the offset as much of the content as the disk takes, closes the file and
  returns 0 exactly if that was all of it; a negative offset or a missing content makes it return -1, with the
  file created.
\<close>
theorem copy_handle_results:
  assumes "msg_wf m"
  shows "copy_validate ep m s = returns (0, m, s) \<and>
    (case (find_named ''Filename'' (named_headers m), find_named ''Offset'' (named_headers m)) of
       (Some name, Some v) \<Rightarrow>
         copy_handle machine_files ep m s = Some (Inl Undefined) \<and> \<not> d_works (snd s) \<or>
         (\<exists>r j c d. copy_handle machine_files ep m s = returns (r, m, c, d) \<and>
            conn_pending c = conn_pending (fst s) \<and> conn_sent c = conn_sent (fst s) \<and> d_opened d = d_opened (snd s) \<and>
            d_files d = write_file name (nat (atoi v)) (take j (body_of m)) (d_files (snd s)) \<and>
            r = (if content m \<noteq> None \<and> 0 \<le> atoi v \<and> length (body_of m) \<le> j then 0 else -1) \<and>
            (d_works (snd s) \<and> 0 \<le> atoi v \<longrightarrow> length (body_of m) \<le> j))
     | _ \<Rightarrow> copy_handle machine_files ep m s = Some (Inl Undefined))"
proof (cases "find_named ''Filename'' (named_headers m) = None \<or> find_named ''Offset'' (named_headers m) = None")
  case True
  then show ?thesis
    using machine.copy_handle_unset [OF True, of ep s] by (auto simp: copy_validate_eq split: option.splits)
next
  case False
  then obtain name v where k: "find_named ''Filename'' (named_headers m) = Some name"
    "find_named ''Offset'' (named_headers m) = Some v" by auto
  from machine.copy_handle_out [OF assms k, of ep s] show ?thesis
  proof (elim disjE exE conjE, goal_cases)
    case 1
    then show ?case by (simp add: k copy_validate_eq)
  next
    case (2 r j s')
    obtain c d where s': "s' = (c, d)" by (cases s')
    show ?case
    proof (cases "content m")
      case None
      with 2 show ?thesis unfolding s'
        by (simp add: k copy_validate_eq body_of_def)
    next
      case (Some x)
      with 2 show ?thesis unfolding s'
        by (simp add: k copy_validate_eq body_of_def) (auto split: if_splits)
    qed
  qed
qed

theorem copy_handle_results_witness:
  "copy_handle machine_files \<lparr>ep_socket = 4, ep_start = (0, 0), ep_status = 0, ep_locked = True\<rparr> sample_msg
      (\<lparr>arrives = [], leaves = ([], []), clock = []\<rparr>, sample_disk) = Some (Inl Undefined)"
proof -
  have "find_named ''Filename'' (named_headers sample_msg) = None" by code_simp
  moreover have "msg_wf sample_msg" using sample_ok(1,2) by (simp add: msg_wf_def header_ok_def)
  ultimately show ?thesis
    using copy_handle_results [of sample_msg "\<lparr>ep_socket = 4, ep_start = (0, 0), ep_status = 0, ep_locked = True\<rparr>"
        "(\<lparr>arrives = [], leaves = ([], []), clock = []\<rparr>, sample_disk)"] by simp
qed

text \<open>
  C37: What the client answers on a file that is not empty, on any connection. It leaves SIGPIPE at its default
  action (only \<open>hermes_init\<close> ignores the signal, and the client does not call it): (1) if the connection is
  broken from the start, the first send ends the process, with or without the debugging output; (2) compiled
  without that output it is ended by the signal, which takes a connection that is not up, or returns 0, whatever
  becomes of the sends, because what is tested after \<open>hms_connector_send_msg\<close> is the result of an earlier call;
  (3) compiled as it is, with the debugging output, it never returns: it is ended by the signal in the first
  chunk, on a connection that is not up, or undefined behind it, where it prints the header from a buffer that has
  no room for a NUL; (4) in a process that ignored the signal and without the output it would return 0 always.
\<close>
theorem copy_client_results:
  fixes ck debug :: bool and prog :: string and c :: conn
  assumes "hms_connector_init N (Some hostname) (atoi port) = Inr (PObj con)"
    "d_files d src = Some f" "int (length f) < int_max" "d_works d" "0 < atoi chunk" "name_ok dst" "f \<noteq> []"
  defines "run \<equiv> \<lambda>debug E. copy_client ck debug E machine_files N [prog, src, hostname, port, dst, chunk] (c, d)"
  shows "(sock_broken (leaves c) \<longrightarrow> run debug client_env = Some (Inl Killed)) \<and>
    (\<not> conn_up c \<and> run False client_env = Some (Inl Killed) \<or>
     (\<exists>c' d'. run False client_env = returns (0, c', d'))) \<and>
    (\<not> conn_up c \<and> run True client_env = Some (Inl Killed) \<or> run True client_env = Some (Inl Undefined)) \<and>
    (\<exists>c' d'. run False machine_env = returns (0, c', d'))"
proof -
  have f: "d_files (snd (c, d)) src = Some f" "d_works (snd (c, d))" using assms(2,4) by simp_all
  note pre = f(1) assms(3) f(2) assms(1,5,6)
  have broken: "env_broken client_env (c, d) = sock_broken (leaves c)" "env_sigpipe client_env = SigDefault"
    "env_sigpipe machine_env = SigIgnored"
    by (simp_all add: host_env_eq bare_env_def conn_env_def)
  show ?thesis
    using client.copy_client_first_chunk(1) [OF pre assms(7), where ck = ck and prog = prog]
      client.copy_client_first_chunk(2) [OF pre assms(7), where ck = ck and prog = prog and debug = debug]
      client.copy_client_out [OF pre, where ck = ck and prog = prog and debug = False]
      machine.copy_client_out [OF pre, where ck = ck and prog = prog and debug = False]
    unfolding run_def broken by (simp add: split_paired_Ex) blast
qed

theorem copy_client_results_witness:
  "copy_client False True client_env machine_files sample_net [''copy'', ''a'', ''localhost'', ''61182'', ''b'', ''2'']
      (\<lparr>arrives = [], leaves = ([WPipe], []), clock = []\<rparr>, sample_disk) = Some (Inl Killed) \<and>
    copy_client False True client_env machine_files sample_net [''copy'', ''a'', ''localhost'', ''61182'', ''b'', ''2'']
      (\<lparr>arrives = [], leaves = ([], []), clock = []\<rparr>, sample_disk) = Some (Inl Undefined) \<and>
    (\<exists>c' d'. copy_client False False machine_env machine_files sample_net
      [''copy'', ''a'', ''localhost'', ''61182'', ''b'', ''2'']
      (\<lparr>arrives = [], leaves = (replicate 6 WErr, []), clock = []\<rparr>, sample_disk) = returns (0, c', d'))"
proof -
  have "''hello'' \<noteq> []" by simp
  note r = copy_client_results [OF sample_facts this, where ck = False and prog = "''copy''" and debug = True]
  have "sock_broken ([WPipe], [])" "sock_up ([], [])" by (simp_all add: sock_broken_def sock_up_def)
  with r [of "\<lparr>arrives = [], leaves = ([WPipe], []), clock = []\<rparr>"]
    r [of "\<lparr>arrives = [], leaves = ([], []), clock = []\<rparr>"]
  have "copy_client False True client_env machine_files sample_net [''copy'', ''a'', ''localhost'', ''61182'', ''b'', ''2'']
      (\<lparr>arrives = [], leaves = ([WPipe], []), clock = []\<rparr>, sample_disk) = Some (Inl Killed)"
    "copy_client False True client_env machine_files sample_net [''copy'', ''a'', ''localhost'', ''61182'', ''b'', ''2'']
      (\<lparr>arrives = [], leaves = ([], []), clock = []\<rparr>, sample_disk) = Some (Inl Undefined)" by simp_all
  with r [of "\<lparr>arrives = [], leaves = (replicate 6 WErr, []), clock = []\<rparr>"] show ?thesis by blast
qed

end
