(* ===== verification/Copy_Memory.thy ===== *)
theory Copy_Memory
  imports Copy_App Hermes_Memory
begin

section \<open>The copy application in memory (src/src/tests/copy_server.c, copy_client.c)\<close>

text \<open>
  The functions of Copy_App once more, on the memory of Msg_Memory: the strings and the data they get from a
  message and free, the message and the buffer of a chunk.
\<close>

subsection \<open>The functions of the server\<close>

definition mem_copy_validate :: "allocator \<Rightarrow> 's mem_op" where
  "mem_copy_validate A endpoint p m s =
     (let is_valid = True; is_copy = False in
      bind_run (Some (mem_msg_get_verb A p m)) (\<lambda>(v, ret, m).
      bind_run
        (if ret = 0 then
           bind_run (Some (deref_arg m (At v))) (\<lambda>verb.
           bind_run (Some (free_chars v m)) (\<lambda>m.
           returns (if strcasecmp verb ''COPY'' \<noteq> 0 then False else is_copy, m)))
         else returns (is_copy, m)) (\<lambda>(is_copy, m).
      bind_run (Some (if is_copy then mem_msg_num_headers p m else Inr 1)) (\<lambda>num_headers.
      bind_run (Some (if is_copy then mem_msg_num_named_headers p m else Inr 3)) (\<lambda>num_named.
      bind_run (if is_copy then mem_msg_get_body_size A p m else returns (1, m)) (\<lambda>(body_size, m).
      let is_valid =
        (if is_copy \<and> num_headers \<le> 0 then False
         else if is_copy \<and> num_named \<noteq> 3 then False
         else if is_copy \<and> body_size \<le> 0 then False
         else is_valid)
      in returns (if is_valid then 0 else -1, m, s)))))))"

definition mem_copy_accepts :: "allocator \<Rightarrow> 's mem_op" where
  "mem_copy_accepts A endpoint p m s =
     bind_run (Some (mem_msg_get_verb A p m)) (\<lambda>(v, _, m).
     if v = 0 then returns (-1, m, s)
     else
       bind_run (Some (deref_arg m (At v))) (\<lambda>verb.
       bind_run (Some (free_chars v m)) (\<lambda>m.
       returns (if strcasecmp verb ''COPY'' = 0 then 0 else -1, m, s))))"

text \<open>The label \<open>copy_handle_done\<close>; \<open>data\<close> is \<open>None\<close> where it has not been set.\<close>

definition mem_copy_handle_done ::
    "'s file_calls \<Rightarrow> int \<Rightarrow> ptr \<Rightarrow> ptr \<Rightarrow> ptr option \<Rightarrow> bool \<Rightarrow> msg_memory \<Rightarrow> 's \<Rightarrow> (int \<times> msg_memory \<times> 's) run" where
  "mem_copy_handle_done F fd filename offset_str data erred m s =
     (let s = (if fd \<ge> 0 then fs_close F fd s else s) in
      bind_run (Some (free_chars filename m)) (\<lambda>m.
      bind_run (Some (free_chars offset_str m)) (\<lambda>m.
      bind_run (Some (case data of None \<Rightarrow> Inl Undefined | Some data \<Rightarrow> free_chars data m)) (\<lambda>m.
      returns (if \<not> erred then 0 else -1, m, s)))))"

text \<open>What follows the \<open>open\<close>, up to the label.\<close>

definition mem_copy_write ::
    "'s file_calls \<Rightarrow> allocator \<Rightarrow> int \<Rightarrow> ptr \<Rightarrow> ptr \<Rightarrow> ptr \<Rightarrow> msg_memory \<Rightarrow> 's \<Rightarrow> (int \<times> msg_memory \<times> 's) run" where
  "mem_copy_write F A fd filename offset_str p m s =
     bind_run (Some (deref_arg m (At offset_str))) (\<lambda>off.
     let offset = atoi off in
     bind_run (mem_msg_get_body_size A p m) (\<lambda>(len, m).
     bind_run (mem_msg_get_body A p m) (\<lambda>(data, data_len, _, m).
     if data = 0 then mem_copy_handle_done F fd filename offset_str (Some data) True m s
     else if data_len \<noteq> len then mem_copy_handle_done F fd filename offset_str (Some data) True m s
     else
       bind_run (Some (object (chars m) data)) (\<lambda>d.
       let (n, s) = fs_pwrite F fd (take (nat len) d) offset s in
       mem_copy_handle_done F fd filename offset_str (Some data) (n \<noteq> len) m s))))"

definition mem_copy_handle :: "'s file_calls \<Rightarrow> allocator \<Rightarrow> 's mem_op" where
  "mem_copy_handle F A endpoint p m s =
     bind_run (mem_msg_get_named_header A p (Lit ''Filename'') m) (\<lambda>(filename, _, m).
     bind_run (mem_msg_get_named_header A p (Lit ''Offset'') m) (\<lambda>(offset_str, _, m).
     if filename = 0 then mem_copy_handle_done F (-1) filename offset_str None True m s
     else if offset_str = 0 then mem_copy_handle_done F (-1) filename offset_str None True m s
     else
       bind_run (Some (deref_arg m (At filename))) (\<lambda>name.
       let (fd, s) = fs_open_write F name s in
       if fd = -1 then mem_copy_handle_done F fd filename offset_str None True m s
       else mem_copy_write F A fd filename offset_str p m s)))"

definition mem_copy_ops :: "'s file_calls \<Rightarrow> allocator \<Rightarrow> 's mem_ops" where
  "mem_copy_ops F A =
     \<lparr>mem_validate = Some (mem_copy_validate A), mem_accepts = Some (mem_copy_accepts A),
      mem_handle = Some (mem_copy_handle F A)\<rparr>"

subsection \<open>The client\<close>

definition mem_print_debug :: "allocator \<Rightarrow> ptr \<Rightarrow> msg_memory \<Rightarrow> (string \<times> msg_memory) run" where
  "mem_print_debug A request m =
     bind_run (mem_msg_get_header_size request m) (\<lambda>debug_buf_size.
     let (debug_buf, m) = put_chars A (malloc_area (nat debug_buf_size)) m in
     bind_run (mem_msg_print_header request debug_buf debug_buf_size m) (\<lambda>(_, m).
     bind_run (Some (object (chars m) debug_buf)) (\<lambda>b.
     bind_run (Some (if NUL \<in> set b then Inr (cstr b) else Inl Undefined)) (\<lambda>out.
     bind_run (Some (free_chars debug_buf m)) (\<lambda>m. returns (out, m))))))"

text \<open>The label \<open>done_send_chunk\<close>.\<close>

definition mem_send_chunk_done ::
    "'s file_calls \<Rightarrow> int \<Rightarrow> ptr \<Rightarrow> bool \<Rightarrow> ptr \<Rightarrow> msg_memory \<Rightarrow> 's \<Rightarrow> (int \<times> msg_memory \<times> 's) run" where
  "mem_send_chunk_done F src_fd data erred request m s =
     (let s = (if src_fd \<noteq> -1 then fs_close F src_fd s else s) in
      bind_run (Some (free_chars data m)) (\<lambda>m.
      bind_run (if request \<noteq> 0 then mem_msg_destroy request m else returns (0, m)) (\<lambda>(_, m).
      returns (if \<not> erred then 0 else -1, m, s))))"

text \<open>What follows the \<open>pread\<close>.\<close>

definition mem_send_data ::
    "bool \<Rightarrow> bool \<Rightarrow> 's env \<Rightarrow> allocator \<Rightarrow> 's file_calls \<Rightarrow> hms_connector Hermes.ptr \<Rightarrow> int \<Rightarrow> ptr \<Rightarrow> ptr \<Rightarrow> int \<Rightarrow>
     msg_memory \<Rightarrow> 's \<Rightarrow> (int \<times> msg_memory \<times> 's) run" where
  "mem_send_data ck debug E A F connector src_fd data request len m s =
     bind_run (mem_msg_set_body ck A request (At data) len m) (\<lambda>(ret, m).
     if ret \<noteq> 0 then mem_send_chunk_done F src_fd data True request m s
     else
       bind_run (mem_connector_send_msg E A connector request m s) (\<lambda>(_, m, s).
       if ret \<noteq> 0 then mem_send_chunk_done F src_fd data True request m s
       else
         bind_run (if debug then mem_print_debug A request m else returns ([], m)) (\<lambda>(_, m).
         mem_send_chunk_done F src_fd data False request m s)))"

definition mem_send_chunk ::
    "bool \<Rightarrow> bool \<Rightarrow> 's env \<Rightarrow> allocator \<Rightarrow> 's file_calls \<Rightarrow> hms_connector Hermes.ptr \<Rightarrow> string \<Rightarrow> string \<Rightarrow> int \<Rightarrow> int \<Rightarrow>
     msg_memory \<Rightarrow> 's \<Rightarrow> (int \<times> msg_memory \<times> 's) run" where
  "mem_send_chunk ck debug E A F connector src dst offset len m s =
     (let offset_str = sprintf_d offset in
      bind_run (Some (mem_msg_create A m)) (\<lambda>(request, m).
      bind_run (Some (mem_msg_set_verb A request (Lit ''COPY'') m)) (\<lambda>(_, m).
      bind_run (mem_msg_add_named_header A request (Lit ''Filename'') (Lit dst) m) (\<lambda>(_, m).
      bind_run (mem_msg_add_named_header A request (Lit ''Offset'') (Lit offset_str) m) (\<lambda>(_, m).
      let (src_fd, s) = fs_open_read F src s in
      if src_fd = -1 then mem_send_chunk_done F src_fd 0 True request m s
      else
        bind_run (Some (int_add len 1)) (\<lambda>size.
        let (data, m) = malloc A size m in
        if data = 0 then mem_send_chunk_done F src_fd data True request m s
        else if len < 0 then Some (Inl Undefined)
        else
          let ((ret, bytes), s) = fs_pread F src_fd (nat len) offset s in
          bind_run (Some (in_buffer data (\<lambda>b. Inr ((), bytes @ drop (length bytes) b)) m)) (\<lambda>(_, m).
          if ret \<noteq> len then mem_send_chunk_done F src_fd data True request m s
          else mem_send_data ck debug E A F connector src_fd data request len m s)))))))"

partial_function (option) mem_send_chunks ::
    "bool \<Rightarrow> bool \<Rightarrow> 's env \<Rightarrow> allocator \<Rightarrow> 's file_calls \<Rightarrow> hms_connector Hermes.ptr \<Rightarrow> string \<Rightarrow> string \<Rightarrow> int \<Rightarrow> int \<Rightarrow> int \<Rightarrow>
     msg_memory \<Rightarrow> 's \<Rightarrow> (bool \<times> msg_memory \<times> 's) run" where
  [code]: "mem_send_chunks ck debug E A F connector src dst chunk_size offset left m s =
     (if left > 0 then
        bind_run
          (if left > chunk_size then
             bind_run (mem_send_chunk ck debug E A F connector src dst offset chunk_size m s) (\<lambda>(status, m, s).
             bind_run (Some (int_add offset chunk_size)) (\<lambda>offset.
             bind_run (Some (int_add left (- chunk_size))) (\<lambda>left.
             returns (status, offset, left, m, s))))
           else
             bind_run (mem_send_chunk ck debug E A F connector src dst offset left m s) (\<lambda>(status, m, s).
             bind_run (Some (int_add offset left)) (\<lambda>offset.
             returns (status, offset, 0, m, s)))) (\<lambda>(status, offset, left, m, s).
        if status = -1 then returns (True, m, s)
        else mem_send_chunks ck debug E A F connector src dst chunk_size offset left m s)
      else returns (False, m, s))"

definition mem_copy_client ::
    "bool \<Rightarrow> bool \<Rightarrow> 's env \<Rightarrow> allocator \<Rightarrow> 's file_calls \<Rightarrow> 'a net \<Rightarrow> string list \<Rightarrow> msg_memory \<Rightarrow> 's \<Rightarrow>
     (int \<times> msg_memory \<times> 's) run" where
  "mem_copy_client ck debug E A F N argv m s =
     (if length argv = 6 then
        let src_file = argv ! 1; hostname = argv ! 2; port = atoi (argv ! 3);
            dst_file = argv ! 4; chunk_size = atoi (argv ! 5);
            (src, s) = fs_fopen F src_file s
        in case src of
          None \<Rightarrow> returns (-1, m, s)
        | Some src \<Rightarrow>
            let (n, s) = fs_size F src s; file_len = to_int32 n; s = fs_fclose F src s in
            bind_run (Some (hms_connector_init N (Some hostname) port)) (\<lambda>connector.
            bind_run (mem_send_chunks ck debug E A F connector src_file dst_file chunk_size 0 file_len m s)
              (\<lambda>(erred, m, s).
            if erred then returns (-1, m, s)
            else
              bind_run (Some (hms_connector_destroy connector)) (\<lambda>_.
              returns (0, m, s))))
      else returns (-1, m, s))"

end
