(* ===== verification/Copy_Server_Memory.thy ===== *)
theory Copy_Server_Memory
  imports Copy_Memory Hermes_Memory_Correct Copy_Server
begin

section \<open>Correctness of the copy application in memory\<close>

text \<open>
  The functions of the copy server in memory do what those of Copy_App do and free every string and array they
  get, so that the server in memory is correct with them.
\<close>

subsection \<open>The functions of the server\<close>

context heap_allocator begin

text \<open>The verb as the server gets and frees it.\<close>

lemma own_verb:
  assumes "message m p L R" "finite_rest R"
  shows "case verb (msg_of L) of
      None \<Rightarrow> mem_msg_get_verb A p m = Inr (0, -1, m)
    | Some w \<Rightarrow> \<exists>q m1 m2. mem_msg_get_verb A p m = Inr (q, 0, m1) \<and> q \<noteq> 0 \<and> deref_arg m1 (At q) = Inr w \<and>
        free_chars q m1 = Inr m2 \<and> message m2 p L R"
proof -
  have "finite_memory m" using assms messageD(5) by simp
  from answers_message [OF answers_get_verb [OF messageD(1) [OF assms(1)] this] assms(1)]
  have a: "case verb (msg_of L) of
      None \<Rightarrow> mem_msg_get_verb A p m = Inr (0, -1, m)
    | Some w \<Rightarrow> \<exists>q m1. q \<noteq> 0 \<and> r_chars R q = None \<and> mem_msg_get_verb A p m = Inr (q, 0, m1) \<and> message m1 p L (with_chars R q w)"
    by (cases "verb (msg_of L)") (auto simp: hms_msg_get_verb_def)
  show ?thesis
  proof (cases "verb (msg_of L)")
    case None
    with a show ?thesis by simp
  next
    case (Some w)
    with a obtain q m1 where q: "q \<noteq> 0" "r_chars R q = None" "mem_msg_get_verb A p m = Inr (q, 0, m1)"
      "message m1 p L (with_chars R q w)" by auto
    with Some message_free [OF q(4,1,2)] arg_at(2) [OF q(4) _ q(1), of w] show ?thesis by auto
  qed
qed

lemma copy_validate_memory: "op_in_memory copy_validate (mem_copy_validate A)"
  unfolding op_in_memory_def copy_validate_eq
proof (intro allI impI)
  fix ep m p L R s
  assume m: "message m p L R" "finite_rest R"
  show "run_rel (handles p R) (returns (0, msg_of L, s)) (mem_copy_validate A ep p m s)"
    using own_verb [OF m] m(1) by (cases "verb (msg_of L)") (fastforce simp: mem_copy_validate_def Let_def)+
qed

lemma copy_accepts_memory: "op_in_memory copy_accepts (mem_copy_accepts A)"
  unfolding op_in_memory_def copy_accepts_def
proof (intro allI impI)
  fix ep m p L R s
  assume m: "message m p L R" "finite_rest R"
  show "run_rel (handles p R)
    (bind_run (Some (hms_msg_get_verb (Some (msg_of L)))) (\<lambda>(verb, _).
      case verb of None \<Rightarrow> returns (-1, msg_of L, s)
      | Some v \<Rightarrow> returns (if strcasecmp v ''COPY'' = 0 then 0 else -1, msg_of L, s)))
    (mem_copy_accepts A ep p m s)"
    using own_verb [OF m] m(1)
    by (cases "verb (msg_of L)") (fastforce simp: mem_copy_accepts_def hms_msg_get_verb_def)+
qed

text \<open>The label \<open>copy_handle_done\<close>: what has been allocated is freed in the order of the code.\<close>

lemma copy_done_undefined:
  assumes "message m p L R'" "new_array R f R1" "new_array R1 g R'"
  shows "run_rel Q (copy_handle_done F fd None e M s) (mem_copy_handle_done F fd f g None e m s)"
proof -
  obtain m1 R2 where m1: "free_chars f m = Inr m1" "message m1 p L R2" "new_array R g R2"
  proof (cases "f = 0")
    case True
    with assms that show ?thesis by (auto simp: new_array_def free_null)
  next
    case False
    with assms(2) obtain a where "R1 = with_chars R f a" "r_chars R f = None" by (auto simp: new_array_def)
    with free_below [OF assms(1) _ False] assms(3) that show ?thesis by blast
  qed
  obtain m2 where "free_chars g m1 = Inr m2" using new_array_free [OF m1(2,3)] by blast
  with m1(1) show ?thesis by (simp add: copy_handle_done_def mem_copy_handle_done_def)
qed

lemma copy_done:
  assumes "message m p L (with_chars (with_chars R1 g b) d c)" "R1 = with_chars R f a" "f \<noteq> 0" "g \<noteq> 0"
    "r_chars R f = None" "r_chars R1 g = None" "d \<noteq> 0" "r_chars (with_chars R1 g b) d = None"
  shows "run_rel (handles p R) (copy_handle_done F fd (Some x) e (msg_of L) s) (mem_copy_handle_done F fd f g (Some d) e m s)"
proof -
  have "f \<noteq> g" "f \<noteq> d" "g \<noteq> d" using assms(2,6,8) by (auto split: if_splits)
  then have free: "run_rel Q v (bind_run (Some (free_chars f m)) (\<lambda>m. bind_run (Some (free_chars g m)) (\<lambda>m.
      bind_run (Some (free_chars d m)) h)))" if "\<And>m'. message m' p L R \<Longrightarrow> run_rel Q v (h m')" for Q :: "'x \<Rightarrow> 'y \<Rightarrow> bool" and v h
    using assms(2-8) that
    by (intro free_then [OF assms(1), of f a] free_then [of _ p L _ g b] free_then [of _ p L _ d c]) auto
  show ?thesis unfolding copy_handle_done_def mem_copy_handle_done_def Let_def option.case by (rule free) auto
qed

lemma copy_done_null:
  assumes "message m p L (with_chars R1 g b)" "R1 = with_chars R f a" "f \<noteq> 0" "g \<noteq> 0" "r_chars R f = None" "r_chars R1 g = None"
  shows "run_rel (handles p R) (copy_handle_done F fd (Some x) e (msg_of L) s) (mem_copy_handle_done F fd f g (Some 0) e m s)"
proof -
  have "f \<noteq> g" using assms(2,6) by (auto split: if_splits)
  then have free: "run_rel Q v (bind_run (Some (free_chars f m)) (\<lambda>m. bind_run (Some (free_chars g m)) h))"
    if "\<And>m'. message m' p L R \<Longrightarrow> run_rel Q v (h m')" for Q :: "'x \<Rightarrow> 'y \<Rightarrow> bool" and v h
    using assms(2-6) that by (intro free_then [OF assms(1), of f a] free_then [of _ p L _ g b]) auto
  show ?thesis unfolding copy_handle_done_def mem_copy_handle_done_def Let_def option.case
    by (rule free) (auto simp: free_null)
qed

end

text \<open>What the handler does when the file is open.\<close>

definition copy_write :: "'s file_calls \<Rightarrow> int \<Rightarrow> string \<Rightarrow> hms_msg \<Rightarrow> 's \<Rightarrow> (int \<times> hms_msg \<times> 's) run" where
  "copy_write F fd off msg s =
     (let offset = atoi off in
      bind_run (Some (hms_msg_get_body_size (Some msg))) (\<lambda>len.
      bind_run (Some (hms_msg_get_body (Some msg))) (\<lambda>(data, data_len, _).
      case data of
        None \<Rightarrow> copy_handle_done F fd (Some None) True msg s
      | Some d \<Rightarrow>
          if data_len \<noteq> len then copy_handle_done F fd (Some (Some d)) True msg s
          else
            let (n, s) = fs_pwrite F fd (take (nat len) d) offset s in
            copy_handle_done F fd (Some (Some d)) (n \<noteq> len) msg s)))"

definition copy_open :: "'s file_calls \<Rightarrow> string option \<Rightarrow> string option \<Rightarrow> hms_msg \<Rightarrow> 's \<Rightarrow> (int \<times> hms_msg \<times> 's) run" where
  "copy_open F filename offset_str msg s =
     (case filename of
       None \<Rightarrow> copy_handle_done F (-1) None True msg s
     | Some filename \<Rightarrow>
     case offset_str of
       None \<Rightarrow> copy_handle_done F (-1) None True msg s
     | Some offset_str \<Rightarrow>
     let (fd, s) = fs_open_write F filename s in
     if fd = -1 then copy_handle_done F fd None True msg s else copy_write F fd offset_str msg s)"

lemma copy_handle_split:
  "copy_handle F endpoint msg s =
     bind_run (Some (hms_msg_get_named_header (Some msg) (Some ''Filename''))) (\<lambda>(filename, _).
     bind_run (Some (hms_msg_get_named_header (Some msg) (Some ''Offset''))) (\<lambda>(offset_str, _).
     copy_open F filename offset_str msg s))"
  unfolding copy_handle_def copy_open_def copy_write_def ..

context heap_allocator begin

lemma copy_write_memory:
  assumes "message m p L (with_chars R1 g off)" "R1 = with_chars R f a" "f \<noteq> 0" "g \<noteq> 0" "r_chars R f = None"
    "r_chars R1 g = None" "finite_rest R"
  shows "run_rel (handles p R) (copy_write F fd off (msg_of L) s) (mem_copy_write F A fd f g p m s)"
proof -
  have d: "deref_arg m (At g) = Inr off" using arg_at(2) [OF assms(1) _ assms(4)] by simp
  have fin: "finite_rest (with_chars R1 g off)" using assms(2,7) by simp
  note finish = copy_done [OF _ assms(2-6)]
  show ?thesis unfolding copy_write_def mem_copy_write_def d bind_run_simps Let_def
  proof (rule get_body_size_then [OF assms(1) fin], unfold split, rule get_body_then [OF assms(1) fin], unfold split)
    fix len n r
    show "run_rel (handles p R)
      (case None of None \<Rightarrow> copy_handle_done F fd (Some None) True (msg_of L) s | Some (d :: string) \<Rightarrow> v d)
      (if (0::nat) = 0 then mem_copy_handle_done F fd f g (Some 0) True m s else w)" for v w
      using copy_done_null [OF assms(1-6)] by simp
  next
    fix len b n q m'
    assume q: "q \<noteq> 0" "r_chars (with_chars R1 g off) q = None" "message m' p L (with_chars (with_chars R1 g off) q b)"
    have o: "object (chars m') q = Inr b" using message_at(1) [OF q(3)] q(1) by (simp add: object_def)
    show "run_rel (handles p R)
      (case Some b of None \<Rightarrow> copy_handle_done F fd (Some None) True (msg_of L) s
       | Some d \<Rightarrow> if n \<noteq> len then copy_handle_done F fd (Some (Some d)) True (msg_of L) s
         else case fs_pwrite F fd (take (nat len) d) (atoi off) s of (n, s) \<Rightarrow>
           copy_handle_done F fd (Some (Some d)) (n \<noteq> len) (msg_of L) s)
      (if q = 0 then mem_copy_handle_done F fd f g (Some q) True m' s
       else if n \<noteq> len then mem_copy_handle_done F fd f g (Some q) True m' s
       else bind_run (Some (object (chars m') q)) (\<lambda>d.
         case fs_pwrite F fd (take (nat len) d) (atoi off) s of (n, s) \<Rightarrow>
           mem_copy_handle_done F fd f g (Some q) (n \<noteq> len) m' s))"
      using q(1) o by (simp add: finish [OF q(3,1,2)] split: prod.split)
  qed
qed

lemma copy_open_memory:
  assumes "message m p L R2" "new_array R f R1" "new_array R1 g R2" "finite_rest R"
    "case filename of None \<Rightarrow> f = 0 | Some a \<Rightarrow> f \<noteq> 0 \<and> R1 = with_chars R f a"
    "case offset_str of None \<Rightarrow> g = 0 | Some b \<Rightarrow> g \<noteq> 0 \<and> R2 = with_chars R1 g b"
  shows "run_rel (handles p R) (copy_open F filename offset_str (msg_of L) s)
    (if f = 0 then mem_copy_handle_done F (-1) f g None True m s
     else if g = 0 then mem_copy_handle_done F (-1) f g None True m s
     else
       bind_run (Some (deref_arg m (At f))) (\<lambda>name.
       let (fd, s) = fs_open_write F name s in
       if fd = -1 then mem_copy_handle_done F fd f g None True m s else mem_copy_write F A fd f g p m s))"
proof (cases "f \<noteq> 0 \<and> g \<noteq> 0")
  case False
  with copy_done_undefined [OF assms(1-3)] assms(5,6) show ?thesis
    by (auto simp: copy_open_def split: option.splits)
next
  case True
  with assms(5,6) obtain a b where ab: "filename = Some a" "R1 = with_chars R f a" "offset_str = Some b" "R2 = with_chars R1 g b"
    by (auto split: option.splits)
  have n: "r_chars R f = None" "r_chars R1 g = None" using True assms(2,3) by (auto simp: new_array_def)
  with ab have "r_chars R2 f = Some a" by (auto split: if_splits)
  then have "deref_arg m (At f) = Inr a" using arg_at(2) [OF assms(1)] True by simp
  moreover have "message m p L (with_chars R1 g b)" using assms(1) ab by simp
  from copy_write_memory [OF this ab(2) _ _ n assms(4)] True
  have "run_rel (handles p R) (copy_write F fd b (msg_of L) s) (mem_copy_write F A fd f g p m s)" for fd s by simp
  ultimately show ?thesis using True ab(1,3)
    by (simp add: copy_open_def copy_done_undefined [OF assms(1-3)] split: prod.split)
qed

lemma copy_handle_memory: "op_in_memory (copy_handle F) (mem_copy_handle F A)"
  unfolding op_in_memory_def copy_handle_split mem_copy_handle_def
proof (intro allI impI)
  fix ep m p L R s
  assume m: "message m p L R" "finite_rest R"
  have offset: "run_rel (handles p R)
      (bind_run (Some (hms_msg_get_named_header (Some (msg_of L)) (Some ''Offset''))) (\<lambda>(offset_str, _).
       copy_open F filename offset_str (msg_of L) s))
      (bind_run (mem_msg_get_named_header A p (Lit ''Offset'') m) (\<lambda>(offset_str, _, m).
       if f = 0 then mem_copy_handle_done F (-1) f offset_str None True m s
       else if offset_str = 0 then mem_copy_handle_done F (-1) f offset_str None True m s
       else
         bind_run (Some (deref_arg m (At f))) (\<lambda>name.
         let (fd, s) = fs_open_write F name s in
         if fd = -1 then mem_copy_handle_done F fd f offset_str None True m s
         else mem_copy_write F A fd f offset_str p m s)))"
    if f: "message m p L R1" "new_array R f R1" "case filename of None \<Rightarrow> f = 0 | Some a \<Rightarrow> f \<noteq> 0 \<and> R1 = with_chars R f a"
    for m f R1 filename
    by (rule get_named_then [OF f(1)], simp add: new_array_finite [OF f(2)] m(2), unfold split;
      rule copy_open_memory [OF _ f(2) _ m(2) f(3)]) (auto simp: new_array_def f(1))
  show "run_rel (handles p R)
      (bind_run (Some (hms_msg_get_named_header (Some (msg_of L)) (Some ''Filename''))) (\<lambda>(filename, _).
       bind_run (Some (hms_msg_get_named_header (Some (msg_of L)) (Some ''Offset''))) (\<lambda>(offset_str, _).
       copy_open F filename offset_str (msg_of L) s)))
      (bind_run (mem_msg_get_named_header A p (Lit ''Filename'') m) (\<lambda>(f, _, m).
       bind_run (mem_msg_get_named_header A p (Lit ''Offset'') m) (\<lambda>(offset_str, _, m).
       if f = 0 then mem_copy_handle_done F (-1) f offset_str None True m s
       else if offset_str = 0 then mem_copy_handle_done F (-1) f offset_str None True m s
       else
         bind_run (Some (deref_arg m (At f))) (\<lambda>name.
         let (fd, s) = fs_open_write F name s in
         if fd = -1 then mem_copy_handle_done F fd f offset_str None True m s
         else mem_copy_write F A fd f offset_str p m s))))"
    by (rule get_named_then [OF m], unfold split; rule offset) (auto simp: new_array_def m(1))
qed

lemma copy_ops_memory: "ops_in_memory (copy_ops F) (mem_copy_ops F A)"
  by (simp add: ops_in_memory_def copy_ops_def mem_copy_ops_def copy_validate_memory copy_accepts_memory copy_handle_memory)

end

end
