(* ===== verification/Copy_Client_Memory.thy ===== *)
theory Copy_Client_Memory
  imports Copy_Memory Hermes_Memory_Correct
begin

section \<open>The copy client in memory\<close>

text \<open>
  The client in memory does what that of Copy_App does, and frees all it allocates, whatever fails: the request
  and the buffer of every chunk.
\<close>

lemma beside_bind:
  assumes "run_rel (beside p L R) v w" "\<And>e m s. message m p L R \<Longrightarrow> run_rel Q (f (e, s)) (g (e, m, s))"
  shows "run_rel Q (bind_run v f) (bind_run w g)"
proof (rule run_rel_bind [OF assms(1)])
  fix x :: "'a \<times> 'b" and y
  assume "beside p L R x y"
  then show "run_rel Q (f x) (g y)" using assms(2) by (cases x) auto
qed

lemma emptied_bind:
  assumes "run_rel (emptied R) v w" "\<And>e m s. contents m = R \<Longrightarrow> run_rel Q (f (e, s)) (g (e, m, s))"
  shows "run_rel Q (bind_run v f) (bind_run w g)"
proof (rule run_rel_bind [OF assms(1)])
  fix x :: "'a \<times> 'b" and y
  assume "emptied R x y"
  then show "run_rel Q (f x) (g y)" using assms(2) by (cases x) auto
qed

text \<open>What follows the \<open>pread\<close>, on values.\<close>

definition send_data ::
    "bool \<Rightarrow> bool \<Rightarrow> 's env \<Rightarrow> 's file_calls \<Rightarrow> hms_connector Hermes.ptr \<Rightarrow> int \<Rightarrow> char list \<Rightarrow> hms_msg \<Rightarrow> int \<Rightarrow> 's \<Rightarrow>
     (int \<times> 's) run" where
  "send_data ck debug E F connector src_fd data request len s =
     bind_run (Some (hms_msg_set_body ck (Some request) (Some data) len)) (\<lambda>(request, ret).
     if ret \<noteq> 0 then send_chunk_done F src_fd True request s
     else
       bind_run (hms_connector_send_msg E connector (Some request) s) (\<lambda>(_, s).
       if ret \<noteq> 0 then send_chunk_done F src_fd True request s
       else
         bind_run (if debug then Some (print_debug request) else returns []) (\<lambda>_.
         send_chunk_done F src_fd False request s)))"

definition read_chunk ::
    "bool \<Rightarrow> bool \<Rightarrow> 's env \<Rightarrow> 's file_calls \<Rightarrow> hms_connector Hermes.ptr \<Rightarrow> string \<Rightarrow> int \<Rightarrow> int \<Rightarrow> hms_msg \<Rightarrow> 's \<Rightarrow>
     (int \<times> 's) run" where
  "read_chunk ck debug E F connector src offset len request s =
     (let (src_fd, s) = fs_open_read F src s in
      if src_fd = -1 then send_chunk_done F src_fd True request s
      else
        bind_run (Some (int_add len 1)) (\<lambda>size.
        if size < 0 then send_chunk_done F src_fd True request s
        else if len < 0 then Some (Inl Undefined)
        else
          let ((ret, bytes), s) = fs_pread F src_fd (nat len) offset s;
              data = bytes @ drop (length bytes) (malloc_area (nat size))
          in
          if ret \<noteq> len then send_chunk_done F src_fd True request s
          else send_data ck debug E F connector src_fd data request len s))"

lemma send_chunk_split:
  "send_chunk ck debug E F connector src dst offset len s =
     (let offset_str = sprintf_d offset; request = hms_msg_create in
      bind_run (Some (hms_msg_set_verb (Some request) (Some ''COPY''))) (\<lambda>(request, _).
      bind_run (Some (hms_msg_add_named_header (Some request) (Some ''Filename'') (Some dst))) (\<lambda>(request, _).
      bind_run (Some (hms_msg_add_named_header (Some request) (Some ''Offset'') (Some offset_str))) (\<lambda>(request, _).
      read_chunk ck debug E F connector src offset len request s))))"
  unfolding send_chunk_def read_chunk_def send_data_def ..

context heap_allocator begin

lemma chunk_done_memory:
  assumes "message m p L R'" "new_array R d R'"
  shows "run_rel (emptied R) (send_chunk_done F fd e (msg_of L) s) (mem_send_chunk_done F fd d e p m s)"
proof -
  obtain m1 where m1: "free_chars d m = Inr m1" "message m1 p L R" using new_array_free [OF assms] by blast
  obtain m2 where "mem_msg_destroy p m1 = returns (0, m2)" "contents m2 = R" using destroy_message [OF m1(2)] by blast
  with m1(1) messageD(4) [OF assms(1)] show ?thesis
    by (simp add: send_chunk_done_def mem_send_chunk_done_def destroy_msg_of)
qed

lemma print_debug_memory:
  assumes "message m p L R" "finite_rest R"
  shows "run_rel (\<lambda>x y. \<exists>m'. y = (x, m') \<and> message m' p L R) (Some (print_debug (msg_of L))) (mem_print_debug A p m)"
proof (cases "hms_msg_get_header_size (Some (msg_of L))")
  case (Inl e)
  then show ?thesis by (simp add: print_debug_def mem_print_debug_def header_size_memory [OF messageD(1) [OF assms(1)]])
next
  case (Inr n)
  let ?area = "malloc_area (nat n)"
  define q where "q = new_chars A m"
  have q: "q \<noteq> 0" "chars m q = None" using new_chars [of m] assms messageD(5) by (simp_all add: q_def)
  let ?m1 = "m\<lparr>chars := (chars m)(q \<mapsto> ?area)\<rparr>"
  have put: "put_chars A ?area m = (q, ?m1)" using q(1) by (simp add: put_chars_def q_def Let_def)
  have m1: "message ?m1 p L (with_chars R q ?area)" "r_chars R q = None" using message_new_chars [OF assms(1) q(2)] by simp_all
  have "\<forall>b. \<exists>m'. free_chars q (set_chars q b ?m1) = Inr m' \<and> message m' p L R"
    using message_free [OF message_set_chars [OF m1(1)] q(1) m1(2)] by blast
  then obtain f where f: "\<And>b. free_chars q (set_chars q b ?m1) = Inr (f b)" "\<And>b. message (f b) p L R" by metis
  have "object (chars (set_chars q b ?m1)) q = Inr b" for b using q(1) by (simp add: object_def set_chars_def)
  with f show ?thesis
    using Inr put
    by (cases "hms_msg_print_header (Some (msg_of L)) (Some ?area) n")
      (auto simp: print_debug_def mem_print_debug_def header_size_memory [OF messageD(1) [OF assms(1)]]
        print_header_memory [OF m1(1) q(1)])
qed

lemma send_data_memory:
  assumes "message m p L (with_chars R d b)" "d \<noteq> 0" "r_chars R d = None" "finite_rest R"
  shows "run_rel (emptied R) (send_data ck debug E F c fd b (msg_of L) len s) (mem_send_data ck debug E A F c fd d p len m s)"
proof -
  have fin: "finite_rest (with_chars R d b)" using assms(4) by simp
  have new: "new_array R d (with_chars R d b)" using assms(2,3) by (auto simp: new_array_def)
  have a: "arg_is (with_chars R d b) (At d) b" using arg_at(1) [OF assms(1) _ assms(2), of b] messageD(3) [OF assms(1)] by simp
  show ?thesis unfolding send_data_def mem_send_data_def
  proof (rule set_body_then [OF assms(1) fin a], unfold split, rule run_rel_if)
    fix m L r
    assume m: "message m p L (with_chars R d b)"
    then show "run_rel (emptied R) (send_chunk_done F fd True (msg_of L) s) (mem_send_chunk_done F fd d True p m s)"
      by (rule chunk_done_memory [OF _ new])
    assume "\<not> r \<noteq> (0::int)"
    show "run_rel (emptied R)
       (bind_run (hms_connector_send_msg E c (Some (msg_of L)) s) (\<lambda>(_, s).
        if r \<noteq> 0 then send_chunk_done F fd True (msg_of L) s
        else bind_run (if debug then Some (print_debug (msg_of L)) else returns []) (\<lambda>_. send_chunk_done F fd False (msg_of L) s)))
       (bind_run (mem_connector_send_msg E A c p m s) (\<lambda>(_, m, s).
        if r \<noteq> 0 then mem_send_chunk_done F fd d True p m s
        else bind_run (if debug then mem_print_debug A p m else returns ([], m)) (\<lambda>(_, m). mem_send_chunk_done F fd d False p m s)))"
    proof (rule beside_bind [OF connector_send_memory [OF m fin]], unfold split, rule run_rel_if)
      fix m s
      assume m: "message m p L (with_chars R d b)"
      then show "run_rel (emptied R) (send_chunk_done F fd True (msg_of L) s) (mem_send_chunk_done F fd d True p m s)"
        by (rule chunk_done_memory [OF _ new])
      have "run_rel (\<lambda>x y. \<exists>m'. y = (x, m') \<and> message m' p L (with_chars R d b))
          (if debug then Some (print_debug (msg_of L)) else returns []) (if debug then mem_print_debug A p m else returns ([], m))"
        using m by (auto simp: print_debug_memory [OF m fin])
      then show "run_rel (emptied R)
         (bind_run (if debug then Some (print_debug (msg_of L)) else returns []) (\<lambda>_. send_chunk_done F fd False (msg_of L) s))
         (bind_run (if debug then mem_print_debug A p m else returns ([], m)) (\<lambda>(_, m). mem_send_chunk_done F fd d False p m s))"
        by (rule run_rel_bind) (auto simp: chunk_done_memory [OF _ new])
    qed
  qed
qed

lemma read_chunk_memory:
  assumes "message m p L R" "finite_rest R"
  shows "run_rel (emptied R) (read_chunk ck debug E F c src offset len (msg_of L) s)
    (let (src_fd, s) = fs_open_read F src s in
     if src_fd = -1 then mem_send_chunk_done F src_fd 0 True p m s
     else
       bind_run (Some (int_add len 1)) (\<lambda>size.
       let (data, m) = malloc A size m in
       if data = 0 then mem_send_chunk_done F src_fd data True p m s
       else if len < 0 then Some (Inl Undefined)
       else
         let ((ret, bytes), s) = fs_pread F src_fd (nat len) offset s in
         bind_run (Some (in_buffer data (\<lambda>b. Inr ((), bytes @ drop (length bytes) b)) m)) (\<lambda>(_, m).
         if ret \<noteq> len then mem_send_chunk_done F src_fd data True p m s
         else mem_send_data ck debug E A F c src_fd data p len m s)))"
proof -
  obtain fd s1 where o: "fs_open_read F src s = (fd, s1)" by (cases "fs_open_read F src s")
  have null: "new_array R 0 R" by (simp add: new_array_def)
  have "run_rel (emptied R)
     (if size < 0 then send_chunk_done F fd True (msg_of L) s1
      else if len < 0 then Some (Inl Undefined)
      else
        let ((ret, bytes), s) = fs_pread F fd (nat len) offset s1;
            data = bytes @ drop (length bytes) (malloc_area (nat size))
        in
        if ret \<noteq> len then send_chunk_done F fd True (msg_of L) s
        else send_data ck debug E F c fd data (msg_of L) len s)
     (let (data, m) = malloc A size m in
      if data = 0 then mem_send_chunk_done F fd data True p m s1
      else if len < 0 then Some (Inl Undefined)
      else
        let ((ret, bytes), s) = fs_pread F fd (nat len) offset s1 in
        bind_run (Some (in_buffer data (\<lambda>b. Inr ((), bytes @ drop (length bytes) b)) m)) (\<lambda>(_, m).
        if ret \<noteq> len then mem_send_chunk_done F fd data True p m s
        else mem_send_data ck debug E A F c fd data p len m s))" for size
  proof (cases "size < 0")
    case True
    then show ?thesis by (simp add: malloc_def chunk_done_memory [OF assms(1) null])
  next
    case False
    let ?area = "malloc_area (nat size)"
    obtain d m1 where m1: "malloc A size m = (d, m1)" "d \<noteq> 0" "r_chars R d = None" "message m1 p L (with_chars R d ?area)"
      using malloc_message [OF assms, of size] False by auto
    obtain k bytes s2 where rd: "fs_pread F fd (nat len) offset s1 = ((k, bytes), s2)" by (metis prod.exhaust)
    let ?b = "bytes @ drop (length bytes) ?area"
    have f: "(\<lambda>b. Inr ((), bytes @ drop (length bytes) b)) ?area = Inr ((), ?b)" by simp
    note buf = in_buffer_message [where f = "\<lambda>b. Inr ((), bytes @ drop (length bytes) b)", OF m1(4,2) f]
    have new: "new_array R d (with_chars R d ?b)" using m1(2,3) by (auto simp: new_array_def)
    show ?thesis using False m1(1,2) rd buf(1)
      by (simp add: chunk_done_memory [OF buf(2) new] send_data_memory [OF buf(2) m1(2,3) assms(2)])
  qed
  then show ?thesis by (auto simp: read_chunk_def o chunk_done_memory [OF assms(1) null] intro!: run_rel_same)
qed

lemma send_chunk_memory:
  assumes "finite_memory m"
  shows "run_rel (emptied (contents m)) (send_chunk ck debug E F c src dst offset len s)
    (mem_send_chunk ck debug E A F c src dst offset len m s)"
proof -
  have fin: "finite_rest (contents m)" using assms contents_finite by simp
  obtain p m1 L1 where m1: "mem_msg_create A m = Inr (p, m1)" "message m1 p L1 (contents m)" "msg_of L1 = hms_msg_create"
    using create_message [OF refl fin] by blast
  show ?thesis
    unfolding send_chunk_split mem_send_chunk_def Let_def m1(1) bind_run_simps split m1(3) [symmetric]
    by (rule set_verb_then [OF m1(2) fin], unfold split, rule add_named_then [OF _ fin], assumption, unfold split,
        rule add_named_then [OF _ fin], assumption, unfold split)
      (rule read_chunk_memory [OF _ fin, unfolded Let_def])
qed

lemma send_chunks_memory:
  "send_chunks ck debug E F c src dst chunk_size offset left s = Some r \<Longrightarrow>
    \<forall>m. finite_memory m \<longrightarrow> run_rel (emptied (contents m)) (Some r)
      (mem_send_chunks ck debug E A F c src dst chunk_size offset left m s)"
proof (erule send_chunks.raw_induct [rotated], intro allI impI, goal_cases)
  case (1 loop ck debug E F c src dst chunk_size offset left s r m)
  have fin: "finite_memory m'" if "contents m' = contents m" for m' using 1(3) contents_finite that by metis
  note chunk = send_chunk_memory [OF 1(3)]
  have loop: "run_rel (emptied (contents m)) (loop ck debug E F c src dst chunk_size offset left s)
      (mem_send_chunks ck debug E A F c src dst chunk_size offset left m' s)" if "contents m' = contents m" for offset left m' s
    using 1(1) [of ck debug E F c src dst chunk_size offset left s] fin [OF that] that
    by (cases "loop ck debug E F c src dst chunk_size offset left s") auto
  have "run_rel (emptied (contents m))
     (if left > 0 then
        bind_run
          (if left > chunk_size then
             bind_run (send_chunk ck debug E F c src dst offset chunk_size s) (\<lambda>(status, s).
             bind_run (Some (int_add offset chunk_size)) (\<lambda>offset.
             bind_run (Some (int_add left (- chunk_size))) (\<lambda>left.
             returns (status, offset, left, s))))
           else
             bind_run (send_chunk ck debug E F c src dst offset left s) (\<lambda>(status, s).
             bind_run (Some (int_add offset left)) (\<lambda>offset.
             returns (status, offset, 0, s)))) (\<lambda>(status, offset, left, s).
        if status = -1 then returns (True, s)
        else loop ck debug E F c src dst chunk_size offset left s)
      else returns (False, s))
     (mem_send_chunks ck debug E A F c src dst chunk_size offset left m s)"
    by (subst mem_send_chunks.simps)
      (auto simp: bind_run_assoc intro!: run_rel_same emptied_bind [OF chunk] loop)
  with 1(2) show ?case by simp
qed

lemma copy_client_refines:
  assumes "finite_memory m"
  shows "run_rel (emptied (contents m)) (copy_client ck debug E F N argv s) (mem_copy_client ck debug E A F N argv m s)"
proof -
  have chunks: "run_rel (emptied (contents m)) (send_chunks ck debug E F c src dst k off left s)
      (mem_send_chunks ck debug E A F c src dst k off left m s)" for c src dst k off left s
    using send_chunks_memory [of ck debug E F c src dst k off left s] assms
    by (cases "send_chunks ck debug E F c src dst k off left s") auto
  show ?thesis
  proof (cases "length argv = 6")
    case True
    obtain h s1 where o: "fs_fopen F (argv ! 1) s = (h, s1)" by (cases "fs_fopen F (argv ! 1) s")
    show ?thesis
    proof (cases h)
      case None
      with True o show ?thesis by (simp add: copy_client_def mem_copy_client_def)
    next
      case (Some f)
      obtain n s2 where z: "fs_size F f s1 = (n, s2)" by (cases "fs_size F f s1")
      from True o Some z show ?thesis
        by (simp add: copy_client_def mem_copy_client_def Let_def)
          (intro run_rel_same emptied_bind [OF chunks], unfold split, auto intro!: run_rel_same)
    qed
  qed (simp add: copy_client_def mem_copy_client_def)
qed

lemma copy_client_memory:
  assumes "finite_memory m" "copy_client ck debug E F N argv s = returns (r, s')"
  shows "\<exists>m'. mem_copy_client ck debug E A F N argv m s = returns (r, m', s') \<and> contents m' = contents m"
  using copy_client_refines [OF assms(1), of ck debug E F N argv s] assms(2) by auto

end

end
