(* ===== verification/Copy_Memory_Correct.thy ===== *)
theory Copy_Memory_Correct
  imports Copy_Server_Memory Copy_Client_Memory Copy_Correct
begin

section \<open>Correctness of the copy application in memory\<close>

text \<open>Client and server on memory, put together over a connection and two disks.\<close>

text \<open>The loop of a connection of the copy server.\<close>

lemma copy_loop_memory:
  assumes "heap_allocator A" "finite_memory m"
    "handle_endpoint_loop ck machine_env (hms_endpoint_init machine_env now fd (copy_ops machine_files)) 0 s = returns (r, s')"
  shows "\<exists>m'. mem_handle_endpoint_loop ck machine_env A
      (endpoint_base.truncate (hms_endpoint_init machine_env now fd (copy_ops machine_files)))
      (mem_endpoint_ops machine_env A (mem_copy_ops machine_files A)) 0 m s = returns (r, m', s') \<and> contents m' = contents m"
proof -
  have ops: "ops_in_memory (ep_ops (hms_endpoint_init machine_env now fd (copy_ops machine_files)))
      (mem_endpoint_ops machine_env A (mem_copy_ops machine_files A))"
    by (rule endpoint_ops_memory [OF assms(1) heap_allocator.copy_ops_memory [OF assms(1)]])
  from heap_allocator.loop_memory [OF assms(1,3), of _ "mem_endpoint_ops machine_env A (mem_copy_ops machine_files A)"]
    assms(2) machine.socket_axioms ops show ?thesis by fastforce
qed

subsection \<open>Properties\<close>

text \<open>
  C8: What becomes of a file that is copied, with client and server on memory. The client as it is compiled, with
  its debugging output, is undefined behind the first chunk of every file that is not empty, on memory as on
  values. Compiled without that output (or on an empty file, where it makes no difference), connected over a
  connection that is up and on a disk that works, it sends the file with any chunk size and returns 0, with every
  message and buffer freed; a server on memory that gets the bytes it sent, cut into segments in any way, ends with
  status 0 and the memory it began with, and no descriptor stays open on either side. Of the files on the server
  only the one with the name given changes: it gets the contents of the file in front of what an older and longer
  file had behind them, and an empty file is neither created nor does it empty an old one; so the server has the
  file itself exactly if it is not empty and no older file of the name was longer, or empty and there before.
\<close>
theorem file_copied_in_memory:
  fixes ck debug :: bool and prog :: string and now :: "int \<times> int" and fd :: int
  assumes "heap_allocator A" "finite_memory m" "hms_connector_init N (Some hostname) (atoi port) = Inr (PObj con)" "conn_up c"
    "d_files d src = Some f" "int (length f) < int_max" "d_works d" "0 < atoi chunk" "name_ok dst"
  defines "argv \<equiv> [prog, src, hostname, port, dst, chunk]"
    and "ep \<equiv> hms_endpoint_init machine_env now fd (copy_ops machine_files)"
    and "mops \<equiv> mem_endpoint_ops machine_env A (mem_copy_ops machine_files A)"
  shows "if debug \<and> f \<noteq> [] then
      copy_client ck debug client_env machine_files N argv (c, d) = Some (Inl Undefined) \<and>
      mem_copy_client ck debug client_env A machine_files N argv m (c, d) = Some (Inl Undefined)
    else \<exists>c' d' m'. copy_client ck debug client_env machine_files N argv (c, d) = returns (0, c', d') \<and>
      mem_copy_client ck debug client_env A machine_files N argv m (c, d) = returns (0, m', c', d') \<and>
      contents m' = contents m \<and> d_files d' = d_files d \<and> d_opened d' = d_opened d \<and>
      (\<forall>a b mb. conn_pending a = drop (length (conn_sent c)) (conn_sent c') \<and> d_works b \<and> finite_memory mb \<longrightarrow>
        (\<exists>a' b' mb'. mem_handle_endpoint_loop ck machine_env A (endpoint_base.truncate ep) mops 0 mb (a, b) =
            returns (0, mb', a', b') \<and>
          contents mb' = contents mb \<and> conn_sent a' = conn_sent a \<and> d_opened b' = d_opened b \<and>
          d_files b' = (if f = [] then d_files b
            else (d_files b)(dst \<mapsto> f @ drop (length f) (created (d_files b dst)))) \<and>
          (d_files b' dst = Some f \<longleftrightarrow>
            (if f = [] then d_files b dst = Some [] else length (created (d_files b dst)) \<le> length f))))"
proof (cases "debug \<and> f \<noteq> []")
  case True
  have "copy_client ck debug client_env machine_files N argv (c, d) = Some (Inl Undefined)"
    using client.copy_client_first_chunk(1) [of "(c, d)" src f N hostname port con chunk dst ck prog] assms(3-9) True
    by (auto simp: argv_def)
  moreover from heap_allocator.copy_client_refines [OF assms(1,2), of ck debug client_env machine_files N argv "(c, d)"] this
  have "mem_copy_client ck debug client_env A machine_files N argv m (c, d) = Some (Inl Undefined)" by simp
  ultimately show ?thesis using True by simp
next
  case False
  then have quiet: "\<not> debug \<or> f = []" by blast
  obtain c' d' where r: "copy_client ck debug client_env machine_files N argv (c, d) =
      returns (0, c', d')" "d_files d' = d_files d" "d_opened d' = d_opened d"
    and server: "\<forall>a b. conn_pending a = drop (length (conn_sent c)) (conn_sent c') \<and> d_works b \<longrightarrow>
      (\<exists>a' b'. handle_endpoint_loop ck machine_env ep 0 (a, b) = returns (0, a', b') \<and>
        conn_sent a' = conn_sent a \<and> d_opened b' = d_opened b \<and>
        d_files b' = (if f = [] then d_files b
          else (d_files b)(dst \<mapsto> f @ drop (length f) (created (d_files b dst)))))"
    unfolding argv_def ep_def
    using file_copied [OF assms(3-9) quiet, of ck prog now fd] by blast
  obtain m' where client: "mem_copy_client ck debug client_env A machine_files N argv m (c, d) =
      returns (0, m', c', d')" "contents m' = contents m"
    using heap_allocator.copy_client_memory [OF assms(1,2) r(1)] by blast
  have "\<exists>a' b' mb'. mem_handle_endpoint_loop ck machine_env A (endpoint_base.truncate ep) mops 0 mb (a, b) =
        returns (0, mb', a', b') \<and>
      contents mb' = contents mb \<and> conn_sent a' = conn_sent a \<and> d_opened b' = d_opened b \<and>
      d_files b' = (if f = [] then d_files b else (d_files b)(dst \<mapsto> f @ drop (length f) (created (d_files b dst)))) \<and>
      (d_files b' dst = Some f \<longleftrightarrow>
        (if f = [] then d_files b dst = Some [] else length (created (d_files b dst)) \<le> length f))"
    if ab: "conn_pending a = drop (length (conn_sent c)) (conn_sent c') \<and> d_works b \<and> finite_memory mb" for a b mb
  proof -
    have ab': "conn_pending a = drop (length (conn_sent c)) (conn_sent c') \<and> d_works b" using ab by blast
    from server [rule_format, OF this] obtain a' b' where
      loop: "handle_endpoint_loop ck machine_env ep 0 (a, b) = returns (0, a', b')"
      and files: "conn_sent a' = conn_sent a" "d_opened b' = d_opened b"
        "d_files b' = (if f = [] then d_files b else (d_files b)(dst \<mapsto> f @ drop (length f) (created (d_files b dst))))"
      by blast
    have "d_files b' dst = Some f \<longleftrightarrow>
        (if f = [] then d_files b dst = Some [] else length (created (d_files b dst)) \<le> length f)"
      unfolding files(3) by simp
    with copy_loop_memory [OF assms(1) _ loop [unfolded ep_def], of mb] ab files show ?thesis
      unfolding ep_def mops_def by blast
  qed
  then show ?thesis unfolding if_not_P [OF False] using r client by blast
qed

theorem file_copied_in_memory_witness:
  "\<exists>c' d' m' a' b' mb'. mem_copy_client False False client_env fresh_addresses machine_files sample_net
      [''copy'', ''a'', ''localhost'', ''61182'', ''b'', ''2''] empty_memory
      (\<lparr>arrives = [], leaves = ([], []), clock = []\<rparr>, sample_disk) = returns (0, m', c', d') \<and>
    contents m' = contents empty_memory \<and>
    mem_handle_endpoint_loop False machine_env fresh_addresses
      (endpoint_base.truncate (hms_endpoint_init machine_env (0, 0) 4 (copy_ops machine_files)))
      (mem_endpoint_ops machine_env fresh_addresses (mem_copy_ops machine_files fresh_addresses)) 0 empty_memory
      (\<lparr>arrives = [RData (conn_sent c')], leaves = ([], []), clock = []\<rparr>, blank_disk) = returns (0, mb', a', b') \<and>
    contents mb' = contents empty_memory \<and> d_files b' ''b'' = Some ''hello'' \<and>
    mem_copy_client False True client_env fresh_addresses machine_files sample_net
      [''copy'', ''a'', ''localhost'', ''61182'', ''b'', ''2''] empty_memory
      (\<lparr>arrives = [], leaves = ([], []), clock = []\<rparr>, sample_disk) = Some (Inl Undefined)"
proof -
  let ?c = "\<lparr>arrives = [], leaves = ([], []), clock = []\<rparr>"
  have c: "conn_up ?c" "conn_sent ?c = []" "d_works blank_disk" "d_files blank_disk ''b'' = None"
    by (simp_all add: sock_up_def sock_sent_def blank_disk_def d_works_def)
  note r = file_copied_in_memory [OF fresh.heap_allocator_axioms finite_empty_memory sample_facts(1) c(1) sample_facts(2-6),
      where ck = False and prog = "''copy''" and now = "(0, 0)" and fd = 4]
  have shipped: "mem_copy_client False True client_env fresh_addresses machine_files sample_net
      [''copy'', ''a'', ''localhost'', ''61182'', ''b'', ''2''] empty_memory (?c, sample_disk) = Some (Inl Undefined)"
    using r [of True] by simp
  have "\<not> (False \<and> ''hello'' \<noteq> [])" by simp
  from r [of False, unfolded if_not_P [OF this]] show ?thesis
  proof (elim exE conjE, goal_cases)
    case (1 c' d' m')
    have "conn_pending \<lparr>arrives = [RData (conn_sent c')], leaves = ([], []), clock = []\<rparr> =
        drop (length (conn_sent ?c)) (conn_sent c') \<and> d_works blank_disk \<and> finite_memory empty_memory"
      using c finite_empty_memory by simp
    from 1(6) [rule_format, OF this] c(4) 1(2,3) shipped show ?case by auto
  qed
qed

end
