(* ===== verification/Spec2Isabelle.thy ===== *)
theory Spec2Isabelle
  imports Md5_Correct Hms_Msg_Print Hms_Parser_Correct Hashtab_Correct Hashtab_Memory_Correct Hms_List_Correct
    Msg_Memory_Correct Parser_Memory_Correct Hermes_Correct Hermes_Memory_Correct Tpool_Correct Manager_Correct
    Copy_Correct Copy_Memory_Correct
begin

text \<open>
  A verification development for hermes_c, a C library for the Hermes protocol: messages with a verb line,
  named headers and an optional body, exchanged over TCP between a threaded server and its clients.

  \<^bold>\<open>The program and its model.\<close> The sources are under src/src/; a definition has the name of the function it
  models, without leading underscores.

  \<^item> \<^bold>\<open>Assertions\<close> (hms/hms_util.c): Hms_Util. A failing check ends the process with \<open>exit (-1)\<close>; in the
    model every function that can stop is a function into \<open>'a res\<close> (Prelude), with the fault as its value.
    CString holds the C library's string functions the program calls.
  \<^item> \<^bold>\<open>MD5\<close> (md5/md5.c, include/md5.h, include/md5_loc.h): Md5 has the state \<open>md5_t\<close> with its 128 byte buffer
    and the unrolled block function on 32-bit words. Md5_Spec is RFC 1321, written from the RFC's tables and
    not from the code. Md5_Correct: the block function and the streaming interface compute the RFC's digest.
  \<^item> \<^bold>\<open>Messages\<close> (hms/hms_msg.c, include/hermes.h): Hms_Msg has the record \<open>hms_msg\<close> and its operations, on lists
    of headers; its two counters are \<open>int\<close>, and to count past \<open>INT_MAX\<close> is undefined (\<open>int_add\<close>).
    Hms_Msg_Correct: the invariant \<open>msg_wf\<close>, every operation preserves it, the named headers refine a map, for
    as many headers as the counters can count. Hms_Msg_Print: the printed form.
  \<^item> \<^bold>\<open>Header lists\<close> (include/hms_list.h): Hms_List has the same lists as doubly linked rings in a memory of
    links, on any memory that has list heads. Hms_List_Correct: a ring refines a list, and what a loop over a
    ring does, also one that unlinks while it walks.
  \<^item> \<^bold>\<open>Messages in memory\<close> (hms/hms_msg.c): Msg_Memory has the operations of Hms_Msg once more with every pointer, allocation and \<open>free\<close>, the header lists as rings of Hms_List. Msg_Layout: a
    message with the addresses of its parts, the memory that holds it and the rest of the memory. Msg_Steps and
    Msg_Ops: what the loops and operations that remove do; Msg_New and Msg_Content: those that allocate.
    Msg_Memory_Correct: all operations do what they do on values and leave the rest of the memory alone; the
    life of a message leaves nothing behind; what goes wrong for a string of the message itself and after a
    failed \<open>strdup\<close>. Msg_Arrays: a message with arrays of its user beside it, and the operations as steps of
    a proof about a caller. Msg_Print_Memory: the printing, into an array.
  \<^item> \<^bold>\<open>Parser\<close> (hms/hms_parser.c): Hms_Parser reads a message from a socket. Hms_Parser_Scan reduces any
    segmentation of the input to one list of bytes and finds the end of the header. Hms_Parser_Correct: what
    is printed is read back; what happens on any other input. Parser_Buffer has the string functions that cut
    the header in its buffer, Parser_Memory the whole parser on memory. Parser_Memory_Header and
    Parser_Memory_Correct: it returns the message the parser on values returns and frees everything else.
  \<^item> \<^bold>\<open>Hash table\<close> (hashtab/hashtable.c, include/hashtable.h): Hashtab, with chains as lists. Hashtab_Correct:
    the table refines a partial function; iteration and statistics. Hashtab_Memory has the operations once more
    with their pointers, \<open>malloc\<close> and \<open>free\<close>, and the destruction and printing of a table. Hashtab_Chains: chains
    as paths in memory. Hashtab_Memory_Correct: the memory holds the table of Hashtab, and what is freed. The
    table is not used by the rest of the library.
  \<^item> \<^bold>\<open>Connectors, endpoints, the server's handler\<close> (hms/hermes.c): Hermes. Hermes_Send: short sends, what is sent
    for a message. Hermes_Correct: a message from a client to a server, the default server on a connection,
    termination of the handler for every application. \<open>send\<close> on a broken connection raises SIGPIPE: in a process
    that does not ignore the signal it ends the process (the fault \<open>Killed\<close>). \<open>hermes_init\<close> ignores it, so the
    server's side is stated for \<open>conn_env\<close>, where it is ignored; the connector's also for \<open>bare_env\<close>, where it
    has its default action. Hermes_Memory has sending, receiving, the default
    functions and the loop of a connection on memory. Hermes_Memory_Correct: they do what they do on values, and
    the loop leaves the memory as it was, for every application whose functions do (\<open>ops_in_memory\<close>).

  \<^item> \<^bold>\<open>Thread pool\<close> (tpool/tpool.c, include/tpool.h): Tpool has the pool with the memory its work structures
    live in, and one definition for each stretch of code that runs with the lock held. Tpool_System is a step
    relation over all threads that use a pool: workers, callers of \<open>tpool_add_work\<close>, callers of
    \<open>tpool_destroy\<close>, the waits on its three condition variables. Tpool_Invariant: an invariant that every step
    preserves. Tpool_Correct: the queue is first-in first-out, no wake-up is lost, when a step is undefined, what
    a teardown waits for, and that it can always be completed. Tpool_Queue: the pool as a job queue.
  \<^item> \<^bold>\<open>Manager\<close> (hms/hermes.c: \<open>hermes_init\<close>, \<open>hermes_shutdown\<close>, \<open>_hms_listen\<close>): Manager puts the thread that
    starts and stops the server and the listener on top of the thread pool, as a step relation again; the jobs
    of the pool are the listener and the endpoints. Manager_Invariant: its invariant. Manager_Correct: every
    step is a step of the pool or leaves it alone, so that what holds of the pool holds of the server;
    connections are handed over in order, and those that are lost are named (the queue of a pool that is freed
    without waiting for it, a connection accepted under the shutdown flag, one that a full pool refuses); all ways
    in which the server can stop.
  \<^item> \<^bold>\<open>Copy application\<close> (tests/copy_client.c, tests/copy_server.c): Copy_App has the client, which sends a file
    in chunks, and the three functions of the server, which writes them. Copy_Msg: the COPY message.
    Copy_Client and Copy_Server: each side on any host. Copy_Correct: together they copy the file, when the client
    is compiled without its debugging output, and what the server has then when it had a file of that name; with
    the output, which the source turns on, the client is undefined behind the first chunk; what the handler does
    with any message; what the client answers, SIGPIPE included. Copy_Memory has both sides on memory;
    Copy_Server_Memory, Copy_Client_Memory and Copy_Memory_Correct: the same on memory, and they free all they
    allocate.

  \<^bold>\<open>Interfaces.\<close> Socket states what the code relies on of the operating system as the locales \<open>socket\<close>
  (\<open>read\<close>), \<open>sink\<close> (\<open>send\<close>) and their extension \<open>connection\<close>; the interpretations are scripted sockets, on
  which the properties are stated: lists of segments that arrive and of the amounts a send takes, with ends
  and errors anywhere. Keyed_Map is the contract of a map (\<open>keyed_map\<close>, with the extensions that replace or
  keep an old value), which the named headers and the hash table provide. Sequence is the contract of a list
  of entries, which the rings provide. \<open>key_order\<close> is what the hash table asks of a comparison, provided by
  \<open>strcasecmp\<close>. Files has the contract of the calls on files (\<open>files\<close>), provided by a scripted disk, and Host
  puts a connection and files together (\<open>host\<close>). Job_Queue is what the manager relies on of the thread pool (\<open>job_queue\<close>), extended to a client
  with a queue inside (\<open>job_client\<close>); Tpool_Queue and Manager_Correct interpret them. \<open>server\<close> is what the handler's
  loop asks of an application, provided by the default functions. \<open>heap_allocator\<close> is what the messages in memory
  ask of \<open>calloc\<close>, \<open>malloc\<close> and \<open>strdup\<close>: unused addresses, on a memory with finitely many objects. The models
  on values and on memory are related by \<open>run_rel\<close> (Run): whenever the one returns or stops, so does the other.

  \<^bold>\<open>Bounds and fuel.\<close> Loops are total functions with a measure where the code bounds them (the header loop by
  the buffer, the body loop by the length, the tokenizers by the string). The loops over links and chains, the
  loops of \<open>__send_all\<close> and \<open>__recv_all\<close> and the handler's loop are partial functions, where \<open>None\<close> is a call that
  does not return; that they return is proved (\<open>hms_list_refines_list\<close>, \<open>msg_memory_refines\<close>,
  \<open>parse_in_memory\<close>, \<open>hashtab_memory_refines\<close>, \<open>send_all_exact\<close>, \<open>server_returns\<close>, \<open>server_in_memory\<close>,
  \<open>file_copied_in_memory\<close>).

  \<^bold>\<open>Assumptions.\<close> A little endian machine with 32-bit \<open>int\<close> and 64-bit \<open>long\<close>; the C locale; an allocation
  of a nonnegative size succeeds, and the low 32 bits of its address are not all zero (the assertions convert
  pointers to \<open>int\<close>); \<open>read\<close> and \<open>send\<close> on a blocking socket behave as POSIX says, SIGPIPE included. \<open>NDEBUG\<close> is not defined,
  as in the Makefiles. \<open>HERMES_ENABLE_CHECKSUMS\<close> is a
  parameter: the theorems cover both builds; so is \<open>__DEBUG_PRINT_MSG_HEADER__\<close> of the copy client.

  \<^bold>\<open>Not modelled.\<close> A second call of \<open>hermes_shutdown\<close> and a negative number of threads; failures of
  the pthread library, which exit; the other programs under tests/, which print what the library answers; the
  \<open>main\<close> of the copy server, which starts and stops a manager; err.h, which only prints. Accesses to freed
  memory are tracked for messages, links, the buffers of the parser, of sending and of the copy application, the
  hash table, the thread pool and the endpoint of a connection; the connector is not an object of that memory,
  and the C library's string functions are on values, but for those that cut a string in place.
  A handler of a connection and the threads of the pool are not put together: in the server a handler is a
  job that returns at some time.
\<close>

end
